(* ===== verification/Go_Prelude.thy ===== *)
theory Go_Prelude
  imports Main "HOL-Library.Word" "HOL-Library.Multiset"
begin

text \<open>
  The part of the Go language and of its \<open>time\<close> package that every component of netacc uses:
  machine integers, byte slices with their bounds checks, run-time panics as values,
  \<open>time.Time\<close> and \<open>time.Duration\<close>. The collections declared here carry the component proofs.

  \<^item> \<open>uint64\<close> is \<^typ>\<open>64 word\<close> and \<open>byte\<close> is \<^typ>\<open>8 word\<close>: arithmetic wraps.
  \<^item> \<open>int64\<close>/\<open>time.Duration\<close> is \<^typ>\<open>int\<close> with the wrap-around written out (\<open>wrap64\<close>).
  \<^item> \<open>int\<close> is \<^typ>\<open>int\<close> without wrap-around where the value counts bytes that are in memory,
    and \<open>wrap64\<close> where it is computed from data of the peer.
  \<^item> a run-time panic is the left summand of \<open>'a run\<close>.
\<close>

unbundle bit_operations_syntax

named_theorems go_defs \<open>unfolding rules of the small Go primitives\<close>
named_theorems inv_intros \<open>preservation of component invariants\<close>

section \<open>Machine integers\<close>

type_synonym u64 = "64 word"
type_synonym byte = "8 word"
type_synonym bytes = "byte list"

text \<open>The value an \<open>int64\<close> variable holds after a computation with mathematical result \<open>x\<close>.\<close>

definition wrap64 :: "int \<Rightarrow> int" where
  "wrap64 x = (x + 2 ^ 63) mod 2 ^ 64 - 2 ^ 63"

definition int64_range :: "int \<Rightarrow> bool" where
  "int64_range x \<longleftrightarrow> - (2 ^ 63) \<le> x \<and> x < 2 ^ 63"

lemma wrap64_id [simp]: "int64_range x \<Longrightarrow> wrap64 x = x"
  by (simp add: wrap64_def int64_range_def)

lemma wrap64_range: "int64_range (wrap64 x)"
proof -
  have "0 \<le> (x + 2 ^ 63) mod 2 ^ 64" "(x + 2 ^ 63) mod 2 ^ 64 < (2 ^ 64 :: int)"
    by simp_all
  then show ?thesis by (simp add: wrap64_def int64_range_def)
qed

text \<open>Go's integer division truncates towards zero.\<close>

definition quot :: "int \<Rightarrow> int \<Rightarrow> int" where
  "quot a b = sgn a * sgn b * (\<bar>a\<bar> div \<bar>b\<bar>)"

lemma quot_nonneg: "0 \<le> a \<Longrightarrow> 0 < b \<Longrightarrow> quot a b = a div b"
  by (cases "a = 0") (simp_all add: quot_def)

text \<open>Conversions: \<open>uint64(n)\<close> of a length, and \<open>int64(u)\<close> of an unsigned value.\<close>

definition u64_of_len :: "nat \<Rightarrow> u64" where
  "u64_of_len n = of_nat n"

definition i64_of_u64 :: "u64 \<Rightarrow> int" where
  "i64_of_u64 w = sint w"

lemma unat_u64_of_len: "n < 2 ^ 64 \<Longrightarrow> unat (u64_of_len n) = n"
  by (simp add: u64_of_len_def unat_of_nat)

lemma unat_add_no_wrap:
  fixes a b :: u64
  shows "unat a + unat b < 2 ^ 64 \<Longrightarrow> unat (a + b) = unat a + unat b"
  by (simp add: unat_word_ariths)

lemma unat_add_len:
  fixes a :: u64
  shows "unat a + n < 2 ^ 64 \<Longrightarrow> unat (a + u64_of_len n) = unat a + n"
  by (simp add: unat_add_no_wrap unat_u64_of_len)

lemma unat_diff_le:
  fixes a b :: u64
  shows "b \<le> a \<Longrightarrow> unat (a - b) = unat a - unat b"
  by (simp add: unat_sub_if_size word_le_nat_alt)

section \<open>Panics and slices\<close>

datatype go_panic = Slice_Bounds | Nil_Deref | Index_Range | Chan_Size

type_synonym 'a run = "go_panic + 'a"

definition no_panic :: "'a run \<Rightarrow> bool" where
  "no_panic r \<longleftrightarrow> (case r of Inl _ \<Rightarrow> False | Inr _ \<Rightarrow> True)"

lemma no_panic_simps [simp]: "no_panic (Inr x)" "\<not> no_panic (Inl e)"
  by (simp_all add: no_panic_def)

text \<open>\<open>xs[t:]\<close> with an unsigned index panics when \<open>t > len(xs)\<close>.\<close>

definition slice_from :: "'a list \<Rightarrow> u64 \<Rightarrow> 'a list run" where
  "slice_from xs t = (if unat t \<le> length xs then Inr (drop (unat t) xs) else Inl Slice_Bounds)"

lemma slice_from_Inr: "unat t \<le> length xs \<Longrightarrow> slice_from xs t = Inr (drop (unat t) xs)"
  by (simp add: slice_from_def)

section \<open>Time\<close>

text \<open>
  \<open>time.Time\<close> is either the zero value (\<open>IsZero\<close>) or an instant in nanoseconds; \<open>Sub\<close> saturates
  at the bounds of \<open>Duration\<close>. The zero value lies two millennia before every instant the code
  reads from the clock, so its distance to one saturates.
\<close>

datatype gotime = Zero_Time | At int

definition max_duration :: int where "max_duration = 2 ^ 63 - 1"
definition min_duration :: int where "min_duration = - (2 ^ 63)"

definition is_zero_time :: "gotime \<Rightarrow> bool" where
  "is_zero_time t \<longleftrightarrow> t = Zero_Time"

fun time_sub :: "gotime \<Rightarrow> gotime \<Rightarrow> int" where
  "time_sub Zero_Time Zero_Time = 0"
| "time_sub (At _) Zero_Time = max_duration"
| "time_sub Zero_Time (At _) = min_duration"
| "time_sub (At a) (At b) = max min_duration (min max_duration (a - b))"

fun time_add :: "gotime \<Rightarrow> int \<Rightarrow> gotime" where
  "time_add (At a) d = At (a + d)"
| "time_add Zero_Time d = Zero_Time"

fun time_before :: "gotime \<Rightarrow> gotime \<Rightarrow> bool" where
  "time_before Zero_Time (At _) = True"
| "time_before (At a) (At b) = (a < b)"
| "time_before _ Zero_Time = False"

definition microsecond :: int where "microsecond = 1000"
definition millisecond :: int where "millisecond = 1000000"
definition second :: int where "second = 1000000000"

lemma time_sub_self [simp]: "time_sub t t = 0"
  by (cases t) (simp_all add: max_duration_def min_duration_def)

section \<open>Lists\<close>

text \<open>Total length of a list of chunks, the measure of every byte account in the code.\<close>

definition total_len :: "('b \<Rightarrow> 'a list) \<Rightarrow> 'b list \<Rightarrow> nat" where
  "total_len f xs = sum_list (map (\<lambda>x. length (f x)) xs)"

lemma total_len_simps [simp]:
  "total_len f [] = 0"
  "total_len f (x # xs) = length (f x) + total_len f xs"
  "total_len f (xs @ ys) = total_len f xs + total_len f ys"
  by (simp_all add: total_len_def)

lemma length_concat_map: "length (concat (map f xs)) = total_len f xs"
  by (simp add: total_len_def length_concat o_def)

lemma total_len_mset:
  "mset xs = mset ys \<Longrightarrow> total_len f xs = total_len f ys"
proof -
  assume "mset xs = mset ys"
  then have "sum_mset (mset (map (\<lambda>x. length (f x)) xs)) = sum_mset (mset (map (\<lambda>x. length (f x)) ys))"
    by simp
  then show ?thesis by (simp only: total_len_def sum_mset_sum_list)
qed

lemma split_last_nth: "length ys = Suc n \<Longrightarrow> ys = take n ys @ [ys ! n]"
  by (metis lessI order_refl take_Suc_conv_app_nth take_all)

text \<open>The part \<open>[a, b)\<close> of an infinite byte stream.\<close>

definition window_of :: "(nat \<Rightarrow> 'a) \<Rightarrow> nat \<Rightarrow> nat \<Rightarrow> 'a list" where
  "window_of c a b = map c [a..<b]"

lemma window_of_empty [simp]: "window_of c a a = []"
  by (simp add: window_of_def)

lemma length_window_of [simp]: "length (window_of c a b) = b - a"
  by (simp add: window_of_def)

lemma window_of_append: "a \<le> b \<Longrightarrow> b \<le> d \<Longrightarrow> window_of c a b @ window_of c b d = window_of c a d"
  by (simp add: window_of_def flip: map_append)
    (metis le_add_diff_inverse upt_add_eq_append)

lemma drop_window_of: "drop n (window_of c a b) = window_of c (a + n) b"
  by (simp add: window_of_def drop_map)

lemma take_window_of: "a + n \<le> b \<Longrightarrow> take n (window_of c a b) = window_of c a (a + n)"
  by (simp add: window_of_def take_map take_upt)

end
