(* ===== verification/Go_Heap.thy ===== *)
theory Go_Heap
  imports Go_Prelude
begin

text \<open>
  The binary heap of Go's \<open>container/heap\<close>, which \<open>reorder.go\<close> drives through \<open>heap.Push\<close> and
  \<open>heap.Pop\<close>: the sift loops \<open>up\<close> and \<open>down\<close> over the backing slice, as the standard library
  writes them, the interface \<open>min_queue\<close> a client relies on, and the proof that the slice keeps
  the heap order and its multiset of elements.
\<close>

section \<open>The library's loops\<close>

definition swap_at :: "'a list \<Rightarrow> nat \<Rightarrow> nat \<Rightarrow> 'a list" where
  "swap_at xs i j = xs[i := xs ! j, j := xs ! i]"

definition parent :: "nat \<Rightarrow> nat" where
  "parent j = (j - 1) div 2"

lemma parent_less: "0 < j \<Longrightarrow> parent j < j"
  by (simp add: parent_def)

function heap_up :: "('a \<Rightarrow> 'a \<Rightarrow> bool) \<Rightarrow> 'a list \<Rightarrow> nat \<Rightarrow> 'a list" where
  "heap_up lt xs j =
     (let i = parent j in
      if i = j \<or> \<not> lt (xs ! j) (xs ! i) then xs
      else heap_up lt (swap_at xs i j) i)"
  by pat_completeness auto
termination
  by (relation "measure (\<lambda>(lt, xs, j). j)") (auto simp: parent_def)

function heap_down :: "('a \<Rightarrow> 'a \<Rightarrow> bool) \<Rightarrow> 'a list \<Rightarrow> nat \<Rightarrow> nat \<Rightarrow> 'a list" where
  "heap_down lt xs i n =
     (let j1 = 2 * i + 1 in
      if n \<le> j1 then xs
      else let j = (if j1 + 1 < n \<and> lt (xs ! (j1 + 1)) (xs ! j1) then j1 + 1 else j1) in
           if \<not> lt (xs ! j) (xs ! i) then xs
           else heap_down lt (swap_at xs i j) j n)"
  by pat_completeness auto
termination
  by (relation "measure (\<lambda>(lt, xs, i, n). n - i)") (auto split: if_splits)

declare heap_up.simps [simp del] heap_down.simps [simp del]

definition heap_push :: "('a \<Rightarrow> 'a \<Rightarrow> bool) \<Rightarrow> 'a list \<Rightarrow> 'a \<Rightarrow> 'a list" where
  "heap_push lt xs x = heap_up lt (xs @ [x]) (length xs)"

text \<open>\<open>heap.Pop\<close>, called on a non-empty heap only: swap the root to the end, sift down, cut.\<close>

definition heap_pop :: "('a \<Rightarrow> 'a \<Rightarrow> bool) \<Rightarrow> 'a list \<Rightarrow> 'a \<times> 'a list" where
  "heap_pop lt xs =
     (let n = length xs - 1; ys = heap_down lt (swap_at xs 0 n) 0 n in (ys ! n, take n ys))"

section \<open>Elements and positions\<close>

lemma length_swap_at [simp]: "length (swap_at xs i j) = length xs"
  by (simp add: swap_at_def)

lemma nth_swap_at:
  "i < length xs \<Longrightarrow> j < length xs \<Longrightarrow>
   swap_at xs i j ! m = (if m = j then xs ! i else if m = i then xs ! j else xs ! m)"
  by (simp add: swap_at_def nth_list_update)

lemma mset_swap_at:
  "i < length xs \<Longrightarrow> j < length xs \<Longrightarrow> mset (swap_at xs i j) = mset xs"
  by (simp add: swap_at_def mset_swap)

lemma length_heap_up [simp]: "length (heap_up lt xs j) = length xs"
proof (induction lt xs j rule: heap_up.induct)
  case (1 lt xs j)
  then show ?case
    by (subst heap_up.simps) (simp add: Let_def)
qed

lemma length_heap_down [simp]: "length (heap_down lt xs i n) = length xs"
proof (induction lt xs i n rule: heap_down.induct)
  case (1 lt xs i n)
  then show ?case
    by (subst heap_down.simps) (simp add: Let_def)
qed

lemma mset_heap_up: "j < length xs \<Longrightarrow> mset (heap_up lt xs j) = mset xs"
proof (induction lt xs j rule: heap_up.induct)
  case (1 lt xs j)
  have "parent j \<le> j" by (simp add: parent_def)
  with 1 show ?case
    by (subst heap_up.simps) (simp add: Let_def mset_swap_at)
qed

lemma mset_heap_down: "i < n \<Longrightarrow> n \<le> length xs \<Longrightarrow> mset (heap_down lt xs i n) = mset xs"
proof (induction lt xs i n rule: heap_down.induct)
  case (1 lt xs i n)
  then show ?case
    by (subst heap_down.simps) (simp add: Let_def mset_swap_at)
qed

lemma nth_heap_down_beyond:
  "i < n \<Longrightarrow> n \<le> m \<Longrightarrow> m < length xs \<Longrightarrow> heap_down lt xs i n ! m = xs ! m"
proof (induction lt xs i n rule: heap_down.induct)
  case (1 lt xs i n)
  then show ?case
    by (subst heap_down.simps) (simp add: Let_def nth_swap_at)
qed

section \<open>Heap order\<close>

text \<open>The first \<open>n\<close> cells are heap ordered by \<open>key\<close>.\<close>

definition heap_ordered :: "('a \<Rightarrow> 'k::linorder) \<Rightarrow> nat \<Rightarrow> 'a list \<Rightarrow> bool" where
  "heap_ordered key n xs \<longleftrightarrow> (\<forall>m. 0 < m \<longrightarrow> m < n \<longrightarrow> key (xs ! parent m) \<le> key (xs ! m))"

text \<open>Ordered but for the edge above \<open>j\<close> (\<open>up\<close>), or the edges below \<open>i\<close> (\<open>down\<close>).\<close>

definition ordered_but_above :: "('a \<Rightarrow> 'k::linorder) \<Rightarrow> nat \<Rightarrow> 'a list \<Rightarrow> bool" where
  "ordered_but_above key j xs \<longleftrightarrow>
     (\<forall>m. 0 < m \<longrightarrow> m < length xs \<longrightarrow> m \<noteq> j \<longrightarrow> key (xs ! parent m) \<le> key (xs ! m)) \<and>
     (\<forall>m. 0 < j \<longrightarrow> 0 < m \<longrightarrow> m < length xs \<longrightarrow> parent m = j \<longrightarrow> key (xs ! parent j) \<le> key (xs ! m))"

definition ordered_but_below :: "('a \<Rightarrow> 'k::linorder) \<Rightarrow> nat \<Rightarrow> nat \<Rightarrow> 'a list \<Rightarrow> bool" where
  "ordered_but_below key i n xs \<longleftrightarrow>
     (\<forall>m. 0 < m \<longrightarrow> m < n \<longrightarrow> parent m \<noteq> i \<longrightarrow> key (xs ! parent m) \<le> key (xs ! m)) \<and>
     (\<forall>m. 0 < i \<longrightarrow> 0 < m \<longrightarrow> m < n \<longrightarrow> parent m = i \<longrightarrow> key (xs ! parent i) \<le> key (xs ! m))"

lemma ordered_but_above_swap:
  assumes but: "ordered_but_above key j xs" and j: "0 < j" "j < length xs"
    and less: "key (xs ! j) < key (xs ! parent j)"
  shows "ordered_but_above key (parent j) (swap_at xs (parent j) j)"
proof -
  let ?i = "parent j" and ?ys = "swap_at xs (parent j) j"
  have i: "?i < j" using j by (simp add: parent_less)
  have nth: "?ys ! m = (if m = j then xs ! ?i else if m = ?i then xs ! j else xs ! m)" for m
    using i j by (simp add: nth_swap_at)
  have ord: "key (xs ! parent m) \<le> key (xs ! m)" if "0 < m" "m < length xs" "m \<noteq> j" for m
    using but that by (simp add: ordered_but_above_def)
  have kids: "key (xs ! ?i) \<le> key (xs ! m)" if "0 < m" "m < length xs" "parent m = j" for m
    using but that j by (simp add: ordered_but_above_def)
  have "key (?ys ! parent m) \<le> key (?ys ! m)" if m: "0 < m" "m < length xs" "m \<noteq> ?i" for m
  proof -
    have pm: "parent m < m" using m by (simp add: parent_less)
    show ?thesis
      using ord[OF m(1,2)] kids[OF m(1,2)] less pm m i by (fastforce simp: nth)
  qed
  moreover have "key (?ys ! parent ?i) \<le> key (?ys ! m)"
    if m: "0 < ?i" "0 < m" "m < length xs" "parent m = ?i" for m
  proof -
    have p: "parent ?i < ?i" using m by (simp add: parent_less)
    have up: "key (xs ! parent ?i) \<le> key (xs ! ?i)"
      using ord[of ?i] m i j by simp
    show ?thesis
      using ord[OF m(2,3)] up p m i by (fastforce simp: nth)
  qed
  ultimately show ?thesis by (simp add: ordered_but_above_def)
qed

lemma heap_up_ordered:
  "j < length xs \<Longrightarrow> ordered_but_above key j xs \<Longrightarrow>
   heap_ordered key (length xs) (heap_up (\<lambda>a b. key a < key b) xs j)"
proof (induction "\<lambda>a b. key a < key b" xs j rule: heap_up.induct)
  case (1 xs j)
  let ?i = "parent j"
  consider (root) "?i = j" | (stop) "?i \<noteq> j" "\<not> key (xs ! j) < key (xs ! ?i)"
    | (go) "?i \<noteq> j" "key (xs ! j) < key (xs ! ?i)" by blast
  then show ?case
  proof cases
    case root
    then have "j = 0" using parent_less[of j] by (cases j) auto
    with 1 root show ?thesis
      by (subst heap_up.simps) (simp add: Let_def heap_ordered_def ordered_but_above_def)
  next
    case stop
    with 1 show ?thesis
      by (subst heap_up.simps)
        (auto simp: Let_def heap_ordered_def ordered_but_above_def not_less)
  next
    case go
    have j: "0 < j" using go by (cases j) (simp_all add: parent_def)
    have i: "?i < j" using j by (rule parent_less)
    have "heap_ordered key (length (swap_at xs ?i j))
        (heap_up (\<lambda>a b. key a < key b) (swap_at xs ?i j) ?i)"
      by (rule 1(1)[OF refl]) (use go i j 1 in \<open>simp_all add: ordered_but_above_swap\<close>)
    with go show ?thesis by (subst heap_up.simps) (simp add: Let_def)
  qed
qed

lemma heap_push_ordered:
  assumes "heap_ordered key (length xs) xs"
  shows "heap_ordered key (Suc (length xs)) (heap_push (\<lambda>a b. key a < key b) xs x)"
proof -
  have "ordered_but_above key (length xs) (xs @ [x])"
    using assms parent_less
    by (auto simp: ordered_but_above_def heap_ordered_def nth_append parent_def)
  then show ?thesis
    using heap_up_ordered[of "length xs" "xs @ [x]" key] by (simp add: heap_push_def)
qed

lemma parent_children: "0 < m \<Longrightarrow> parent m = i \<Longrightarrow> m = 2 * i + 1 \<or> m = 2 * i + 2"
  by (auto simp: parent_def)

lemma ordered_but_below_swap:
  assumes but: "ordered_but_below key i n xs" and n: "n \<le> length xs"
    and j: "j < n" "0 < j" "parent j = i" and less: "key (xs ! j) < key (xs ! i)"
    and small: "\<And>m. 0 < m \<Longrightarrow> m < n \<Longrightarrow> parent m = i \<Longrightarrow> key (xs ! j) \<le> key (xs ! m)"
  shows "ordered_but_below key j n (swap_at xs i j)"
proof -
  let ?ys = "swap_at xs i j"
  have i: "i < j" using j parent_less by blast
  have nth: "?ys ! m = (if m = j then xs ! i else if m = i then xs ! j else xs ! m)" for m
    using i j n by (simp add: nth_swap_at)
  have ord: "key (xs ! parent m) \<le> key (xs ! m)" if "0 < m" "m < n" "parent m \<noteq> i" for m
    using but that by (simp add: ordered_but_below_def)
  have up: "key (xs ! parent i) \<le> key (xs ! m)" if "0 < i" "0 < m" "m < n" "parent m = i" for m
    using but that by (simp add: ordered_but_below_def)
  have "key (?ys ! parent m) \<le> key (?ys ! m)" if m: "0 < m" "m < n" "parent m \<noteq> j" for m
  proof -
    have pm: "parent m < m" using m by (simp add: parent_less)
    consider "parent m = i" | "m = i" "parent m \<noteq> i" | "m \<noteq> i" "parent m \<noteq> i" by blast
    then show ?thesis
    proof cases
      case 1
      then show ?thesis using small[of m] less m pm by (auto simp: nth)
    next
      case 2
      then show ?thesis using up[of j] j m i by (simp add: nth)
    next
      case 3
      then show ?thesis using ord[of m] m j by (simp add: nth)
    qed
  qed
  moreover have "key (?ys ! parent j) \<le> key (?ys ! m)" if m: "0 < m" "m < n" "parent m = j" for m
  proof -
    have "j < m" using m parent_less[of m] by simp
    then show ?thesis using ord[of m] m j i by (simp add: nth)
  qed
  ultimately show ?thesis by (simp add: ordered_but_below_def)
qed

lemma heap_down_ordered:
  "n \<le> length xs \<Longrightarrow> ordered_but_below key i n xs \<Longrightarrow>
   heap_ordered key n (heap_down (\<lambda>a b. key a < key b) xs i n)"
proof (induction "\<lambda>a b. key a < key b" xs i n rule: heap_down.induct)
  case (1 xs i n)
  let ?l = "2 * i + 1"
  let ?j = "if ?l + 1 < n \<and> key (xs ! (?l + 1)) < key (xs ! ?l) then ?l + 1 else ?l"
  consider (leaf) "n \<le> ?l" | (stop) "?l < n" "\<not> key (xs ! ?j) < key (xs ! i)"
    | (go) "?l < n" "key (xs ! ?j) < key (xs ! i)" by linarith
  then show ?case
  proof cases
    case leaf
    have "parent m \<noteq> i" if "0 < m" "m < n" for m
      using parent_children[OF that(1), of i] leaf that by auto
    with 1 leaf show ?thesis
      by (subst heap_down.simps) (simp add: Let_def heap_ordered_def ordered_but_below_def)
  next
    case stop
    have "key (xs ! i) \<le> key (xs ! m)" if "0 < m" "m < n" "parent m = i" for m
      using parent_children[OF that(1,3)] stop that by (auto split: if_splits)
    moreover have "key (xs ! parent m) \<le> key (xs ! m)" if "0 < m" "m < n" "parent m \<noteq> i" for m
      using 1(3) that by (simp add: ordered_but_below_def)
    ultimately have "heap_ordered key n xs"
      by (auto simp: heap_ordered_def)
    moreover have "heap_down (\<lambda>a b. key a < key b) xs i n = xs"
      using stop by (subst heap_down.simps) (auto simp: Let_def split: if_splits)
    ultimately show ?thesis by simp
  next
    case go
    have jn: "?j < n" and pj: "parent ?j = i" using go by (simp_all add: parent_def)
    have small: "key (xs ! ?j) \<le> key (xs ! m)" if "0 < m" "m < n" "parent m = i" for m
      using parent_children[OF that(1,3)] that by (auto split: if_splits)
    have "ordered_but_below key ?j n (swap_at xs i ?j)"
      by (rule ordered_but_below_swap[OF 1(3,2) jn _ pj go(2) small]) (simp_all split: if_split)
    then have "heap_ordered key n (heap_down (\<lambda>a b. key a < key b) (swap_at xs i ?j) ?j n)"
      by (intro 1(1)[OF refl _ refl]) (use go 1 in auto)
    with go show ?thesis
      by (subst heap_down.simps) (auto simp: Let_def split: if_splits)
  qed
qed

lemma heap_root_least:
  assumes "heap_ordered key n xs" "m < n"
  shows "key (xs ! 0) \<le> key (xs ! m)"
  using assms(2)
proof (induction m rule: less_induct)
  case (less m)
  show ?case
  proof (cases "m = 0")
    case False
    then have "key (xs ! 0) \<le> key (xs ! parent m)"
      using less parent_less[of m] by (meson less_trans not_gr_zero)
    also have "\<dots> \<le> key (xs ! m)"
      using assms(1) False less.prems by (simp add: heap_ordered_def)
    finally show ?thesis .
  qed simp
qed

lemma heap_ordered_take:
  assumes "heap_ordered key n xs"
  shows "heap_ordered key n (take n xs)"
proof -
  have "key (take n xs ! parent m) \<le> key (take n xs ! m)" if m: "0 < m" "m < n" for m
  proof -
    have "parent m < n" using m parent_less[of m] by simp
    then show ?thesis using assms m by (simp add: heap_ordered_def)
  qed
  then show ?thesis by (simp add: heap_ordered_def)
qed

lemma heap_pop_facts:
  assumes ne: "xs \<noteq> []" and ord: "heap_ordered key (length xs) xs"
    and pop: "heap_pop (\<lambda>a b. key a < key b) xs = (x, rest)"
  shows "x = xs ! 0" and "mset xs = add_mset x (mset rest)"
    and "heap_ordered key (length rest) rest" and "length rest = length xs - 1"
proof -
  let ?n = "length xs - 1"
  let ?ys = "heap_down (\<lambda>a b. key a < key b) (swap_at xs 0 ?n) 0 ?n"
  have n: "?n < length xs" using ne by simp
  have x: "x = ?ys ! ?n" and rest: "rest = take ?n ?ys"
    using pop by (simp_all add: heap_pop_def Let_def)
  have last: "?ys ! ?n = xs ! 0"
  proof (cases "?n = 0")
    case True
    then show ?thesis using n by (subst heap_down.simps) (simp add: Let_def swap_at_def)
  next
    case False
    then show ?thesis using n ne by (simp add: nth_heap_down_beyond nth_swap_at)
  qed
  show "x = xs ! 0" using x last by simp
  have mset_ys: "mset ?ys = mset xs"
  proof (cases "?n = 0")
    case True
    then show ?thesis using n by (subst heap_down.simps) (simp add: Let_def mset_swap_at)
  next
    case False
    then show ?thesis using n ne by (simp add: mset_heap_down mset_swap_at)
  qed
  have "?ys = take ?n ?ys @ [?ys ! ?n]"
    by (rule split_last_nth) (use n in simp)
  then have "mset ?ys = mset (take ?n ?ys @ [?ys ! ?n])" by (rule arg_cong)
  then have "mset ?ys = add_mset x (mset rest)"
    using x rest by simp
  then show "mset xs = add_mset x (mset rest)" using mset_ys by simp
  show len: "length rest = length xs - 1" using rest n by simp
  have "key (swap_at xs 0 ?n ! parent m) \<le> key (swap_at xs 0 ?n ! m)"
    if m: "0 < m" "m < ?n" "parent m \<noteq> 0" for m
  proof -
    have "parent m < m" and "0 < parent m" using m by (simp_all add: parent_less)
    then have "swap_at xs 0 ?n ! parent m = xs ! parent m" "swap_at xs 0 ?n ! m = xs ! m"
      using m n ne by (simp_all add: nth_swap_at)
    then show ?thesis using ord m n by (simp add: heap_ordered_def)
  qed
  then have "ordered_but_below key 0 ?n (swap_at xs 0 ?n)"
    by (simp add: ordered_but_below_def)
  then have "heap_ordered key ?n ?ys"
    by (rule heap_down_ordered [rotated]) simp
  then show "heap_ordered key (length rest) rest"
    unfolding len unfolding rest by (rule heap_ordered_take)
qed

section \<open>What a client of the heap relies on\<close>

text \<open>
  \<open>items\<close> is the abstraction of the queue, \<open>key\<close> the order of its elements. The lemmas are the
  ones the drain loop of the reorder buffer needs.
\<close>

locale min_queue =
  fixes push :: "'q \<Rightarrow> 'a \<Rightarrow> 'q"
    and pop :: "'q \<Rightarrow> 'a \<times> 'q"
    and peek :: "'q \<Rightarrow> 'a"
    and items :: "'q \<Rightarrow> 'a multiset"
    and inv :: "'q \<Rightarrow> bool"
    and key :: "'a \<Rightarrow> 'k::linorder"
  assumes inv_push: "inv q \<Longrightarrow> inv (push q x)"
    and items_push: "inv q \<Longrightarrow> items (push q x) = add_mset x (items q)"
    and inv_pop: "inv q \<Longrightarrow> items q \<noteq> {#} \<Longrightarrow> inv (snd (pop q))"
    and items_pop: "inv q \<Longrightarrow> items q \<noteq> {#} \<Longrightarrow> items q = add_mset (fst (pop q)) (items (snd (pop q)))"
    and pop_peek: "inv q \<Longrightarrow> items q \<noteq> {#} \<Longrightarrow> fst (pop q) = peek q"
    and peek_least: "inv q \<Longrightarrow> x \<in># items q \<Longrightarrow> key (peek q) \<le> key x"
begin

lemma peek_in_items: "inv q \<Longrightarrow> items q \<noteq> {#} \<Longrightarrow> peek q \<in># items q"
  by (metis items_pop pop_peek union_single_eq_member)

lemma pop_least: "inv q \<Longrightarrow> items q \<noteq> {#} \<Longrightarrow> y \<in># items (snd (pop q)) \<Longrightarrow> key (fst (pop q)) \<le> key y"
  by (metis add_mset_add_single items_pop peek_least pop_peek union_iff)

lemma size_pop: "inv q \<Longrightarrow> items q \<noteq> {#} \<Longrightarrow> size (items q) = Suc (size (items (snd (pop q))))"
  by (metis items_pop size_add_mset)

lemma items_after_pop: "inv q \<Longrightarrow> items q \<noteq> {#} \<Longrightarrow> y \<in># items (snd (pop q)) \<Longrightarrow> y \<in># items q"
  by (metis insert_iff items_pop set_mset_add_mset_insert)

text \<open>An element below every queued one comes out first and leaves the queue as it was.\<close>

lemma pop_push_smaller:
  assumes "inv q" and "\<And>y. y \<in># items q \<Longrightarrow> key x < key y"
  shows "fst (pop (push q x)) = x" and "items (snd (pop (push q x))) = items q"
proof -
  have ne: "items (push q x) \<noteq> {#}" and inv: "inv (push q x)"
    using assms(1) by (simp_all add: items_push inv_push)
  have "key (peek (push q x)) \<le> key x"
    using peek_least[OF inv, of x] assms(1) by (simp add: items_push)
  moreover have "peek (push q x) \<in># add_mset x (items q)"
    using peek_in_items[OF inv ne] assms(1) by (simp add: items_push)
  ultimately have "peek (push q x) = x"
    using assms(2) by (auto simp: not_less[symmetric])
  then show "fst (pop (push q x)) = x" using pop_peek[OF inv ne] by simp
  then show "items (snd (pop (push q x))) = items q"
    using items_pop[OF inv ne] assms(1) by (simp add: items_push)
qed

end

end
