(* ===== verification/Sack.thy ===== *)
theory Sack
  imports Go_Prelude
begin

text \<open>
  Byte ranges: the SACK intervals of \<open>frame.go\<close> (\<open>byteRange\<close>), the sort-and-merge loop that
  \<open>reorder.go\<close> (\<open>ranges\<close>) and \<open>stream.go\<close> (\<open>normalizeRanges\<close>) share, and the two queries the
  sender makes on a normalised list (\<open>firstHole\<close>, \<open>coveredBy\<close>). The lemmas relate each of them to
  the set of offsets a list of ranges covers.
\<close>

section \<open>Ranges and the merge loop\<close>

record brange =
  br_start :: u64
  br_end :: u64

definition mk_range :: "u64 \<Rightarrow> u64 \<Rightarrow> brange" where
  "mk_range a b = \<lparr>br_start = a, br_end = b\<rparr>"

lemma mk_range_simps [simp]: "br_start (mk_range a b) = a" "br_end (mk_range a b) = b"
  by (simp_all add: mk_range_def)

text \<open>One iteration of the merge loop: extend the last merged range or append a new one.\<close>

definition merge_step :: "brange list \<Rightarrow> brange \<Rightarrow> brange list" where
  "merge_step out r =
     (if out \<noteq> [] \<and> br_start r \<le> br_end (last out)
      then (if br_end (last out) < br_end r
            then butlast out @ [(last out)\<lparr>br_end := br_end r\<rparr>] else out)
      else out @ [r])"

definition merge_ranges :: "brange list \<Rightarrow> brange list" where
  "merge_ranges rs = foldl merge_step [] rs"

text \<open>
  \<open>sort.Slice\<close> orders by \<open>start\<close> and leaves the order of equal keys open; \<open>sort_key\<close> is one such
  order, and \<open>merge_any_sort\<close> below shows that every other one gives the same result.
\<close>

definition sort_ranges :: "brange list \<Rightarrow> brange list" where
  "sort_ranges rs = sort_key br_start rs"

definition normalize_ranges :: "brange list \<Rightarrow> brange list" where
  "normalize_ranges rs = (if length rs < 2 then rs else merge_ranges (sort_ranges rs))"

fun first_hole :: "u64 \<Rightarrow> u64 \<Rightarrow> brange list \<Rightarrow> u64 \<times> u64" where
  "first_hole cur e [] = (if cur < e then (cur, e) else (e, e))"
| "first_hole cur e (r # rs) =
     (if br_end r \<le> cur then first_hole cur e rs
      else if cur < br_start r then (cur, min (br_start r) e)
      else if e \<le> br_end r then (e, e)
      else first_hole (br_end r) e rs)"

definition covered_by :: "brange list \<Rightarrow> u64 \<Rightarrow> u64 \<Rightarrow> bool" where
  "covered_by rs off e \<longleftrightarrow> list_ex (\<lambda>r. br_start r \<le> off \<and> e \<le> br_end r) rs"

section \<open>The set of covered offsets\<close>

definition covers :: "brange list \<Rightarrow> u64 set" where
  "covers rs = {x. \<exists>r \<in> set rs. br_start r \<le> x \<and> x < br_end r}"

definition valid_range :: "brange \<Rightarrow> bool" where
  "valid_range r \<longleftrightarrow> br_start r < br_end r"

text \<open>Ascending ranges with a gap between any two: what the merge loop produces.\<close>

definition separated :: "brange list \<Rightarrow> bool" where
  "separated rs \<longleftrightarrow> sorted_wrt (\<lambda>a b. br_end a < br_start b) rs"

definition normal :: "brange list \<Rightarrow> bool" where
  "normal rs \<longleftrightarrow> separated rs \<and> list_all valid_range rs"

lemma covers_simps [simp]:
  "covers [] = {}"
  "covers (r # rs) = {br_start r..<br_end r} \<union> covers rs"
  "covers (rs @ rs') = covers rs \<union> covers rs'"
  by (auto simp: covers_def)

lemma normal_simps [simp]:
  "normal []"
  "normal (r # rs) \<longleftrightarrow>
     valid_range r \<and> (\<forall>q \<in> set rs. br_end r < br_start q) \<and> normal rs"
  by (auto simp: normal_def separated_def)

lemma normal_append:
  "normal (rs @ rs') \<longleftrightarrow>
     normal rs \<and> normal rs' \<and> (\<forall>a \<in> set rs. \<forall>b \<in> set rs'. br_end a < br_start b)"
  by (auto simp: normal_def separated_def sorted_wrt_append)

lemma normal_covers_ge:
  "normal (r # rs) \<Longrightarrow> x \<in> covers rs \<Longrightarrow> br_end r < x"
  by (auto simp: covers_def intro: less_le_trans)

lemma covers_set_cong: "set rs = set rs' \<Longrightarrow> covers rs = covers rs'"
  by (auto simp: covers_def)

section \<open>Merging\<close>

text \<open>
  Invariant of the loop over a list sorted by \<open>start\<close>: what is merged so far is normal, starts no
  later than the next range, and covers what it has consumed.
\<close>

lemma merge_step_normal:
  assumes "normal out" and "valid_range r" and "\<forall>q \<in> set out. br_start q \<le> br_start r"
  shows "normal (merge_step out r)"
    and "covers (merge_step out r) = covers out \<union> {br_start r..<br_end r}"
    and "\<forall>q \<in> set (merge_step out r). br_start q \<le> br_start r"
proof -
  have "normal (merge_step out r) \<and>
    covers (merge_step out r) = covers out \<union> {br_start r..<br_end r} \<and>
    (\<forall>q \<in> set (merge_step out r). br_start q \<le> br_start r)"
  proof (cases out rule: rev_cases)
    case Nil
    then show ?thesis using assms by (simp add: merge_step_def)
  next
    case (snoc front l)
    have l: "valid_range l" "br_start l \<le> br_start r" using assms snoc by (auto simp: normal_append)
    consider (gap) "br_end l < br_start r"
      | (extend) "br_start r \<le> br_end l" "br_end l < br_end r"
      | (inside) "br_start r \<le> br_end l" "br_end r \<le> br_end l" by fastforce
    then show ?thesis
    proof cases
      case gap
      have "br_end a < br_start r" if "a \<in> set front" for a
        using assms(1) snoc that l gap
        by (auto simp: normal_append valid_range_def intro: less_trans)
      then show ?thesis using assms snoc gap
        by (auto simp: merge_step_def normal_append not_le[symmetric])
    next
      case extend
      then show ?thesis using assms snoc l
        by (auto simp: merge_step_def normal_append valid_range_def)
    next
      case inside
      then show ?thesis using assms snoc l
        by (auto simp: merge_step_def)
    qed
  qed
  then show "normal (merge_step out r)"
    and "covers (merge_step out r) = covers out \<union> {br_start r..<br_end r}"
    and "\<forall>q \<in> set (merge_step out r). br_start q \<le> br_start r"
    by blast+
qed

lemma merge_foldl:
  "sorted (map br_start rs) \<Longrightarrow> list_all valid_range rs \<Longrightarrow> normal out \<Longrightarrow>
   (\<forall>q \<in> set out. \<forall>r \<in> set rs. br_start q \<le> br_start r) \<Longrightarrow>
   normal (foldl merge_step out rs) \<and> covers (foldl merge_step out rs) = covers out \<union> covers rs"
proof (induction rs arbitrary: out)
  case Nil
  then show ?case by simp
next
  case (Cons r rs)
  then have r: "valid_range r" "\<forall>q \<in> set out. br_start q \<le> br_start r" by auto
  note step = merge_step_normal [OF Cons.prems(3) r]
  have "\<forall>q \<in> set (merge_step out r). \<forall>p \<in> set rs. br_start q \<le> br_start p"
    using step(3) Cons.prems(1) by (auto intro: order_trans)
  then have "normal (foldl merge_step (merge_step out r) rs) \<and>
      covers (foldl merge_step (merge_step out r) rs) = covers (merge_step out r) \<union> covers rs"
    using Cons.prems step(1) by (intro Cons.IH) auto
  then show ?case using step(2) by (simp add: Un_assoc)
qed

lemma merge_ranges_sorted:
  assumes "sorted (map br_start rs)" and "list_all valid_range rs"
  shows "normal (merge_ranges rs)" and "covers (merge_ranges rs) = covers rs"
  using merge_foldl [OF assms, of "[]"] by (simp_all add: merge_ranges_def)

lemma normalize_ranges_normal:
  assumes "list_all valid_range rs"
  shows "normal (normalize_ranges rs)" and "covers (normalize_ranges rs) = covers rs"
proof -
  have valid: "list_all valid_range (sort_ranges rs)"
    using assms by (simp add: sort_ranges_def list_all_iff)
  have sorted: "sorted (map br_start (sort_ranges rs))"
    by (simp add: sort_ranges_def)
  have "set (sort_ranges rs) = set rs" by (simp add: sort_ranges_def)
  then have cov: "covers (sort_ranges rs) = covers rs" by (rule covers_set_cong)
  show "normal (normalize_ranges rs)"
    using assms merge_ranges_sorted(1)[OF sorted valid]
    by (cases rs; cases "tl rs") (auto simp: normalize_ranges_def)
  show "covers (normalize_ranges rs) = covers rs"
    using merge_ranges_sorted(2)[OF sorted valid] cov by (simp add: normalize_ranges_def)
qed

text \<open>Merging never makes the list longer.\<close>

lemma length_merge_step: "length (merge_step out r) \<le> Suc (length out)"
  by (cases out rule: rev_cases) (simp_all add: merge_step_def)

lemma length_merge_foldl: "length (foldl merge_step out rs) \<le> length out + length rs"
proof (induction rs arbitrary: out)
  case (Cons r rs)
  have "length (foldl merge_step (merge_step out r) rs) \<le> length (merge_step out r) + length rs"
    by (rule Cons.IH)
  also have "\<dots> \<le> Suc (length out) + length rs" by (simp add: length_merge_step)
  finally show ?case by simp
qed simp

section \<open>Normal lists are canonical\<close>

lemma normal_end_not_covered: "normal rs \<Longrightarrow> r \<in> set rs \<Longrightarrow> br_end r \<notin> covers rs"
proof (induction rs)
  case (Cons q rs)
  have gt: "br_end q < x" if "x \<in> covers rs" for x
    using Cons.prems(1) that by (rule normal_covers_ge)
  show ?case
  proof (cases "r = q")
    case True
    then show ?thesis using gt by auto
  next
    case False
    then have r: "r \<in> set rs" and n: "normal rs" using Cons.prems by auto
    have "br_end q < br_start r" using Cons.prems(1) r by simp
    moreover have "br_start r < br_end r"
      using n r by (simp add: normal_def list_all_iff valid_range_def)
    ultimately have "br_end q < br_end r" by (rule less_trans)
    then show ?thesis using Cons.IH[OF n r] by auto
  qed
qed simp

lemma normal_start_le: "normal (r # rs) \<Longrightarrow> x \<in> covers (r # rs) \<Longrightarrow> br_start r \<le> x"
  using normal_covers_ge[of r rs x] by (auto simp: valid_range_def)

lemma normal_head_covered: "normal (r # rs) \<Longrightarrow> br_start r \<in> covers (r # rs)"
  by (simp add: valid_range_def)

lemma covers_tail: "normal (r # rs) \<Longrightarrow> covers rs = {x \<in> covers (r # rs). br_end r < x}"
  using normal_covers_ge[of r rs] by auto

lemma normal_unique: "normal rs \<Longrightarrow> normal rs' \<Longrightarrow> covers rs = covers rs' \<Longrightarrow> rs = rs'"
proof (induction rs arbitrary: rs')
  case Nil
  then show ?case using normal_head_covered by (cases rs') auto
next
  case (Cons r rs)
  obtain q qs where rs': "rs' = q # qs"
    using Cons.prems normal_head_covered[OF Cons.prems(1)] by (cases rs') auto
  have start: "br_start r = br_start q"
    using Cons.prems normal_head_covered normal_start_le unfolding rs'
    by (metis order_antisym)
  have no: "br_end r \<notin> covers (r # rs)" "br_end q \<notin> covers (q # qs)"
    using Cons.prems normal_end_not_covered unfolding rs' by (metis list.set_intros(1))+
  have v: "br_start r < br_end r" "br_start q < br_end q"
    using Cons.prems unfolding rs' by (simp_all add: valid_range_def)
  have "\<not> br_end r < br_end q" using no(1) v Cons.prems(3) start unfolding rs' by auto
  moreover have "\<not> br_end q < br_end r" using no(2) v Cons.prems(3) start unfolding rs' by auto
  ultimately have e: "br_end r = br_end q" by simp
  have rest: "covers rs = {x \<in> covers (r # rs). br_end r < x}"
    "covers qs = {x \<in> covers (q # qs). br_end q < x}"
    using Cons.prems covers_tail unfolding rs' by blast+
  then have "covers rs = covers qs" using Cons.prems(3) e unfolding rs' by metis
  then have "rs = qs" using Cons unfolding rs' by simp
  then show ?case using start e unfolding rs' by simp
qed

lemma merge_any_sort:
  assumes "set rs' = set rs" and "sorted (map br_start rs')" and "list_all valid_range rs"
  shows "merge_ranges rs' = merge_ranges (sort_ranges rs)"
proof -
  have v: "list_all valid_range rs'" "list_all valid_range (sort_ranges rs)"
    using assms by (simp_all add: list_all_iff sort_ranges_def)
  have s: "sorted (map br_start (sort_ranges rs))" by (simp add: sort_ranges_def)
  have "covers rs' = covers (sort_ranges rs)"
    by (rule covers_set_cong) (simp add: assms(1) sort_ranges_def)
  then show ?thesis
    using merge_ranges_sorted[OF assms(2) v(1)] merge_ranges_sorted[OF s v(2)] normal_unique by metis
qed

section \<open>Queries\<close>

lemma first_hole_hole:
  "normal rs \<Longrightarrow> first_hole cur e rs = (a, b) \<Longrightarrow> a < b \<Longrightarrow>
   cur \<le> a \<and> b \<le> e \<and> {a..<b} \<inter> covers rs = {} \<and> {cur..<a} \<subseteq> covers rs \<and> (b = e \<or> b \<in> covers rs)"
proof (induction cur e rs rule: first_hole.induct)
  case (1 cur e)
  then show ?case by (auto split: if_splits)
next
  case (2 cur e r rs)
  have gt: "br_end r < x" if "x \<in> covers rs" for x
    using "2.prems"(1) that by (rule normal_covers_ge)
  have v: "br_start r < br_end r" using "2.prems" by (simp add: valid_range_def)
  consider (skip) "br_end r \<le> cur" | (hole) "cur < br_end r" "cur < br_start r"
    | (fin) "cur < br_end r" "br_start r \<le> cur" "e \<le> br_end r"
    | (on) "cur < br_end r" "br_start r \<le> cur" "br_end r < e" by fastforce
  then show ?case
  proof cases
    case skip
    then have "cur \<le> a \<and> b \<le> e \<and> {a..<b} \<inter> covers rs = {} \<and> {cur..<a} \<subseteq> covers rs \<and> (b = e \<or> b \<in> covers rs)"
      using "2.IH"(1) "2.prems" by simp
    then show ?thesis using skip by auto
  next
    case hole
    then have ab: "a = cur" "b = min (br_start r) e"
      using "2.prems"(2) by (simp_all add: not_le[symmetric])
    have "{a..<b} \<inter> covers rs = {}"
    proof -
      have "\<not> x < b" if "x \<in> covers rs" for x
        using gt[OF that] v ab(2) by (auto simp: min_def split: if_splits)
      then show ?thesis by auto
    qed
    then show ?thesis using ab v by (auto simp: min_def)
  next
    case fin
    then have "\<not> br_end r \<le> cur" "\<not> cur < br_start r" by (simp_all add: not_le not_less)
    then have "first_hole cur e (r # rs) = (e, e)" using fin(3) by simp
    then have "a = e" "b = e" using "2.prems"(2) by (metis prod.inject)+
    then show ?thesis using "2.prems"(3) by simp
  next
    case on
    then have no: "\<not> br_end r \<le> cur" "\<not> cur < br_start r" "\<not> e \<le> br_end r"
      by (simp_all add: not_le not_less)
    then have "br_end r \<le> a \<and> b \<le> e \<and> {a..<b} \<inter> covers rs = {} \<and> {br_end r..<a} \<subseteq> covers rs \<and> (b = e \<or> b \<in> covers rs)"
      using "2.IH"(2)[OF no] "2.prems" by (simp split: if_splits)
    moreover have "{cur..<a} \<subseteq> {cur..<br_end r} \<union> {br_end r..<a}" by auto
    moreover have "{cur..<br_end r} \<subseteq> {br_start r..<br_end r}" using on by auto
    moreover have "{a..<b} \<inter> {br_start r..<br_end r} = {}" if "br_end r \<le> a" using that by auto
    moreover have "cur \<le> a" if "br_end r \<le> a" using on that by auto
    ultimately show ?thesis unfolding covers_simps by blast
  qed
qed

lemma first_hole_none:
  "normal rs \<Longrightarrow> first_hole cur e rs = (a, b) \<Longrightarrow> b \<le> a \<Longrightarrow> {cur..<e} \<subseteq> covers rs"
proof (induction cur e rs rule: first_hole.induct)
  case (1 cur e)
  then show ?case by (auto split: if_splits)
next
  case (2 cur e r rs)
  consider (skip) "br_end r \<le> cur" | (hole) "cur < br_end r" "cur < br_start r"
    | (fin) "cur < br_end r" "br_start r \<le> cur" "e \<le> br_end r"
    | (on) "cur < br_end r" "br_start r \<le> cur" "br_end r < e" by fastforce
  then show ?case
  proof cases
    case skip
    then show ?thesis using 2 by auto
  next
    case hole
    then show ?thesis using "2.prems" by (auto simp: min_def split: if_splits)
  next
    case fin
    then show ?thesis using "2.prems" by auto
  next
    case on
    then have no: "\<not> br_end r \<le> cur" "\<not> cur < br_start r" "\<not> e \<le> br_end r"
      by (simp_all add: not_le not_less)
    then have "{br_end r..<e} \<subseteq> covers rs"
      using "2.IH"(2)[OF no] "2.prems" by (simp split: if_splits)
    moreover have "{cur..<br_end r} \<subseteq> covers (r # rs)" using on by auto
    moreover have "{cur..<e} \<subseteq> {cur..<br_end r} \<union> {br_end r..<e}" by auto
    ultimately show ?thesis by auto
  qed
qed

lemma covered_by_iff:
  assumes "normal rs" and "off < e"
  shows "covered_by rs off e \<longleftrightarrow> {off..<e} \<subseteq> covers rs"
proof
  assume "covered_by rs off e"
  then show "{off..<e} \<subseteq> covers rs"
    by (auto simp: covered_by_def list_ex_iff covers_def) (meson less_le_trans order_trans)
next
  assume sub: "{off..<e} \<subseteq> covers rs"
  then obtain r where r: "r \<in> set rs" "br_start r \<le> off" "off < br_end r"
    using assms(2) by (auto simp: covers_def)
  have "e \<le> br_end r"
  proof (rule ccontr)
    assume "\<not> e \<le> br_end r"
    then have "br_end r \<in> {off..<e}" using r by auto
    then show False using sub normal_end_not_covered[OF assms(1) r(1)] by blast
  qed
  then show "covered_by rs off e" using r by (auto simp: covered_by_def list_ex_iff)
qed

end
