(* ===== verification/Reorder.thy ===== *)
theory Reorder
  imports Go_Heap Sack
begin

text \<open>
  The receive side's reorder buffer, \<open>src/reorder.go\<close>: a min-heap of out-of-order segments, the
  queue of in-order segments ready to be read, and the byte accounts the advertised window is
  computed from. Every operation of the type is here; \<open>drain\<close> may panic on a slice whose start lies
  beyond its end, and the model keeps that panic as a value.
\<close>

section \<open>Data\<close>

record seg =
  seg_off :: u64
  seg_data :: bytes

definition mk_seg :: "u64 \<Rightarrow> bytes \<Rightarrow> seg" where
  "mk_seg off data = \<lparr>seg_off = off, seg_data = data\<rparr>"

lemma mk_seg_simps [simp]: "seg_off (mk_seg a d) = a" "seg_data (mk_seg a d) = d"
  by (simp_all add: mk_seg_def)

lemma mk_seg_eq [simp]: "mk_seg (seg_off s) (seg_data s) = s"
  by (simp add: mk_seg_def)

definition seg_less :: "seg \<Rightarrow> seg \<Rightarrow> bool" where
  "seg_less a b \<longleftrightarrow> seg_off a < seg_off b"

definition seg_push :: "seg list \<Rightarrow> seg \<Rightarrow> seg list" where
  "seg_push h x = heap_push seg_less h x"

definition seg_pop :: "seg list \<Rightarrow> seg \<times> seg list" where
  "seg_pop h = heap_pop seg_less h"

record rbuf =
  rb_cap :: int
  rb_next :: u64
  rb_segs :: "seg list"
  rb_ready :: "seg list"
  rb_size :: int
  rb_readyBytes :: int
  rb_dropped :: int

definition new_rbuf :: "int \<Rightarrow> rbuf" where
  "new_rbuf c = \<lparr>rb_cap = c, rb_next = 0, rb_segs = [], rb_ready = [], rb_size = 0,
     rb_readyBytes = 0, rb_dropped = 0\<rparr>"

section \<open>Operations\<close>

text \<open>
  The body of the loop of \<open>drain\<close>: pop the root, cut the part already delivered (the slice
  expression panics when the segment ends before \<open>next\<close>), append the rest to \<open>ready\<close>.
\<close>

definition drain_step :: "rbuf \<Rightarrow> rbuf run" where
  "drain_step r =
     (let (s, rest) = seg_pop (rb_segs r);
          r = r\<lparr>rb_segs := rest\<rparr>;
          deliver = (\<lambda>s r. if seg_data s = [] then r
             else r\<lparr>rb_next := rb_next r + u64_of_len (length (seg_data s)),
                    rb_ready := rb_ready r @ [s],
                    rb_readyBytes := rb_readyBytes r + int (length (seg_data s))\<rparr>) in
      if seg_off s < rb_next r then
        let trim = rb_next r - seg_off s in
        case slice_from (seg_data s) trim of
          Inl e \<Rightarrow> Inl e
        | Inr d \<Rightarrow> Inr (deliver (mk_seg (rb_next r) d) (r\<lparr>rb_size := rb_size r - int (unat trim)\<rparr>))
      else Inr (deliver s r))"

definition drain_ready :: "rbuf \<Rightarrow> bool" where
  "drain_ready r \<longleftrightarrow> rb_segs r \<noteq> [] \<and> seg_off (rb_segs r ! 0) \<le> rb_next r"

lemma length_heap_pop: "xs \<noteq> [] \<Longrightarrow> length (snd (heap_pop lt xs)) = length xs - 1"
  by (simp add: heap_pop_def Let_def)

lemma drain_step_segs: "drain_step r = Inr r' \<Longrightarrow> rb_segs r' = snd (seg_pop (rb_segs r))"
  by (auto simp: drain_step_def Let_def split: prod.splits if_splits sum.splits)

lemma drain_step_shrinks:
  "drain_ready r \<Longrightarrow> drain_step r = Inr r' \<Longrightarrow> length (rb_segs r') < length (rb_segs r)"
  by (simp add: drain_step_segs seg_pop_def length_heap_pop drain_ready_def)

function rb_drain :: "rbuf \<Rightarrow> rbuf run" where
  "rb_drain r =
     (if drain_ready r then case drain_step r of Inl e \<Rightarrow> Inl e | Inr r' \<Rightarrow> rb_drain r'
      else Inr r)"
  by pat_completeness auto
termination
  by (relation "measure (\<lambda>r. length (rb_segs r))") (simp_all add: drain_step_shrinks)

declare rb_drain.simps [simp del]

definition rb_add :: "rbuf \<Rightarrow> u64 \<Rightarrow> bytes \<Rightarrow> rbuf run" where
  "rb_add r off data =
     (if data = [] then Inr r
      else let e = off + u64_of_len (length data) in
      if e \<le> rb_next r then Inr r
      else case (if off < rb_next r then slice_from data (rb_next r - off) else Inr data) of
        Inl p \<Rightarrow> Inl p
      | Inr data' \<Rightarrow>
          let off' = (if off < rb_next r then rb_next r else off) in
          if rb_next r < off' \<and> rb_cap r < rb_size r + int (length data')
          then Inr (r\<lparr>rb_dropped := rb_dropped r + int (length data')\<rparr>)
          else rb_drain (r\<lparr>rb_segs := seg_push (rb_segs r) (mk_seg off' data'),
                           rb_size := rb_size r + int (length data')\<rparr>))"

text \<open>\<open>read\<close>: the copy loop over \<open>ready\<close> with the room left in the caller's buffer.\<close>

fun read_loop :: "nat \<Rightarrow> seg list \<Rightarrow> bytes \<times> seg list" where
  "read_loop room [] = ([], [])"
| "read_loop room (s # rest) =
     (if room = 0 then ([], s # rest)
      else let m = min room (length (seg_data s)) in
        if drop m (seg_data s) = []
        then let (out, rest') = read_loop (room - m) rest in (take m (seg_data s) @ out, rest')
        else (take m (seg_data s), s\<lparr>seg_data := drop m (seg_data s)\<rparr> # rest))"

definition rb_read :: "rbuf \<Rightarrow> nat \<Rightarrow> bytes \<times> rbuf" where
  "rb_read r room =
     (let (out, ready') = read_loop room (rb_ready r) in
      (out, r\<lparr>rb_ready := ready', rb_size := rb_size r - int (length out),
               rb_readyBytes := rb_readyBytes r - int (length out)\<rparr>))"

definition rb_avail :: "rbuf \<Rightarrow> int" where "rb_avail r = rb_readyBytes r"
definition rb_cum :: "rbuf \<Rightarrow> u64" where "rb_cum r = rb_next r"
definition rb_window :: "rbuf \<Rightarrow> int" where "rb_window r = rb_cap r - rb_size r"
definition rb_setCap :: "rbuf \<Rightarrow> int \<Rightarrow> rbuf" where "rb_setCap r c = r\<lparr>rb_cap := c\<rparr>"
definition rb_sizeBytes :: "rbuf \<Rightarrow> int" where "rb_sizeBytes r = rb_size r"

definition seg_range :: "seg \<Rightarrow> brange" where
  "seg_range s = mk_range (seg_off s) (seg_off s + u64_of_len (length (seg_data s)))"

definition rb_ranges :: "rbuf \<Rightarrow> int \<Rightarrow> brange list" where
  "rb_ranges r m =
     (if rb_segs r = [] \<or> m \<le> 0 then []
      else take (nat m) (merge_ranges (sort_ranges (map seg_range (rb_segs r)))))"

section \<open>The heap of segments\<close>

lemma seg_less_key: "seg_less = (\<lambda>a b. seg_off a < seg_off b)"
  by (simp add: seg_less_def fun_eq_iff)

interpretation segq: min_queue seg_push seg_pop "\<lambda>q. q ! 0" mset
  "\<lambda>q. heap_ordered seg_off (length q) q" seg_off
proof unfold_locales
  fix q :: "seg list" and x :: seg
  assume inv: "heap_ordered seg_off (length q) q"
  show "heap_ordered seg_off (length (seg_push q x)) (seg_push q x)"
    using heap_push_ordered[OF inv] by (simp add: seg_push_def seg_less_key heap_push_def)
  show "mset (seg_push q x) = add_mset x (mset q)"
    by (simp add: seg_push_def heap_push_def mset_heap_up)
  show "seg_off (q ! 0) \<le> seg_off x" if "x \<in># mset q"
    using that heap_root_least[OF inv] by (auto simp: in_set_conv_nth)
  assume "mset q \<noteq> {#}"
  then have ne: "q \<noteq> []" by simp
  obtain y rest where p: "heap_pop (\<lambda>a b. seg_off a < seg_off b) q = (y, rest)" by fastforce
  note facts = heap_pop_facts[OF ne inv p]
  show "heap_ordered seg_off (length (snd (seg_pop q))) (snd (seg_pop q))"
    and "mset q = add_mset (fst (seg_pop q)) (mset (snd (seg_pop q)))"
    and "fst (seg_pop q) = q ! 0"
    using facts p by (simp_all add: seg_pop_def seg_less_key)
qed

section \<open>One step of the drain loop\<close>

text \<open>The accounts, and what the buffer satisfies whenever it is not inside \<open>drain\<close>.\<close>

definition rb_acct :: "rbuf \<Rightarrow> bool" where
  "rb_acct r \<longleftrightarrow>
     heap_ordered seg_off (length (rb_segs r)) (rb_segs r) \<and>
     rb_size r = int (total_len seg_data (rb_segs r) + total_len seg_data (rb_ready r)) \<and>
     rb_readyBytes r = int (total_len seg_data (rb_ready r)) \<and>
     (\<forall>s \<in> set (rb_segs r) \<union> set (rb_ready r). seg_data s \<noteq> [])"

definition rb_inv :: "rbuf \<Rightarrow> bool" where
  "rb_inv r \<longleftrightarrow> rb_acct r \<and> (\<forall>s \<in> set (rb_segs r). rb_next r < seg_off s)"

text \<open>The number of leading bytes of a segment that are already delivered.\<close>

definition stale :: "rbuf \<Rightarrow> seg \<Rightarrow> nat" where
  "stale r s = unat (rb_next r) - unat (seg_off s)"

definition drained :: "rbuf \<Rightarrow> seg \<Rightarrow> seg list \<Rightarrow> rbuf" where
  "drained r s rest =
     (let d = drop (stale r s) (seg_data s) in
      r\<lparr>rb_segs := rest, rb_size := rb_size r - int (stale r s),
        rb_next := rb_next r + u64_of_len (length d),
        rb_ready := rb_ready r @ (if d = [] then [] else [mk_seg (rb_next r) d]),
        rb_readyBytes := rb_readyBytes r + int (length d)\<rparr>)"

lemma drain_step_eq:
  assumes ready: "drain_ready r" and pop: "seg_pop (rb_segs r) = (s, rest)"
    and le: "seg_off s \<le> rb_next r"
  shows "drain_step r =
    (if stale r s \<le> length (seg_data s) then Inr (drained r s rest) else Inl Slice_Bounds)"
proof (cases "seg_off s = rb_next r")
  case True
  then have "mk_seg (rb_next r) (seg_data s) = s" by (metis mk_seg_eq)
  then show ?thesis using True pop
    by (simp add: drain_step_def drained_def stale_def Let_def u64_of_len_def)
next
  case False
  then have lt: "seg_off s < rb_next r" using le by simp
  then have u: "unat (rb_next r - seg_off s) = stale r s"
    by (simp add: stale_def unat_diff_le)
  show ?thesis using lt pop
    by (simp add: drain_step_def drained_def Let_def slice_from_def u u64_of_len_def)
qed

lemma drain_head:
  assumes "rb_acct r" and "drain_ready r"
  obtains s rest where "seg_pop (rb_segs r) = (s, rest)" "seg_off s \<le> rb_next r"
    "mset (rb_segs r) = add_mset s (mset rest)" "heap_ordered seg_off (length rest) rest"
    "\<And>t. t \<in> set rest \<Longrightarrow> seg_off s \<le> seg_off t" "seg_data s \<noteq> []"
    "set (rb_segs r) = insert s (set rest)"
proof -
  obtain s rest where p: "seg_pop (rb_segs r) = (s, rest)" by fastforce
  have h: "heap_ordered seg_off (length (rb_segs r)) (rb_segs r)"
    and ne: "mset (rb_segs r) \<noteq> {#}" and off: "seg_off (rb_segs r ! 0) \<le> rb_next r"
    using assms by (simp_all add: rb_acct_def drain_ready_def)
  have m: "mset (rb_segs r) = add_mset s (mset rest)" using segq.items_pop[OF h ne] p by simp
  then have st: "set (rb_segs r) = insert s (set rest)" by (metis set_mset_add_mset_insert set_mset_mset)
  show thesis
    using that[OF p _ m _ _ _ st] segq.inv_pop[OF h ne] segq.pop_peek[OF h ne] segq.pop_least[OF h ne]
      p off assms(1) st by (simp add: rb_acct_def)
qed

lemma drained_acct:
  assumes acct: "rb_acct r" and m: "mset (rb_segs r) = add_mset s (mset rest)"
    and h: "heap_ordered seg_off (length rest) rest" and t: "stale r s \<le> length (seg_data s)"
  shows "rb_acct (drained r s rest)"
proof -
  have "total_len seg_data (rb_segs r) = total_len seg_data (s # rest)"
    by (rule total_len_mset) (simp add: m)
  moreover have "set (rb_segs r) = insert s (set rest)"
    by (metis m set_mset_add_mset_insert set_mset_mset)
  ultimately show ?thesis using acct h t by (auto simp: rb_acct_def drained_def Let_def)
qed

text \<open>
  The rule for the loop: \<open>P\<close> holds before, every step keeps it or panics with \<open>E\<close>.
\<close>

lemma rb_drain_rule:
  assumes "P r" and "\<And>r. P r \<Longrightarrow> drain_ready r \<Longrightarrow> case_sum E P (drain_step r)"
  shows "case_sum E (\<lambda>r'. P r' \<and> \<not> drain_ready r') (rb_drain r)"
  using assms(1)
proof (induction r rule: rb_drain.induct)
  case (1 r)
  show ?case
  proof (cases "drain_ready r")
    case True
    then show ?thesis using 1 assms(2)[OF "1.prems" True]
      by (subst rb_drain.simps) (auto split: sum.splits)
  next
    case False
    then show ?thesis using "1.prems" by (subst rb_drain.simps) simp
  qed
qed

lemma rb_drain_acct_rule:
  assumes "rb_acct r" and "P r"
    and step: "\<And>r s rest. rb_acct r \<Longrightarrow> P r \<Longrightarrow> seg_off s \<le> rb_next r \<Longrightarrow> seg_data s \<noteq> [] \<Longrightarrow>
      set (rb_segs r) = insert s (set rest) \<Longrightarrow> (\<And>t. t \<in> set rest \<Longrightarrow> seg_off s \<le> seg_off t) \<Longrightarrow>
      if stale r s \<le> length (seg_data s) then P (drained r s rest) else E Slice_Bounds"
  shows "case_sum E (\<lambda>r'. (rb_acct r' \<and> P r') \<and> \<not> drain_ready r') (rb_drain r)"
proof (rule rb_drain_rule)
  show "rb_acct r \<and> P r" using assms by simp
  fix r
  assume inv: "rb_acct r \<and> P r" and ready: "drain_ready r"
  then have "rb_acct r" by simp
  then obtain s rest where pop: "seg_pop (rb_segs r) = (s, rest)" and le: "seg_off s \<le> rb_next r"
    and m: "mset (rb_segs r) = add_mset s (mset rest)" and h: "heap_ordered seg_off (length rest) rest"
    and least: "\<And>t. t \<in> set rest \<Longrightarrow> seg_off s \<le> seg_off t" and ne: "seg_data s \<noteq> []"
    and st: "set (rb_segs r) = insert s (set rest)"
    by (rule drain_head[OF _ ready]) blast
  show "case_sum E (\<lambda>r. rb_acct r \<and> P r) (drain_step r)"
    using step[OF _ _ le ne st least] inv drained_acct[OF _ m h] drain_step_eq[OF ready pop le]
    by (auto split: if_splits)
qed

lemma not_ready_inv: "rb_acct r \<Longrightarrow> \<not> drain_ready r \<Longrightarrow> rb_inv r"
  using segq.peek_least[of "rb_segs r"]
  by (auto simp: rb_inv_def rb_acct_def drain_ready_def not_le intro: less_le_trans)

section \<open>What \<open>add\<close> does before it drains\<close>

definition pushed :: "rbuf \<Rightarrow> u64 \<Rightarrow> bytes \<Rightarrow> rbuf" where
  "pushed r off data =
     (let d = drop (unat (rb_next r) - unat off) data in
      r\<lparr>rb_segs := seg_push (rb_segs r) (mk_seg (max off (rb_next r)) d),
        rb_size := rb_size r + int (length d)\<rparr>)"

text \<open>The prefix that \<open>add\<close> cuts is shorter than the frame, whatever the frame's offset is.\<close>

lemma add_trim_less:
  assumes "off < n" and "n < off + u64_of_len k"
  shows "unat (n - off) < k"
proof (rule ccontr)
  assume k: "\<not> unat (n - off) < k"
  have le: "unat off \<le> unat n" using assms(1) by (simp add: word_less_nat_alt)
  have "unat off + k \<le> unat n" using k le assms(1) by (simp add: unat_diff_le)
  moreover have "unat n < 2 ^ 64" using unsigned_less[of n] by simp
  ultimately have "unat (off + u64_of_len k) \<le> unat n" by (simp add: unat_add_len)
  then show False using assms(2) by (simp add: word_less_nat_alt)
qed

lemma rb_add_eq:
  "rb_add r off data =
     (if data = [] \<or> off + u64_of_len (length data) \<le> rb_next r then Inr r
      else if rb_next r < off \<and> rb_cap r < rb_size r + int (length data)
      then Inr (r\<lparr>rb_dropped := rb_dropped r + int (length data)\<rparr>)
      else rb_drain (pushed r off data))"
proof (cases "data = [] \<or> off + u64_of_len (length data) \<le> rb_next r")
  case True
  then show ?thesis by (auto simp: rb_add_def Let_def)
next
  case no: False
  show ?thesis
  proof (cases "off < rb_next r")
    case True
    have "unat (rb_next r - off) \<le> length data"
      using add_trim_less[OF True] no by (simp add: not_le less_imp_le)
    moreover have "\<not> rb_next r < off" "off \<le> rb_next r" "max off (rb_next r) = rb_next r"
      using True by (auto simp: max_def)
    ultimately show ?thesis using no True
      by (simp add: rb_add_def Let_def slice_from_def pushed_def unat_diff_le)
  next
    case False
    then have "unat (rb_next r) - unat off = 0" by (simp add: not_less word_le_nat_alt)
    moreover have "max off (rb_next r) = off" using False by (auto simp: not_less max_def)
    ultimately have "unat (rb_next r) - unat off = 0" "max off (rb_next r) = off" by blast+
    then show ?thesis using no False by (simp add: rb_add_def Let_def pushed_def)
  qed
qed

lemma pushed_data_ne:
  assumes "\<not> (data = [] \<or> off + u64_of_len (length data) \<le> n)"
  shows "unat n - unat off < length data"
proof (cases "off < n")
  case True
  then show ?thesis using add_trim_less[OF True] assms by (simp add: not_le unat_diff_le)
next
  case False
  then show ?thesis using assms by (simp add: not_less word_le_nat_alt)
qed

lemma pushed_segs: "heap_ordered seg_off (length (rb_segs r)) (rb_segs r) \<Longrightarrow>
  mset (rb_segs (pushed r off data)) =
    add_mset (mk_seg (max off (rb_next r)) (drop (unat (rb_next r) - unat off) data)) (mset (rb_segs r))"
  by (simp add: pushed_def Let_def segq.items_push)

lemma pushed_set: "heap_ordered seg_off (length (rb_segs r)) (rb_segs r) \<Longrightarrow>
  set (rb_segs (pushed r off data)) =
    insert (mk_seg (max off (rb_next r)) (drop (unat (rb_next r) - unat off) data)) (set (rb_segs r))"
  using pushed_segs by (metis set_mset_add_mset_insert set_mset_mset)

lemma pushed_acct:
  assumes acct: "rb_acct r" and no: "\<not> (data = [] \<or> off + u64_of_len (length data) \<le> rb_next r)"
  shows "rb_acct (pushed r off data)"
proof -
  let ?s = "mk_seg (max off (rb_next r)) (drop (unat (rb_next r) - unat off) data)"
  have h: "heap_ordered seg_off (length (rb_segs r)) (rb_segs r)" using acct by (simp add: rb_acct_def)
  have "total_len seg_data (rb_segs (pushed r off data)) = total_len seg_data (?s # rb_segs r)"
    by (rule total_len_mset) (simp add: pushed_segs[OF h])
  moreover have "heap_ordered seg_off (length (rb_segs (pushed r off data))) (rb_segs (pushed r off data))"
    using segq.inv_push[OF h] by (simp add: pushed_def Let_def)
  ultimately show ?thesis using acct pushed_set[OF h] pushed_data_ne[OF no]
    by (auto simp: rb_acct_def pushed_def Let_def)
qed

text \<open>
  The rule for \<open>add\<close>: a property of the buffer that holds after the push and is kept by every
  drained segment holds when \<open>add\<close> returns.
\<close>

lemma rb_add_rule:
  assumes inv: "rb_inv r"
    and same: "data = [] \<or> off + u64_of_len (length data) \<le> rb_next r \<Longrightarrow> Q r"
    and dropped: "data \<noteq> [] \<Longrightarrow> rb_next r < off \<Longrightarrow> rb_cap r < rb_size r + int (length data) \<Longrightarrow>
      Q (r\<lparr>rb_dropped := rb_dropped r + int (length data)\<rparr>)"
    and push: "\<not> (data = [] \<or> off + u64_of_len (length data) \<le> rb_next r) \<Longrightarrow>
      \<not> (rb_next r < off \<and> rb_cap r < rb_size r + int (length data)) \<Longrightarrow> P (pushed r off data)"
    and step: "\<And>r s rest. rb_acct r \<Longrightarrow> P r \<Longrightarrow> seg_off s \<le> rb_next r \<Longrightarrow> seg_data s \<noteq> [] \<Longrightarrow>
      set (rb_segs r) = insert s (set rest) \<Longrightarrow> (\<And>t. t \<in> set rest \<Longrightarrow> seg_off s \<le> seg_off t) \<Longrightarrow>
      if stale r s \<le> length (seg_data s) then P (drained r s rest) else E Slice_Bounds"
    and final: "\<And>r'. P r' \<Longrightarrow> rb_inv r' \<Longrightarrow> Q r'"
  shows "case_sum E (\<lambda>r'. rb_inv r' \<and> Q r') (rb_add r off data)"
proof -
  consider (same) "data = [] \<or> off + u64_of_len (length data) \<le> rb_next r"
    | (dropped) "\<not> (data = [] \<or> off + u64_of_len (length data) \<le> rb_next r)"
        "rb_next r < off \<and> rb_cap r < rb_size r + int (length data)"
    | (push) "\<not> (data = [] \<or> off + u64_of_len (length data) \<le> rb_next r)"
        "\<not> (rb_next r < off \<and> rb_cap r < rb_size r + int (length data))" by blast
  then show ?thesis
  proof cases
    case same
    then show ?thesis using assms(2)[OF same] inv by (simp add: rb_add_eq)
  next
    case dropped
    have "rb_inv (r\<lparr>rb_dropped := d\<rparr>)" for d using inv by (simp add: rb_inv_def rb_acct_def)
    then show ?thesis using dropped assms(3) by (simp add: rb_add_eq)
  next
    case push
    have "rb_acct r" using inv by (simp add: rb_inv_def)
    then have "case_sum E (\<lambda>r'. (rb_acct r' \<and> P r') \<and> \<not> drain_ready r') (rb_drain (pushed r off data))"
      using pushed_acct push(1) assms(4)[OF push] step by (intro rb_drain_acct_rule) blast+
    then show ?thesis using push final not_ready_inv by (auto simp: rb_add_eq split: sum.splits)
  qed
qed

section \<open>Preservation of the invariant\<close>

lemma rb_inv_new: "rb_inv (new_rbuf c)"
  by (simp add: rb_inv_def rb_acct_def new_rbuf_def heap_ordered_def)

lemma rb_inv_add: "rb_inv r \<Longrightarrow> rb_add r off data = Inr r' \<Longrightarrow> rb_inv r'"
  using rb_add_rule[of r data off "\<lambda>_. True" "\<lambda>_. True" "\<lambda>_. True"] by simp

lemma read_loop_spec:
  "read_loop room ss = (out, rest) \<Longrightarrow> \<forall>s \<in> set ss. seg_data s \<noteq> [] \<Longrightarrow>
   out @ concat (map seg_data rest) = concat (map seg_data ss) \<and>
   length out = min room (total_len seg_data ss) \<and> (\<forall>s \<in> set rest. seg_data s \<noteq> [])"
proof (induction room ss arbitrary: out rest rule: read_loop.induct)
  case (1 room)
  then show ?case by simp
next
  case (2 room s ss)
  let ?m = "min room (length (seg_data s))"
  consider (full) "room = 0" | (part) "room \<noteq> 0" "drop ?m (seg_data s) \<noteq> []"
    | (all) "room \<noteq> 0" "drop ?m (seg_data s) = []" by blast
  then show ?case
  proof cases
    case full
    then show ?thesis using 2 by simp
  next
    case part
    then show ?thesis using "2.prems" by (auto simp: min_def split: if_splits)
  next
    case all
    obtain out' rest' where eq: "read_loop (room - ?m) ss = (out', rest')" by fastforce
    have m: "?m = length (seg_data s)" "length (seg_data s) \<le> room" using all(2) by auto
    have "out = seg_data s @ out'" "rest = rest'" using "2.prems"(1) all eq m by auto
    then show ?thesis using "2.IH"[OF all(1) refl all(2) eq] "2.prems"(2) m by auto
  qed
qed

lemma rb_read_spec:
  assumes "rb_inv r" and "rb_read r room = (out, r')"
  shows "rb_inv r'" and "out @ concat (map seg_data (rb_ready r')) = concat (map seg_data (rb_ready r))"
    and "int (length out) = min (int room) (rb_avail r)" and "rb_next r' = rb_next r"
    and "rb_segs r' = rb_segs r" and "rb_cap r' = rb_cap r"
    and "rb_window r' = rb_window r + int (length out)"
proof -
  obtain rest where l: "read_loop room (rb_ready r) = (out, rest)"
    and r': "r' = r\<lparr>rb_ready := rest, rb_size := rb_size r - int (length out),
               rb_readyBytes := rb_readyBytes r - int (length out)\<rparr>"
    using assms(2) by (auto simp: rb_read_def split: prod.splits)
  have ne: "\<forall>s \<in> set (rb_ready r). seg_data s \<noteq> []" using assms(1) by (simp add: rb_inv_def rb_acct_def)
  note spec = read_loop_spec[OF l ne]
  have "length (out @ concat (map seg_data rest)) = total_len seg_data (rb_ready r)"
    using spec by (simp only: length_concat_map)
  then have len: "length out + total_len seg_data rest = total_len seg_data (rb_ready r)"
    by (simp add: length_concat_map)
  show "rb_inv r'" using assms(1) spec len by (auto simp: r' rb_inv_def rb_acct_def)
  show "out @ concat (map seg_data (rb_ready r')) = concat (map seg_data (rb_ready r))"
    using spec by (simp add: r')
  show "int (length out) = min (int room) (rb_avail r)"
    using spec assms(1) by (simp add: rb_avail_def rb_inv_def rb_acct_def)
qed (use assms(2) in \<open>auto simp: rb_read_def rb_window_def split: prod.splits\<close>)

lemma rb_inv_setCap: "rb_inv r \<Longrightarrow> rb_inv (rb_setCap r c)"
  by (simp add: rb_setCap_def rb_inv_def rb_acct_def)

section \<open>The set of received bytes\<close>

text \<open>
  The abstract receiver is the set of stream offsets it holds or has delivered. A segment \<open>fits\<close> when
  its end is below \<open>2^64\<close>, so that offsets are plain numbers.
\<close>

definition seg_fits :: "seg \<Rightarrow> bool" where
  "seg_fits s \<longleftrightarrow> unat (seg_off s) + length (seg_data s) < 2 ^ 64"

definition seg_end :: "seg \<Rightarrow> nat" where
  "seg_end s = unat (seg_off s) + length (seg_data s)"

definition seg_span :: "seg \<Rightarrow> nat set" where
  "seg_span s = {unat (seg_off s)..<seg_end s}"

definition received :: "rbuf \<Rightarrow> nat set" where
  "received r = {..<unat (rb_next r)} \<union> (\<Union>s \<in> set (rb_segs r). seg_span s)"

definition rb_fits :: "rbuf \<Rightarrow> bool" where
  "rb_fits r \<longleftrightarrow> (\<forall>s \<in> set (rb_segs r). seg_fits s)"

lemma drained_next:
  assumes "seg_fits s" and "seg_off s \<le> rb_next r" and "stale r s \<le> length (seg_data s)"
  shows "unat (rb_next (drained r s rest)) = seg_end s" and "unat (rb_next r) \<le> seg_end s"
proof -
  have "unat (seg_off s) \<le> unat (rb_next r)" using assms(2) by (simp add: word_le_nat_alt)
  moreover from this have "unat (rb_next r + u64_of_len (length (seg_data s) - stale r s)) =
      unat (rb_next r) + (length (seg_data s) - stale r s)"
    using assms by (intro unat_add_len) (simp add: stale_def seg_fits_def)
  ultimately show "unat (rb_next (drained r s rest)) = seg_end s" "unat (rb_next r) \<le> seg_end s"
    using assms(3) by (simp_all add: drained_def Let_def stale_def seg_end_def)
qed

lemma drained_simps [simp]:
  "rb_segs (drained r s rest) = rest" "rb_cap (drained r s rest) = rb_cap r"
  "rb_dropped (drained r s rest) = rb_dropped r"
  by (simp_all add: drained_def Let_def)

lemma drained_received:
  assumes "seg_fits s" and le: "seg_off s \<le> rb_next r" and "stale r s \<le> length (seg_data s)"
    and st: "set (rb_segs r) = insert s (set rest)"
  shows "received (drained r s rest) = received r"
proof -
  have "unat (seg_off s) \<le> unat (rb_next r)" using le by (simp add: word_le_nat_alt)
  then have "{..<unat (rb_next r)} \<union> seg_span s = {..<seg_end s}"
    using drained_next(2)[OF assms(1-3)] by (auto simp: seg_span_def)
  then show ?thesis using drained_next(1)[OF assms(1-3)] st by (auto simp: received_def)
qed

definition frame_span :: "u64 \<Rightarrow> bytes \<Rightarrow> nat set" where
  "frame_span off data = {unat off..<unat off + length data}"

lemma pushed_received:
  assumes "rb_acct r" and no: "\<not> (data = [] \<or> off + u64_of_len (length data) \<le> rb_next r)"
  shows "received (pushed r off data) = received r \<union> frame_span off data"
proof -
  have h: "heap_ordered seg_off (length (rb_segs r)) (rb_segs r)" using assms(1) by (simp add: rb_acct_def)
  let ?s = "mk_seg (max off (rb_next r)) (drop (unat (rb_next r) - unat off) data)"
  have "rb_next (pushed r off data) = rb_next r" by (simp add: pushed_def Let_def)
  moreover have "{..<unat (rb_next r)} \<union> seg_span ?s = {..<unat (rb_next r)} \<union> frame_span off data"
    by (auto simp: seg_span_def seg_end_def frame_span_def max_def word_le_nat_alt split: if_splits)
  ultimately show ?thesis using pushed_set[OF h] by (auto simp: received_def)
qed

lemma pushed_fits:
  assumes "rb_acct r" and "rb_fits r" and "unat off + length data < 2 ^ 64"
    and no: "\<not> (data = [] \<or> off + u64_of_len (length data) \<le> rb_next r)"
  shows "rb_fits (pushed r off data)"
proof -
  have h: "heap_ordered seg_off (length (rb_segs r)) (rb_segs r)" using assms(1) by (simp add: rb_acct_def)
  have "seg_fits (mk_seg (max off (rb_next r)) (drop (unat (rb_next r) - unat off) data))"
    using assms(3) pushed_data_ne[OF no]
    by (auto simp: seg_fits_def max_def word_le_nat_alt split: if_splits)
  then show ?thesis using assms(2) pushed_set[OF h] by (simp add: rb_fits_def)
qed

lemma drained_fits: "rb_fits r \<Longrightarrow> set (rb_segs r) = insert s (set rest) \<Longrightarrow> rb_fits (drained r s rest)"
  by (simp add: rb_fits_def)

lemma frame_stale_received:
  assumes "unat off + length data < 2 ^ 64"
    and "data = [] \<or> off + u64_of_len (length data) \<le> rb_next r"
  shows "frame_span off data \<subseteq> received r"
  using assms by (auto simp: frame_span_def received_def word_le_nat_alt unat_add_len)

text \<open>
  Refinement: on received sets, \<open>add\<close> is union with the frame's span, or a drop that is counted.
\<close>

lemma rb_add_received:
  assumes inv: "rb_inv r" and fits: "rb_fits r" "unat off + length data < 2 ^ 64"
    and add: "rb_add r off data = Inr r'"
  shows "rb_fits r' \<and> rb_cap r' = rb_cap r \<and>
    ((received r' = received r \<union> frame_span off data \<and> rb_dropped r' = rb_dropped r) \<or>
     (r' = r\<lparr>rb_dropped := rb_dropped r + int (length data)\<rparr> \<and> rb_next r < off \<and>
      rb_window r < int (length data)))"
proof -
  let ?P = "\<lambda>q. rb_fits q \<and> received q = received r \<union> frame_span off data \<and>
    rb_dropped q = rb_dropped r \<and> rb_cap q = rb_cap r"
  let ?Q = "\<lambda>q. rb_fits q \<and> rb_cap q = rb_cap r \<and>
    ((received q = received r \<union> frame_span off data \<and> rb_dropped q = rb_dropped r) \<or>
     (q = r\<lparr>rb_dropped := rb_dropped r + int (length data)\<rparr> \<and> rb_next r < off \<and>
      rb_window r < int (length data)))"
  have acct: "rb_acct r" using inv by (simp add: rb_inv_def)
  have "case_sum (\<lambda>_. True) (\<lambda>r'. rb_inv r' \<and> ?Q r') (rb_add r off data)"
  proof (rule rb_add_rule[where P = ?P, OF inv])
    show "?Q r" if "data = [] \<or> off + u64_of_len (length data) \<le> rb_next r"
      using frame_stale_received[OF fits(2) that] fits(1) by auto
    show "?Q (r\<lparr>rb_dropped := rb_dropped r + int (length data)\<rparr>)"
      if "rb_next r < off" "rb_cap r < rb_size r + int (length data)"
      using that fits(1) by (simp add: rb_fits_def rb_window_def)
    show "?P (pushed r off data)" if "\<not> (data = [] \<or> off + u64_of_len (length data) \<le> rb_next r)"
      using pushed_received[OF acct that] pushed_fits[OF acct fits that]
      by (simp add: pushed_def Let_def)
    fix q s rest
    assume "?P q" "seg_off s \<le> rb_next q" and st: "set (rb_segs q) = insert s (set rest)"
    moreover from this have "seg_fits s" by (simp add: rb_fits_def)
    ultimately show "if stale q s \<le> length (seg_data s) then ?P (drained q s rest) else True"
      using drained_received drained_fits by auto
  qed simp
  then show ?thesis using add by simp
qed

text \<open>\<open>next\<close> is the first offset that has not been received.\<close>

lemma rb_next_not_received: "rb_inv r \<Longrightarrow> unat (rb_next r) \<notin> received r"
  by (auto simp: rb_inv_def received_def seg_span_def word_less_nat_alt)

lemma rb_next_least: "rb_inv r \<Longrightarrow> (LEAST n. n \<notin> received r) = unat (rb_next r)"
proof (rule Least_equality)
  show "unat (rb_next r) \<le> n" if "n \<notin> received r" for n
    using that by (auto simp: received_def)
qed (rule rb_next_not_received)

section \<open>In-order delivery\<close>

text \<open>
  \<open>c\<close> is the byte stream the peer writes: a frame agrees with it when it carries the bytes of its
  offsets. \<open>out\<close> is what the application has read.
\<close>

definition frame_agrees :: "(nat \<Rightarrow> byte) \<Rightarrow> u64 \<Rightarrow> bytes \<Rightarrow> bool" where
  "frame_agrees c off data \<longleftrightarrow>
     unat off + length data < 2 ^ 64 \<and>
     data = window_of c (unat off) (unat off + length data)"

definition delivered :: "(nat \<Rightarrow> byte) \<Rightarrow> bytes \<Rightarrow> rbuf \<Rightarrow> bool" where
  "delivered c out r \<longleftrightarrow>
     out @ concat (map seg_data (rb_ready r)) = window_of c 0 (unat (rb_next r)) \<and>
     (\<forall>s \<in> set (rb_segs r). frame_agrees c (seg_off s) (seg_data s))"

lemma frame_agrees_fits: "frame_agrees c (seg_off s) (seg_data s) \<Longrightarrow> seg_fits s"
  by (simp add: frame_agrees_def seg_fits_def)

lemma drop_agrees:
  assumes "frame_agrees c off data"
  shows "drop k data = window_of c (unat off + k) (unat off + length data)"
  using assms drop_window_of unfolding frame_agrees_def by metis

lemma drained_delivered:
  assumes del: "delivered c out r" and le: "seg_off s \<le> rb_next r"
    and st: "set (rb_segs r) = insert s (set rest)" and t: "stale r s \<le> length (seg_data s)"
  shows "delivered c out (drained r s rest)"
proof -
  have ag: "frame_agrees c (seg_off s) (seg_data s)" using del st by (simp add: delivered_def)
  note nx = drained_next[OF frame_agrees_fits[OF ag] le t]
  have "unat (seg_off s) \<le> unat (rb_next r)" using le by (simp add: word_le_nat_alt)
  then have d: "drop (stale r s) (seg_data s) = window_of c (unat (rb_next r)) (seg_end s)"
    using drop_agrees[OF ag, of "stale r s"] by (simp add: stale_def seg_end_def)
  have "concat (map seg_data (rb_ready (drained r s rest))) =
      concat (map seg_data (rb_ready r)) @ drop (stale r s) (seg_data s)"
    by (simp add: drained_def Let_def)
  then show ?thesis
    using del st nx by (simp add: delivered_def d window_of_append flip: append_assoc)
qed

lemma pushed_delivered:
  assumes "rb_acct r" and del: "delivered c out r" and ag: "frame_agrees c off data"
    and no: "\<not> (data = [] \<or> off + u64_of_len (length data) \<le> rb_next r)"
  shows "delivered c out (pushed r off data)"
proof -
  have h: "heap_ordered seg_off (length (rb_segs r)) (rb_segs r)" using assms(1) by (simp add: rb_acct_def)
  let ?k = "unat (rb_next r) - unat off"
  have k: "?k < length data" using pushed_data_ne[OF no] .
  have m: "unat (max off (rb_next r)) = unat off + ?k"
    by (auto simp: max_def word_le_nat_alt)
  have "frame_agrees c (max off (rb_next r)) (drop ?k data)"
    using drop_agrees[OF ag, of ?k] k ag unfolding frame_agrees_def m by simp
  then show ?thesis using del pushed_set[OF h] by (simp add: delivered_def pushed_def Let_def)
qed

lemma rb_add_delivered:
  assumes inv: "rb_inv r" and del: "delivered c out r" and ag: "frame_agrees c off data"
    and add: "rb_add r off data = Inr r'"
  shows "delivered c out r'"
proof -
  have acct: "rb_acct r" using inv by (simp add: rb_inv_def)
  have "case_sum (\<lambda>_. True) (\<lambda>r'. rb_inv r' \<and> delivered c out r') (rb_add r off data)"
  proof (rule rb_add_rule[where P = "delivered c out", OF inv])
    show "delivered c out (r\<lparr>rb_dropped := rb_dropped r + int (length data)\<rparr>)"
      using del by (simp add: delivered_def)
  qed (use del pushed_delivered[OF acct del ag] drained_delivered in auto)
  then show ?thesis using add by simp
qed

lemma rb_read_delivered:
  assumes "rb_inv r" and "delivered c out r" and "rb_read r room = (bs, r')"
  shows "delivered c (out @ bs) r'"
  using rb_read_spec[OF assms(1,3)] assms(2) by (simp add: delivered_def)

section \<open>Runs, and when \<open>drain\<close> cannot panic\<close>

datatype rb_op = Op_Add u64 bytes | Op_Read nat | Op_SetCap int

fun rb_step :: "rb_op \<Rightarrow> rbuf \<times> bytes \<Rightarrow> (rbuf \<times> bytes) run" where
  "rb_step (Op_Add off data) (r, out) =
     (case rb_add r off data of Inl e \<Rightarrow> Inl e | Inr r' \<Rightarrow> Inr (r', out))"
| "rb_step (Op_Read room) (r, out) = (let (bs, r') = rb_read r room in Inr (r', out @ bs))"
| "rb_step (Op_SetCap c) (r, out) = Inr (rb_setCap r c, out)"

fun rb_run :: "rb_op list \<Rightarrow> rbuf \<times> bytes \<Rightarrow> (rbuf \<times> bytes) run" where
  "rb_run [] st = Inr st"
| "rb_run (p # ps) st = (case rb_step p st of Inl e \<Rightarrow> Inl e | Inr st' \<Rightarrow> rb_run ps st')"

fun op_agrees :: "(nat \<Rightarrow> byte) \<Rightarrow> rb_op \<Rightarrow> bool" where
  "op_agrees c (Op_Add off data) = frame_agrees c off data"
| "op_agrees c _ = True"

fun op_frames :: "rb_op \<Rightarrow> seg list" where
  "op_frames (Op_Add off data) = [mk_seg off data]"
| "op_frames _ = []"

text \<open>
  The rule for runs: \<open>Q\<close> is kept by every operation that satisfies \<open>ok\<close>, and no such operation
  panics but with \<open>E\<close>.
\<close>

lemma rb_run_rule:
  assumes "Q st" and "\<And>p. p \<in> set ps \<Longrightarrow> ok p"
    and "\<And>p st. ok p \<Longrightarrow> Q st \<Longrightarrow> case_sum E Q (rb_step p st)"
  shows "case_sum E Q (rb_run ps st)"
  using assms(1,2)
proof (induction ps arbitrary: st)
  case (Cons p ps)
  have step: "case_sum E Q (rb_step p st)" using assms(3)[of p st] Cons.prems by simp
  have ih: "Q st' \<Longrightarrow> case_sum E Q (rb_run ps st')" for st' using Cons by simp
  show ?case using step ih by (cases "rb_step p st") simp_all
qed simp

lemma rb_step_delivered:
  assumes "op_agrees c p" and "rb_inv (fst st)" and "delivered c (snd st) (fst st)"
  shows "case_sum (\<lambda>_. True) (\<lambda>(r, out). rb_inv r \<and> delivered c out r) (rb_step p st)"
proof (cases p)
  case (Op_Add off data)
  then show ?thesis using assms rb_add_delivered rb_inv_add
    by (cases st) (auto split: sum.splits)
next
  case (Op_Read room)
  then show ?thesis using assms rb_read_delivered rb_read_spec(1)
    by (cases st) (auto split: prod.splits)
next
  case (Op_SetCap n)
  then show ?thesis using assms rb_inv_setCap
    by (cases st) (auto simp: rb_setCap_def delivered_def)
qed

text \<open>
  Frames form stairs when a frame that starts no earlier than another one also ends no earlier. Two
  equal frames do, and two disjoint ones, which is all a sender that only retransmits produces.
\<close>

definition stairs :: "seg set \<Rightarrow> bool" where
  "stairs F \<longleftrightarrow> (\<forall>s \<in> F. \<forall>t \<in> F. seg_off s \<le> seg_off t \<longrightarrow> seg_end s \<le> seg_end t)"

text \<open>
  What excludes the panic inside \<open>drain\<close>: no buffered segment ends before \<open>next\<close>, and the buffered
  segments are stairs. Those still to be drained apart, they are frames as they arrived.
\<close>

definition drain_safe :: "seg set \<Rightarrow> rbuf \<Rightarrow> bool" where
  "drain_safe F r \<longleftrightarrow> rb_fits r \<and> stairs (set (rb_segs r)) \<and>
     (\<forall>s \<in> set (rb_segs r). unat (rb_next r) \<le> seg_end s \<and> (seg_off s \<le> rb_next r \<or> s \<in> F))"

lemma stairs_mono: "stairs F \<Longrightarrow> S \<subseteq> F \<Longrightarrow> stairs S"
  unfolding stairs_def by blast

lemma stairs_insert:
  "stairs S \<Longrightarrow> (\<And>t. t \<in> S \<Longrightarrow> \<not> seg_off t \<le> seg_off x) \<Longrightarrow> (\<And>t. t \<in> S \<Longrightarrow> seg_end x \<le> seg_end t) \<Longrightarrow>
   stairs (insert x S)"
  unfolding stairs_def by blast

lemma drain_safe_step:
  assumes safe: "drain_safe F r" and le: "seg_off s \<le> rb_next r"
    and st: "set (rb_segs r) = insert s (set rest)"
    and least: "\<And>t. t \<in> set rest \<Longrightarrow> seg_off s \<le> seg_off t"
  shows "stale r s \<le> length (seg_data s)" and "drain_safe F (drained r s rest)"
proof -
  have s: "seg_fits s" "unat (rb_next r) \<le> seg_end s"
    using safe st by (auto simp: drain_safe_def rb_fits_def)
  then show t: "stale r s \<le> length (seg_data s)" by (simp add: stale_def seg_end_def)
  note nx = drained_next[OF s(1) le t]
  have mono: "rb_next r \<le> rb_next (drained r s rest)" using nx by (simp add: word_le_nat_alt)
  have "seg_end s \<le> seg_end t" if "t \<in> set rest" for t
    using safe st least[OF that] that by (simp add: drain_safe_def stairs_def)
  then show "drain_safe F (drained r s rest)"
    using safe st nx order_trans[OF _ mono] by (fastforce simp: drain_safe_def rb_fits_def stairs_def)
qed

lemma drain_safe_pushed:
  assumes inv: "rb_inv r" and F: "set (rb_segs r) \<subseteq> F" "mk_seg off data \<in> F" "stairs F" "\<forall>s \<in> F. seg_fits s"
    and no: "\<not> (data = [] \<or> off + u64_of_len (length data) \<le> rb_next r)"
  shows "drain_safe F (pushed r off data)"
proof -
  let ?s = "mk_seg (max off (rb_next r)) (drop (unat (rb_next r) - unat off) data)"
  have acct: "rb_acct r" and h: "heap_ordered seg_off (length (rb_segs r)) (rb_segs r)"
    using inv by (simp_all add: rb_inv_def rb_acct_def)
  have fits: "unat off + length data < 2 ^ 64" using F by (auto simp: seg_fits_def)
  have e: "seg_end ?s = unat off + length data"
    using pushed_data_ne[OF no] by (auto simp: seg_end_def max_def word_le_nat_alt)
  have beyond: "rb_next r < seg_off t" if "t \<in> set (rb_segs r)" for t
    using inv that by (simp add: rb_inv_def)
  have eq: "?s = mk_seg off data" if "\<not> off \<le> rb_next r"
    using that by (simp add: max_def word_le_nat_alt)
  have st: "stairs (insert ?s (set (rb_segs r)))"
  proof (cases "off \<le> rb_next r")
    case False
    then have "insert ?s (set (rb_segs r)) \<subseteq> F" using F eq by simp
    then show ?thesis using F(3) stairs_mono by blast
  next
    case True
    then have "\<not> seg_off t \<le> seg_off ?s" "off \<le> seg_off t" if "t \<in> set (rb_segs r)" for t
      using beyond[OF that] by (auto simp: max_def)
    note above = this
    have "seg_end ?s \<le> seg_end t" if t: "t \<in> set (rb_segs r)" for t
    proof -
      have "t \<in> F" using F(1) t by blast
      then have "seg_end (mk_seg off data) \<le> seg_end t"
        using F(2,3) above(2)[OF t] unfolding stairs_def by (metis mk_seg_simps(1))
      then show ?thesis unfolding e by (simp add: seg_end_def)
    qed
    then show ?thesis using stairs_insert[OF stairs_mono[OF F(3,1)] above(1)] by blast
  qed
  have "unat (rb_next r) \<le> seg_end t" if "t \<in> set (rb_segs r)" for t
    using beyond[OF that] by (simp add: word_less_nat_alt seg_end_def)
  moreover have "unat (rb_next r) \<le> seg_end ?s"
    by (simp add: seg_end_def max_def word_le_nat_alt)
  moreover have "seg_off ?s \<le> rb_next r \<or> ?s \<in> F" using eq F(2) by (auto simp: max_def)
  moreover have "rb_fits r" using F by (auto simp: rb_fits_def)
  ultimately show ?thesis
    using st pushed_set[OF h] pushed_fits[OF acct _ fits no] F(1)
    by (auto simp: drain_safe_def pushed_def Let_def)
qed

lemma rb_add_safe:
  assumes inv: "rb_inv r" and F: "set (rb_segs r) \<subseteq> F" "mk_seg off data \<in> F" "stairs F" "\<forall>s \<in> F. seg_fits s"
  shows "\<exists>r'. rb_add r off data = Inr r' \<and> rb_inv r' \<and> set (rb_segs r') \<subseteq> F"
proof -
  have "case_sum (\<lambda>_. False) (\<lambda>r'. rb_inv r' \<and> set (rb_segs r') \<subseteq> F) (rb_add r off data)"
  proof (rule rb_add_rule[where P = "drain_safe F", OF inv])
    fix r s rest
    assume "drain_safe F r" "seg_off s \<le> rb_next r" "set (rb_segs r) = insert s (set rest)"
      "\<And>t. t \<in> set rest \<Longrightarrow> seg_off s \<le> seg_off t"
    from drain_safe_step[OF this]
    show "if stale r s \<le> length (seg_data s) then drain_safe F (drained r s rest) else False" by simp
  next
    fix r' assume "drain_safe F r'" "rb_inv r'"
    then show "set (rb_segs r') \<subseteq> F" by (auto simp: drain_safe_def rb_inv_def not_le[symmetric])
  qed (use F drain_safe_pushed[OF inv F] in auto)
  then show ?thesis by (auto split: sum.splits)
qed

lemma rb_step_safe:
  assumes "set (op_frames p) \<subseteq> F" and F: "stairs F" "\<forall>s \<in> F. seg_fits s"
    and "rb_inv (fst st)" and "set (rb_segs (fst st)) \<subseteq> F"
  shows "case_sum (\<lambda>_. False) (\<lambda>(r, out). rb_inv r \<and> set (rb_segs r) \<subseteq> F) (rb_step p st)"
proof (cases p)
  case (Op_Add off data)
  then show ?thesis using rb_add_safe[OF assms(4,5), of off data] assms by (cases st) auto
next
  case (Op_Read room)
  then show ?thesis using assms rb_read_spec(1,5)
    by (cases st) (auto split: prod.splits)
next
  case (Op_SetCap n)
  then show ?thesis using assms rb_inv_setCap[of "fst st" n] by (cases st) (simp add: rb_setCap_def)
qed

section \<open>Accounts, SACK ranges\<close>

lemma rb_add_size:
  assumes inv: "rb_inv r" and add: "rb_add r off data = Inr r'"
  shows "rb_size r' \<le> rb_size r + int (length data)"
    and "rb_next r < off \<Longrightarrow> rb_size r' \<le> max (rb_size r) (rb_cap r)"
proof -
  have bound: "case_sum (\<lambda>_. True) (\<lambda>r'. rb_inv r' \<and> rb_size r' \<le> B) (rb_add r off data)"
    if "rb_size r \<le> B" "\<not> (rb_next r < off \<and> rb_cap r < rb_size r + int (length data)) \<Longrightarrow>
      rb_size r + int (length data) \<le> B" for B
  proof (rule rb_add_rule[where P = "\<lambda>q. rb_size q \<le> B", OF inv])
    show "rb_size (pushed r off data) \<le> B"
      if "\<not> (rb_next r < off \<and> rb_cap r < rb_size r + int (length data))"
      using \<open>_ \<Longrightarrow> rb_size r + int (length data) \<le> B\<close>[OF that] by (simp add: pushed_def Let_def)
  qed (use \<open>rb_size r \<le> B\<close> in \<open>auto simp: drained_def Let_def\<close>)
  show "rb_size r' \<le> rb_size r + int (length data)"
    using bound[of "rb_size r + int (length data)"] add by simp
  show "rb_size r' \<le> max (rb_size r) (rb_cap r)" if "rb_next r < off"
    using bound[of "max (rb_size r) (rb_cap r)"] add that by force
qed

lemma seg_range_valid: "seg_fits s \<Longrightarrow> seg_data s \<noteq> [] \<Longrightarrow> valid_range (seg_range s)"
  by (simp add: valid_range_def seg_range_def seg_fits_def word_less_nat_alt unat_add_len)

lemma seg_range_covers: "seg_fits s \<Longrightarrow> br_start (seg_range s) \<le> x \<and> x < br_end (seg_range s) \<longleftrightarrow> unat x \<in> seg_span s"
  by (simp add: seg_range_def seg_span_def seg_end_def seg_fits_def word_less_nat_alt word_le_nat_alt unat_add_len)

lemma all_ranges_normal:
  assumes "rb_inv r" and "rb_fits r"
  shows "normal (merge_ranges (sort_ranges (map seg_range (rb_segs r))))"
    and "covers (merge_ranges (sort_ranges (map seg_range (rb_segs r)))) =
      {x. rb_next r < x \<and> unat x \<in> received r}"
proof -
  let ?rs = "map seg_range (rb_segs r)"
  have v: "list_all valid_range (sort_ranges ?rs)"
    using assms seg_range_valid
    by (auto simp: sort_ranges_def list_all_iff rb_inv_def rb_acct_def rb_fits_def)
  have s: "sorted (map br_start (sort_ranges ?rs))" by (simp add: sort_ranges_def)
  show "normal (merge_ranges (sort_ranges ?rs))" using merge_ranges_sorted[OF s v] by simp
  have "covers (merge_ranges (sort_ranges ?rs)) = covers ?rs"
    using merge_ranges_sorted[OF s v] covers_set_cong[of "sort_ranges ?rs" ?rs]
    by (simp add: sort_ranges_def)
  also have "\<dots> = {x. \<exists>s \<in> set (rb_segs r). unat x \<in> seg_span s}"
    using seg_range_covers assms(2) by (auto simp: covers_def rb_fits_def)
  also have "\<dots> = {x. rb_next r < x \<and> unat x \<in> received r}"
    using assms(1)
    by (auto simp: rb_inv_def received_def seg_span_def word_less_nat_alt)
  finally show "covers (merge_ranges (sort_ranges ?rs)) = {x. rb_next r < x \<and> unat x \<in> received r}" .
qed

lemma normal_take: "normal rs \<Longrightarrow> normal (take n rs)"
  by (metis append_take_drop_id normal_append)

lemma normal_take_below:
  assumes "normal rs" and "x \<in> covers (take n rs)" and "y \<in> covers (drop n rs)"
  shows "x < y"
proof -
  obtain a b where "a \<in> set (take n rs)" "x < br_end a" "b \<in> set (drop n rs)" "br_start b \<le> y"
    using assms(2,3) by (auto simp: covers_def)
  moreover from this have "br_end a < br_start b"
    using assms(1) normal_append[of "take n rs" "drop n rs"] by simp
  ultimately show ?thesis by (meson less_le_trans less_trans)
qed

section \<open>A nested segment makes \<open>drain\<close> panic\<close>

lemmas heap_two = heap_push_def heap_pop_def swap_at_def parent_def seg_push_def seg_pop_def seg_less_def

lemma heap_up_simps:
  "heap_up lt xs 0 = xs"
  "0 < j \<Longrightarrow> heap_up lt xs j =
     (if lt (xs ! j) (xs ! parent j) then heap_up lt (swap_at xs (parent j) j) (parent j) else xs)"
  by (subst heap_up.simps, simp add: parent_def Let_def) (subst heap_up.simps, auto simp: parent_def Let_def)

lemma heap_down_leaf: "n \<le> 2 * i + 1 \<Longrightarrow> heap_down lt xs i n = xs"
  by (subst heap_down.simps) simp

lemma seg_push_nil: "seg_push [] s = [s]"
  by (simp add: heap_two heap_up_simps)

lemma seg_push_one: "seg_off s < seg_off t \<Longrightarrow> seg_push [s] t = [s, t]"
  by (auto simp: heap_two heap_up_simps)

lemma seg_push_smaller: "seg_off t < seg_off s \<Longrightarrow> seg_push [s] t = [t, s]"
  by (simp add: heap_two heap_up_simps)

lemma seg_push_least:
  "seg_off z < seg_off s \<Longrightarrow> seg_off s < seg_off t \<Longrightarrow> seg_push [s, t] z = [z, t, s]"
  by (simp add: heap_two heap_up_simps numeral_2_eq_2)

lemma seg_pop_three:
  "seg_off s < seg_off t \<Longrightarrow> seg_pop [z, t, s] = (z, [s, t])"
  by (subst seg_pop_def, subst heap_pop_def, subst heap_down.simps)
    (auto simp: swap_at_def seg_less_def Let_def numeral_2_eq_2)

lemma seg_pop_two: "seg_pop [s, t] = (s, [t])"
  by (subst seg_pop_def, subst heap_pop_def) (simp add: heap_down_leaf swap_at_def Let_def)

lemma seg_pop_one: "seg_pop [t] = (t, [])"
  by (subst seg_pop_def, subst heap_pop_def) (simp add: heap_down_leaf swap_at_def Let_def)

section \<open>Properties\<close>

text \<open>
  C14: every sequence of frames, reads and capacity changes: when the frames carry the bytes of one
  stream, what was read followed by what is ready to be read is exactly the prefix of the stream up to
  \<open>next\<close>, each byte once and in order.
\<close>

theorem reorder_delivers_prefix:
  assumes "list_all (op_agrees c) ps" and "rb_run ps (new_rbuf cap, []) = Inr (r, out)"
  shows "out @ concat (map seg_data (rb_ready r)) = window_of c 0 (unat (rb_next r))"
proof -
  let ?Q = "\<lambda>st. rb_inv (fst st) \<and> delivered c (snd st) (fst st)"
  have "case_sum (\<lambda>_. True) ?Q (rb_run ps (new_rbuf cap, []))"
  proof (rule rb_run_rule[where ok = "op_agrees c"])
    show "?Q (new_rbuf cap, [])"
      by (simp add: rb_inv_new) (simp add: delivered_def new_rbuf_def)
    show "op_agrees c p" if "p \<in> set ps" for p
      using assms(1) that by (simp add: list_all_iff)
    show "case_sum (\<lambda>_. True) ?Q (rb_step p st)" if "op_agrees c p" "?Q st" for p st
      using rb_step_delivered[OF that(1), of st] that(2) by (auto split: sum.splits)
  qed
  then show ?thesis using assms(2) by (simp add: delivered_def)
qed

text \<open>
  No sequence of operations panics when the frames form stairs, as the frames of a sender that
  retransmits whole frames do; the invariant of the buffer holds at the end.
\<close>

theorem reorder_no_panic:
  assumes "stairs (set (concat (map op_frames ps)))" and "list_all seg_fits (concat (map op_frames ps))"
  shows "case rb_run ps (new_rbuf cap, []) of Inl e \<Rightarrow> False | Inr (r, out) \<Rightarrow> rb_inv r"
proof -
  let ?F = "set (concat (map op_frames ps))"
  let ?Q = "\<lambda>st. rb_inv (fst st) \<and> set (rb_segs (fst st)) \<subseteq> ?F"
  have fits: "\<forall>s \<in> ?F. seg_fits s" using assms(2) by (simp only: list_all_iff)
  have "case_sum (\<lambda>_. False) ?Q (rb_run ps (new_rbuf cap, []))"
  proof (rule rb_run_rule[where ok = "\<lambda>p. set (op_frames p) \<subseteq> ?F"])
    show "?Q (new_rbuf cap, [])" by (simp add: rb_inv_new) (simp add: new_rbuf_def)
    show "case_sum (\<lambda>_. False) ?Q (rb_step p st)" if "set (op_frames p) \<subseteq> ?F" "?Q st" for p st
      using rb_step_safe[OF that(1) assms(1) fits, of st] that(2)
      by (auto split: sum.splits simp del: set_concat)
  qed auto
  then show ?thesis by (auto split: sum.splits)
qed

lemma rb_run_received:
  "rb_run ps (r, out) = Inr (r', out') \<Longrightarrow> rb_inv r \<Longrightarrow> rb_fits r \<Longrightarrow>
   list_all seg_fits (concat (map op_frames ps)) \<Longrightarrow>
   rb_inv r' \<and> rb_dropped r \<le> rb_dropped r' \<and>
   (rb_dropped r' = rb_dropped r \<longrightarrow>
     received r' = received r \<union> (\<Union>s \<in> set (concat (map op_frames ps)). seg_span s))"
proof (induction ps arbitrary: r out)
  case Nil
  then show ?case by simp
next
  case (Cons p ps)
  obtain q o2 where step: "rb_step p (r, out) = Inr (q, o2)" and run: "rb_run ps (q, o2) = Inr (r', out')"
    using Cons.prems(1) by (auto split: sum.splits)
  have "rb_inv q \<and> rb_fits q \<and> rb_dropped r \<le> rb_dropped q \<and>
    (rb_dropped q = rb_dropped r \<longrightarrow> received q = received r \<union> (\<Union>s \<in> set (op_frames p). seg_span s))"
  proof (cases p)
    case (Op_Add off data)
    then have add: "rb_add r off data = Inr q" and fits: "unat off + length data < 2 ^ 64"
      using step Cons.prems(4) by (auto simp: seg_fits_def split: sum.splits)
    show ?thesis
      using rb_add_received[OF Cons.prems(2,3) fits add] rb_inv_add[OF Cons.prems(2) add] Op_Add
      by (auto simp: seg_span_def seg_end_def frame_span_def)
  next
    case (Op_Read room)
    then obtain bs where "rb_read r room = (bs, q)" using step by (auto split: prod.splits)
    moreover from this have "rb_dropped q = rb_dropped r"
      by (auto simp: rb_read_def split: prod.splits)
    ultimately show ?thesis using rb_read_spec[OF Cons.prems(2)] Cons.prems(3) Op_Read
      by (auto simp: rb_fits_def received_def)
  next
    case (Op_SetCap n)
    then show ?thesis using step rb_inv_setCap Cons.prems
      by (auto simp: rb_setCap_def rb_fits_def received_def)
  qed
  then show ?case using Cons.IH[OF run] Cons.prems(4) by auto
qed

text \<open>
  C15: refinement: while nothing is dropped, the buffer implements the set of received offsets: it is the
  union of the frames' spans, and \<open>next\<close> is its first gap, so every contiguous byte has been
  delivered.
\<close>

theorem reorder_refines_received_set:
  assumes "list_all seg_fits (concat (map op_frames ps))"
    and "rb_run ps (new_rbuf cap, []) = Inr (r, out)" and "rb_dropped r = 0"
  shows "received r = (\<Union>s \<in> set (concat (map op_frames ps)). seg_span s) \<and>
    unat (rb_next r) = (LEAST n. n \<notin> (\<Union>s \<in> set (concat (map op_frames ps)). seg_span s))"
proof -
  have "rb_inv r \<and> received r = (\<Union>s \<in> set (concat (map op_frames ps)). seg_span s)"
    using rb_run_received[OF assms(2) rb_inv_new _ assms(1)] assms(3)
    by (simp add: rb_fits_def new_rbuf_def received_def)
  then show ?thesis using rb_next_least by metis
qed

text \<open>
  A frame that starts at or before the gap and reaches beyond it is accepted whatever the
  capacity is, and moves \<open>next\<close> forward: a full buffer cannot deadlock.
\<close>

theorem reorder_gap_always_filled:
  assumes "rb_inv r" and "rb_fits r" and "unat off + length data < 2 ^ 64"
    and "off \<le> rb_next r" and "unat (rb_next r) < unat off + length data"
    and "rb_add r off data = Inr r'"
  shows "rb_next r < rb_next r' \<and> rb_dropped r' = rb_dropped r"
proof -
  have no: "\<not> rb_next r < off" using assms(4) by simp
  have rec: "received r' = received r \<union> frame_span off data \<and> rb_dropped r' = rb_dropped r"
    using rb_add_received[OF assms(1-3,6)] no by blast
  have "unat (rb_next r) \<in> frame_span off data"
    using assms(4,5) by (simp add: frame_span_def word_le_nat_alt)
  then have "{..unat (rb_next r)} \<subseteq> received r'"
    using rec by (auto simp: received_def le_less)
  then have "\<not> unat (rb_next r') \<le> unat (rb_next r)"
    using rb_next_not_received[OF rb_inv_add[OF assms(1,6)]] by auto
  then show ?thesis using rec by (simp add: word_less_nat_alt)
qed

text \<open>
  Memory: a frame beyond the gap never takes the buffer over its capacity, any other adds at
  most its own length, and the advertised window is the capacity less the bytes held.
\<close>

theorem reorder_memory_bound:
  assumes "rb_inv r" and "rb_add r off data = Inr r'"
  shows "rb_sizeBytes r' \<le> (if rb_next r < off then max (rb_sizeBytes r) (rb_cap r)
      else rb_sizeBytes r + int (length data)) \<and>
    rb_sizeBytes r' = int (length (concat (map seg_data (rb_segs r' @ rb_ready r')))) \<and>
    rb_window r' = rb_cap r' - rb_sizeBytes r' \<and> rb_avail r' \<le> rb_sizeBytes r'"
proof -
  have "rb_acct r'" using rb_inv_add[OF assms] by (simp add: rb_inv_def)
  then show ?thesis using rb_add_size[OF assms]
    by (simp add: rb_sizeBytes_def rb_window_def rb_avail_def rb_acct_def length_concat_map)
qed

text \<open>
  The SACK ranges of an ACK are ascending and disjoint, lie beyond \<open>next\<close>, hold received bytes
  only, number at most \<open>max\<close>, and leave a received byte out only when \<open>max\<close> ranges below it are given.
\<close>

theorem reorder_ranges_sound:
  assumes "rb_inv r" and "rb_fits r" and "rs = rb_ranges r (int m)"
  shows "normal rs \<and> length rs \<le> m \<and> covers rs \<subseteq> {x. rb_next r < x \<and> unat x \<in> received r} \<and>
    (\<forall>x. rb_next r < x \<and> unat x \<in> received r \<and> x \<notin> covers rs \<longrightarrow>
      length rs = m \<and> (\<forall>y \<in> covers rs. y < x))"
proof -
  let ?all = "merge_ranges (sort_ranges (map seg_range (rb_segs r)))"
  note all = all_ranges_normal[OF assms(1,2)]
  have rs: "rs = take m ?all"
    using assms(3) by (simp add: rb_ranges_def sort_ranges_def merge_ranges_def)
  have split: "covers ?all = covers rs \<union> covers (drop m ?all)"
    unfolding rs by (metis append_take_drop_id covers_simps(3))
  have "length rs = m \<and> (\<forall>y \<in> covers rs. y < x)"
    if "rb_next r < x" "unat x \<in> received r" "x \<notin> covers rs" for x
  proof -
    have x: "x \<in> covers (drop m ?all)" using that all(2) split by auto
    then have "drop m ?all \<noteq> []" by auto
    then show ?thesis using normal_take_below[OF all(1) _ x] unfolding rs by simp
  qed
  then show ?thesis using all normal_take[OF all(1)] split unfolding rs by auto
qed

text \<open>
  Reading: at most the room of the caller's buffer, at most what is ready, exactly the smaller of
  the two, and every byte read is given back to the window.
\<close>

theorem reorder_read_window:
  assumes "rb_inv r" and "rb_read r room = (out, r')"
  shows "int (length out) = min (int room) (rb_avail r) \<and> rb_inv r' \<and>
    out @ concat (map seg_data (rb_ready r')) = concat (map seg_data (rb_ready r)) \<and>
    rb_window r' = rb_window r + int (length out) \<and> rb_cum r' = rb_cum r"
  using rb_read_spec[OF assms] by (simp add: rb_cum_def)

lemma rb_drain_stop: "\<not> drain_ready r \<Longrightarrow> rb_drain r = Inr r"
  by (subst rb_drain.simps) simp

lemma rb_drain_go: "drain_ready r \<Longrightarrow> rb_drain r = (case drain_step r of Inl e \<Rightarrow> Inl e | Inr r' \<Rightarrow> rb_drain r')"
  by (subst rb_drain.simps) simp

lemmas rb_eval = rb_drain_stop rb_drain_go seg_push_nil seg_push_one seg_push_smaller seg_pop_one
  seg_pop_two rb_add_def drain_step_def slice_from_def drain_ready_def rb_read_def u64_of_len_def
  new_rbuf_def

text \<open>
  The code panics on frames of a peer that break the stairs: a frame \<open>d1\<close> at \<open>a\<close>, a frame \<open>d2\<close>
  strictly inside it, then the frame that fills the gap before \<open>a\<close>. \<open>drain\<close> takes \<open>d1\<close>, and slices \<open>d2\<close>
  beyond its end.
\<close>

theorem reorder_nested_frame_panics:
  assumes "a < b" and "unat b + length d2 < unat a + length d1" and "unat a + length d1 < 2 ^ 64"
    and "d2 \<noteq> []" and "length d0 = unat a" and "0 < a" and "int (length d1 + length d2) \<le> cap"
  shows "rb_run [Op_Add a d1, Op_Add b d2, Op_Add 0 d0] (new_rbuf cap, []) = Inl Slice_Bounds"
proof -
  let ?s1 = "mk_seg a d1" and ?s2 = "mk_seg b d2" and ?z = "mk_seg 0 d0"
  have ab: "unat a < unat b" "0 < unat a" using assms(1,6) by (simp_all add: word_less_nat_alt)
  have d1: "d1 \<noteq> []" and d0: "d0 \<noteq> []" using assms(2,5) ab by auto
  have u: "unat (a + u64_of_len (length d1)) = unat a + length d1"
    "unat (b + u64_of_len (length d2)) = unat b + length d2" "u64_of_len (length d0) = a"
    using assms ab unat_add_len[of a "length d1"] unat_add_len[of b "length d2"]
    by (simp_all add: u64_of_len_def)
  define r1 where "r1 = (new_rbuf cap)\<lparr>rb_segs := [?s1], rb_size := int (length d1)\<rparr>"
  define r2 where "r2 = r1\<lparr>rb_segs := [?s1, ?s2], rb_size := int (length d1) + int (length d2)\<rparr>"
  define r3 where "r3 = r2\<lparr>rb_segs := [?z, ?s2, ?s1],
    rb_size := int (length d1) + int (length d2) + int (length d0)\<rparr>"
  define r4 where "r4 = drained r3 ?z [?s1, ?s2]"
  define r5 where "r5 = drained r4 ?s1 [?s2]"
  have st: "rb_drain r1 = Inr r1" "rb_drain r2 = Inr r2" using ab
    by (subst rb_drain.simps, simp add: drain_ready_def r1_def r2_def new_rbuf_def word_le_nat_alt)+
  have add1: "rb_add (new_rbuf cap) a d1 = Inr r1"
    using d1 u ab assms(7) st(1)
    by (simp add: rb_add_eq pushed_def r1_def new_rbuf_def seg_push_nil word_le_nat_alt)
  have add2: "rb_add r1 b d2 = Inr r2"
    using assms(1,4,7) u ab st(2)
    by (simp add: rb_add_eq pushed_def r1_def r2_def new_rbuf_def seg_push_one word_le_nat_alt)
  have add3: "rb_add r2 0 d0 = rb_drain r3"
    using d0 u ab assms(1,6)
    by (simp add: rb_add_eq pushed_def r1_def r2_def r3_def new_rbuf_def seg_push_least word_le_nat_alt)
  have next3: "rb_next r3 = 0" "rb_segs r3 = [?z, ?s2, ?s1]"
    by (simp_all add: r1_def r2_def r3_def new_rbuf_def)
  have next4: "rb_next r4 = a" "rb_segs r4 = [?s1, ?s2]"
    using next3 u by (simp_all add: r4_def drained_def stale_def Let_def)
  have next5: "rb_next r5 = a + u64_of_len (length d1)" "rb_segs r5 = [?s2]"
    using next4 by (simp_all add: r5_def drained_def stale_def Let_def)
  have "rb_drain r3 = rb_drain r4"
    using drain_step_eq[of r3 ?z "[?s1, ?s2]"] next3 assms(1)
    by (subst rb_drain.simps) (simp add: drain_ready_def seg_pop_three r4_def stale_def)
  also have "\<dots> = rb_drain r5"
    using drain_step_eq[of r4 ?s1 "[?s2]"] next4
    by (subst rb_drain.simps) (simp add: drain_ready_def seg_pop_two r5_def stale_def)
  also have "\<dots> = Inl Slice_Bounds"
  proof -
    have le: "b \<le> rb_next r5" using u next5 ab assms(2) by (simp add: word_le_nat_alt)
    have "\<not> stale r5 ?s2 \<le> length d2" using u next5 ab assms(2) by (simp add: stale_def)
    then have "drain_step r5 = Inl Slice_Bounds"
      using drain_step_eq[of r5 ?s2 "[]"] next5 le by (simp add: drain_ready_def seg_pop_one)
    then show ?thesis using next5 le by (subst rb_drain.simps) (simp add: drain_ready_def)
  qed
  finally show ?thesis using add1 add2 add3 by simp
qed

section \<open>Witnesses\<close>

text \<open>
  A run of four operations: a frame beyond the gap, the frame that fills it and overlaps it by a byte,
  a read of two bytes, another frame beyond the gap.
\<close>

definition demo_stream :: "nat \<Rightarrow> byte" where
  "demo_stream i = of_nat i"

definition demo_ops :: "rb_op list" where
  "demo_ops = [Op_Add 2 [2, 3, 4], Op_Add 0 [0, 1, 2], Op_Read 2, Op_Add 6 [6]]"

definition demo_rbuf :: rbuf where
  "demo_rbuf = \<lparr>rb_cap = 100, rb_next = 5, rb_segs = [mk_seg 6 [6]],
     rb_ready = [mk_seg 0 [2], mk_seg 3 [3, 4]], rb_size = 4, rb_readyBytes = 3, rb_dropped = 0\<rparr>"

lemma demo_run: "rb_run demo_ops (new_rbuf 100, []) = Inr (demo_rbuf, [0, 1])"
  by (simp add: demo_ops_def demo_rbuf_def rb_eval mk_seg_def)

lemma demo_agrees: "list_all (op_agrees demo_stream) demo_ops"
  by (simp add: demo_ops_def demo_stream_def frame_agrees_def window_of_def upt_rec)

lemma demo_fits: "list_all seg_fits (concat (map op_frames demo_ops))"
  by (simp add: demo_ops_def seg_fits_def)

lemma demo_stairs: "stairs (set (concat (map op_frames demo_ops)))"
  by (simp add: demo_ops_def stairs_def seg_end_def)

lemma demo_inv: "rb_inv demo_rbuf" "rb_fits demo_rbuf"
  by (simp_all add: demo_rbuf_def rb_inv_def rb_acct_def rb_fits_def seg_fits_def heap_ordered_def)

lemma demo_add: "rb_add demo_rbuf 5 [5] = Inr (demo_rbuf\<lparr>rb_segs := [], rb_next := 7,
    rb_ready := [mk_seg 0 [2], mk_seg 3 [3, 4], mk_seg 5 [5], mk_seg 6 [6]], rb_size := 5, rb_readyBytes := 5\<rparr>)"
  by (simp add: demo_rbuf_def rb_eval)

theorem reorder_delivers_prefix_witness:
  "[0, 1] @ concat (map seg_data (rb_ready demo_rbuf)) = window_of demo_stream 0 (unat (rb_next demo_rbuf))"
  by (rule reorder_delivers_prefix[OF demo_agrees demo_run])

theorem reorder_no_panic_witness:
  "case rb_run demo_ops (new_rbuf 100, []) of Inl e \<Rightarrow> False | Inr (r, out) \<Rightarrow> rb_inv r"
  by (rule reorder_no_panic[OF demo_stairs demo_fits])

theorem reorder_refines_received_set_witness:
  "received demo_rbuf = (\<Union>s \<in> set (concat (map op_frames demo_ops)). seg_span s) \<and>
   unat (rb_next demo_rbuf) = (LEAST n. n \<notin> (\<Union>s \<in> set (concat (map op_frames demo_ops)). seg_span s))"
  by (rule reorder_refines_received_set[OF demo_fits demo_run]) (simp add: demo_rbuf_def)

theorem reorder_gap_always_filled_witness: "rb_next demo_rbuf < (7::u64) \<and> rb_dropped demo_rbuf = 0"
  using reorder_gap_always_filled[OF demo_inv _ _ _ demo_add] by (simp add: demo_rbuf_def)

theorem reorder_memory_bound_witness: "rb_sizeBytes demo_rbuf + 1 = 5 \<and> (5::int) \<le> rb_sizeBytes demo_rbuf + int (length [5::byte])"
  using reorder_memory_bound[OF demo_inv(1) demo_add] by (simp add: demo_rbuf_def rb_sizeBytes_def)

theorem reorder_ranges_sound_witness:
  "normal (rb_ranges demo_rbuf (int 32)) \<and> length (rb_ranges demo_rbuf (int 32)) \<le> 32"
  using reorder_ranges_sound[OF demo_inv refl, of 32] by blast

theorem reorder_read_window_witness:
  "\<exists>r'. rb_read demo_rbuf 2 = ([2, 3], r') \<and> rb_window r' = rb_window demo_rbuf + 2"
proof -
  obtain r' where r: "rb_read demo_rbuf 2 = ([2, 3], r')"
    by (simp add: demo_rbuf_def rb_read_def)
  then show ?thesis using reorder_read_window[OF demo_inv(1) r] by simp
qed

theorem reorder_nested_frame_panics_witness:
  "rb_run [Op_Add 10 (replicate 20 0), Op_Add 12 [1, 2, 3], Op_Add 0 (replicate 10 7)] (new_rbuf 4096, []) =
   Inl Slice_Bounds"
  by (rule reorder_nested_frame_panics) simp_all

end
