(* ===== verification/Frame.thy ===== *)
theory Frame
  imports Sack
begin

text \<open>
  The data-plane frames of \<open>src/frame.go\<close>: the varint fields of \<open>encoding/binary\<close>, the encoders
  \<open>appendDataFrame\<close>, \<open>appendAckFrame\<close> and \<open>appendCtrlFrame\<close>, the decoder \<open>frameReader.next\<close> over
  a byte stream with all its limits, and \<open>validateAck\<close>. A path's stream is the list of bytes that
  arrive and the error its reader reports after them. The text of error messages is not modelled.
\<close>

section \<open>Varints of the standard library\<close>

text \<open>\<open>AppendUvarint\<close>: seven bits a byte, the continuation bit on all but the last.\<close>

function put_uvarint :: "u64 \<Rightarrow> bytes" where
  "put_uvarint v =
     (if v < 0x80 then [ucast v] else (ucast v OR 0x80) # put_uvarint (drop_bit 7 v))"
  by pat_completeness auto

lemma drop_bit_7_less: "0x80 \<le> v \<Longrightarrow> unat (drop_bit 7 v) < unat v" for v :: u64
  by (simp add: drop_bit_eq_div unat_div word_le_nat_alt)

termination put_uvarint
  by (relation "measure unat") (auto intro: drop_bit_7_less simp: not_less)

declare put_uvarint.simps [simp del]

datatype io_err = Io_EOF | Io_Unexpected_EOF | Io_Other

datatype frame_err =
    Err_EOF
  | Err_Io io_err
  | Err_Overflow
  | Err_Payload_Too_Big u64
  | Err_Too_Many_Ranges u64
  | Err_Bad_Range brange
  | Err_Body_Too_Big u64
  | Err_Unknown_Type u64

text \<open>
  \<open>ReadUvarint\<close>, from its \<open>i\<close>-th iteration on with accumulator \<open>x\<close>; \<open>fin\<close> is what the reader
  reports when the bytes are used up.
\<close>

function read_uvarint_from :: "io_err \<Rightarrow> nat \<Rightarrow> u64 \<Rightarrow> bytes \<Rightarrow> frame_err + u64 \<times> bytes" where
  "read_uvarint_from fin i x bs =
     (if 10 \<le> i then Inl Err_Overflow
      else case bs of
        [] \<Rightarrow> Inl (Err_Io (if 0 < i \<and> fin = Io_EOF then Io_Unexpected_EOF else fin))
      | b # bs' \<Rightarrow>
          if b < 0x80 then
            if i = 9 \<and> 1 < b then Inl Err_Overflow
            else Inr (x OR push_bit (7 * i) (ucast b), bs')
          else read_uvarint_from fin (i + 1) (x OR push_bit (7 * i) (ucast (b AND 0x7f))) bs')"
  by pat_completeness auto
termination
  by (relation "measure (\<lambda>(fin, i, x, bs). length bs)") auto

declare read_uvarint_from.simps [simp del]

definition read_uvarint :: "io_err \<Rightarrow> bytes \<Rightarrow> frame_err + u64 \<times> bytes" where
  "read_uvarint fin bs = read_uvarint_from fin 0 0 bs"

text \<open>\<open>io.ReadFull\<close> into a buffer of \<open>n\<close> bytes.\<close>

definition read_full :: "io_err \<Rightarrow> nat \<Rightarrow> bytes \<Rightarrow> frame_err + bytes \<times> bytes" where
  "read_full fin n bs =
     (if n \<le> length bs then Inr (take n bs, drop n bs)
      else Inl (Err_Io (if bs \<noteq> [] \<and> fin = Io_EOF then Io_Unexpected_EOF else fin)))"

text \<open>Sequencing of reads: the first error ends the frame.\<close>

definition rd_bind :: "frame_err + 'a \<times> bytes \<Rightarrow> ('a \<Rightarrow> bytes \<Rightarrow> frame_err + 'b) \<Rightarrow> frame_err + 'b" where
  "rd_bind m k = (case m of Inl e \<Rightarrow> Inl e | Inr (v, bs) \<Rightarrow> k v bs)"

lemma rd_bind_simps [simp]:
  "rd_bind (Inl e) k = Inl e"
  "rd_bind (Inr (v, bs)) k = k v bs"
  by (simp_all add: rd_bind_def)

lemma rd_bind_Inr: "rd_bind m k = Inr y \<longleftrightarrow> (\<exists>v bs. m = Inr (v, bs) \<and> k v bs = Inr y)"
  by (auto simp: rd_bind_def split: sum.splits prod.splits)

section \<open>Frames and limits\<close>

type_synonym frame_type = byte

definition frameData :: frame_type where "frameData = 1"
definition frameAck :: frame_type where "frameAck = 2"
definition framePathAttach :: frame_type where "framePathAttach = 3"
definition framePathDrop :: frame_type where "framePathDrop = 4"
definition framePathRequest :: frame_type where "framePathRequest = 5"
definition framePathReady :: frame_type where "framePathReady = 6"
definition framePing :: frame_type where "framePing = 7"
definition frameTelemetry :: frame_type where "frameTelemetry = 8"
definition frameFin :: frame_type where "frameFin = 9"
definition frameRst :: frame_type where "frameRst = 10"

lemmas frame_types = frameData_def frameAck_def framePathAttach_def framePathDrop_def
  framePathRequest_def framePathReady_def framePing_def frameTelemetry_def frameFin_def frameRst_def

definition maxFramePayload :: nat where "maxFramePayload = 65536"
definition maxAckRanges :: nat where "maxAckRanges = 32"
definition maxAckSeqAdvance :: u64 where "maxAckSeqAdvance = 1048576"
definition maxCtrlBody :: nat where "maxCtrlBody = 65536"

record frame =
  f_off :: u64
  f_sendTs :: u64
  f_payload :: bytes
  f_cum :: u64
  f_tsEcho :: u64
  f_tsPath :: u64
  f_window :: u64
  f_seq :: u64
  f_ranges :: "brange list"
  f_body :: bytes

definition empty_frame :: frame where
  "empty_frame = \<lparr>f_off = 0, f_sendTs = 0, f_payload = [], f_cum = 0, f_tsEcho = 0, f_tsPath = 0,
     f_window = 0, f_seq = 0, f_ranges = [], f_body = []\<rparr>"

section \<open>Encoders\<close>

definition append_data_frame :: "bytes \<Rightarrow> u64 \<Rightarrow> u64 \<Rightarrow> bytes \<Rightarrow> bytes" where
  "append_data_frame dst off ts payload =
     dst @ put_uvarint (ucast frameData) @ put_uvarint off @ put_uvarint ts
     @ put_uvarint (u64_of_len (length payload)) @ payload"

definition append_ack_frame ::
  "bytes \<Rightarrow> u64 \<Rightarrow> u64 \<Rightarrow> u64 \<Rightarrow> u64 \<Rightarrow> u64 \<Rightarrow> brange list \<Rightarrow> bytes" where
  "append_ack_frame dst cum tsEcho tsPath wnd sq ranges =
     (let rs = (if maxAckRanges < length ranges then take maxAckRanges ranges else ranges) in
      dst @ put_uvarint (ucast frameAck) @ put_uvarint cum @ put_uvarint tsEcho @ put_uvarint tsPath
      @ put_uvarint wnd @ put_uvarint sq @ put_uvarint (u64_of_len (length rs))
      @ concat (map (\<lambda>r. put_uvarint (br_start r) @ put_uvarint (br_end r)) rs))"

definition append_ctrl_frame :: "bytes \<Rightarrow> frame_type \<Rightarrow> bytes \<Rightarrow> bytes" where
  "append_ctrl_frame dst ft body =
     dst @ put_uvarint (ucast ft) @ put_uvarint (u64_of_len (length body)) @ body"

section \<open>Decoder\<close>

fun read_ranges :: "io_err \<Rightarrow> nat \<Rightarrow> bytes \<Rightarrow> frame_err + brange list \<times> bytes" where
  "read_ranges fin 0 bs = Inr ([], bs)"
| "read_ranges fin (Suc n) bs =
     rd_bind (read_uvarint fin bs) (\<lambda>a bs. rd_bind (read_uvarint fin bs) (\<lambda>b bs.
       if b \<le> a then Inl (Err_Bad_Range (mk_range a b))
       else rd_bind (read_ranges fin n bs) (\<lambda>rs bs. Inr (mk_range a b # rs, bs))))"

definition read_data :: "io_err \<Rightarrow> bytes \<Rightarrow> frame_err + frame \<times> bytes" where
  "read_data fin bs =
     rd_bind (read_uvarint fin bs) (\<lambda>off bs.
     rd_bind (read_uvarint fin bs) (\<lambda>ts bs.
     rd_bind (read_uvarint fin bs) (\<lambda>n bs.
       if of_nat maxFramePayload < n then Inl (Err_Payload_Too_Big n)
       else rd_bind (read_full fin (unat n) bs) (\<lambda>p bs.
         Inr (empty_frame\<lparr>f_off := off, f_sendTs := ts, f_payload := p\<rparr>, bs)))))"

definition read_ack :: "io_err \<Rightarrow> bytes \<Rightarrow> frame_err + frame \<times> bytes" where
  "read_ack fin bs =
     rd_bind (read_uvarint fin bs) (\<lambda>cum bs.
     rd_bind (read_uvarint fin bs) (\<lambda>echo bs.
     rd_bind (read_uvarint fin bs) (\<lambda>path bs.
     rd_bind (read_uvarint fin bs) (\<lambda>wnd bs.
     rd_bind (read_uvarint fin bs) (\<lambda>sq bs.
     rd_bind (read_uvarint fin bs) (\<lambda>n bs.
       if of_nat maxAckRanges < n then Inl (Err_Too_Many_Ranges n)
       else rd_bind (read_ranges fin (unat n) bs) (\<lambda>rs bs.
         Inr (empty_frame\<lparr>f_cum := cum, f_tsEcho := echo, f_tsPath := path, f_window := wnd,
                f_seq := sq, f_ranges := rs\<rparr>, bs))))))))"

definition read_ctrl :: "io_err \<Rightarrow> bytes \<Rightarrow> frame_err + frame \<times> bytes" where
  "read_ctrl fin bs =
     rd_bind (read_uvarint fin bs) (\<lambda>n bs.
       if of_nat maxCtrlBody < n then Inl (Err_Body_Too_Big n)
       else rd_bind (read_full fin (unat n) bs) (\<lambda>p bs. Inr (empty_frame\<lparr>f_body := p\<rparr>, bs)))"

definition ctrl_type :: "frame_type \<Rightarrow> bool" where
  "ctrl_type ft \<longleftrightarrow> ft \<in> set [framePathAttach, framePathDrop, framePathRequest, framePathReady,
     framePing, frameTelemetry, frameFin, frameRst]"

text \<open>\<open>frameType(t)\<close> keeps the low byte of the varint.\<close>

definition read_frame :: "io_err \<Rightarrow> bytes \<Rightarrow> frame_err + (frame_type \<times> frame) \<times> bytes" where
  "read_frame fin bs =
     (case read_uvarint fin bs of
        Inl e \<Rightarrow> Inl (if e = Err_Io Io_EOF then Err_EOF else e)
      | Inr (t, bs) \<Rightarrow>
          let ft = (ucast t :: frame_type);
              tag = (\<lambda>f bs. Inr ((ft, f), bs)) in
          if ft = frameData then rd_bind (read_data fin bs) tag
          else if ft = frameAck then rd_bind (read_ack fin bs) tag
          else if ctrl_type ft then rd_bind (read_ctrl fin bs) tag
          else Inl (Err_Unknown_Type t))"

section \<open>Validation of an ACK against the send state\<close>

datatype ack_err = Ack_Cum | Ack_Seq | Ack_Range

definition validate_ack :: "frame \<Rightarrow> u64 \<Rightarrow> u64 \<Rightarrow> u64 \<Rightarrow> bool \<Rightarrow> ack_err option" where
  "validate_ack f sentOff cumAcked peerAckSeq gotPeerAck =
     (if f_cum f < cumAcked \<or> sentOff < f_cum f then Some Ack_Cum
      else let prev = (if gotPeerAck then peerAckSeq else 0) in
      if f_seq f < prev \<or> maxAckSeqAdvance < f_seq f - prev then Some Ack_Seq
      else if list_ex (\<lambda>r. br_start r \<le> f_cum f \<or> sentOff < br_end r) (f_ranges f) then Some Ack_Range
      else None)"

section \<open>Varint round trip\<close>


lemma mask7: "(0x7f :: 'a::len word) = mask 7"
  by (simp add: mask_eq_decr_exp)

lemma bit_0x80: "bit (0x80 :: byte) n \<longleftrightarrow> n = 7"
proof -
  have "(0x80 :: byte) = push_bit 7 1" by simp
  then show ?thesis by (simp only: bit_push_bit_iff bit_1_iff) auto
qed

lemma low_bits:
  fixes v :: u64
  shows "ucast ((ucast v OR 0x80 :: byte) AND 0x7f) = v AND 0x7f"
  unfolding mask7
proof (rule bit_eqI)
  show "bit (ucast ((ucast v OR 0x80 :: byte) AND mask 7) :: u64) n \<longleftrightarrow> bit (v AND mask 7) n" for n
    using bit_0x80[of n] by (cases "n < 7") (auto simp: bit_simps simp del: bit_numeral_iff)
qed

lemma high_byte: "\<not> (ucast v OR 0x80 :: byte) < 0x80" for v :: u64
  by (simp add: not_less le_word_or1)

lemma unat_small_byte: "unat v < 0x80 \<Longrightarrow> unat (ucast v :: byte) = unat v" for v :: u64
  by (simp add: unsigned_ucast_eq unsigned_take_bit_eq take_bit_nat_eq_self)

lemma small_byte: "v < 0x80 \<Longrightarrow> (ucast v :: byte) < 0x80 \<and> ucast (ucast v :: byte) = v" for v :: u64
  using unat_small_byte[of v]
  by (simp add: word_less_nat_alt word_unat_eq_iff unsigned_ucast_eq unsigned_take_bit_eq take_bit_nat_eq_self)

text \<open>The number of bytes still allowed bounds the value still to be written.\<close>

lemma drop_7_bound:
  fixes v :: u64
  assumes "\<not> v < 0x80" and "i \<le> 9" and v: "unat v < 2 ^ (64 - 7 * i)"
  shows "i \<le> 8" and "unat (drop_bit 7 v) < 2 ^ (64 - 7 * (i + 1))"
proof -
  have "i \<noteq> 9"
  proof
    assume "i = 9"
    then have "unat v < 2" using v by simp
    then show False using assms(1) by (simp add: word_less_nat_alt)
  qed
  then show i: "i \<le> 8" using assms(2) by simp
  then have "64 - 7 * i = (64 - 7 * (i + 1)) + 7" by simp
  then have "unat v < 2 ^ (64 - 7 * (i + 1)) * 2 ^ 7" using v by (simp only: power_add)
  then show "unat (drop_bit 7 v) < 2 ^ (64 - 7 * (i + 1))"
    by (simp add: drop_bit_eq_div unat_div less_mult_imp_div_less)
qed

lemma split_7: "push_bit k (v AND 0x7f) OR push_bit (k + 7) (drop_bit 7 v) = push_bit k v" for v :: u64
  unfolding mask7
proof (rule bit_eqI)
  show "bit (push_bit k (v AND mask 7) OR push_bit (k + 7) (drop_bit 7 v)) n = bit (push_bit k v) n" for n
  proof (cases "n < k + 7")
    case False
    then have "7 + (n - (k + 7)) = n - k" by simp
    then show ?thesis using False by (auto simp: bit_simps)
  qed (auto simp: bit_simps)
qed

lemma read_put_from:
  "i \<le> 9 \<Longrightarrow> unat v < 2 ^ (64 - 7 * i) \<Longrightarrow>
   read_uvarint_from fin i x (put_uvarint v @ rest) = Inr (x OR push_bit (7 * i) v, rest)"
proof (induction v arbitrary: i x rule: put_uvarint.induct)
  case (1 v)
  show ?case
  proof (cases "v < 0x80")
    case True
    have put: "put_uvarint v = [ucast v]" using True by (subst put_uvarint.simps) simp
    have "\<not> (i = 9 \<and> 1 < (ucast v :: byte))"
    proof
      assume a: "i = 9 \<and> 1 < (ucast v :: byte)"
      then have "unat v < 2" using 1 by simp
      then have "unat (ucast v :: byte) < 2" using unat_small_byte[of v] by simp
      then show False using a by (simp add: word_less_nat_alt)
    qed
    then show ?thesis unfolding put using 1 small_byte[OF True]
      by (subst read_uvarint_from.simps) auto
  next
    case False
    let ?b = "ucast v OR 0x80 :: byte"
    have put: "put_uvarint v = ?b # put_uvarint (drop_bit 7 v)" using False by (subst put_uvarint.simps) simp
    note d = drop_7_bound[OF False "1.prems"]
    then have i: "i + 1 \<le> 9" "\<not> 10 \<le> i" by simp_all
    have "read_uvarint_from fin i x (put_uvarint v @ rest) =
        read_uvarint_from fin (i + 1) (x OR push_bit (7 * i) (v AND 0x7f)) (put_uvarint (drop_bit 7 v) @ rest)"
      unfolding put using i high_byte[of v] low_bits[of v] by (subst read_uvarint_from.simps) simp
    also have "\<dots> = Inr ((x OR push_bit (7 * i) (v AND 0x7f)) OR push_bit (7 * (i + 1)) (drop_bit 7 v), rest)"
      by (rule "1.IH"[OF False i(1) d(2)])
    also have "(x OR push_bit (7 * i) (v AND 0x7f)) OR push_bit (7 * (i + 1)) (drop_bit 7 v) = x OR push_bit (7 * i) v"
      unfolding or.assoc using split_7[of "7 * i" v] by (simp only: distrib_left mult_1_right)
    finally show ?thesis .
  qed
qed

lemma read_put [simp]: "read_uvarint fin (put_uvarint v @ rest) = Inr (v, rest)"
  using read_put_from[of 0 v fin 0 rest] unsigned_less[of v] by (simp add: read_uvarint_def)

lemma put_nonempty [simp]: "put_uvarint v \<noteq> []"
  by (subst put_uvarint.simps) simp

lemma length_put_from: "i \<le> 9 \<Longrightarrow> unat v < 2 ^ (64 - 7 * i) \<Longrightarrow> length (put_uvarint v) \<le> 10 - i"
proof (induction v arbitrary: i rule: put_uvarint.induct)
  case (1 v)
  show ?case
  proof (cases "v < 0x80")
    case True
    then show ?thesis using 1 by (subst put_uvarint.simps) simp
  next
    case False
    note d = drop_7_bound[OF False "1.prems"]
    then have i: "i + 1 \<le> 9" by simp
    show ?thesis using "1.IH"[OF False i d(2)] False i by (subst put_uvarint.simps) simp
  qed
qed

lemma length_put: "length (put_uvarint v) \<le> 10"
  using length_put_from[of 0 v] unsigned_less[of v] by simp

text \<open>Reading consumes between one and ten bytes of the input.\<close>

lemma read_from_used:
  "read_uvarint_from fin i x bs = Inr (v, rest) \<Longrightarrow>
   \<exists>used. bs = used @ rest \<and> used \<noteq> [] \<and> length used \<le> 10 - i"
proof (induction fin i x bs rule: read_uvarint_from.induct)
  case (1 fin i x bs)
  then obtain b bs' where bs: "bs = b # bs'" and i: "\<not> 10 \<le> i"
    by (subst (asm) read_uvarint_from.simps) (auto split: if_splits list.splits)
  show ?case
  proof (cases "b < 0x80")
    case True
    then show ?thesis using "1.prems" bs i
      by (subst (asm) read_uvarint_from.simps) (auto split: if_splits intro: exI[of _ "[b]"])
  next
    case False
    then have "read_uvarint_from fin (i + 1) (x OR push_bit (7 * i) (ucast (b AND 0x7f))) bs' = Inr (v, rest)"
      using "1.prems" bs i by (subst (asm) read_uvarint_from.simps) simp
    from "1.IH"[OF i bs False this] obtain used where
      "bs' = used @ rest" "used \<noteq> []" "length used \<le> 10 - (i + 1)" by blast
    then show ?thesis using bs i by (intro exI[of _ "b # used"]) simp
  qed
qed

lemma read_uvarint_used:
  "read_uvarint fin bs = Inr (v, rest) \<Longrightarrow> \<exists>used. bs = used @ rest \<and> used \<noteq> [] \<and> length used \<le> 10"
  unfolding read_uvarint_def using read_from_used by fastforce

lemma read_full_Inr:
  "read_full fin n bs = Inr (p, rest) \<longleftrightarrow> bs = p @ rest \<and> length p = n"
  by (auto simp: read_full_def)

lemma read_full_append [simp]: "read_full fin (length p) (p @ rest) = Inr (p, rest)"
  by (simp add: read_full_Inr)

section \<open>Frame round trip\<close>

text \<open>What a sender hands to the encoders, and the frame the receiver should see.\<close>

datatype wire =
    W_Data u64 u64 bytes
  | W_Ack u64 u64 u64 u64 u64 "brange list"
  | W_Ctrl frame_type bytes

fun encode :: "wire \<Rightarrow> bytes" where
  "encode (W_Data off ts p) = append_data_frame [] off ts p"
| "encode (W_Ack cum echo path wnd sq rs) = append_ack_frame [] cum echo path wnd sq rs"
| "encode (W_Ctrl ft body) = append_ctrl_frame [] ft body"

fun decoded :: "wire \<Rightarrow> frame_type \<times> frame" where
  "decoded (W_Data off ts p) = (frameData, empty_frame\<lparr>f_off := off, f_sendTs := ts, f_payload := p\<rparr>)"
| "decoded (W_Ack cum echo path wnd sq rs) =
     (frameAck, empty_frame\<lparr>f_cum := cum, f_tsEcho := echo, f_tsPath := path, f_window := wnd,
       f_seq := sq, f_ranges := take maxAckRanges rs\<rparr>)"
| "decoded (W_Ctrl ft body) = (ft, empty_frame\<lparr>f_body := body\<rparr>)"

fun wire_ok :: "wire \<Rightarrow> bool" where
  "wire_ok (W_Data off ts p) = (length p \<le> maxFramePayload)"
| "wire_ok (W_Ack cum echo path wnd sq rs) = list_all valid_range (take maxAckRanges rs)"
| "wire_ok (W_Ctrl ft body) = (ctrl_type ft \<and> length body \<le> maxCtrlBody)"

lemma read_ranges_encoded:
  "list_all valid_range rs \<Longrightarrow>
   read_ranges fin (length rs) (concat (map (\<lambda>r. put_uvarint (br_start r) @ put_uvarint (br_end r)) rs) @ rest)
   = Inr (rs, rest)"
proof (induction rs)
  case (Cons r rs)
  have "\<not> br_end r \<le> br_start r" "mk_range (br_start r) (br_end r) = r"
    using Cons.prems by (simp_all add: valid_range_def mk_range_def not_le)
  then show ?case using Cons by simp
qed simp

lemma len_u64_le: "n \<le> m \<Longrightarrow> m < 2 ^ 64 \<Longrightarrow> unat (u64_of_len n) = n \<and> \<not> of_nat m < u64_of_len n"
  by (simp add: unat_u64_of_len word_less_nat_alt unat_of_nat)

lemma ucast_type [simp]: "(ucast (ucast ft :: u64) :: byte) = ft" for ft :: byte
  by (rule bit_eqI) (simp add: bit_simps)

lemma read_frame_encode:
  assumes "wire_ok w"
  shows "read_frame fin (encode w @ rest) = Inr (decoded w, rest)"
proof (cases w)
  case (W_Data off ts p)
  have "unat (u64_of_len (length p)) = length p \<and> \<not> of_nat maxFramePayload < u64_of_len (length p)"
    using assms W_Data by (intro len_u64_le) (simp_all add: maxFramePayload_def)
  then show ?thesis using W_Data
    by (simp add: append_data_frame_def read_frame_def read_data_def)
next
  case (W_Ack cum echo path wnd sq rs)
  let ?rs = "take maxAckRanges rs"
  have l: "unat (u64_of_len (length ?rs)) = length ?rs \<and> \<not> of_nat maxAckRanges < u64_of_len (length ?rs)"
    by (intro len_u64_le) (simp_all add: maxAckRanges_def)
  have cut: "(if maxAckRanges < length rs then ?rs else rs) = ?rs" by simp
  have "read_ranges fin (length ?rs)
      (concat (map (\<lambda>r. put_uvarint (br_start r) @ put_uvarint (br_end r)) ?rs) @ rest) = Inr (?rs, rest)"
    using assms W_Ack by (intro read_ranges_encoded) simp
  then show ?thesis unfolding W_Ack encode.simps append_ack_frame_def Let_def cut
    using l by (simp add: read_frame_def read_ack_def frame_types del: length_take)
next
  case (W_Ctrl ft body)
  have "unat (u64_of_len (length body)) = length body \<and> \<not> of_nat maxCtrlBody < u64_of_len (length body)"
    using assms W_Ctrl by (intro len_u64_le) (simp_all add: maxCtrlBody_def)
  moreover have "ft \<noteq> frameData" "ft \<noteq> frameAck"
    using assms W_Ctrl by (auto simp: ctrl_type_def frame_types)
  ultimately show ?thesis using assms W_Ctrl
    by (simp add: append_ctrl_frame_def read_frame_def read_ctrl_def)
qed

section \<open>A whole stream\<close>

lemma read_ranges_Inr:
  "read_ranges fin n bs = Inr (rs, rest) \<Longrightarrow>
   length rs = n \<and> list_all valid_range rs \<and> (\<exists>used. bs = used @ rest)"
proof (induction n arbitrary: bs rs)
  case (Suc n)
  then obtain a b bs1 bs2 rs' where
    r: "read_uvarint fin bs = Inr (a, bs1)" "read_uvarint fin bs1 = Inr (b, bs2)" "\<not> b \<le> a"
      "read_ranges fin n bs2 = Inr (rs', rest)" "rs = mk_range a b # rs'"
    by (auto simp: rd_bind_Inr split: if_splits)
  then show ?case
    using Suc.IH[OF r(4)] read_uvarint_used[OF r(1)] read_uvarint_used[OF r(2)]
    by (auto simp: valid_range_def not_le)
qed simp

definition frame_ok :: "frame \<Rightarrow> bool" where
  "frame_ok f \<longleftrightarrow> length (f_payload f) \<le> maxFramePayload \<and> length (f_ranges f) \<le> maxAckRanges \<and>
     list_all valid_range (f_ranges f) \<and> length (f_body f) \<le> maxCtrlBody"

lemma small_count: "\<not> of_nat m < (n :: u64) \<Longrightarrow> m < 2 ^ 64 \<Longrightarrow> unat n \<le> m"
  by (simp add: word_less_nat_alt unat_of_nat not_less)

lemma read_data_Inr:
  "read_data fin bs = Inr (f, rest) \<Longrightarrow> frame_ok f \<and> (\<exists>used. bs = used @ rest)"
  using read_uvarint_used small_count[of maxFramePayload]
  by (auto simp: read_data_def rd_bind_Inr read_full_Inr frame_ok_def empty_frame_def maxFramePayload_def
      split: if_splits) (metis append_assoc)+

lemma read_ctrl_Inr:
  "read_ctrl fin bs = Inr (f, rest) \<Longrightarrow> frame_ok f \<and> (\<exists>used. bs = used @ rest)"
  using read_uvarint_used small_count[of maxCtrlBody]
  by (auto simp: read_ctrl_def rd_bind_Inr read_full_Inr frame_ok_def empty_frame_def maxCtrlBody_def
      split: if_splits) (metis append_assoc)+

definition suffix_of :: "bytes \<Rightarrow> bytes \<Rightarrow> bool" where
  "suffix_of rest bs \<longleftrightarrow> (\<exists>used. bs = used @ rest)"

lemma suffix_of_trans: "suffix_of a b \<Longrightarrow> suffix_of b c \<Longrightarrow> suffix_of a c"
  unfolding suffix_of_def by (metis append_assoc)

lemma read_uvarint_suffix: "read_uvarint fin bs = Inr (v, rest) \<Longrightarrow> suffix_of rest bs"
  unfolding suffix_of_def using read_uvarint_used by blast

lemma read_ack_Inr:
  assumes "read_ack fin bs = Inr (f, rest)"
  shows "frame_ok f \<and> suffix_of rest bs"
proof -
  obtain cum b1 echo b2 path b3 wnd b4 sq b5 n b6 rs where
    r: "read_uvarint fin bs = Inr (cum, b1)" "read_uvarint fin b1 = Inr (echo, b2)"
      "read_uvarint fin b2 = Inr (path, b3)" "read_uvarint fin b3 = Inr (wnd, b4)"
      "read_uvarint fin b4 = Inr (sq, b5)" "read_uvarint fin b5 = Inr (n, b6)"
      "\<not> of_nat maxAckRanges < n" "read_ranges fin (unat n) b6 = Inr (rs, rest)"
    and f: "f = empty_frame\<lparr>f_cum := cum, f_tsEcho := echo, f_tsPath := path, f_window := wnd,
                f_seq := sq, f_ranges := rs\<rparr>"
    using assms by (auto simp: read_ack_def rd_bind_Inr split: if_splits)
  have "unat n \<le> maxAckRanges" using small_count[OF r(7)] by (simp add: maxAckRanges_def)
  then have "frame_ok f" using read_ranges_Inr[OF r(8)] by (simp add: frame_ok_def f empty_frame_def)
  moreover have "suffix_of rest b6" using read_ranges_Inr[OF r(8)] by (simp add: suffix_of_def)
  ultimately show ?thesis
    using r(1-6)[THEN read_uvarint_suffix] suffix_of_trans by meson
qed

text \<open>Whatever the bytes are: a decoded frame respects every limit, and the decoder has moved on.\<close>

lemma read_frame_Inr:
  assumes "read_frame fin bs = Inr ((ft, f), rest)"
  shows "frame_ok f \<and> (ft = frameData \<or> ft = frameAck \<or> ctrl_type ft) \<and> length rest < length bs"
proof -
  obtain t b1 where t: "read_uvarint fin bs = Inr (t, b1)"
    using assms by (auto simp: read_frame_def split: sum.splits)
  have "frame_ok f \<and> (ft = frameData \<or> ft = frameAck \<or> ctrl_type ft) \<and> suffix_of rest b1"
    using assms t read_data_Inr[of fin b1] read_ack_Inr[of fin b1] read_ctrl_Inr[of fin b1]
    by (auto simp: read_frame_def Let_def rd_bind_Inr suffix_of_def split: if_splits)
  then show ?thesis using read_uvarint_used[OF t] by (auto simp: suffix_of_def)
qed

text \<open>The receive loop's view of a path: frames until the first error.\<close>

function read_frames :: "io_err \<Rightarrow> bytes \<Rightarrow> (frame_type \<times> frame) list \<times> frame_err" where
  "read_frames fin bs =
     (case read_frame fin bs of
        Inl e \<Rightarrow> ([], e)
      | Inr (tf, rest) \<Rightarrow> let (fs, e) = read_frames fin rest in (tf # fs, e))"
  by pat_completeness auto
termination
proof (relation "measure (\<lambda>(fin, bs). length bs)")
  show "((fin, rest), fin, bs) \<in> measure (\<lambda>(fin, bs). length bs)"
    if "read_frame fin bs = Inr x" "(tf, rest) = x" for fin bs x tf rest
    using that read_frame_Inr[of fin bs "fst tf" "snd tf" rest] by auto
qed simp

declare read_frames.simps [simp del]

lemma read_frames_cons:
  "read_frame fin bs = Inr (tf, rest) \<Longrightarrow>
   read_frames fin bs = (tf # fst (read_frames fin rest), snd (read_frames fin rest))"
  by (subst read_frames.simps) (simp add: case_prod_beta Let_def)

lemma read_frames_error: "read_frame fin bs = Inl e \<Longrightarrow> read_frames fin bs = ([], e)"
  by (subst read_frames.simps) simp

lemma read_frame_eof: "read_frame Io_EOF [] = Inl Err_EOF"
  by (simp add: read_frame_def read_uvarint_def read_uvarint_from.simps)

lemma read_frames_encoded:
  "list_all wire_ok ws \<Longrightarrow>
   read_frames fin (concat (map encode ws) @ tail) =
     (map decoded ws @ fst (read_frames fin tail), snd (read_frames fin tail))"
proof (induction ws)
  case (Cons w ws)
  then show ?case
    using read_frames_cons[OF read_frame_encode[of w fin "concat (map encode ws) @ tail"]] by simp
qed simp

lemma read_frames_all_ok:
  "list_all (\<lambda>(ft, f). frame_ok f \<and> (ft = frameData \<or> ft = frameAck \<or> ctrl_type ft)) (fst (read_frames fin bs)) \<and>
   length (fst (read_frames fin bs)) \<le> length bs"
proof (induction fin bs rule: read_frames.induct)
  case (1 fin bs)
  show ?case
  proof (cases "read_frame fin bs")
    case (Inl e)
    then show ?thesis by (simp add: read_frames_error)
  next
    case (Inr x)
    obtain ft f rest where x: "x = ((ft, f), rest)" by (metis prod.exhaust)
    show ?thesis using "1.IH"[OF Inr, of "(ft, f)" rest] read_frame_Inr[of fin bs ft f rest] Inr x
      by (auto simp: read_frames_cons)
  qed
qed

section \<open>Properties\<close>

text \<open>
  C16: a path that carries any sequence of encoded frames and then ends: the decoder returns exactly
  those frames in order, then the clean end of the stream. ACKs keep their first \<open>maxAckRanges\<close> ranges.
\<close>

theorem frame_stream_round_trip:
  assumes "list_all wire_ok ws"
  shows "read_frames Io_EOF (concat (map encode ws)) = (map decoded ws, Err_EOF)"
  using read_frames_encoded[OF assms, of Io_EOF "[]"] by (simp add: read_frames_error read_frame_eof)

text \<open>
  C17: on arbitrary bytes of a peer the decoder ends, returns at most one frame per byte, and every
  frame it returns has a known type, respects the payload, range-count and body limits, and has
  only non-empty ranges.
\<close>

theorem frame_decoder_bounds:
  "list_all (\<lambda>(ft, f). length (f_payload f) \<le> 65536 \<and> length (f_ranges f) \<le> 32 \<and>
      length (f_body f) \<le> 65536 \<and> list_all valid_range (f_ranges f) \<and> 1 \<le> ft \<and> ft \<le> 10)
     (fst (read_frames fin bs)) \<and>
   length (fst (read_frames fin bs)) \<le> length bs"
proof -
  have "1 \<le> ft \<and> ft \<le> 10" if "ft = frameData \<or> ft = frameAck \<or> ctrl_type ft" for ft
    using that by (auto simp: ctrl_type_def frame_types)
  then show ?thesis using read_frames_all_ok[of fin bs]
    by (auto simp: list_all_iff frame_ok_def maxFramePayload_def maxAckRanges_def maxCtrlBody_def)
qed

text \<open>
  A varint field round trips with any bytes after it, in at most ten bytes.
\<close>

theorem uvarint_round_trip:
  "read_uvarint fin (put_uvarint v @ rest) = Inr (v, rest) \<and> length (put_uvarint v) \<le> 10"
  by (simp add: length_put)

text \<open>
  The decoder looks only at the low byte of the type field: a frame whose type is 256 or more is
  taken for the known type with the same low byte instead of being rejected.
\<close>

theorem frame_type_truncated:
  "put_uvarint t @ bs \<noteq> put_uvarint (t + 256) @ bs \<and>
   (read_frame fin (put_uvarint (t + 256) @ bs) = read_frame fin (put_uvarint t @ bs) \<or>
    read_frame fin (put_uvarint t @ bs) = Inl (Err_Unknown_Type t))"
proof -
  have u: "(ucast (t + 256) :: byte) = ucast t"
    by (simp add: unsigned_ucast_eq word_unat_eq_iff unsigned_take_bit_eq take_bit_eq_mod
        unat_word_ariths mod_mod_cancel)
  have "put_uvarint t \<noteq> put_uvarint (t + 256)"
    using read_put[of Io_EOF t "[]"] read_put[of Io_EOF "t + 256" "[]"] by auto
  then show ?thesis by (simp add: read_frame_def u Let_def)
qed

text \<open>
  An ACK that passes \<open>validateAck\<close> acknowledges only bytes that were sent and not less than
  before, its SACK ranges lie strictly beyond the cumulative offset and within what was sent, and
  its sequence number moves forward by at most \<open>maxAckSeqAdvance\<close>.
\<close>

theorem validate_ack_sound:
  assumes "validate_ack f sentOff cumAcked peerAckSeq got = None" and "list_all valid_range (f_ranges f)"
  shows "cumAcked \<le> f_cum f \<and> f_cum f \<le> sentOff \<and>
    covers (f_ranges f) \<subseteq> {f_cum f<..<sentOff} \<and>
    (got \<longrightarrow> peerAckSeq \<le> f_seq f) \<and>
    unat (f_seq f) \<le> (if got then unat peerAckSeq else 0) + 1048576"
proof -
  let ?prev = "if got then peerAckSeq else 0"
  have v: "\<not> f_cum f < cumAcked" "\<not> sentOff < f_cum f" "\<not> f_seq f < ?prev"
    "\<not> maxAckSeqAdvance < f_seq f - ?prev"
    "\<not> list_ex (\<lambda>r. br_start r \<le> f_cum f \<or> sentOff < br_end r) (f_ranges f)"
    using assms(1) unfolding validate_ack_def Let_def by (metis option.distinct(1))+
  have "unat (f_seq f - ?prev) \<le> 1048576"
    using v(4) by (simp add: maxAckSeqAdvance_def word_less_nat_alt)
  then have sq: "unat (f_seq f) \<le> unat ?prev + 1048576"
    using v(3) by (simp add: unat_diff_le not_less)
  have "covers (f_ranges f) \<subseteq> {f_cum f<..<sentOff}"
  proof
    fix x assume "x \<in> covers (f_ranges f)"
    then obtain r where "r \<in> set (f_ranges f)" "br_start r \<le> x" "x < br_end r" by (auto simp: covers_def)
    moreover from this have "f_cum f < br_start r" "br_end r \<le> sentOff"
      using v(5) by (auto simp: list_ex_iff not_le not_less)
    ultimately show "x \<in> {f_cum f<..<sentOff}" by (auto intro: less_le_trans)
  qed
  then show ?thesis using v sq by (auto simp: not_less split: if_splits)
qed

section \<open>Witnesses\<close>

definition demo_wire :: "wire list" where
  "demo_wire = [W_Data 300 7 [1, 2, 3], W_Ack 300 7 1 65536 1 [mk_range 400 500], W_Ctrl frameFin []]"

theorem frame_stream_round_trip_witness:
  "read_frames Io_EOF (concat (map encode demo_wire)) = (map decoded demo_wire, Err_EOF)"
  by (rule frame_stream_round_trip)
    (simp add: demo_wire_def maxFramePayload_def maxAckRanges_def maxCtrlBody_def valid_range_def
      ctrl_type_def frame_types)

theorem validate_ack_sound_witness:
  "covers (f_ranges (snd (decoded (W_Ack 300 7 1 65536 3 [mk_range 400 500])))) \<subseteq> {300<..<1000}"
proof -
  let ?f = "snd (decoded (W_Ack 300 7 1 65536 3 [mk_range 400 500]))"
  have "validate_ack ?f 1000 100 2 True = None"
    by (simp add: validate_ack_def maxAckSeqAdvance_def maxAckRanges_def)
  moreover have "list_all valid_range (f_ranges ?f)"
    by (simp add: maxAckRanges_def valid_range_def)
  ultimately show ?thesis using validate_ack_sound[of ?f 1000 100 2 True] by simp
qed

end
