(* ===== verification/Float64.thy ===== *)
theory Float64
  imports Complex_Main Go_Prelude "HOL-Library.Log_Nat"
begin

text \<open>
  Go's \<open>float64\<close> as far as \<open>scheduler.go\<close> uses it: finite values are rationals, and every operation
  is the exact one followed by rounding to nearest, ties to even, with 53 bits of significand and
  subnormals. Overflow to infinity is out of scope: the rates of the code lie between \<open>10^-324\<close> and
  \<open>10^23\<close>. What the components use of rounding is the locale \<open>rounding\<close>.
\<close>

section \<open>Rounding to nearest even\<close>

definition round_even :: "rat \<Rightarrow> int" where
  "round_even q =
     (let f = \<lfloor>q\<rfloor>; d = q - of_int f in
      if d < 1 / 2 then f else if 1 / 2 < d then f + 1 else if even f then f else f + 1)"

definition ilog2 :: "rat \<Rightarrow> int" where
  "ilog2 x =
     (let (a, b) = quotient_of x; k = bitlen a - bitlen b in if 2 powi k \<le> x then k else k - 1)"

definition ulp_exp :: "rat \<Rightarrow> int" where
  "ulp_exp x = max (ilog2 x - 52) (- 1074)"

definition fl_pos :: "rat \<Rightarrow> rat" where
  "fl_pos x = (let e = ulp_exp x in of_int (round_even (x / 2 powi e)) * 2 powi e)"

definition fl64 :: "rat \<Rightarrow> rat" where
  "fl64 x = (if x = 0 then 0 else if x < 0 then - fl_pos (- x) else fl_pos x)"

section \<open>What the code relies on\<close>

text \<open>
  Rounding is monotone, keeps zero and its own results, and at most doubles a magnitude.
\<close>

locale rounding =
  fixes fl :: "rat \<Rightarrow> rat"
  assumes fl_mono: "x \<le> y \<Longrightarrow> fl x \<le> fl y"
    and fl_zero: "fl 0 = 0"
    and fl_idem: "fl (fl x) = fl x"
    and fl_double: "\<bar>fl x\<bar> \<le> 2 * \<bar>x\<bar>"
begin

definition is_float :: "rat \<Rightarrow> bool" where
  "is_float x \<longleftrightarrow> fl x = x"

lemma is_float_fl: "is_float (fl x)"
  by (simp add: is_float_def fl_idem)

lemma fl_nonneg: "0 \<le> x \<Longrightarrow> 0 \<le> fl x"
  using fl_mono[of 0 x] by (simp add: fl_zero)

lemma fl_nonpos: "x \<le> 0 \<Longrightarrow> fl x \<le> 0"
  using fl_mono[of x 0] by (simp add: fl_zero)

text \<open>A rounded step of one eighth of the way to a lower sample stays between the two.\<close>

lemma ewma_between:
  assumes "is_float cur" and "is_float sample" and "sample \<le> cur"
  shows "sample \<le> fl (cur + fl (fl (sample - cur) / 8))"
    and "fl (cur + fl (fl (sample - cur) / 8)) \<le> cur"
proof -
  let ?t = "sample - cur" and ?a = "fl (sample - cur)"
  let ?d = "fl (?a / 8)"
  have t: "?t \<le> 0" using assms(3) by simp
  then have a: "?a \<le> 0" by (rule fl_nonpos)
  then have d: "?d \<le> 0" by (intro fl_nonpos) simp
  have "\<bar>?a\<bar> \<le> 2 * \<bar>?t\<bar>" "\<bar>?d\<bar> \<le> 2 * \<bar>?a / 8\<bar>" by (rule fl_double)+
  then have "?t \<le> ?d" using t a d by (simp add: abs_if split: if_splits)
  then have "sample \<le> cur + ?d" by simp
  then show "sample \<le> fl (cur + ?d)" using fl_mono assms(2) unfolding is_float_def by metis
  have "cur + ?d \<le> cur" using d by simp
  then show "fl (cur + ?d) \<le> cur" using fl_mono assms(1) unfolding is_float_def by metis
qed

end

section \<open>The rounding of \<open>float64\<close>\<close>

lemma round_even_mono: "p \<le> q \<Longrightarrow> round_even p \<le> round_even q"
proof -
  assume le: "p \<le> q"
  have f: "\<lfloor>p\<rfloor> \<le> \<lfloor>q\<rfloor>" using le by (rule floor_mono)
  show ?thesis
  proof (cases "\<lfloor>p\<rfloor> = \<lfloor>q\<rfloor>")
    case True
    then show ?thesis using le by (auto simp: round_even_def Let_def)
  next
    case False
    then have "\<lfloor>p\<rfloor> + 1 \<le> \<lfloor>q\<rfloor>" using f by simp
    then show ?thesis by (auto simp: round_even_def Let_def)
  qed
qed

lemma round_even_int [simp]: "round_even (of_int n) = n"
  by (simp add: round_even_def)

lemma round_even_le_int: "q \<le> of_int n \<Longrightarrow> round_even q \<le> n"
  using round_even_mono[of q "of_int n"] by simp

lemma round_even_ge_int: "of_int n \<le> q \<Longrightarrow> n \<le> round_even q"
  using round_even_mono[of "of_int n" q] by simp

lemma powi_mono: "a \<le> b \<Longrightarrow> (2 :: rat) powi a \<le> 2 powi b"
  by (rule power_int_increasing) simp_all

lemma bitlen_pos_lemma: "0 < n \<Longrightarrow> 0 < bitlen n"
  using bitlen_bounds[of n] by (cases "bitlen n = 0") (auto simp: bitlen_def)

lemma ilog2_bounds:
  assumes "0 < x"
  shows "2 powi ilog2 x \<le> x" and "x < 2 powi (ilog2 x + 1)"
proof -
  obtain a b where q: "quotient_of x = (a, b)" by fastforce
  have b: "0 < b" using quotient_of_denom_pos[OF q] .
  have x: "x = of_int a / of_int b" using quotient_of_div[OF q] .
  have a: "0 < a" using assms b by (simp add: x zero_less_divide_iff)
  have len: "0 < bitlen a" "0 < bitlen b" using a b bitlen_pos_lemma by blast+
  have "2 ^ nat (bitlen a - 1) \<le> a" "a < 2 ^ nat (bitlen a)"
    "2 ^ nat (bitlen b - 1) \<le> b" "b < 2 ^ nat (bitlen b)"
    using bitlen_bounds[OF a] bitlen_bounds[OF b] by simp_all
  then have "(of_int (2 ^ nat (bitlen a - 1)) :: rat) \<le> of_int a" "(of_int a :: rat) < of_int (2 ^ nat (bitlen a))"
    "(of_int (2 ^ nat (bitlen b - 1)) :: rat) \<le> of_int b" "(of_int b :: rat) < of_int (2 ^ nat (bitlen b))"
    by (simp_all only: of_int_le_iff of_int_less_iff)
  then have r: "(2 :: rat) powi (bitlen a - 1) \<le> of_int a" "of_int a < (2 :: rat) powi (bitlen a)"
    "(2 :: rat) powi (bitlen b - 1) \<le> of_int b" "of_int b < (2 :: rat) powi (bitlen b)"
    using len by (simp_all add: power_int_def)
  let ?k = "bitlen a - bitlen b"
  have "x < 2 powi (bitlen a) / 2 powi (bitlen b - 1)"
    unfolding x using r(2,3) b a by (intro frac_less) simp_all
  also have "\<dots> = 2 powi (?k + 1)" by (simp add: power_int_diff[symmetric] algebra_simps)
  finally have up: "x < 2 powi (?k + 1)" .
  have "(2 :: rat) powi (?k - 1) = 2 powi (bitlen a - 1) / 2 powi (bitlen b)"
    by (simp add: power_int_diff[symmetric] algebra_simps)
  also have "\<dots> \<le> x" unfolding x using r(1,4) b a by (intro frac_le) simp_all
  finally have low: "2 powi (?k - 1) \<le> x" .
  show "2 powi ilog2 x \<le> x" "x < 2 powi (ilog2 x + 1)"
    using up low by (simp_all add: ilog2_def q Let_def not_le)
qed

lemma ilog2_mono: "0 < x \<Longrightarrow> x \<le> y \<Longrightarrow> ilog2 x \<le> ilog2 y"
proof (rule ccontr)
  assume "0 < x" "x \<le> y" "\<not> ilog2 x \<le> ilog2 y"
  then have "(2 :: rat) powi (ilog2 y + 1) \<le> 2 powi ilog2 x" by (intro powi_mono) simp
  also have "\<dots> \<le> x" by (rule ilog2_bounds(1)) fact
  also have "\<dots> \<le> y" by fact
  finally show False using ilog2_bounds(2)[of y] \<open>0 < x\<close> \<open>x \<le> y\<close> by simp
qed

lemma powi_of_int: "0 \<le> n \<Longrightarrow> (2 :: rat) powi n = of_int (2 ^ nat n)"
  by (simp add: power_int_def)

text \<open>Rounding at exponent \<open>e\<close> does not cross a power of two that is a multiple of \<open>2^e\<close>.\<close>

lemma round_at_le:
  assumes "x \<le> 2 powi k" and "e \<le> k"
  shows "of_int (round_even (x / 2 powi e)) * 2 powi e \<le> (2 powi k :: rat)"
proof -
  have "x / 2 powi e \<le> 2 powi (k - e)"
    using assms(1) by (simp add: power_int_diff divide_right_mono)
  also have "\<dots> = of_int (2 ^ nat (k - e))" using assms(2) by (simp add: powi_of_int)
  finally have "round_even (x / 2 powi e) \<le> 2 ^ nat (k - e)" by (rule round_even_le_int)
  then have "(of_int (round_even (x / 2 powi e)) :: rat) \<le> of_int (2 ^ nat (k - e))" by (simp only: of_int_le_iff)
  also have "\<dots> = 2 powi (k - e)" using assms(2) by (simp only: powi_of_int)
  finally have "of_int (round_even (x / 2 powi e)) * 2 powi e \<le> (2 powi (k - e) * 2 powi e :: rat)"
    by (intro mult_right_mono) simp_all
  then show ?thesis by (simp add: power_int_add[symmetric])
qed

lemma round_at_ge:
  assumes "2 powi k \<le> x" and "e \<le> k"
  shows "(2 powi k :: rat) \<le> of_int (round_even (x / 2 powi e)) * 2 powi e"
proof -
  have "of_int (2 ^ nat (k - e)) = (2 powi (k - e) :: rat)" using assms(2) by (simp add: powi_of_int)
  also have "\<dots> \<le> x / 2 powi e"
    using assms(1) by (simp add: power_int_diff divide_right_mono)
  finally have "2 ^ nat (k - e) \<le> round_even (x / 2 powi e)" by (rule round_even_ge_int)
  then have "(of_int (2 ^ nat (k - e)) :: rat) \<le> of_int (round_even (x / 2 powi e))" by (simp only: of_int_le_iff)
  then have "(2 powi (k - e) :: rat) \<le> of_int (round_even (x / 2 powi e))" using assms(2) by (simp only: powi_of_int)
  then have "(2 powi (k - e) * 2 powi e :: rat) \<le> of_int (round_even (x / 2 powi e)) * 2 powi e"
    by (intro mult_right_mono) simp_all
  then show ?thesis by (simp add: power_int_add[symmetric])
qed

lemma fl_pos_nonneg: "0 < x \<Longrightarrow> 0 \<le> fl_pos x"
  unfolding fl_pos_def Let_def
  by (intro mult_nonneg_nonneg) (simp_all add: round_even_ge_int[of 0, simplified])

lemma fl_pos_mono:
  assumes "0 < x" and "x \<le> y"
  shows "fl_pos x \<le> fl_pos y"
proof (cases "ulp_exp x = ulp_exp y")
  case True
  have "x / 2 powi ulp_exp y \<le> y / 2 powi ulp_exp y" using assms by (simp add: divide_right_mono)
  then have "(of_int (round_even (x / 2 powi ulp_exp y)) :: rat) \<le> of_int (round_even (y / 2 powi ulp_exp y))"
    by (simp add: round_even_mono)
  then show ?thesis unfolding fl_pos_def Let_def True by (intro mult_right_mono) simp_all
next
  case False
  have y: "0 < y" using assms by simp
  have le: "ilog2 x \<le> ilog2 y" using assms by (rule ilog2_mono)
  then have k: "ilog2 x + 1 \<le> ilog2 y" and e: "ulp_exp y = ilog2 y - 52" "- 1074 < ilog2 y - 52"
    using False by (auto simp: ulp_exp_def)
  have "x \<le> 2 powi ilog2 y" using ilog2_bounds(2)[OF assms(1)] powi_mono[OF k] by simp
  moreover have "ulp_exp x \<le> ilog2 y" using e k by (simp add: ulp_exp_def)
  ultimately have "fl_pos x \<le> 2 powi ilog2 y"
    unfolding fl_pos_def Let_def by (rule round_at_le)
  also have "\<dots> \<le> fl_pos y"
    unfolding fl_pos_def Let_def using e by (intro round_at_ge ilog2_bounds(1) y) simp
  finally show ?thesis .
qed

text \<open>A result of rounding is a multiple of its own unit, so rounding again changes nothing.\<close>

lemma fl_pos_double:
  assumes "0 < x"
  shows "fl_pos x \<le> 2 * x"
proof (cases "- 1074 \<le> ilog2 x + 1")
  case True
  have "fl_pos x \<le> 2 powi (ilog2 x + 1)"
    unfolding fl_pos_def Let_def using True ilog2_bounds(2)[OF assms]
    by (intro round_at_le) (simp_all add: ulp_exp_def)
  also have "\<dots> = 2 * 2 powi ilog2 x" by (simp add: power_int_add)
  also have "\<dots> \<le> 2 * x" using ilog2_bounds(1)[OF assms] by simp
  finally show ?thesis .
next
  case False
  then have e: "ulp_exp x = - 1074" by (simp add: ulp_exp_def)
  have "x < 2 powi (ilog2 x + 1)" by (rule ilog2_bounds(2)[OF assms])
  also have "\<dots> \<le> 2 powi (- 1075)" using False by (intro powi_mono) simp
  finally have "x / 2 powi (- 1074) < 2 powi (- 1075) / 2 powi (- 1074)" by (intro divide_strict_right_mono) simp_all
  also have "\<dots> = 1 / 2" by (simp add: power_int_diff[symmetric] power_int_minus)
  finally have "x / 2 powi (- 1074) < 1 / 2" .
  moreover from this have "\<lfloor>x / 2 powi (- 1074)\<rfloor> = 0" using assms by (intro floor_unique) simp_all
  ultimately have "round_even (x / 2 powi (- 1074)) = 0" by (simp add: round_even_def)
  then have "fl_pos x = 0" unfolding fl_pos_def Let_def e by simp
  then show ?thesis using assms by simp
qed

lemma fl_pos_of_int:
  "y = of_int n * 2 powi ulp_exp y \<Longrightarrow> fl_pos y = y"
proof -
  assume y: "y = of_int n * 2 powi ulp_exp y"
  then have "y / 2 powi ulp_exp y = of_int n" by (simp add: field_simps)
  then show ?thesis using y by (simp add: fl_pos_def Let_def)
qed

lemma fl_pos_idem:
  assumes x: "0 < x" and y: "0 < fl_pos x"
  shows "fl_pos (fl_pos x) = fl_pos x"
proof -
  let ?y = "fl_pos x"
  let ?m = "round_even (x / 2 powi ulp_exp x)"
  have m: "?y = of_int ?m * 2 powi ulp_exp x" by (simp add: fl_pos_def Let_def)
  show ?thesis
  proof (cases "ulp_exp ?y \<le> ulp_exp x")
    case True
    let ?d = "ulp_exp x - ulp_exp ?y"
    have "(2 :: rat) powi ulp_exp x = 2 powi ?d * 2 powi ulp_exp ?y" by (simp add: power_int_add[symmetric])
    also have "2 powi ?d = (of_int (2 ^ nat ?d) :: rat)" using True by (simp add: powi_of_int)
    finally have "?y = of_int (?m * 2 ^ nat ?d) * 2 powi ulp_exp ?y" using m by simp
    then show ?thesis by (rule fl_pos_of_int)
  next
    case False
    then have k: "ulp_exp ?y = ilog2 ?y - 52" "ilog2 x + 1 \<le> ilog2 ?y" by (auto simp: ulp_exp_def)
    have e: "ulp_exp x \<le> ilog2 x + 1"
    proof (rule ccontr)
      assume "\<not> ulp_exp x \<le> ilog2 x + 1"
      then have ex: "ulp_exp x = - 1074" "ilog2 x + 1 \<le> - 1074" by (auto simp: ulp_exp_def)
      have "x \<le> 2 powi (- 1074)" using ilog2_bounds(2)[OF x] powi_mono[OF ex(2)] by simp
      then have "?y \<le> 2 powi (- 1074)" unfolding fl_pos_def Let_def ex by (intro round_at_le) simp_all
      then have "(2 :: rat) powi ilog2 ?y \<le> 2 powi (- 1074)" using ilog2_bounds(1)[OF y] by simp
      moreover have "(2 :: rat) powi (- 1074) < 2 powi ilog2 ?y"
        using False k ex(1) by (intro power_int_strict_increasing) simp_all
      ultimately show False by simp
    qed
    have "?y \<le> 2 powi (ilog2 x + 1)"
      unfolding fl_pos_def Let_def using ilog2_bounds(2)[OF x] e by (intro round_at_le) simp_all
    moreover have "2 powi (ilog2 x + 1) \<le> ?y" using ilog2_bounds(1)[OF y] powi_mono[OF k(2)] by simp
    ultimately have yk: "?y = 2 powi (ilog2 x + 1)" by simp
    have "2 powi ilog2 ?y \<le> (2 powi (ilog2 x + 1) :: rat)" using ilog2_bounds(1)[OF y] yk by simp
    then have "ilog2 ?y \<le> ilog2 x + 1"
      using power_int_strict_increasing[of "ilog2 x + 1" "ilog2 ?y" "2 :: rat"] by fastforce
    then have "ilog2 x + 1 = 52 + ulp_exp ?y" using k by simp
    then have "?y = 2 powi (52 + ulp_exp ?y)" using yk by metis
    also have "\<dots> = 2 powi 52 * 2 powi ulp_exp ?y" by (rule power_int_add) simp
    also have "2 powi 52 = (of_int (2 ^ 52) :: rat)" by (simp add: power_int_def)
    finally have "?y = of_int (2 ^ 52) * 2 powi ulp_exp ?y" .
    then show ?thesis by (rule fl_pos_of_int)
  qed
qed

interpretation f64: rounding fl64
proof unfold_locales
  show "fl64 x \<le> fl64 y" if "x \<le> y" for x y
  proof -
    consider "0 < x" | "y < 0" | "x \<le> 0" "0 \<le> y" by linarith
    then show ?thesis
    proof cases
      case 1
      then show ?thesis using that fl_pos_mono by (simp add: fl64_def)
    next
      case 2
      then show ?thesis using that fl_pos_mono[of "- y" "- x"] by (simp add: fl64_def)
    next
      case 3
      then have "fl64 x \<le> 0" "0 \<le> fl64 y" using fl_pos_nonneg by (auto simp: fl64_def)
      then show ?thesis by simp
    qed
  qed
  show "fl64 0 = 0" by (simp add: fl64_def)
  show "fl64 (fl64 x) = fl64 x" for x
    using fl_pos_idem[of x] fl_pos_idem[of "- x"] fl_pos_nonneg[of x] fl_pos_nonneg[of "- x"]
    by (cases "fl_pos x = 0"; cases "fl_pos (- x) = 0") (auto simp: fl64_def)
  show "\<bar>fl64 x\<bar> \<le> 2 * \<bar>x\<bar>" for x
    using fl_pos_double[of x] fl_pos_double[of "- x"] fl_pos_nonneg[of x] fl_pos_nonneg[of "- x"]
    by (auto simp: fl64_def abs_if)
qed

end
