(* ===== verification/Path.thy ===== *)
theory Path
  imports Float64 "HOL-Library.Product_Lexorder"
begin

text \<open>
  One data path of an aggregate stream and the scheduler: the metrics of \<open>src/path.go\<close>, the
  sampling methods and \<open>minDrainScheduler\<close> of \<open>src/scheduler.go\<close>. The sub-stream behind a path, its
  addresses and its write lock are not part of the record; a path is identified by its \<open>path_id\<close>.
\<close>

section \<open>Constants\<close>

definition minInflightCap :: int where "minInflightCap = 2 * 65536"
definition coldRateBps :: rat where "coldRateBps = 262144"
definition rateSampleFloor :: int where "rateSampleFloor = 2 * millisecond"
definition estRateStaleFloor :: int where "estRateStaleFloor = 500 * millisecond"
definition defaultTelemetryInterval :: int where "defaultTelemetryInterval = 200 * millisecond"
definition peerRateTTL :: int where "peerRateTTL = 3 * defaultTelemetryInterval"
definition rttStaleAfter :: int where "rttStaleAfter = 2 * second"
definition pingMinInterval :: int where "pingMinInterval = 500 * millisecond"
definition rxSampleMinBytes :: u64 where "rxSampleMinBytes = 2 * 65536"
definition rxSampleMaxWindow :: int where "rxSampleMaxWindow = second"
definition suspectK :: int where "suspectK = 2"
definition suspectFloor :: int where "suspectFloor = 200 * millisecond"
definition pathRTOFloor :: int where "pathRTOFloor = second"
definition suspectPenalty :: rat where "suspectPenalty = 4"
definition inflightCapK :: rat where "inflightCapK = 3 / 2"

lemmas duration_defs = microsecond_def millisecond_def second_def rateSampleFloor_def
  estRateStaleFloor_def defaultTelemetryInterval_def peerRateTTL_def rttStaleAfter_def
  pingMinInterval_def rxSampleMaxWindow_def suspectFloor_def pathRTOFloor_def

section \<open>State\<close>

record path =
  p_id :: u64
  p_dialed :: bool
  p_dead :: bool
  p_attachedAt :: gotime
  p_srtt :: int
  p_rttvar :: int
  p_minRTT :: int
  p_hasRTT :: bool
  p_lastRTTAt :: gotime
  p_inflight :: int
  p_delivered :: u64
  p_estRate :: rat
  p_hasRate :: bool
  p_rateMark :: u64
  p_lastRateAt :: gotime
  p_peerRate :: rat
  p_peerRateAt :: gotime
  p_rxBytes :: u64
  p_rxMark :: u64
  p_rxMarkT :: gotime
  p_rxRate :: rat
  p_suspect :: bool
  p_suspectSince :: gotime
  p_suspectSinceTs :: u64
  p_resentSegs :: u64
  p_resentBytes :: u64
  p_degraded :: bool
  p_lastPingAt :: gotime
  p_auto :: bool
  p_lowSince :: gotime

definition new_path :: "u64 \<Rightarrow> bool \<Rightarrow> gotime \<Rightarrow> path" where
  "new_path i dialed t = \<lparr>p_id = i, p_dialed = dialed, p_dead = False, p_attachedAt = t, p_srtt = 0, p_rttvar = 0,
     p_minRTT = 0, p_hasRTT = False, p_lastRTTAt = Zero_Time, p_inflight = 0, p_delivered = 0,
     p_estRate = 0, p_hasRate = False, p_rateMark = 0, p_lastRateAt = Zero_Time, p_peerRate = 0,
     p_peerRateAt = Zero_Time, p_rxBytes = 0, p_rxMark = 0, p_rxMarkT = Zero_Time, p_rxRate = 0,
     p_suspect = False, p_suspectSince = Zero_Time, p_suspectSinceTs = 0, p_resentSegs = 0,
     p_resentBytes = 0, p_degraded = False, p_lastPingAt = Zero_Time, p_auto = False,
     p_lowSince = Zero_Time\<rparr>"

section \<open>Conversions\<close>

text \<open>\<open>Duration.Seconds\<close>, \<open>float64\<close> of an unsigned integer, and \<open>int64\<close> of a float. The last one is
  implementation-defined out of range; this is the value of amd64.\<close>

definition quot_rem :: "int \<Rightarrow> int \<Rightarrow> int" where
  "quot_rem a b = a - quot a b * b"

definition seconds :: "int \<Rightarrow> rat" where
  "seconds d = fl64 (fl64 (of_int (quot d second)) + fl64 (fl64 (of_int (quot_rem d second)) / 1000000000))"

definition float_of_u64 :: "u64 \<Rightarrow> rat" where
  "float_of_u64 n = fl64 (of_nat (unat n))"

definition float_of_int :: "int \<Rightarrow> rat" where
  "float_of_int n = fl64 (of_int n)"

definition trunc :: "rat \<Rightarrow> int" where
  "trunc x = (if x < 0 then - \<lfloor>- x\<rfloor> else \<lfloor>x\<rfloor>)"

definition int64_of_float :: "rat \<Rightarrow> int" where
  "int64_of_float x = (let n = trunc x in if int64_range n then n else - (2 ^ 63))"

section \<open>Failure timers\<close>

definition suspectAfter :: "path \<Rightarrow> int" where
  "suspectAfter p = (let d = wrap64 (suspectK * p_srtt p) in if suspectFloor < d then d else suspectFloor)"

definition rto :: "path \<Rightarrow> int" where
  "rto p = (let d = wrap64 (p_srtt p + 4 * p_rttvar p) in if pathRTOFloor < d then d else pathRTOFloor)"

definition clearSuspect :: "path \<Rightarrow> path" where
  "clearSuspect p = p\<lparr>p_suspect := False, p_suspectSince := Zero_Time\<rparr>"

section \<open>Sampling\<close>

definition noteRTT :: "int \<Rightarrow> gotime \<Rightarrow> u64 \<Rightarrow> path \<Rightarrow> path" where
  "noteRTT r now echoTs p =
     (if r < 0 then p
      else
        let p = (if \<not> p_hasRTT p
                 then p\<lparr>p_srtt := r, p_rttvar := quot r 2, p_minRTT := r, p_hasRTT := True\<rparr>
                 else let d = wrap64 (p_srtt p - r); d = (if d < 0 then wrap64 (- d) else d) in
                   p\<lparr>p_rttvar := quot (wrap64 (3 * p_rttvar p + d)) 4,
                     p_srtt := quot (wrap64 (7 * p_srtt p + r)) 8,
                     p_minRTT := (if r < p_minRTT p then r else p_minRTT p)\<rparr>);
            p = p\<lparr>p_lastRTTAt := now\<rparr> in
        if p_suspectSinceTs p < echoTs then clearSuspect p else p)"

definition filterRate :: "rat \<Rightarrow> rat \<Rightarrow> rat" where
  "filterRate cur sample =
     (if cur \<le> sample then sample else fl64 (cur + fl64 (fl64 (sample - cur) / 8)))"

definition creditDelivered :: "int \<Rightarrow> gotime \<Rightarrow> path \<Rightarrow> path" where
  "creditDelivered n now p =
     (let p = p\<lparr>p_delivered := p_delivered p + word_of_int n\<rparr>;
          p = (if is_zero_time (p_lastRateAt p)
               then p\<lparr>p_lastRateAt := (if is_zero_time (p_attachedAt p) then now else p_attachedAt p)\<rparr>
               else p);
          iv = (if p_srtt p < rateSampleFloor then rateSampleFloor else p_srtt p);
          dt = time_sub now (p_lastRateAt p) in
      if dt < iv then p
      else let d = p_delivered p - p_rateMark p in
      if d = 0 then p\<lparr>p_lastRateAt := now\<rparr>
      else p\<lparr>p_estRate := filterRate (p_estRate p) (fl64 (float_of_u64 d / seconds dt)),
             p_hasRate := True, p_rateMark := p_delivered p, p_lastRateAt := now\<rparr>)"

definition onDelivered :: "int \<Rightarrow> gotime \<Rightarrow> path \<Rightarrow> path" where
  "onDelivered n now p = creditDelivered n now (p\<lparr>p_inflight := p_inflight p - n\<rparr>)"

definition staleAfter :: "path \<Rightarrow> int" where
  "staleAfter p = (let d = wrap64 (4 * p_srtt p) in if estRateStaleFloor < d then d else estRateStaleFloor)"

definition effRate :: "gotime \<Rightarrow> path \<Rightarrow> rat" where
  "effRate now p =
     (if time_sub now (p_peerRateAt p) \<le> peerRateTTL \<and> 0 < p_peerRate p then p_peerRate p
      else if p_hasRate p \<and> time_sub now (p_lastRateAt p) \<le> staleAfter p then p_estRate p
      else 0)"

definition inflightCap :: "gotime \<Rightarrow> path \<Rightarrow> int" where
  "inflightCap now p =
     (let rate = effRate now p;
          rate = (if p_suspect p then fl64 (rate / suspectPenalty) else rate);
          c = int64_of_float (fl64 (fl64 (inflightCapK * rate) * seconds (p_minRTT p))) in
      if c < minInflightCap then minInflightCap else c)"

section \<open>The scheduler\<close>

text \<open>The drain time that \<open>pickMinDrain\<close> computes for a path.\<close>

definition drain_time :: "int \<Rightarrow> gotime \<Rightarrow> path \<Rightarrow> rat" where
  "drain_time len now p =
     (let rate = effRate now p;
          rate = (if rate \<le> 0 then coldRateBps else rate);
          rate = (if p_suspect p then fl64 (rate / suspectPenalty) else rate) in
      fl64 (float_of_int (p_inflight p + len) / rate))"

definition pickMinDrain_step ::
  "int \<Rightarrow> gotime \<Rightarrow> bool \<Rightarrow> (path \<times> rat) option \<Rightarrow> path \<Rightarrow> (path \<times> rat) option" where
  "pickMinDrain_step len now incl best p =
     (if p_suspect p \<and> \<not> incl then best
      else if inflightCap now p \<le> p_inflight p then best
      else let drain = drain_time len now p in
      case best of
        None \<Rightarrow> Some (p, drain)
      | Some (b, bestDrain) \<Rightarrow>
          if drain < bestDrain \<or> (drain = bestDrain \<and>
              (p_inflight p < p_inflight b \<or> (p_inflight p = p_inflight b \<and> p_id p < p_id b)))
          then Some (p, drain) else best)"

definition pickMinDrain :: "path list \<Rightarrow> int \<Rightarrow> gotime \<Rightarrow> bool \<Rightarrow> path option" where
  "pickMinDrain paths len now incl =
     map_option fst (foldl (pickMinDrain_step len now incl) None paths)"

definition pickData :: "path list \<Rightarrow> int \<Rightarrow> gotime \<Rightarrow> path option" where
  "pickData paths len now =
     (case pickMinDrain paths len now False of
        Some p \<Rightarrow> Some p
      | None \<Rightarrow> pickMinDrain paths len now True)"

definition pickAck_step :: "path option \<Rightarrow> path \<Rightarrow> path option" where
  "pickAck_step best p =
     (case best of
        None \<Rightarrow> Some p
      | Some b \<Rightarrow>
          if p_suspect p \<noteq> p_suspect b then (if \<not> p_suspect p then Some p else best)
          else if p_hasRTT p \<and> (\<not> p_hasRTT b \<or> p_srtt p < p_srtt b) then Some p else best)"

definition pickAck :: "path list \<Rightarrow> path option" where
  "pickAck paths = foldl pickAck_step None paths"

section \<open>Choosing a least element\<close>

text \<open>Both choices are one pass that keeps the first least element of a key.\<close>

definition least_step :: "('a \<Rightarrow> 'k::linorder) \<Rightarrow> 'a option \<Rightarrow> 'a \<Rightarrow> 'a option" where
  "least_step key best x =
     (case best of None \<Rightarrow> Some x | Some b \<Rightarrow> if key x < key b then Some x else Some b)"

definition first_least :: "('a \<Rightarrow> 'k::linorder) \<Rightarrow> 'a list \<Rightarrow> 'a option" where
  "first_least key xs = foldl (least_step key) None xs"

lemma least_step_simps [simp]:
  "least_step key None x = Some x"
  "least_step key (Some b) x = Some (if key x < key b then x else b)"
  by (simp_all add: least_step_def)

lemma first_least_aux:
  "foldl (least_step key) (Some b) xs = Some x \<Longrightarrow>
   (x = b \<or> x \<in> set xs) \<and> key x \<le> key b \<and> (\<forall>y \<in> set xs. key x \<le> key y)"
proof (induction xs arbitrary: b)
  case (Cons y ys)
  define b' where "b' = (if key y < key b then y else b)"
  have "foldl (least_step key) (Some b') ys = Some x"
    using Cons.prems by (simp add: b'_def)
  then have "(x = b' \<or> x \<in> set ys) \<and> key x \<le> key b' \<and> (\<forall>y \<in> set ys. key x \<le> key y)"
    by (rule Cons.IH)
  then show ?case by (auto simp: b'_def split: if_splits)
qed simp

lemma first_least_total: "\<exists>x. foldl (least_step key) (Some b) xs = Some x"
proof (induction xs arbitrary: b)
  case (Cons y ys)
  show ?case using Cons[of "if key y < key b then y else b"] by simp
qed simp

lemma first_least_Some:
  assumes "first_least key xs = Some x"
  shows "x \<in> set xs" and "\<And>y. y \<in> set xs \<Longrightarrow> key x \<le> key y"
  using assms first_least_aux[of key _ "tl xs" x]
  by (cases xs; force simp: first_least_def)+

lemma first_least_None: "first_least key xs = None \<longleftrightarrow> xs = []"
  using first_least_total[of key "hd xs" "tl xs"]
  by (cases xs) (auto simp: first_least_def)

section \<open>The data choice\<close>

definition has_room :: "gotime \<Rightarrow> path \<Rightarrow> bool" where
  "has_room now p \<longleftrightarrow> p_inflight p < inflightCap now p"

definition drain_key :: "int \<Rightarrow> gotime \<Rightarrow> path \<Rightarrow> rat \<times> int \<times> u64" where
  "drain_key len now p = (drain_time len now p, p_inflight p, p_id p)"

definition candidates :: "gotime \<Rightarrow> bool \<Rightarrow> path list \<Rightarrow> path list" where
  "candidates now incl paths = filter (\<lambda>p. (p_suspect p \<longrightarrow> incl) \<and> has_room now p) paths"

lemma pickMinDrain_loop:
  "map_option fst (foldl (pickMinDrain_step len now incl) (map_option (\<lambda>p. (p, drain_time len now p)) b) paths) =
   foldl (least_step (drain_key len now)) b (candidates now incl paths)"
proof (induction paths arbitrary: b)
  case Nil
  then show ?case by (simp add: candidates_def option.map_comp o_def option.map_ident)
next
  case (Cons p paths)
  show ?case
  proof (cases "(p_suspect p \<longrightarrow> incl) \<and> has_room now p")
    case False
    then show ?thesis using Cons.IH[of b]
      by (auto simp: candidates_def pickMinDrain_step_def has_room_def not_less)
  next
    case True
    then have step: "pickMinDrain_step len now incl (map_option (\<lambda>p. (p, drain_time len now p)) b) p =
        map_option (\<lambda>p. (p, drain_time len now p)) (least_step (drain_key len now) b p)"
      by (cases b) (auto simp: pickMinDrain_step_def has_room_def least_step_def drain_key_def Let_def)
    show ?thesis using True Cons.IH[of "least_step (drain_key len now) b p"]
      by (simp add: step candidates_def)
  qed
qed

lemma pickMinDrain_least: "pickMinDrain paths len now incl = first_least (drain_key len now) (candidates now incl paths)"
  using pickMinDrain_loop[of len now incl None paths] by (simp add: pickMinDrain_def first_least_def)

lemma inflightCap_floor: "minInflightCap \<le> inflightCap now p"
  by (simp add: inflightCap_def Let_def)

lemma pickData_cases:
  obtains (fresh) p where "pickData paths len now = Some p"
      "first_least (drain_key len now) (candidates now False paths) = Some p"
  | (fallback) p where "pickData paths len now = Some p" "candidates now False paths = []"
      "first_least (drain_key len now) (candidates now True paths) = Some p"
  | (none) "pickData paths len now = None" "candidates now True paths = []"
proof (cases "first_least (drain_key len now) (candidates now False paths)")
  case (Some p)
  then show thesis using fresh by (simp add: pickData_def pickMinDrain_least)
next
  case None
  then have none1: "candidates now False paths = []" by (simp add: first_least_None)
  show thesis
  proof (cases "first_least (drain_key len now) (candidates now True paths)")
    case None
    then have "candidates now True paths = []" by (simp add: first_least_None)
    moreover have "pickData paths len now = None"
      using None \<open>first_least _ (candidates now False paths) = None\<close>
      by (simp add: pickData_def pickMinDrain_least)
    ultimately show thesis by (rule none[rotated])
  next
    case (Some p)
    then show thesis using fallback none1 \<open>first_least _ (candidates now False paths) = None\<close>
      by (simp add: pickData_def pickMinDrain_least)
  qed
qed

lemma pickData_in: "pickData paths len now = Some p \<Longrightarrow> p \<in> set paths \<and> has_room now p"
  by (rule pickData_cases[of paths len now]) (auto simp: candidates_def dest!: first_least_Some(1))

section \<open>The ACK choice\<close>

definition ack_key :: "path \<Rightarrow> bool \<times> bool \<times> int" where
  "ack_key p = (p_suspect p, \<not> p_hasRTT p, if p_hasRTT p then p_srtt p else 0)"

lemma pickAck_least: "pickAck paths = first_least ack_key paths"
proof -
  have "pickAck_step b p = least_step ack_key b p" for b p
    by (cases b) (auto simp: pickAck_step_def least_step_def ack_key_def)
  then have "pickAck_step = least_step ack_key" by (intro ext)
  then show ?thesis by (simp add: pickAck_def first_least_def)
qed

section \<open>The scheduler interface\<close>

text \<open>
  What a stream relies on when it asks its \<open>scheduler\<close>: the answer is one of the paths it passed, a
  data frame goes to a path with room only, and an ACK is refused only when there is no path.
\<close>

locale path_scheduler =
  fixes pick_data :: "path list \<Rightarrow> int \<Rightarrow> gotime \<Rightarrow> path option"
    and pick_ack :: "path list \<Rightarrow> path option"
    and room :: "gotime \<Rightarrow> path \<Rightarrow> bool"
  assumes pick_data_law: "pick_data ps len now = Some p \<Longrightarrow> p \<in> set ps \<and> room now p"
    and pick_data_none: "pick_data ps len now = None \<Longrightarrow> q \<in> set ps \<Longrightarrow> \<not> room now q"
    and pick_ack_law: "pick_ack ps = Some p \<Longrightarrow> p \<in> set ps"
    and pick_ack_none: "pick_ack ps = None \<Longrightarrow> ps = []"
begin

lemma pick_data_some: "q \<in> set ps \<Longrightarrow> room now q \<Longrightarrow> \<exists>p \<in> set ps. pick_data ps len now = Some p"
  using pick_data_none pick_data_law by (cases "pick_data ps len now") blast+

lemma pick_ack_some: "ps \<noteq> [] \<Longrightarrow> \<exists>p \<in> set ps. pick_ack ps = Some p"
  using pick_ack_none pick_ack_law by (cases "pick_ack ps") blast+

end

interpretation mds: path_scheduler pickData pickAck has_room
proof unfold_locales
  show "p \<in> set ps \<and> has_room now p" if "pickData ps len now = Some p" for ps len now p
    using that by (rule pickData_in)
  show "\<not> has_room now q" if "pickData ps len now = None" "q \<in> set ps" for ps len now q
    using that by (rule_tac pickData_cases[of ps len now]) (auto simp: candidates_def filter_empty_conv)
  show "p \<in> set ps" if "pickAck ps = Some p" for ps p
    using that first_least_Some(1) by (auto simp: pickAck_least)
  show "ps = []" if "pickAck ps = None" for ps
    using that by (simp add: pickAck_least first_least_None)
qed

section \<open>Bounds of the metrics\<close>

text \<open>Metrics of a path that was only fed sane samples.\<close>

definition rtt_bounded :: "int \<Rightarrow> path \<Rightarrow> bool" where
  "rtt_bounded B p \<longleftrightarrow> 0 \<le> p_srtt p \<and> p_srtt p \<le> B \<and> 0 \<le> p_rttvar p \<and> p_rttvar p \<le> B \<and>
     0 \<le> p_minRTT p \<and> p_minRTT p \<le> B"

definition rate_ok :: "path \<Rightarrow> bool" where
  "rate_ok p \<longleftrightarrow> f64.is_float (p_estRate p) \<and> 0 \<le> p_estRate p"

lemma filterRate_between:
  assumes "f64.is_float cur" and "f64.is_float sample"
  shows "min cur sample \<le> filterRate cur sample \<and> filterRate cur sample \<le> max cur sample \<and>
    f64.is_float (filterRate cur sample)"
proof (cases "cur \<le> sample")
  case True
  then show ?thesis using assms by (simp add: filterRate_def)
next
  case False
  then show ?thesis using f64.ewma_between[OF assms] f64.is_float_fl by (simp add: filterRate_def)
qed

lemma seconds_nonneg: "0 \<le> d \<Longrightarrow> 0 \<le> seconds d"
proof -
  assume d: "0 \<le> d"
  then have q: "quot d second = d div second" by (simp add: quot_nonneg second_def)
  then have "0 \<le> quot d second" "0 \<le> quot_rem d second"
    using d by (simp_all add: quot_rem_def second_def minus_div_mult_eq_mod)
  then show ?thesis unfolding seconds_def by (intro f64.fl_nonneg add_nonneg_nonneg divide_nonneg_nonneg) simp_all
qed

lemma float_of_u64_nonneg: "0 \<le> float_of_u64 n"
  unfolding float_of_u64_def by (intro f64.fl_nonneg) (simp only: of_nat_0_le_iff)

lemma creditDelivered_inflight [simp]: "p_inflight (creditDelivered n now p) = p_inflight p"
  by (simp add: creditDelivered_def Let_def)

lemma onDelivered_inflight [simp]: "p_inflight (onDelivered n now p) = p_inflight p - n"
  by (simp add: onDelivered_def)

lemma sampled_same [simp]:
  "p_id (creditDelivered n now p) = p_id p" "p_id (onDelivered n now p) = p_id p"
  "p_id (noteRTT r now e p) = p_id p" "p_inflight (noteRTT r now e p) = p_inflight p"
  "p_suspect (creditDelivered n now p) = p_suspect p" "p_suspect (onDelivered n now p) = p_suspect p"
  "p_srtt (creditDelivered n now p) = p_srtt p" "p_srtt (onDelivered n now p) = p_srtt p"
  by (simp_all add: creditDelivered_def onDelivered_def noteRTT_def clearSuspect_def Let_def)

lemma creditDelivered_rate_ok: "rate_ok p \<Longrightarrow> rate_ok (creditDelivered n now p)"
proof -
  assume ok: "rate_ok p"
  have step: "rate_ok (q\<lparr>p_estRate := filterRate (p_estRate q) (fl64 (float_of_u64 d / seconds dt)),
      p_hasRate := h, p_rateMark := m, p_lastRateAt := t\<rparr>)"
    if "rate_ok q" "0 \<le> dt" for q d dt h m t
  proof -
    have "0 \<le> fl64 (float_of_u64 d / seconds dt)"
      using that float_of_u64_nonneg seconds_nonneg by (intro f64.fl_nonneg divide_nonneg_nonneg) simp_all
    then show ?thesis
      using filterRate_between[of "p_estRate q" "fl64 (float_of_u64 d / seconds dt)"] f64.is_float_fl that
      by (auto simp: rate_ok_def)
  qed
  have floor: "0 \<le> rateSampleFloor" by (simp add: duration_defs)
  show ?thesis using ok step floor unfolding creditDelivered_def Let_def
    by (auto simp: rate_ok_def not_less split: if_splits)
qed

lemma noteRTT_srtt:
  assumes "0 \<le> r"
  shows "p_srtt (noteRTT r now e p) = (if p_hasRTT p then quot (wrap64 (7 * p_srtt p + r)) 8 else r)"
    and "p_hasRTT (noteRTT r now e p)"
  using assms by (simp_all add: noteRTT_def clearSuspect_def Let_def)

lemma noteRTT_bounded:
  assumes "rtt_bounded B p" and r: "0 \<le> r" "r \<le> B" and B: "B < 2 ^ 59"
  shows "rtt_bounded B (noteRTT r now e p)" and "p_minRTT (noteRTT r now e p) \<le> r"
proof -
  define d where "d = \<bar>p_srtt p - r\<bar>"
  have bnd: "0 \<le> p_srtt p" "p_srtt p \<le> B" "0 \<le> p_rttvar p" "p_rttvar p \<le> B" "0 \<le> p_minRTT p" "p_minRTT p \<le> B"
    using assms(1) by (simp_all add: rtt_bounded_def)
  have d: "0 \<le> d" "d \<le> B" using bnd r by (simp_all add: d_def abs_le_iff)
  have w: "wrap64 (p_srtt p - r) = p_srtt p - r" "wrap64 (- (p_srtt p - r)) = - (p_srtt p - r)"
    "wrap64 (3 * p_rttvar p + d) = 3 * p_rttvar p + d" "wrap64 (7 * p_srtt p + r) = 7 * p_srtt p + r"
    using bnd r d B by (simp_all add: int64_range_def)
  have ad: "(if p_srtt p - r < 0 then - (p_srtt p - r) else p_srtt p - r) = d" by (simp add: d_def)
  have v: "quot (3 * p_rttvar p + d) 4 = (3 * p_rttvar p + d) div 4" "quot (7 * p_srtt p + r) 8 = (7 * p_srtt p + r) div 8"
    "quot r 2 = r div 2" using bnd d r by (simp_all add: quot_nonneg)
  have dv: "r div 2 \<le> B" "0 \<le> (7 * p_srtt p + r) div 8" "(7 * p_srtt p + r) div 8 \<le> B"
    "0 \<le> (3 * p_rttvar p + d) div 4" "(3 * p_rttvar p + d) div 4 \<le> B"
    using bnd r d zdiv_mono1[of "7 * p_srtt p + r" "8 * B" 8] zdiv_mono1[of "3 * p_rttvar p + d" "4 * B" 4]
    by simp_all
  show "rtt_bounded B (noteRTT r now e p)" "p_minRTT (noteRTT r now e p) \<le> r"
    using bnd r d dv unfolding noteRTT_def Let_def w ad
    by (simp_all add: rtt_bounded_def clearSuspect_def w v)
qed

section \<open>Properties\<close>

text \<open>
  The data choice is the candidate of least drain time, ties broken by in-flight bytes and then
  by path id. A suspect path is chosen only when every other path is at its in-flight cap, and no
  path is chosen only when all are.
\<close>

theorem pickData_min_drain:
  "case pickData paths len now of
     None \<Rightarrow> \<forall>q \<in> set paths. inflightCap now q \<le> p_inflight q
   | Some p \<Rightarrow> p \<in> set paths \<and> p_inflight p < inflightCap now p \<and>
       (\<forall>q \<in> set paths. p_inflight q < inflightCap now q \<longrightarrow>
          (p_suspect p \<longrightarrow> p_suspect q) \<and>
          (p_suspect q = p_suspect p \<longrightarrow>
            (drain_time len now p, p_inflight p, p_id p) \<le> (drain_time len now q, p_inflight q, p_id q)))"
proof (rule pickData_cases[of paths len now])
  fix p
  assume p: "pickData paths len now = Some p"
    "first_least (drain_key len now) (candidates now False paths) = Some p"
  have "p \<in> set (candidates now False paths)" by (rule first_least_Some(1)[OF p(2)])
  then show ?thesis using p(1) first_least_Some(2)[OF p(2)]
    by (auto simp: candidates_def has_room_def drain_key_def simp del: less_eq_prod_simp)
next
  fix p
  assume p: "pickData paths len now = Some p" and none: "candidates now False paths = []"
    and least: "first_least (drain_key len now) (candidates now True paths) = Some p"
  have "p \<in> set (candidates now True paths)" by (rule first_least_Some(1)[OF least])
  then show ?thesis using p none first_least_Some(2)[OF least]
    by (auto simp: candidates_def has_room_def drain_key_def filter_empty_conv simp del: less_eq_prod_simp)
next
  assume "pickData paths len now = None" "candidates now True paths = []"
  then show ?thesis by (simp add: candidates_def has_room_def filter_empty_conv not_less)
qed

text \<open>
  C18: the choice depends on the set of paths, not on their order in the list: paths have distinct
  ids, so that ties are broken deterministically.
\<close>

theorem pickData_order_independent:
  assumes "set paths' = set paths" and "inj_on p_id (set paths)"
  shows "pickData paths' len now = pickData paths len now"
proof -
  have same: "first_least (drain_key len now) (candidates now b paths') =
      first_least (drain_key len now) (candidates now b paths)" for b
  proof -
    let ?c = "candidates now b"
    have st: "set (?c paths') = set (?c paths)" using assms(1) by (auto simp: candidates_def)
    have sub: "set (?c paths) \<subseteq> set paths" by (auto simp: candidates_def)
    show ?thesis
    proof (cases "first_least (drain_key len now) (?c paths)")
      case None
      then show ?thesis using st by (simp add: first_least_None)
    next
      case (Some p)
      have "?c paths' \<noteq> []" using st first_least_Some(1)[OF Some] by auto
      then obtain q where q: "first_least (drain_key len now) (?c paths') = Some q"
        using first_least_None[of "drain_key len now" "?c paths'"] by blast
      have "drain_key len now p = drain_key len now q"
      proof (rule order_antisym)
        show "drain_key len now p \<le> drain_key len now q"
          using first_least_Some(2)[OF Some] first_least_Some(1)[OF q] st by blast
        show "drain_key len now q \<le> drain_key len now p"
          using first_least_Some(2)[OF q] first_least_Some(1)[OF Some] st by blast
      qed
      then have "p_id p = p_id q" by (simp add: drain_key_def)
      moreover have "p \<in> set paths" "q \<in> set paths"
        using first_least_Some(1)[OF Some] first_least_Some(1)[OF q] st sub by auto
      ultimately have "p = q" using assms(2) by (simp add: inj_on_def)
      then show ?thesis using Some q by simp
    qed
  qed
  then have "pickMinDrain paths' len now b = pickMinDrain paths len now b" for b
    by (simp only: pickMinDrain_least)
  then show ?thesis by (simp only: pickData_def)
qed

text \<open>
  A path that has less than two full frames in flight can always be chosen: while such a path
  is alive the scheduler does not stall.
\<close>

theorem pickData_never_starves:
  assumes "q \<in> set paths" and "p_inflight q < 2 * 65536"
  shows "\<exists>p \<in> set paths. pickData paths len now = Some p"
proof -
  have "has_room now q"
    using assms(2) inflightCap_floor[of now q] by (simp add: has_room_def minInflightCap_def)
  then show ?thesis by (rule mds.pick_data_some[OF assms(1)])
qed

text \<open>
  The ACK choice prefers a path that is not suspect, then one with an RTT sample, then the
  smallest smoothed RTT, and exists whenever a path does.
\<close>

theorem pickAck_low_latency:
  "case pickAck paths of
     None \<Rightarrow> paths = []
   | Some p \<Rightarrow> p \<in> set paths \<and>
       (\<forall>q \<in> set paths. (p_suspect p \<longrightarrow> p_suspect q) \<and>
         (p_suspect q = p_suspect p \<longrightarrow> p_hasRTT q \<longrightarrow> p_hasRTT p \<and> p_srtt p \<le> p_srtt q))"
proof (cases "pickAck paths")
  case None
  then have "paths = []" by (simp add: pickAck_least first_least_None)
  then show ?thesis using None by simp
next
  case (Some p)
  have "ack_key p \<le> ack_key q" if "q \<in> set paths" for q
    using Some first_least_Some(2) that by (simp add: pickAck_least)
  moreover have "p \<in> set paths" using Some first_least_Some(1) by (simp add: pickAck_least)
  ultimately show ?thesis using Some by (fastforce simp: ack_key_def split: if_splits)
qed

text \<open>
  RTT sampling: negative samples are ignored; non-negative ones below \<open>2^59\<close> keep the smoothed
  RTT, its variance and the minimum within the largest sample, the minimum follows down, and the
  suspect mark is cleared exactly by an echo of a frame sent after the mark was set.
\<close>

theorem noteRTT_sound:
  assumes "rtt_bounded B p" and "r \<le> B" and "B < 2 ^ 59"
  shows "rtt_bounded B (noteRTT r now e p) \<and>
    (r < 0 \<longrightarrow> noteRTT r now e p = p) \<and>
    (0 \<le> r \<longrightarrow> p_minRTT (noteRTT r now e p) \<le> r \<and> p_hasRTT (noteRTT r now e p) \<and>
      (p_suspect (noteRTT r now e p) \<longleftrightarrow> p_suspect p \<and> e \<le> p_suspectSinceTs p))"
proof (cases "r < 0")
  case True
  then show ?thesis using assms by (simp add: noteRTT_def)
next
  case False
  have "p_hasRTT (noteRTT r now e p)"
    "p_suspect (noteRTT r now e p) \<longleftrightarrow> p_suspect p \<and> e \<le> p_suspectSinceTs p"
    using False by (auto simp: noteRTT_def clearSuspect_def Let_def not_less)
  then show ?thesis using False noteRTT_bounded[OF assms(1) _ assms(2,3)] by simp
qed

text \<open>
  A forged echo can make a sample large enough for the arithmetic of \<open>srtt\<close> to overflow: two
  equal samples of 50 years leave the path with a negative smoothed RTT.
\<close>

theorem noteRTT_overflow:
  "p_srtt (noteRTT (3 * 2 ^ 59) t2 0 (noteRTT (3 * 2 ^ 59) t1 0 (new_path i d t0))) < 0"
proof -
  have "p_hasRTT (noteRTT (3 * 2 ^ 59) t1 0 (new_path i d t0))"
    "p_srtt (noteRTT (3 * 2 ^ 59) t1 0 (new_path i d t0)) = 3 * 2 ^ 59"
    by (simp_all add: noteRTT_srtt) (simp add: new_path_def)
  moreover have "quot (wrap64 (7 * (3 * 2 ^ 59) + 3 * 2 ^ 59)) 8 < 0" by (simp add: wrap64_def quot_def)
  ultimately show ?thesis by (simp add: noteRTT_srtt)
qed

text \<open>
  The delivery-rate filter: a sample above the estimate is adopted, one below moves the estimate
  down without passing the sample; the estimate of a path stays a non-negative \<open>float64\<close>.
\<close>

theorem rate_filter_sound:
  assumes "f64.is_float cur" and "f64.is_float sample" and "rate_ok p"
  shows "(cur \<le> sample \<longrightarrow> filterRate cur sample = sample) \<and>
    (sample \<le> cur \<longrightarrow> sample \<le> filterRate cur sample \<and> filterRate cur sample \<le> cur) \<and>
    rate_ok (onDelivered n now p)"
proof -
  have "rate_ok (p\<lparr>p_inflight := i\<rparr>)" for i using assms(3) by (simp add: rate_ok_def)
  then have "rate_ok (onDelivered n now p)" using creditDelivered_rate_ok by (simp add: onDelivered_def)
  moreover have "cur \<le> sample \<Longrightarrow> filterRate cur sample = sample" by (simp add: filterRate_def)
  ultimately show ?thesis using filterRate_between[OF assms(1,2)] by auto
qed

section \<open>Witnesses\<close>

theorem pickData_min_drain_witness:
  "case pickData [new_path 3 True (At 0), new_path 2 True (At 0)] 1000 (At 5) of
     None \<Rightarrow> False | Some p \<Rightarrow> p_id p = 2"
proof -
  let ?ps = "[new_path 3 True (At 0), new_path 2 True (At 0)]"
  have cap: "inflightCap (At 5) (new_path i True (At 0)) = minInflightCap" for i
    by (simp add: inflightCap_def effRate_def new_path_def seconds_def quot_def quot_rem_def fl64_def
        int64_of_float_def trunc_def minInflightCap_def peerRateTTL_def defaultTelemetryInterval_def
        millisecond_def max_duration_def Let_def int64_range_def)
  have d: "drain_time 1000 (At 5) (new_path i True (At 0)) = drain_time 1000 (At 5) (new_path 3 True (At 0))" for i
    by (simp add: drain_time_def effRate_def new_path_def staleAfter_def)
  have room: "p_inflight (new_path i True (At 0)) = 0" "\<not> p_suspect (new_path i True (At 0))"
    "p_id (new_path i True (At 0)) = i" for i by (simp_all add: new_path_def)
  show ?thesis
    using pickData_min_drain[where paths = ?ps and len = 1000 and now = "At 5"] d[of 2]
    by (auto simp: room cap minInflightCap_def split: option.splits)
qed

definition demo_path :: "u64 \<Rightarrow> int \<Rightarrow> path" where
  "demo_path i n = (new_path i True (At 0))\<lparr>p_inflight := n\<rparr>"

theorem pickData_order_independent_witness:
  "pickData [demo_path 1 10, demo_path 2 20] 100 (At 7) = pickData [demo_path 2 20, demo_path 1 10] 100 (At 7)"
  by (rule pickData_order_independent) (auto simp: demo_path_def new_path_def)

theorem pickData_never_starves_witness:
  "\<exists>p \<in> set [demo_path 1 10]. pickData [demo_path 1 10] 100 (At 7) = Some p"
  by (rule pickData_never_starves[of "demo_path 1 10"]) (simp_all add: demo_path_def)

theorem pickAck_low_latency_witness:
  "pickAck [(demo_path 1 0)\<lparr>p_suspect := True\<rparr>, demo_path 2 0] = Some (demo_path 2 0)"
  using pickAck_low_latency[of "[(demo_path 1 0)\<lparr>p_suspect := True\<rparr>, demo_path 2 0]"]
  by (auto simp: demo_path_def new_path_def split: option.splits)

theorem noteRTT_sound_witness:
  "rtt_bounded (100 * millisecond) (noteRTT (20 * millisecond) (At 9) 5 (demo_path 1 0))"
  using noteRTT_sound[of "100 * millisecond" "demo_path 1 0" "20 * millisecond" "At 9" 5]
  by (simp add: rtt_bounded_def demo_path_def new_path_def millisecond_def)

theorem rate_filter_sound_witness:
  "filterRate 0 4 = 4 \<and> rate_ok (onDelivered 10 (At (3 * second)) (demo_path 1 10))"
proof -
  have "fl64 4 = 4"
    by code_simp
  then show ?thesis
    using rate_filter_sound[of 0 4 "demo_path 1 10" 10 "At (3 * second)"]
    by (simp add: f64.is_float_def f64.fl_zero rate_ok_def demo_path_def new_path_def)
qed

end
