(* ===== verification/Segments.thy ===== *)
theory Segments
  imports Frame Path
begin

text \<open>
  The retransmission buffer of \<open>src/stream.go\<close>: the list of sent and unacknowledged segments and what
  the stream does to it, apart from the rest of its state: choosing the next hole to resend, splitting
  a segment, the soft-failure pass, releasing acknowledged bytes, and handing the segments of a dead
  path back to the pool. A segment names its path by \<open>path_id\<close>; the ids of live paths are distinct.
\<close>

section \<open>State\<close>

record sseg =
  ss_off :: u64
  ss_data :: bytes
  ss_path :: "u64 option"
  ss_sentAt :: gotime
  ss_sacked :: bool

definition lookup :: "u64 \<Rightarrow> path list \<Rightarrow> path option" where
  "lookup i ps = find (\<lambda>p. p_id p = i) ps"

definition upd_path :: "u64 \<Rightarrow> (path \<Rightarrow> path) \<Rightarrow> path list \<Rightarrow> path list" where
  "upd_path i f ps = map (\<lambda>p. if p_id p = i then f p else p) ps"

definition seg_len :: "sseg \<Rightarrow> int" where
  "seg_len g = int (length (ss_data g))"

definition sseg_end :: "sseg \<Rightarrow> u64" where
  "sseg_end g = ss_off g + u64_of_len (length (ss_data g))"

section \<open>Retransmission\<close>

text \<open>\<open>nextResendLocked\<close>: the first hole of the pool, marking covered segments on the way.\<close>

fun next_resend :: "brange list \<Rightarrow> nat \<Rightarrow> sseg list \<Rightarrow> sseg list \<times> (nat \<times> u64 \<times> u64) option" where
  "next_resend rs i [] = ([], None)"
| "next_resend rs i (g # gs) =
     (if ss_path g \<noteq> None \<or> ss_sacked g
      then let (gs', r) = next_resend rs (Suc i) gs in (g # gs', r)
      else let (a, b) = first_hole (ss_off g) (sseg_end g) rs in
        if b \<le> a
        then let (gs', r) = next_resend rs (Suc i) gs in (g\<lparr>ss_sacked := True\<rparr> # gs', r)
        else (g # gs, Some (i, a, b)))"

text \<open>\<open>splitResendLocked\<close>: the covered prefix, the part sent again, the rest of the segment.\<close>

definition split_parts :: "sseg \<Rightarrow> u64 \<Rightarrow> nat \<Rightarrow> u64 \<Rightarrow> gotime \<Rightarrow> sseg list" where
  "split_parts g hs n i now =
     (let d0 = unat (hs - ss_off g) in
      (if 0 < d0
       then [\<lparr>ss_off = ss_off g, ss_data = take d0 (ss_data g), ss_path = None, ss_sentAt = Zero_Time, ss_sacked = True\<rparr>]
       else [])
      @ [\<lparr>ss_off = hs, ss_data = take n (drop d0 (ss_data g)), ss_path = Some i, ss_sentAt = now, ss_sacked = False\<rparr>]
      @ (if d0 + n < length (ss_data g)
         then [\<lparr>ss_off = hs + u64_of_len n, ss_data = drop (d0 + n) (ss_data g), ss_path = None, ss_sentAt = Zero_Time, ss_sacked = False\<rparr>]
         else []))"

definition split_resend :: "sseg list \<Rightarrow> nat \<Rightarrow> u64 \<Rightarrow> nat \<Rightarrow> u64 \<Rightarrow> gotime \<Rightarrow> sseg list" where
  "split_resend gs k hs n i now = take k gs @ split_parts (gs ! k) hs n i now @ drop (Suc k) gs"

text \<open>\<open>checkSoftFailLocked\<close>: one pass over the segments, then the suspects beyond their RTO.\<close>

definition mark_suspect :: "gotime \<Rightarrow> u64 \<Rightarrow> path \<Rightarrow> path" where
  "mark_suspect now ts p =
     (if p_suspect p then p else p\<lparr>p_suspect := True, p_suspectSince := now, p_suspectSinceTs := ts\<rparr>)"

definition release :: "int \<Rightarrow> path \<Rightarrow> path" where
  "release n p = p\<lparr>p_inflight := p_inflight p - n\<rparr>"

definition soft_fail_seg ::
  "brange list \<Rightarrow> gotime \<Rightarrow> u64 \<Rightarrow> sseg \<Rightarrow> path list \<Rightarrow> sseg \<times> path list \<times> bool" where
  "soft_fail_seg rs now ts g ps =
     (if ss_sacked g then (g, ps, False)
      else if covered_by rs (ss_off g) (sseg_end g) then
        (g\<lparr>ss_sacked := True\<rparr>,
         case ss_path g of None \<Rightarrow> ps | Some i \<Rightarrow> upd_path i (release (seg_len g)) ps, False)
      else case ss_path g of
        None \<Rightarrow> (g, ps, False)
      | Some i \<Rightarrow>
          (case lookup i ps of
             None \<Rightarrow> (g, ps, False)
           | Some p \<Rightarrow>
               if time_sub now (ss_sentAt g) \<le> suspectAfter p then (g, ps, False)
               else (g\<lparr>ss_path := None\<rparr>,
                     upd_path i (\<lambda>p. release (seg_len g) (mark_suspect now ts p)) ps, True)))"

fun soft_fail_segs ::
  "brange list \<Rightarrow> gotime \<Rightarrow> u64 \<Rightarrow> sseg list \<Rightarrow> path list \<Rightarrow> sseg list \<times> path list \<times> bool" where
  "soft_fail_segs rs now ts [] ps = ([], ps, False)"
| "soft_fail_segs rs now ts (g # gs) ps =
     (let (g', ps1, m) = soft_fail_seg rs now ts g ps;
          (gs', ps2, m') = soft_fail_segs rs now ts gs ps1 in (g' # gs', ps2, m \<or> m'))"

definition rto_expired :: "gotime \<Rightarrow> path \<Rightarrow> bool" where
  "rto_expired now p \<longleftrightarrow> p_suspect p \<and> rto p < time_sub now (p_suspectSince p)"

section \<open>A path dies\<close>

text \<open>The loop of \<open>dropPath\<close> over the segments, and the number of segments it counts as lost.\<close>

definition orphan :: "u64 \<Rightarrow> sseg list \<Rightarrow> sseg list" where
  "orphan i gs = map (\<lambda>g. if ss_path g = Some i then g\<lparr>ss_path := None\<rparr> else g) gs"

definition orphan_count :: "u64 \<Rightarrow> sseg list \<Rightarrow> nat" where
  "orphan_count i gs = length (filter (\<lambda>g. ss_path g = Some i) gs)"

section \<open>Releasing acknowledged bytes\<close>

definition credit :: "sseg \<Rightarrow> int \<Rightarrow> gotime \<Rightarrow> path list \<Rightarrow> path list" where
  "credit g n now ps =
     (case ss_path g of
        None \<Rightarrow> ps
      | Some i \<Rightarrow> upd_path i (if ss_sacked g then creditDelivered n now else onDelivered n now) ps)"

fun free_acked :: "u64 \<Rightarrow> gotime \<Rightarrow> sseg list \<Rightarrow> path list \<Rightarrow> sseg list \<times> path list" where
  "free_acked cum now [] ps = ([], ps)"
| "free_acked cum now (g # gs) ps =
     (if sseg_end g \<le> cum then free_acked cum now gs (credit g (seg_len g) now ps)
      else if ss_off g < cum then
        let trim = cum - ss_off g in
        (g\<lparr>ss_data := drop (unat trim) (ss_data g), ss_off := cum\<rparr> # gs, credit g (int (unat trim)) now ps)
      else (g # gs, ps))"

section \<open>Tiling\<close>

text \<open>
  The segments from \<open>a\<close> on are adjacent, not empty, end at \<open>b\<close>, and carry the bytes of \<open>W\<close>, what the
  application has written.
\<close>

fun tiling :: "bytes \<Rightarrow> nat \<Rightarrow> sseg list \<Rightarrow> nat \<Rightarrow> bool" where
  "tiling W a [] b = (a = b)"
| "tiling W a (g # gs) b =
     (unat (ss_off g) = a \<and> ss_data g \<noteq> [] \<and> a + length (ss_data g) \<le> length W \<and>
      take (length (ss_data g)) (drop a W) = ss_data g \<and> tiling W (a + length (ss_data g)) gs b)"

lemma tiling_append:
  "tiling W a (xs @ ys) b \<longleftrightarrow> (\<exists>m. tiling W a xs m \<and> tiling W m ys b)"
  by (induction xs arbitrary: a) auto

lemma tiling_cat: "tiling W a xs m \<Longrightarrow> tiling W m ys b \<Longrightarrow> tiling W a (xs @ ys) b"
  unfolding tiling_append by blast

lemma tiling_same_bytes:
  "map (\<lambda>g. (ss_off g, ss_data g)) gs' = map (\<lambda>g. (ss_off g, ss_data g)) gs \<Longrightarrow> tiling W a gs' b = tiling W a gs b"
proof (induction gs arbitrary: gs' a)
  case (Cons g gs)
  then obtain g' gs2 where "gs' = g' # gs2" by (cases gs') auto
  then show ?case using Cons.prems Cons.IH[of gs2] by simp
qed simp

lemma tiling_mono: "tiling W a gs b \<Longrightarrow> a \<le> b"
  by (induction gs arbitrary: a) force+

lemma tiling_len: "tiling W a gs b \<Longrightarrow> gs \<noteq> [] \<Longrightarrow> b \<le> length W"
proof (induction gs arbitrary: a)
  case (Cons g gs)
  then show ?case by (cases "gs = []") auto
qed simp

lemma tiling_extend: "tiling W a gs b \<Longrightarrow> tiling (W @ V) a gs b"
  by (induction gs arbitrary: a) auto

lemma tiling_member:
  "tiling W a gs b \<Longrightarrow> g \<in> set gs \<Longrightarrow>
   a \<le> unat (ss_off g) \<and> unat (ss_off g) + length (ss_data g) \<le> b \<and> ss_data g \<noteq> [] \<and>
   take (length (ss_data g)) (drop (unat (ss_off g)) W) = ss_data g \<and>
   unat (ss_off g) + length (ss_data g) \<le> length W"
proof (induction gs arbitrary: a)
  case (Cons h gs)
  show ?case
  proof (cases "g = h")
    case True
    then show ?thesis using Cons.prems(1) by (auto dest: tiling_mono)
  next
    case False
    then show ?thesis using Cons.prems Cons.IH[of "a + length (ss_data h)"] by auto
  qed
qed simp

lemma sseg_end_nat:
  "unat (ss_off g) + length (ss_data g) < 2 ^ 64 \<Longrightarrow> unat (sseg_end g) = unat (ss_off g) + length (ss_data g)"
  by (simp add: sseg_end_def unat_add_len)

section \<open>The in-flight account\<close>

text \<open>Bytes that path \<open>i\<close> has in flight: its segments that no SACK range covers.\<close>

definition charge :: "u64 \<Rightarrow> sseg \<Rightarrow> int" where
  "charge i g = (if ss_path g = Some i \<and> \<not> ss_sacked g then seg_len g else 0)"

definition charged :: "u64 \<Rightarrow> sseg list \<Rightarrow> int" where
  "charged i gs = sum_list (map (charge i) gs)"

lemma charged_simps [simp]:
  "charged i [] = 0"
  "charged i (g # gs) = charge i g + charged i gs"
  "charged i (xs @ ys) = charged i xs + charged i ys"
  by (simp_all add: charged_def)

text \<open>Distinct ids, segments only on live paths, and every path's account is what its segments say.\<close>

definition owned :: "sseg list \<Rightarrow> path list \<Rightarrow> bool" where
  "owned gs ps \<longleftrightarrow> ss_path ` set gs \<subseteq> insert None (Some ` p_id ` set ps)"

definition balanced :: "sseg list \<Rightarrow> path list \<Rightarrow> bool" where
  "balanced gs ps \<longleftrightarrow> (\<forall>p \<in> set ps. p_inflight p = charged (p_id p) gs)"

text \<open>The same with the account of the segments \<open>rest\<close> still to be visited by a loop.\<close>

lemma charge_nonneg: "0 \<le> charge i g"
  by (simp add: charge_def seg_len_def)

lemma charged_nonneg: "0 \<le> charged i gs"
  unfolding charged_def by (intro sum_list_nonneg) (auto simp: charge_nonneg)

lemma set_upd_path: "set (upd_path i f ps) = (\<lambda>p. if p_id p = i then f p else p) ` set ps"
  by (simp add: upd_path_def)

lemma map_id_upd_path: "(\<And>p. p_id (f p) = p_id p) \<Longrightarrow> map p_id (upd_path i f ps) = map p_id ps"
  by (simp add: upd_path_def o_def if_distrib cong: if_cong)

lemma map_dead_upd_path: "(\<And>p. p_dead (f p) = p_dead p) \<Longrightarrow> map p_dead (upd_path i f ps) = map p_dead ps"
  by (simp add: upd_path_def o_def if_distrib cong: if_cong)

lemma ids_upd_path: "(\<And>p. p_id (f p) = p_id p) \<Longrightarrow> p_id ` set (upd_path i f ps) = p_id ` set ps"
  using map_id_upd_path[of f i ps] by (metis list.set_map)

lemma owned_ids: "p_id ` set ps' = p_id ` set ps \<Longrightarrow> owned gs ps' = owned gs ps"
  by (simp only: owned_def)

lemma subset_insert_trans: "X \<subseteq> insert c Y \<Longrightarrow> Z \<subseteq> insert c X \<Longrightarrow> Z \<subseteq> insert c Y"
  by blast

lemma subset_insert_trans2: "X \<subseteq> insert c Y \<Longrightarrow> Z \<subseteq> insert c (insert d X) \<Longrightarrow> d \<in> Y \<Longrightarrow> Z \<subseteq> insert c Y"
  by blast

lemma owned_subset:
  "owned gs ps \<Longrightarrow> ss_path ` set gs' \<subseteq> insert None (ss_path ` set gs) \<Longrightarrow> owned gs' ps"
  unfolding owned_def by (rule subset_insert_trans)

lemma owned_more:
  "owned gs ps \<Longrightarrow> ss_path ` set gs' \<subseteq> insert None (insert (Some i) (ss_path ` set gs)) \<Longrightarrow>
   i \<in> p_id ` set ps \<Longrightarrow> owned gs' ps"
  unfolding owned_def by (rule subset_insert_trans2[OF _ _ imageI])

lemma lookup_Some: "lookup i ps = Some p \<Longrightarrow> p \<in> set ps \<and> p_id p = i"
  by (auto simp: lookup_def find_Some_iff)

lemma lookup_None: "lookup i ps = None \<longleftrightarrow> i \<notin> p_id ` set ps"
  by (auto simp: lookup_def find_None_iff)

lemma release_simps [simp]:
  "p_id (release n p) = p_id p" "p_inflight (release n p) = p_inflight p - n"
  "p_dead (release n p) = p_dead p" "p_dead (mark_suspect now ts p) = p_dead p"
  "p_id (mark_suspect now ts p) = p_id p" "p_inflight (mark_suspect now ts p) = p_inflight p"
  by (simp_all add: release_def mark_suspect_def)

text \<open>A change of one account together with the matching change of one segment.\<close>

lemma balanced_upd:
  assumes "balanced (pre @ g # post) ps" and "\<And>p. p_id (f p) = p_id p"
    and "\<And>p. p_inflight (f p) = p_inflight p + d"
    and "charge i g' = charge i g + d" and "\<And>j. j \<noteq> i \<Longrightarrow> charge j g' = charge j g"
  shows "balanced (pre @ g' # post) (upd_path i f ps)"
  using assms by (auto simp: balanced_def set_upd_path)

lemma balanced_same:
  "balanced gs ps \<Longrightarrow> (\<And>i. charged i gs' = charged i gs) \<Longrightarrow> balanced gs' ps"
  by (simp add: balanced_def)

lemma balanced_nonneg: "balanced gs ps \<Longrightarrow> p \<in> set ps \<Longrightarrow> 0 \<le> p_inflight p"
  by (simp add: balanced_def charged_nonneg)

section \<open>The soft-failure pass keeps the account\<close>

lemma soft_fail_seg_same:
  assumes "soft_fail_seg rs now ts g ps = (g', ps', m)"
  shows "ss_off g' = ss_off g" and "ss_data g' = ss_data g" and "map p_id ps' = map p_id ps"
    and "ss_path g' = ss_path g \<or> ss_path g' = None"
  using assms by (auto simp: soft_fail_seg_def map_id_upd_path split: if_splits option.splits)

lemma soft_fail_seg_balanced:
  assumes run: "soft_fail_seg rs now ts g ps = (g', ps', m)" and bal: "balanced (pre @ g # post) ps"
  shows "balanced (pre @ g' # post) ps'"
proof -
  consider (same) "g' = g" "ps' = ps"
    | (sack) "\<not> ss_sacked g" "g' = g\<lparr>ss_sacked := True\<rparr>" "ss_path g = None" "ps' = ps"
    | (sackp) i where "\<not> ss_sacked g" "g' = g\<lparr>ss_sacked := True\<rparr>" "ss_path g = Some i"
        "ps' = upd_path i (release (seg_len g)) ps"
    | (late) i where "\<not> ss_sacked g" "g' = g\<lparr>ss_path := None\<rparr>" "ss_path g = Some i"
        "ps' = upd_path i (\<lambda>p. release (seg_len g) (mark_suspect now ts p)) ps"
    using run by (auto simp: soft_fail_seg_def split: if_splits option.splits)
  then show ?thesis
  proof cases
    case same
    then show ?thesis using bal by simp
  next
    case sack
    then show ?thesis using bal by (simp add: balanced_def charge_def)
  next
    case sackp
    then show ?thesis unfolding sackp(4)
      by (intro balanced_upd[OF bal, where d = "- seg_len g"]) (simp_all add: charge_def)
  next
    case late
    then show ?thesis unfolding late(4)
      by (intro balanced_upd[OF bal, where d = "- seg_len g"]) (simp_all add: charge_def)
  qed
qed

text \<open>What the whole pass keeps: the bytes, the ids, the accounts, and segments only move to the pool.\<close>

lemma soft_fail_segs_facts:
  "soft_fail_segs rs now ts gs ps = (gs', ps', m) \<Longrightarrow> balanced (pre @ gs) ps \<Longrightarrow>
   map (\<lambda>g. (ss_off g, ss_data g)) gs' = map (\<lambda>g. (ss_off g, ss_data g)) gs \<and>
   map p_id ps' = map p_id ps \<and> ss_path ` set gs' \<subseteq> insert None (ss_path ` set gs) \<and>
   balanced (pre @ gs') ps'"
proof (induction gs arbitrary: pre ps gs' ps' m)
  case (Cons g gs)
  obtain g1 ps1 m1 where one: "soft_fail_seg rs now ts g ps = (g1, ps1, m1)" by (metis prod_cases3)
  obtain gs2 m2 where rest: "soft_fail_segs rs now ts gs ps1 = (gs2, ps', m2)" "gs' = g1 # gs2"
    using Cons.prems(1) by (simp add: one split: prod.splits)
  have "balanced ((pre @ [g1]) @ gs) ps1" using soft_fail_seg_balanced[OF one Cons.prems(2)] by simp
  from Cons.IH[OF rest(1) this] show ?case using soft_fail_seg_same[OF one] rest(2) by auto
qed simp

lemma soft_fail_dead:
  "soft_fail_segs rs now ts gs ps = (gs', ps', m) \<Longrightarrow> map p_dead ps' = map p_dead ps"
proof (induction gs arbitrary: ps gs' ps' m)
  case (Cons g gs)
  obtain g1 ps1 m1 where one: "soft_fail_seg rs now ts g ps = (g1, ps1, m1)" by (metis prod_cases3)
  obtain gs2 m2 where rest: "soft_fail_segs rs now ts gs ps1 = (gs2, ps', m2)"
    using Cons.prems by (simp add: one split: prod.splits)
  have "map p_dead ps1 = map p_dead ps"
    using one by (auto simp: soft_fail_seg_def map_dead_upd_path split: if_splits option.splits)
  then show ?case using Cons.IH[OF rest] by simp
qed simp

lemma dead_map: "map p_dead ps' = map p_dead ps \<Longrightarrow> (\<forall>p \<in> set ps. p_dead p \<longrightarrow> c) \<Longrightarrow> (\<forall>p \<in> set ps'. p_dead p \<longrightarrow> c)"
proof -
  assume eq: "map p_dead ps' = map p_dead ps" and all: "\<forall>p \<in> set ps. p_dead p \<longrightarrow> c"
  have "p_dead ` set ps' = p_dead ` set ps" using eq by (metis list.set_map)
  then show ?thesis using all by (metis (mono_tags, lifting) image_iff)
qed

section \<open>Release keeps the account\<close>

lemma credit_ids: "map p_id (credit g n now ps) = map p_id ps"
  by (auto simp: credit_def map_id_upd_path split: option.split)

lemma credit_balanced:
  assumes bal: "balanced (pre @ g # post) ps" and n: "charge j g' = charge j g - (if ss_sacked g then 0 else n)"
    and path: "ss_path g = Some j" and other: "\<And>i. i \<noteq> j \<Longrightarrow> charge i g' = charge i g"
  shows "balanced (pre @ g' # post) (credit g n now ps)"
proof (cases "ss_sacked g")
  case True
  have "balanced (pre @ g' # post) (upd_path j (creditDelivered n now) ps)"
  proof (rule balanced_upd[OF bal, where d = 0])
    show "charge j g' = charge j g + 0" using n True by simp
  qed (simp_all add: other)
  then show ?thesis using True by (simp add: credit_def path)
next
  case False
  have "balanced (pre @ g' # post) (upd_path j (onDelivered n now) ps)"
  proof (rule balanced_upd[OF bal, where d = "- n"])
    show "charge j g' = charge j g + - n" using n False by simp
  qed (simp_all add: other)
  then show ?thesis using False by (simp add: credit_def path)
qed

lemma credit_whole:
  assumes bal: "balanced (g # gs) ps"
  shows "balanced gs (credit g (seg_len g) now ps)"
proof (cases "ss_path g")
  case None
  then show ?thesis using bal by (simp add: credit_def balanced_def charge_def)
next
  case (Some j)
  have "balanced ([] @ g\<lparr>ss_path := None\<rparr> # gs) (credit g (seg_len g) now ps)"
    using Some bal by (intro credit_balanced[where j = j]) (auto simp: charge_def)
  then show ?thesis by (simp add: balanced_def charge_def)
qed

lemma credit_part:
  assumes bal: "balanced (g # gs) ps" and n: "n \<le> length (ss_data g)"
  shows "balanced (g\<lparr>ss_data := drop n (ss_data g), ss_off := x\<rparr> # gs) (credit g (int n) now ps)"
proof (cases "ss_path g")
  case None
  then show ?thesis using bal by (auto simp: credit_def charge_def balanced_def)
next
  case (Some j)
  have "balanced ([] @ g\<lparr>ss_data := drop n (ss_data g), ss_off := x\<rparr> # gs) (credit g (int n) now ps)"
    using Some bal n by (intro credit_balanced[where j = j]) (auto simp: charge_def seg_len_def)
  then show ?thesis by simp
qed

text \<open>Acknowledging up to \<open>cum\<close> leaves exactly the tiling from \<open>cum\<close> on.\<close>

lemma free_acked_facts:
  "free_acked cum now gs ps = (gs', ps') \<Longrightarrow> tiling W a gs b \<Longrightarrow> b < 2 ^ 64 \<Longrightarrow> a \<le> unat cum \<Longrightarrow> unat cum \<le> b \<Longrightarrow>
   balanced gs ps \<Longrightarrow>
   tiling W (unat cum) gs' b \<and> map p_id ps' = map p_id ps \<and> ss_path ` set gs' \<subseteq> ss_path ` set gs \<and>
   balanced gs' ps'"
proof (induction gs arbitrary: a ps)
  case (Cons g gs)
  have t: "unat (ss_off g) = a" "ss_data g \<noteq> []" "a + length (ss_data g) \<le> length W"
    "take (length (ss_data g)) (drop a W) = ss_data g" "tiling W (a + length (ss_data g)) gs b"
    using Cons.prems(2) by simp_all
  have e: "unat (sseg_end g) = a + length (ss_data g)"
    using sseg_end_nat[of g] tiling_mono[OF t(5)] Cons.prems(3) t(1) by simp
  consider (all) "sseg_end g \<le> cum" | (part) "\<not> sseg_end g \<le> cum" "ss_off g < cum"
    | (none) "\<not> sseg_end g \<le> cum" "\<not> ss_off g < cum" by blast
  then show ?case
  proof cases
    case all
    have "free_acked cum now gs (credit g (seg_len g) now ps) = (gs', ps')" using Cons.prems(1) all by simp
    from Cons.IH[OF this t(5) Cons.prems(3) _ Cons.prems(5) credit_whole[OF Cons.prems(6)]]
    show ?thesis using all e by (auto simp: word_le_nat_alt credit_ids)
  next
    case part
    let ?n = "unat cum - a"
    have n: "unat (cum - ss_off g) = ?n" using part(2) t(1) by (simp add: unat_diff_le less_imp_le)
    have lt: "a < unat cum" "unat cum < a + length (ss_data g)"
      using part t(1) e by (simp_all add: word_less_nat_alt not_le)
    have "free_acked cum now (g # gs) ps = (g\<lparr>ss_data := drop (unat (cum - ss_off g)) (ss_data g), ss_off := cum\<rparr> # gs,
        credit g (int (unat (cum - ss_off g))) now ps)" using part by (simp add: Let_def)
    then have r: "gs' = g\<lparr>ss_data := drop ?n (ss_data g), ss_off := cum\<rparr> # gs" "ps' = credit g (int ?n) now ps"
      using Cons.prems(1) unfolding n by (metis prod.inject)+
    have "drop ?n (ss_data g) = take (length (ss_data g) - ?n) (drop (unat cum) W)"
    proof -
      have "drop ?n (ss_data g) = drop ?n (take (length (ss_data g)) (drop a W))" using t(4) by simp
      also have "\<dots> = take (length (ss_data g) - ?n) (drop (unat cum) W)" using lt by (simp add: drop_take)
      finally show ?thesis .
    qed
    then have "tiling W (unat cum) gs' b" using t lt by (simp add: r(1) add.commute)
    moreover have "balanced gs' ps'" unfolding r
      using credit_part[OF Cons.prems(6), of ?n] lt by simp
    ultimately show ?thesis by (auto simp: r credit_ids)
  next
    case none
    then have "a = unat cum" using t(1) Cons.prems(4) by (simp add: word_less_nat_alt)
    then show ?thesis using none Cons.prems by auto
  qed
qed simp

section \<open>Choosing and splitting a hole\<close>

lemma first_hole_bounds:
  "first_hole cur e rs = (a, b) \<Longrightarrow> a < b \<Longrightarrow> cur \<le> a \<and> b \<le> e"
proof (induction cur e rs rule: first_hole.induct)
  case (1 cur e)
  then show ?case by (auto split: if_splits)
next
  case (2 cur e r rs)
  then show ?case by (auto simp: not_le not_less split: if_splits intro: order_trans less_imp_le)
qed

lemma next_resend_facts:
  "next_resend rs i gs = (gs', hole) \<Longrightarrow>
   map (\<lambda>g. (ss_off g, ss_data g)) gs' = map (\<lambda>g. (ss_off g, ss_data g)) gs \<and>
   map ss_path gs' = map ss_path gs \<and> (\<forall>j. charged j gs' = charged j gs) \<and>
   (case hole of
      None \<Rightarrow> \<forall>g \<in> set gs'. ss_path g = None \<longrightarrow> ss_sacked g
    | Some (k, a, b) \<Rightarrow> i \<le> k \<and> k - i < length gs' \<and> ss_path (gs' ! (k - i)) = None \<and> \<not> ss_sacked (gs' ! (k - i)) \<and>
        (a, b) = first_hole (ss_off (gs' ! (k - i))) (sseg_end (gs' ! (k - i))) rs \<and> a < b)"
proof (induction gs arbitrary: i gs' hole)
  case (Cons g gs)
  obtain gs2 h2 where r: "next_resend rs (Suc i) gs = (gs2, h2)" by fastforce
  note ih = Cons.IH[OF r]
  have shift: "case h2 of None \<Rightarrow> True | Some (k, a, b) \<Rightarrow> Suc i \<le> k \<and> (h # gs2) ! (k - i) = gs2 ! (k - Suc i)" for h
    using ih by (auto simp: nth_Cons' split: option.splits)
  obtain a b where fh: "first_hole (ss_off g) (sseg_end g) rs = (a, b)" by fastforce
  consider (skip) "ss_path g \<noteq> None \<or> ss_sacked g"
    | (cov) "ss_path g = None" "\<not> ss_sacked g" "b \<le> a"
    | (hole) "ss_path g = None" "\<not> ss_sacked g" "\<not> b \<le> a"
    by blast
  then show ?case
  proof cases
    case skip
    then have "gs' = g # gs2" "hole = h2" using Cons.prems r by auto
    then show ?thesis using ih shift[of g] skip by (auto split: option.splits)
  next
    case cov
    then have "gs' = g\<lparr>ss_sacked := True\<rparr> # gs2" "hole = h2" using Cons.prems r fh by auto
    then show ?thesis using ih shift[of "g\<lparr>ss_sacked := True\<rparr>"] cov
      by (auto simp: charge_def split: option.splits)
  next
    case hole
    then have "gs' = g # gs" "hole = Some (i, a, b)" using Cons.prems fh by auto
    then show ?thesis using hole fh by (simp add: not_le)
  qed
qed simp

text \<open>The hole lies inside its segment, so the slices of the code are in range.\<close>

lemma hole_in_seg:
  assumes "unat (ss_off g) + length (ss_data g) < 2 ^ 64" and "(a, b) = first_hole (ss_off g) (sseg_end g) rs" and "a < b"
  shows "unat (ss_off g) \<le> unat a" and "unat a < unat b" and "unat b \<le> unat (ss_off g) + length (ss_data g)"
  using first_hole_bounds[OF assms(2)[symmetric] assms(3)] sseg_end_nat[OF assms(1)] assms(3)
  by (simp_all add: word_le_nat_alt word_less_nat_alt)

lemma tiling_one:
  assumes "unat (ss_off z) = a" and "ss_data z \<noteq> []" and "b = a + length (ss_data z)" and "b \<le> length W"
    and "ss_data z = take (length (ss_data z)) (drop a W)"
  shows "tiling W a [z] b"
  using assms(1-4) assms(5)[symmetric] by simp

lemma split_parts_tiling:
  assumes g: "tiling W a [g] b" and b: "b < 2 ^ 64"
    and hs: "a \<le> unat hs" and n: "0 < n" "unat hs + n \<le> b"
  shows "tiling W a (split_parts g hs n i now) b"
proof -
  have t: "unat (ss_off g) = a" "b = a + length (ss_data g)" "b \<le> length W" "take (b - a) (drop a W) = ss_data g"
    using g by auto
  have d0: "unat (hs - ss_off g) = unat hs - a" using hs t(1) by (simp add: unat_diff_le word_le_nat_alt)
  have rest: "unat (hs + u64_of_len n) = unat hs + n" using n b by (simp add: unat_add_len)
  have cut: "take m (drop k (ss_data g)) = take m (drop (a + k) W)" if "k + m \<le> length (ss_data g)" for k m
  proof -
    have "take m (drop k (take (b - a) (drop a W))) = take m (drop (a + k) W)"
      using that t(2) by (simp add: drop_take min_def add.commute)
    then show ?thesis using t(4) by simp
  qed
  have len: "length (ss_data g) = b - a" using t(2) by simp
  have p1: "take (unat hs - a) (ss_data g) = take (unat hs - a) (drop a W)"
    using cut[of 0 "unat hs - a"] hs n len by simp
  have p2: "take n (drop (unat hs - a) (ss_data g)) = take n (drop (unat hs) W)"
    using cut[of "unat hs - a" n] hs n len by simp
  have p3: "drop (unat hs - a + n) (ss_data g) = take (b - (unat hs + n)) (drop (unat hs + n) W)"
    using cut[of "unat hs - a + n" "b - (unat hs + n)"] hs n len by simp
  let ?d0 = "unat hs - a"
  let ?x = "if 0 < ?d0 then [\<lparr>ss_off = ss_off g, ss_data = take ?d0 (ss_data g), ss_path = None,
      ss_sentAt = Zero_Time, ss_sacked = True\<rparr>] else []"
  let ?y = "[\<lparr>ss_off = hs, ss_data = take n (drop ?d0 (ss_data g)), ss_path = Some i, ss_sentAt = now, ss_sacked = False\<rparr>]"
  let ?z = "if ?d0 + n < length (ss_data g) then [\<lparr>ss_off = hs + u64_of_len n, ss_data = drop (?d0 + n) (ss_data g),
      ss_path = None, ss_sentAt = Zero_Time, ss_sacked = False\<rparr>] else []"
  have x: "tiling W a ?x (unat hs)"
    using hs n t(1,3) len p1 by (cases "0 < ?d0") simp_all
  have y: "tiling W (unat hs) ?y (unat hs + n)"
    using hs n t(3) len p2 by simp
  have z: "tiling W (unat hs + n) ?z b"
  proof (cases "?d0 + n < length (ss_data g)")
    case True
    have lz: "length (drop (?d0 + n) (ss_data g)) = b - (unat hs + n)" using hs len by simp
    have ne: "drop (?d0 + n) (ss_data g) \<noteq> []" using True by simp
    have e: "b = unat hs + n + length (drop (?d0 + n) (ss_data g))" using lz n(2) by simp
    have d: "drop (?d0 + n) (ss_data g) = take (length (drop (?d0 + n) (ss_data g))) (drop (unat hs + n) W)"
      unfolding lz by (rule p3)
    have "tiling W (unat hs + n) [\<lparr>ss_off = hs + u64_of_len n, ss_data = drop (?d0 + n) (ss_data g),
        ss_path = None, ss_sentAt = Zero_Time, ss_sacked = False\<rparr>] b"
      by (rule tiling_one, unfold sseg.select_convs) (rule rest, rule ne, rule e, rule t(3), rule d)
    then show ?thesis using True by (simp only: if_True)
  next
    case False
    then have "unat hs + n = b" using hs n len by simp
    then show ?thesis using False by simp
  qed
  have sp: "split_parts g hs n i now = ?x @ ?y @ ?z"
    by (simp add: split_parts_def Let_def d0)
  show ?thesis unfolding sp by (rule tiling_cat[OF x tiling_cat[OF y z]])
qed

text \<open>The part sent again is charged to its path; the other parts are charged to nobody.\<close>

lemma split_parts_charged:
  assumes "ss_path g = None" and "unat (hs - ss_off g) + n \<le> length (ss_data g)"
  shows "charged j (split_parts g hs n i now) = (if j = i then int n else 0)"
proof -
  have "length (take n (drop (unat (hs - ss_off g)) (ss_data g))) = n" using assms(2) by simp
  then show ?thesis by (simp add: split_parts_def Let_def charge_def seg_len_def del: length_take length_drop)
qed

lemma split_parts_paths: "ss_path ` set (split_parts g hs n i now) \<subseteq> {None, Some i}"
  by (auto simp: split_parts_def Let_def split: if_splits)

lemma split_resend_facts:
  assumes til: "tiling W a gs b" and b: "b < 2 ^ 64" and k: "k < length gs"
    and pool: "ss_path (gs ! k) = None" and hs: "unat (ss_off (gs ! k)) \<le> unat hs"
    and n: "0 < n" "unat hs + n \<le> unat (ss_off (gs ! k)) + length (ss_data (gs ! k))"
  shows "tiling W a (split_resend gs k hs n i now) b"
    and "charged j (split_resend gs k hs n i now) = charged j gs + (if j = i then int n else 0)"
    and "ss_path ` set (split_resend gs k hs n i now) \<subseteq> insert None (insert (Some i) (ss_path ` set gs))"
proof -
  let ?g = "gs ! k"
  have gs: "gs = take k gs @ [?g] @ drop (Suc k) gs" using k by (simp add: id_take_nth_drop)
  obtain m m' where t: "tiling W a (take k gs) m" "tiling W m [?g] m'" "tiling W m' (drop (Suc k) gs) b"
    using til by (subst (asm) gs) (unfold tiling_append, blast)
  have m: "unat (ss_off ?g) = m" "m' = m + length (ss_data ?g)" using t(2) by simp_all
  have m': "m' < 2 ^ 64" using tiling_mono[OF t(3)] b by simp
  have "tiling W m (split_parts ?g hs n i now) m'"
    using split_parts_tiling[OF t(2) m'] hs n m by simp
  then show "tiling W a (split_resend gs k hs n i now) b"
    unfolding split_resend_def tiling_append using t by blast
  have "unat (hs - ss_off ?g) = unat hs - m" using hs m by (simp add: unat_diff_le word_le_nat_alt)
  then have "charged j (split_parts ?g hs n i now) = (if j = i then int n else 0)"
    using hs n m pool by (intro split_parts_charged) simp_all
  moreover have "charge j ?g = 0" using pool by (simp add: charge_def)
  moreover have "charged j gs = charged j (take k gs) + charge j ?g + charged j (drop (Suc k) gs)"
    by (subst gs) simp
  ultimately show "charged j (split_resend gs k hs n i now) = charged j gs + (if j = i then int n else 0)"
    by (simp add: split_resend_def)
  show "ss_path ` set (split_resend gs k hs n i now) \<subseteq> insert None (insert (Some i) (ss_path ` set gs))"
  proof
    fix x assume "x \<in> ss_path ` set (split_resend gs k hs n i now)"
    then obtain h where h: "h \<in> set (split_resend gs k hs n i now)" "x = ss_path h" by blast
    then have "h \<in> set gs \<or> h \<in> set (split_parts ?g hs n i now)"
      by (auto simp: split_resend_def dest: in_set_takeD in_set_dropD)
    then show "x \<in> insert None (insert (Some i) (ss_path ` set gs))"
    proof
      assume "h \<in> set (split_parts ?g hs n i now)"
      then have "ss_path h \<in> {None, Some i}" using split_parts_paths[of ?g hs n i now] by blast
      then show ?thesis using h(2) by auto
    qed (simp add: h(2))
  qed
qed

lemma balanced_charge_more:
  assumes "balanced gs ps" and "\<And>j. charged j gs' = charged j gs + (if j = i then n else 0)"
    and "\<And>p. p_id (f p) = p_id p" and "\<And>p. p_inflight (f p) = p_inflight p + n"
  shows "balanced gs' (upd_path i f ps)"
  using assms by (auto simp: balanced_def set_upd_path)

lemma orphan_bytes: "map (\<lambda>g. (ss_off g, ss_data g)) (orphan i gs) = map (\<lambda>g. (ss_off g, ss_data g)) gs"
  by (simp add: orphan_def)

lemma orphan_charged: "j \<noteq> i \<Longrightarrow> charged j (orphan i gs) = charged j gs"
  by (induction gs) (auto simp: orphan_def charge_def seg_len_def)

lemma orphan_paths: "ss_path ` set (orphan i gs) \<subseteq> insert None (ss_path ` set gs - {Some i})"
  by (auto simp: orphan_def)

end
