(* ===== verification/Stream.thy ===== *)
theory Stream
  imports Reorder Segments
begin

text \<open>
  The aggregate stream of \<open>src/stream.go\<close>: its state and every operation that changes it. An
  operation is one critical section of the code, or one pass of a loop, with the clock reading \<open>now\<close>
  and, where it writes to a path, the outcome \<open>wr\<close> of writes as arguments. What it does to the
  outside (frames written, connections closed, goroutines started, events emitted) is appended to
  the trace \<open>st_out\<close>. The capacity-one channels \<open>ackCh\<close> and \<open>sendWake\<close> are flags. Control frames are
  modelled on the messages they carry; the protobuf codec is not part of the repository.
\<close>

section \<open>State\<close>

datatype serr =
    E_EOF | E_Reset | E_No_Paths | E_Path_RTO | E_Closed | E_Write | E_Ack_Violation ack_err
  | E_Overflow | E_Frame frame_err | E_Unknown_Path u64 | E_Last_Path

datatype msg =
    M_Data u64 u64 bytes
  | M_Ack u64 u64 u64 u64 u64 "brange list"
  | M_Path_Drop u64
  | M_Ping u64 bool
  | M_Telemetry "(u64 \<times> u64) list"
  | M_Ctrl frame_type bytes
  | M_Fin

datatype effect =
    Eff_Write u64 msg
  | Eff_Close u64
  | Eff_Added u64
  | Eff_Removed u64 "serr option"
  | Eff_Degraded u64
  | Eff_Go_Recv u64
  | Eff_Go_Ping u64 bool u64
  | Eff_Go_Telemetry "(u64 \<times> u64) list"
  | Eff_Go_Policy
  | Eff_Deregister
  | Eff_Close_Subs

record stream_config =
  cf_minBuf :: int
  cf_maxBuf :: int
  cf_sendBufCap :: int
  cf_telemetryInterval :: int
  cf_policy :: bool

record stream =
  st_cfg :: stream_config
  st_base :: gotime
  st_rbuf :: rbuf
  st_paths :: "path list"
  st_nextPathID :: u64
  st_remoteParity :: u64
  st_seenRemote :: "u64 list"
  st_finRecv :: bool
  st_sendQ :: "bytes list"
  st_qHead :: nat
  st_pendingBytes :: int
  st_sentOff :: u64
  st_cumAcked :: u64
  st_unacked :: "sseg list"
  st_advWindow :: u64
  st_gotWindow :: bool
  st_ackSeq :: u64
  st_peerAckSeq :: u64
  st_gotPeerAck :: bool
  st_peerRanges :: "brange list"
  st_lastDataTs :: u64
  st_lastDataPath :: "u64 option"
  st_freedSinceAck :: int
  st_rerr :: "serr option"
  st_werr :: "serr option"
  st_closed :: bool
  st_lostSegs :: u64
  st_resentSegs :: u64
  st_resentBytes :: u64
  st_ackCh :: bool
  st_sendWake :: bool
  st_once :: bool
  st_out :: "effect list"

definition defaultMinReorderBuf :: int where "defaultMinReorderBuf = 1048576"
definition defaultMaxReorderBuf :: int where "defaultMaxReorderBuf = 33554432"

definition windowCap :: "stream_config \<Rightarrow> int" where
  "windowCap c = cf_minBuf c"

text \<open>The convergence of the parameters at the head of \<open>newStreamFull\<close>.\<close>

definition norm_config :: "stream_config \<Rightarrow> stream_config" where
  "norm_config c =
     (let c = (if cf_minBuf c \<le> 0 then c\<lparr>cf_minBuf := defaultMinReorderBuf\<rparr> else c);
          c = (if cf_maxBuf c \<le> 0 then c\<lparr>cf_maxBuf := defaultMaxReorderBuf\<rparr> else c);
          c = (if cf_maxBuf c < cf_minBuf c then c\<lparr>cf_maxBuf := cf_minBuf c\<rparr> else c);
          c = (if cf_sendBufCap c \<le> 0 then c\<lparr>cf_sendBufCap := 2 * windowCap c\<rparr> else c);
          c = (if cf_telemetryInterval c \<le> 0 then c\<lparr>cf_telemetryInterval := defaultTelemetryInterval\<rparr> else c)
      in c)"

definition newStreamFull :: "stream_config \<Rightarrow> gotime \<Rightarrow> bool \<Rightarrow> stream" where
  "newStreamFull c0 now initiator =
     (let c = norm_config c0 in
      \<lparr>st_cfg = c, st_base = now, st_rbuf = new_rbuf (windowCap c),
       st_paths = [new_path 0 initiator now],
       st_nextPathID = (if initiator then 2 else 1),
       st_remoteParity = (if initiator then 1 else 0),
       st_seenRemote = (if initiator then [] else [0]),
       st_finRecv = False, st_sendQ = [], st_qHead = 0, st_pendingBytes = 0, st_sentOff = 0,
       st_cumAcked = 0, st_unacked = [], st_advWindow = 0, st_gotWindow = False, st_ackSeq = 0,
       st_peerAckSeq = 0, st_gotPeerAck = False, st_peerRanges = [], st_lastDataTs = 0,
       st_lastDataPath = None, st_freedSinceAck = 0, st_rerr = None, st_werr = None,
       st_closed = False, st_lostSegs = 0, st_resentSegs = 0, st_resentBytes = 0,
       st_ackCh = False, st_sendWake = False, st_once = False, st_out = []\<rparr>)"

section \<open>Small pieces\<close>

definition sendTs :: "stream \<Rightarrow> gotime \<Rightarrow> u64" where
  "sendTs s now = (let d = time_sub now (st_base s) in if d < 0 then 0 else word_of_int (quot d microsecond))"

definition emit :: "effect list \<Rightarrow> stream \<Rightarrow> stream" where
  "emit es s = s\<lparr>st_out := st_out s @ es\<rparr>"

definition triggerAck :: "stream \<Rightarrow> stream" where "triggerAck s = s\<lparr>st_ackCh := True\<rparr>"
definition wakeSend :: "stream \<Rightarrow> stream" where "wakeSend s = s\<lparr>st_sendWake := True\<rparr>"

section \<open>Writing\<close>

datatype write_result = Write_Done int | Write_Blocked int bytes | Write_Err int serr

text \<open>\<open>Write\<close> up to the point where it has to wait; \<open>tot\<close> counts the bytes taken so far.\<close>

function write_loop :: "int \<Rightarrow> bytes \<Rightarrow> stream \<Rightarrow> write_result \<times> stream" where
  "write_loop tot b s =
     (if b = [] then (Write_Done tot, s)
      else case st_werr s of
        Some e \<Rightarrow> (Write_Err tot e, s)
      | None \<Rightarrow>
          if st_closed s then (Write_Err tot E_Closed, s)
          else
            let outstanding = st_pendingBytes s + i64_of_u64 (st_sentOff s - st_cumAcked s);
                room = cf_sendBufCap (st_cfg s) - outstanding in
            if 0 < room then
              let n = min (nat room) (length b) in
              write_loop (tot + int n) (drop n b)
                (wakeSend (s\<lparr>st_sendQ := st_sendQ s @ [take n b],
                             st_pendingBytes := st_pendingBytes s + int n\<rparr>))
            else (Write_Blocked tot b, s))"
  by pat_completeness auto
termination
  by (relation "measure (\<lambda>(t, b, s). length b)") auto

declare write_loop.simps [simp del]

definition stream_write :: "bytes \<Rightarrow> stream \<Rightarrow> write_result \<times> stream" where
  "stream_write b s = write_loop 0 b s"

section \<open>Soft failure and release\<close>

definition checkSoftFail :: "gotime \<Rightarrow> stream \<Rightarrow> u64 list \<times> bool \<times> stream" where
  "checkSoftFail now s =
     (let (gs, ps, moved) = soft_fail_segs (st_peerRanges s) now (sendTs s now) (st_unacked s) (st_paths s) in
      (map p_id (filter (rto_expired now) ps), moved, s\<lparr>st_unacked := gs, st_paths := ps\<rparr>))"

definition freeAcked :: "gotime \<Rightarrow> stream \<Rightarrow> stream" where
  "freeAcked now s =
     (let (gs, ps) = free_acked (st_cumAcked s) now (st_unacked s) (st_paths s) in
      s\<lparr>st_unacked := gs, st_paths := ps\<rparr>)"

section \<open>Ending a stream\<close>

text \<open>\<open>shutdown\<close>: the error end, once.\<close>

definition kill_paths :: "path list \<Rightarrow> path list" where
  "kill_paths ps = map (\<lambda>p. p\<lparr>p_dead := True\<rparr>) ps"

definition shutdown :: "serr \<Rightarrow> stream \<Rightarrow> stream" where
  "shutdown e s =
     (if st_once s then s
      else emit (map (\<lambda>p. Eff_Close (p_id p)) (st_paths s) @ [Eff_Deregister, Eff_Close_Subs])
        (s\<lparr>st_once := True, st_closed := True,
           st_rerr := (if st_rerr s = None then Some e else st_rerr s),
           st_werr := (if st_werr s = None then Some e else st_werr s),
           st_paths := kill_paths (st_paths s)\<rparr>))"

text \<open>\<open>Close\<close>: a FIN on every path, then the same end without an error.\<close>

definition stream_close :: "stream \<Rightarrow> stream" where
  "stream_close s =
     (if st_once s then s
      else emit (concat (map (\<lambda>p. [Eff_Write (p_id p) M_Fin, Eff_Close (p_id p)]) (st_paths s))
             @ [Eff_Deregister, Eff_Close_Subs])
        (s\<lparr>st_once := True, st_closed := True, st_paths := kill_paths (st_paths s)\<rparr>))"

section \<open>Dropping a path\<close>

text \<open>
  \<open>dropPath\<close>: under the lock the path leaves the set and its segments return to the pool, then the
  peer is told on a surviving path (\<open>sendPathDrop\<close>, which drops that path too when the write fails),
  and the stream ends when no path is left.
\<close>

definition remove_path :: "u64 \<Rightarrow> stream \<Rightarrow> stream" where
  "remove_path i s =
     s\<lparr>st_paths := filter (\<lambda>p. p_id p \<noteq> i) (st_paths s),
       st_unacked := orphan i (st_unacked s),
       st_lostSegs := st_lostSegs s + of_nat (orphan_count i (st_unacked s))\<rparr>"

lemma remove_path_shrinks:
  "lookup i (st_paths s) = Some p \<Longrightarrow> length (st_paths (remove_path i s)) < length (st_paths s)"
  by (auto simp: lookup_def find_Some_iff remove_path_def in_set_conv_nth intro!: length_filter_less)

text \<open>What \<open>dropPath\<close> does last: end the stream, or have an ACK and the orphans sent elsewhere.\<close>

definition finish_drop :: "serr option \<Rightarrow> bool \<Rightarrow> bool \<Rightarrow> stream \<Rightarrow> stream" where
  "finish_drop cause dead_end fin s =
     (if dead_end
      then shutdown (case cause of None \<Rightarrow> E_No_Paths | Some e \<Rightarrow> e)
        (if fin \<and> st_rerr s = None then s\<lparr>st_rerr := Some E_EOF\<rparr> else s)
      else wakeSend (triggerAck s))"

function drop_path :: "(u64 \<Rightarrow> bool) \<Rightarrow> u64 \<Rightarrow> serr option \<Rightarrow> bool \<Rightarrow> stream \<Rightarrow> stream" where
  "drop_path wr i cause notify s =
     (case lookup i (st_paths s) of
        None \<Rightarrow> s
      | Some p \<Rightarrow>
          if p_dead p then s
          else
            let s1 = remove_path i s;
                s2 = emit [Eff_Close i, Eff_Removed i cause] s1 in
            finish_drop cause (st_paths s1 = []) (st_finRecv s1)
              (if notify \<and> \<not> st_closed s2
               then case pickAck (st_paths s2) of
                      None \<Rightarrow> s2
                    | Some q \<Rightarrow>
                        let s' = emit [Eff_Write (p_id q) (M_Path_Drop i)] s2 in
                        if wr (p_id q) then s' else drop_path wr (p_id q) (Some E_Write) True s'
               else s2))"
  by pat_completeness auto
termination
proof (relation "measure (\<lambda>(wr, i, cause, notify, s). length (st_paths s))", goal_cases)
  case (2 wr i cause notify s p s1 s2 q s')
  then show ?case using remove_path_shrinks[OF 2(1)] by (simp add: emit_def)
qed simp

declare drop_path.simps [simp del]

text \<open>\<open>RemovePath\<close>.\<close>

definition removePath :: "(u64 \<Rightarrow> bool) \<Rightarrow> u64 \<Rightarrow> stream \<Rightarrow> serr option \<times> stream" where
  "removePath wr i s =
     (if st_closed s then (Some E_Closed, s)
      else if lookup i (st_paths s) = None then (Some (E_Unknown_Path i), s)
      else if length (st_paths s) \<le> 1 then (Some E_Last_Path, s)
      else (None, drop_path wr i None True s))"

text \<open>\<open>handlePathDrop\<close>; \<open>None\<close> is a body that does not decode.\<close>

definition handlePathDrop :: "(u64 \<Rightarrow> bool) \<Rightarrow> u64 option \<Rightarrow> stream \<Rightarrow> stream" where
  "handlePathDrop wr body s =
     (case body of
        None \<Rightarrow> s
      | Some i \<Rightarrow> if lookup i (st_paths s) = None then s else drop_path wr i None False s)"

definition reserveRemotePathID :: "u64 \<Rightarrow> stream \<Rightarrow> bool \<times> stream" where
  "reserveRemotePathID i s =
     (if i AND 1 \<noteq> st_remoteParity s then (False, s)
      else if st_closed s then (False, s)
      else if i \<in> set (st_seenRemote s) then (False, s)
      else (True, s\<lparr>st_seenRemote := i # st_seenRemote s\<rparr>))"

text \<open>The reservation of a local id in \<open>AddPath\<close>, and \<open>attachPath\<close> once the handshake is done.\<close>

definition reserveLocalPathID :: "stream \<Rightarrow> serr + u64 \<times> stream" where
  "reserveLocalPathID s =
     (if st_closed s then Inl E_Closed
      else Inr (st_nextPathID s, s\<lparr>st_nextPathID := st_nextPathID s + 2\<rparr>))"

definition attachPath :: "gotime \<Rightarrow> path \<Rightarrow> stream \<Rightarrow> serr option \<times> stream" where
  "attachPath now p s =
     (if st_closed s then (Some E_Closed, s)
      else
        let p = (if is_zero_time (p_attachedAt p) then p\<lparr>p_attachedAt := now\<rparr> else p) in
        (None, wakeSend (emit [Eff_Added (p_id p), Eff_Go_Recv (p_id p), Eff_Go_Ping (p_id p) False (sendTs s now)]
                 (s\<lparr>st_paths := st_paths s @ [p]\<rparr>))))"

section \<open>Sending\<close>

text \<open>\<open>trySend\<close> under the lock: the chosen path and the frame, or nothing to send.\<close>

definition take_resend :: "nat \<Rightarrow> u64 \<Rightarrow> u64 \<Rightarrow> sseg list \<Rightarrow> u64 \<times> bytes" where
  "take_resend k hs he gs =
     (let re = min he (hs + of_nat maxFramePayload);
          d0 = hs - ss_off (gs ! k) in
      (hs, take (unat (re - hs)) (drop (unat d0) (ss_data (gs ! k)))))"

definition fresh_len :: "stream \<Rightarrow> nat" where
  "fresh_len s =
     unat (min (min (of_nat (length (hd (st_sendQ s)) - st_qHead s)) (st_advWindow s - (st_sentOff s - st_cumAcked s)))
       (of_nat maxFramePayload :: u64))"

definition commit_resend :: "nat \<Rightarrow> u64 \<Rightarrow> bytes \<Rightarrow> u64 \<Rightarrow> gotime \<Rightarrow> stream \<Rightarrow> stream" where
  "commit_resend k off payload i now s =
     (let n = length payload in
      s\<lparr>st_unacked := split_resend (st_unacked s) k off n i now,
        st_paths := upd_path i (\<lambda>p. p\<lparr>p_inflight := p_inflight p + int n,
            p_resentSegs := p_resentSegs p + 1, p_resentBytes := p_resentBytes p + u64_of_len n\<rparr>) (st_paths s),
        st_resentSegs := st_resentSegs s + 1,
        st_resentBytes := st_resentBytes s + u64_of_len n\<rparr>)"

definition commit_fresh :: "bytes \<Rightarrow> u64 \<Rightarrow> gotime \<Rightarrow> stream \<Rightarrow> stream" where
  "commit_fresh payload i now s =
     (let n = length payload;
          spent = (st_qHead s + n = length (hd (st_sendQ s))) in
      s\<lparr>st_sendQ := (if spent then tl (st_sendQ s) else st_sendQ s),
        st_qHead := (if spent then 0 else st_qHead s + n),
        st_sentOff := st_sentOff s + u64_of_len n,
        st_pendingBytes := st_pendingBytes s - int n,
        st_unacked := st_unacked s @ [\<lparr>ss_off = st_sentOff s, ss_data = payload, ss_path = Some i,
            ss_sentAt = now, ss_sacked = False\<rparr>],
        st_paths := upd_path i (\<lambda>p. p\<lparr>p_inflight := p_inflight p + int n\<rparr>) (st_paths s)\<rparr>)"

definition trySend_locked :: "gotime \<Rightarrow> stream \<Rightarrow> (u64 \<times> u64 \<times> bytes) option \<times> stream" where
  "trySend_locked now s =
     (if st_closed s \<or> st_werr s \<noteq> None \<or> \<not> st_gotWindow s then (None, s)
      else
        let (gs, hole) = next_resend (st_peerRanges s) 0 (st_unacked s); s = s\<lparr>st_unacked := gs\<rparr> in
        case hole of
          Some (k, hs, he) \<Rightarrow>
            let (off, payload) = take_resend k hs he gs in
            (case pickData (st_paths s) (int (length payload)) now of
               None \<Rightarrow> (None, s)
             | Some p \<Rightarrow> (Some (p_id p, off, payload), commit_resend k off payload (p_id p) now s))
        | None \<Rightarrow>
            if st_pendingBytes s = 0 \<or> st_advWindow s \<le> st_sentOff s - st_cumAcked s then (None, s)
            else
              let payload = take (fresh_len s) (drop (st_qHead s) (hd (st_sendQ s))) in
              case pickData (st_paths s) (int (length payload)) now of
                None \<Rightarrow> (None, s)
              | Some p \<Rightarrow> (Some (p_id p, st_sentOff s, payload), commit_fresh payload (p_id p) now s))"

definition trySend :: "(u64 \<Rightarrow> bool) \<Rightarrow> gotime \<Rightarrow> stream \<Rightarrow> bool \<times> stream" where
  "trySend wr now s =
     (case trySend_locked now s of
        (None, s') \<Rightarrow> (False, s')
      | (Some (i, off, payload), s') \<Rightarrow>
          let s2 = emit [Eff_Write i (M_Data off (sendTs s now) payload)] s' in
          (True, if wr i then s2 else drop_path wr i (Some E_Write) True s2))"

text \<open>
  \<open>sendAck\<close>: the ACK is built anew for every attempt. A failed write drops its path, so the loop runs
  at most once per path; the length test holds whenever the path that was picked was alive.
\<close>

definition ack_msg :: "stream \<Rightarrow> msg" where
  "ack_msg s =
     M_Ack (rb_cum (st_rbuf s)) (st_lastDataTs s)
       (case st_lastDataPath s of None \<Rightarrow> 0 | Some i \<Rightarrow> i + 1)
       (word_of_int (max (rb_window (st_rbuf s)) 0)) (st_ackSeq s)
       (rb_ranges (st_rbuf s) (int maxAckRanges))"

function send_ack :: "(u64 \<Rightarrow> bool) \<Rightarrow> stream \<Rightarrow> stream" where
  "send_ack wr s =
     (if st_closed s then s
      else
        let s1 = s\<lparr>st_freedSinceAck := 0, st_ackSeq := st_ackSeq s + 1\<rparr> in
        case pickAck (st_paths s) of
          None \<Rightarrow> s1
        | Some p \<Rightarrow>
            let s2 = emit [Eff_Write (p_id p) (ack_msg s)] s1 in
            if wr (p_id p) then s2
            else let s3 = drop_path wr (p_id p) (Some E_Write) True s2 in
              if length (st_paths s3) < length (st_paths s) then send_ack wr s3 else s3)"
  by pat_completeness auto
termination
  by (relation "measure (\<lambda>(wr, s). length (st_paths s))") auto

declare send_ack.simps [simp del]

definition send_ping :: "(u64 \<Rightarrow> bool) \<Rightarrow> u64 \<Rightarrow> bool \<Rightarrow> u64 \<Rightarrow> stream \<Rightarrow> stream" where
  "send_ping wr i reply ts s =
     (let s1 = emit [Eff_Write i (M_Ping ts reply)] s in
      if wr i then s1 else drop_path wr i (Some E_Write) True s1)"

definition send_telemetry :: "(u64 \<Rightarrow> bool) \<Rightarrow> (u64 \<times> u64) list \<Rightarrow> stream \<Rightarrow> stream" where
  "send_telemetry wr rates s =
     (if st_closed s then s
      else case pickAck (st_paths s) of
        None \<Rightarrow> s
      | Some p \<Rightarrow>
          let s1 = emit [Eff_Write (p_id p) (M_Telemetry rates)] s in
          if wr (p_id p) then s1 else drop_path wr (p_id p) (Some E_Write) True s1)"

text \<open>
  \<open>writeCtrl\<close> of \<open>relaypath.go\<close>, the same loop for one control frame.
\<close>

function writeCtrl :: "(u64 \<Rightarrow> bool) \<Rightarrow> frame_type \<Rightarrow> bytes \<Rightarrow> stream \<Rightarrow> serr option \<times> stream" where
  "writeCtrl wr ft body s =
     (if st_closed s then (Some E_Closed, s)
      else case pickAck (st_paths s) of
        None \<Rightarrow> (Some E_No_Paths, s)
      | Some p \<Rightarrow>
          let s1 = emit [Eff_Write (p_id p) (M_Ctrl ft body)] s in
          if wr (p_id p) then (None, s1)
          else let s2 = drop_path wr (p_id p) (Some E_Write) True s1 in
            if length (st_paths s2) < length (st_paths s) then writeCtrl wr ft body s2 else (Some E_No_Paths, s2))"
  by pat_completeness auto
termination
  by (relation "measure (\<lambda>(wr, ft, body, s). length (st_paths s))") auto

declare writeCtrl.simps [simp del]

section \<open>The receive window\<close>

definition set_window_cap :: "int \<Rightarrow> stream \<Rightarrow> stream" where
  "set_window_cap newCap s =
     (let prev = rb_window (st_rbuf s);
          s = s\<lparr>st_rbuf := rb_setCap (st_rbuf s) newCap,
                st_cfg := (st_cfg s)\<lparr>cf_sendBufCap := 2 * newCap\<rparr>\<rparr> in
      if prev \<le> 0 \<and> 0 < rb_window (st_rbuf s) then triggerAck s else s)"

text \<open>The capacity that the arrival rates and the slowest path call for, clamped to the configuration.\<close>

definition target_cap :: "stream \<Rightarrow> int" where
  "target_cap s =
     (let sumRate = foldl (\<lambda>a p. fl64 (a + p_rxRate p)) 0 (st_paths s);
          maxSRTT = foldl (\<lambda>m p. if m < p_srtt p then p_srtt p else m) 0 (st_paths s);
          newCap = int64_of_float (fl64 (sumRate * seconds maxSRTT));
          newCap = (if newCap < cf_minBuf (st_cfg s) then cf_minBuf (st_cfg s) else newCap) in
      if cf_maxBuf (st_cfg s) < newCap then cf_maxBuf (st_cfg s) else newCap)"

definition updateWindowCap :: "stream \<Rightarrow> stream" where
  "updateWindowCap s =
     (if \<bar>target_cap s - rb_cap (st_rbuf s)\<bar> < quot (cf_minBuf (st_cfg s)) 8 then s
      else set_window_cap (target_cap s) s)"

section \<open>The periodic tick\<close>

text \<open>The arrival-rate sample of one path; the second component is the rate reported to the peer.\<close>

definition tick_rx :: "gotime \<Rightarrow> path \<Rightarrow> path \<times> (u64 \<times> u64) list" where
  "tick_rx now p =
     (let p = (if is_zero_time (p_rxMarkT p) then p\<lparr>p_rxMarkT := p_attachedAt p\<rparr> else p);
          d = p_rxBytes p - p_rxMark p;
          dt = time_sub now (p_rxMarkT p) in
      if 0 < dt \<and> (rxSampleMinBytes \<le> d \<or> rxSampleMaxWindow \<le> dt) then
        let p = p\<lparr>p_rxRate := filterRate (p_rxRate p) (fl64 (float_of_u64 d / seconds dt))\<rparr> in
        (p\<lparr>p_rxMark := p_rxBytes p, p_rxMarkT := now\<rparr>,
         if 0 < d then [(p_id p, word_of_int (trunc (p_rxRate p)))] else [])
      else (p, []))"

definition probe_stale :: "bool \<Rightarrow> gotime \<Rightarrow> path \<Rightarrow> bool" where
  "probe_stale needSend now p \<longleftrightarrow>
     needSend \<and> ((p_hasRate p \<and> staleAfter p < time_sub now (p_lastRateAt p)) \<or>
                 (p_hasRTT p \<and> rttStaleAfter < time_sub now (p_lastRTTAt p)))"

definition tick_path :: "bool \<Rightarrow> gotime \<Rightarrow> path \<Rightarrow> path \<times> (u64 \<times> u64) list \<times> u64 list \<times> u64 list" where
  "tick_path needSend now p0 =
     (let (p, rates) = tick_rx now p0;
          cold = (0 < p_rxBytes p \<and> \<not> p_hasRTT p);
          stl = probe_stale needSend now p;
          degr = (if stl \<and> \<not> p_degraded p then [p_id p] else []);
          p = p\<lparr>p_degraded := stl\<rparr> in
      if (cold \<or> stl \<or> p_suspect p) \<and> pingMinInterval < time_sub now (p_lastPingAt p)
      then (p\<lparr>p_lastPingAt := now\<rparr>, rates, degr, [p_id p])
      else (p, rates, degr, []))"

definition onTick :: "(u64 \<Rightarrow> bool) \<Rightarrow> gotime \<Rightarrow> stream \<Rightarrow> stream" where
  "onTick wr now s =
     (if st_closed s then s
      else
        let needSend = (0 < st_pendingBytes s \<or> st_unacked s \<noteq> []);
            ticks = map (tick_path needSend now) (st_paths s);
            rates = concat (map (\<lambda>(p, r, d, g). r) ticks);
            degraded = concat (map (\<lambda>(p, r, d, g). d) ticks);
            toPing = concat (map (\<lambda>(p, r, d, g). g) ticks);
            s = updateWindowCap (s\<lparr>st_paths := map fst ticks\<rparr>);
            (drops, moved, s) = checkSoftFail now s;
            s = emit (map Eff_Degraded degraded
                  @ (if rates = [] then [] else [Eff_Go_Telemetry rates])
                  @ map (\<lambda>i. Eff_Go_Ping i False (sendTs s now)) toPing) s;
            s = foldl (\<lambda>s i. drop_path wr i (Some E_Path_RTO) True s) s drops;
            s = (if moved then wakeSend s else s) in
        if cf_policy (st_cfg s) then emit [Eff_Go_Policy] s else s)"

section \<open>Receiving\<close>

text \<open>
  What the decoder hands to \<open>recvLoop\<close>. A control body that does not decode is \<open>None\<close>; the relay
  messages are handled by \<open>relaypath.go\<close>.
\<close>

datatype input =
    In_Data u64 u64 bytes
  | In_Ack frame
  | In_Path_Drop "u64 option"
  | In_Ping "(u64 \<times> bool) option"
  | In_Telemetry "(u64 \<times> u64) list option"
  | In_Fin
  | In_Rst
  | In_Other
  | In_Error frame_err

definition recv_data :: "u64 \<Rightarrow> u64 \<Rightarrow> u64 \<Rightarrow> bytes \<Rightarrow> stream \<Rightarrow> stream run" where
  "recv_data i off ts payload s =
     (case rb_add (st_rbuf s) off payload of
        Inl e \<Rightarrow> Inl e
      | Inr r \<Rightarrow>
          let s = s\<lparr>st_rbuf := r, st_lastDataTs := ts, st_lastDataPath := Some i,
                st_paths := upd_path i (\<lambda>p. p\<lparr>p_rxBytes := p_rxBytes p + u64_of_len (length payload)\<rparr>) (st_paths s)\<rparr> in
          if 4 * rb_cap r < rb_sizeBytes r then Inr (shutdown E_Overflow s) else Inr (triggerAck s))"

text \<open>The RTT a timestamp echo stands for: \<open>time.Duration(sendTs - echo) * time.Microsecond\<close>.\<close>

definition echo_rtt :: "u64 \<Rightarrow> u64 \<Rightarrow> int" where
  "echo_rtt ts echo = wrap64 (i64_of_u64 (ts - echo) * microsecond)"

definition apply_ack :: "gotime \<Rightarrow> frame \<Rightarrow> stream \<Rightarrow> stream" where
  "apply_ack now f s =
     (let s = s\<lparr>st_peerAckSeq := f_seq f, st_gotPeerAck := True\<rparr>;
          s = (if f_tsPath f \<noteq> 0 \<and> f_tsEcho f \<noteq> 0
               then s\<lparr>st_paths := upd_path (f_tsPath f - 1)
                        (noteRTT (echo_rtt (sendTs s now) (f_tsEcho f)) now (f_tsEcho f)) (st_paths s)\<rparr>
               else s);
          s = (if st_cumAcked s < f_cum f then freeAcked now (s\<lparr>st_cumAcked := f_cum f\<rparr>) else s) in
      wakeSend (s\<lparr>st_advWindow := f_window f, st_gotWindow := True, st_peerRanges := normalize_ranges (f_ranges f)\<rparr>))"

definition recv_ack :: "(u64 \<Rightarrow> bool) \<Rightarrow> gotime \<Rightarrow> u64 \<Rightarrow> frame \<Rightarrow> stream \<Rightarrow> stream" where
  "recv_ack wr now i f s =
     (if st_gotPeerAck s \<and> f_seq f \<le> st_peerAckSeq s then s
      else case validate_ack f (st_sentOff s) (st_cumAcked s) (st_peerAckSeq s) (st_gotPeerAck s) of
        Some e \<Rightarrow> drop_path wr i (Some (E_Ack_Violation e)) True s
      | None \<Rightarrow> apply_ack now f s)"

definition recv_telemetry :: "gotime \<Rightarrow> (u64 \<times> u64) list \<Rightarrow> stream \<Rightarrow> stream" where
  "recv_telemetry now rates s =
     wakeSend (s\<lparr>st_paths := foldl (\<lambda>ps (i, r).
        upd_path i (\<lambda>p. p\<lparr>p_peerRate := float_of_u64 r, p_peerRateAt := now\<rparr>) ps) (st_paths s) rates\<rparr>)"

text \<open>One pass of \<open>recvLoop\<close> of path \<open>i\<close>.\<close>

definition recv :: "(u64 \<Rightarrow> bool) \<Rightarrow> gotime \<Rightarrow> u64 \<Rightarrow> input \<Rightarrow> stream \<Rightarrow> stream run" where
  "recv wr now i x s =
     (case x of
        In_Error e \<Rightarrow> Inr (if st_closed s then s else drop_path wr i (Some (E_Frame e)) True s)
      | In_Data off ts payload \<Rightarrow> recv_data i off ts payload s
      | In_Ack f \<Rightarrow> Inr (recv_ack wr now i f s)
      | In_Path_Drop b \<Rightarrow> Inr (handlePathDrop wr b s)
      | In_Ping None \<Rightarrow> Inr s
      | In_Ping (Some (ts, reply)) \<Rightarrow>
          Inr (if reply
               then s\<lparr>st_paths := upd_path i (noteRTT (echo_rtt (sendTs s now) ts) now ts) (st_paths s)\<rparr>
               else emit [Eff_Go_Ping i True ts] s)
      | In_Telemetry None \<Rightarrow> Inr s
      | In_Telemetry (Some rates) \<Rightarrow> Inr (recv_telemetry now rates s)
      | In_Fin \<Rightarrow> Inr (drop_path wr i (Some E_EOF) False (s\<lparr>st_finRecv := True\<rparr>))
      | In_Rst \<Rightarrow> Inr (shutdown E_Reset s)
      | In_Other \<Rightarrow> Inr s)"

section \<open>Reading\<close>

datatype read_result = Read_Bytes bytes | Read_Err serr | Read_Blocked

definition stream_read :: "nat \<Rightarrow> stream \<Rightarrow> read_result \<times> stream" where
  "stream_read room s =
     (if room = 0 then (Read_Bytes [], s)
      else if 0 < rb_avail (st_rbuf s) then
        let (out, r) = rb_read (st_rbuf s) room;
            prev = rb_window r - int (length out);
            s = s\<lparr>st_rbuf := r, st_freedSinceAck := st_freedSinceAck s + int (length out)\<rparr>;
            s = (if prev \<le> 0 \<or> quot (rb_cap r) 4 \<le> st_freedSinceAck s then triggerAck s else s) in
        (Read_Bytes out, s)
      else case st_rerr s of
        Some e \<Rightarrow> (Read_Err e, s)
      | None \<Rightarrow> if st_closed s then (Read_Err E_Closed, s) else (Read_Blocked, s))"

end
