(* ===== verification/Stream_Inv.thy ===== *)
theory Stream_Inv
  imports Stream
begin

text \<open>
  The send-side invariant of a stream and its preservation by every operation of \<open>Stream\<close>. \<open>W\<close> is
  the sequence of bytes that \<open>Write\<close> has accepted since the stream was opened.
\<close>

section \<open>The invariant\<close>

text \<open>The bytes of the send queue that no frame has taken yet.\<close>

definition queued :: "stream \<Rightarrow> bytes" where
  "queued s = drop (st_qHead s) (concat (st_sendQ s))"

definition queue_ok :: "stream \<Rightarrow> bool" where
  "queue_ok s \<longleftrightarrow> [] \<notin> set (st_sendQ s) \<and>
     (st_sendQ s = [] \<longrightarrow> st_qHead s = 0) \<and> (st_sendQ s \<noteq> [] \<longrightarrow> st_qHead s < length (hd (st_sendQ s)))"

definition paths_ok :: "stream \<Rightarrow> bool" where
  "paths_ok s \<longleftrightarrow> distinct (map p_id (st_paths s)) \<and> owned (st_unacked s) (st_paths s) \<and>
     balanced (st_unacked s) (st_paths s) \<and>
     (\<forall>p \<in> set (st_paths s). p_dead p \<longrightarrow> st_closed s)"

definition send_inv :: "bytes \<Rightarrow> stream \<Rightarrow> bool" where
  "send_inv W s \<longleftrightarrow>
     length W < 2 ^ 63 \<and> unat (st_sentOff s) \<le> length W \<and>
     tiling W (unat (st_cumAcked s)) (st_unacked s) (unat (st_sentOff s)) \<and>
     drop (unat (st_sentOff s)) W = queued s \<and>
     st_pendingBytes s = int (length (queued s)) \<and> queue_ok s \<and> paths_ok s \<and>
     normal (st_peerRanges s)"

text \<open>The part of the state the invariant looks at: most operations leave it alone.\<close>

definition path_view :: "path list \<Rightarrow> (u64 \<times> int \<times> bool) list" where
  "path_view ps = map (\<lambda>p. (p_id p, p_inflight p, p_dead p)) ps"

definition send_view :: "stream \<Rightarrow> (u64 \<times> u64 \<times> sseg list) \<times> (bytes list \<times> nat \<times> int) \<times> brange list \<times> (u64 \<times> int \<times> bool) list \<times> bool" where
  "send_view s = ((st_cumAcked s, st_sentOff s, st_unacked s), (st_sendQ s, st_qHead s, st_pendingBytes s),
     st_peerRanges s, path_view (st_paths s), st_closed s)"

lemma path_view_eqD:
  assumes "path_view ps' = path_view ps"
  shows "map p_id ps' = map p_id ps" and "owned gs ps' = owned gs ps" and "balanced gs ps' = balanced gs ps"
    and "(\<forall>p \<in> set ps'. p_dead p \<longrightarrow> c) = (\<forall>p \<in> set ps. p_dead p \<longrightarrow> c)"
proof -
  have m: "map p_id ps' = map p_id ps"
    using arg_cong[OF assms, of "map fst"] by (simp add: path_view_def o_def)
  show "map p_id ps' = map p_id ps" by (rule m)
  have "p_id ` set ps' = p_id ` set ps" using m by (metis list.set_map)
  then show "owned gs ps' = owned gs ps" by (rule owned_ids)
  have st: "(\<lambda>p. (p_id p, p_inflight p, p_dead p)) ` set ps' = (\<lambda>p. (p_id p, p_inflight p, p_dead p)) ` set ps"
    using arg_cong[OF assms, of set] by (simp add: path_view_def)
  have all: "(\<forall>p \<in> set qs. P (p_id p) (p_inflight p) (p_dead p)) \<longleftrightarrow>
      (\<forall>x \<in> (\<lambda>p. (p_id p, p_inflight p, p_dead p)) ` set qs. P (fst x) (fst (snd x)) (snd (snd x)))" for P qs
    by simp
  show "balanced gs ps' = balanced gs ps"
    unfolding balanced_def all[of _ "\<lambda>i n d. n = charged i gs"] st ..
  show "(\<forall>p \<in> set ps'. p_dead p \<longrightarrow> c) = (\<forall>p \<in> set ps. p_dead p \<longrightarrow> c)"
    unfolding all[of _ "\<lambda>i n d. d \<longrightarrow> c"] st ..
qed

lemma send_inv_view: "send_view s' = send_view s \<Longrightarrow> send_inv W s' = send_inv W s"
  using path_view_eqD[of "st_paths s'" "st_paths s"]
  by (simp add: send_view_def send_inv_def queued_def queue_ok_def paths_ok_def)

lemma path_view_upd:
  "(\<And>p. p_id (f p) = p_id p \<and> p_inflight (f p) = p_inflight p \<and> p_dead (f p) = p_dead p) \<Longrightarrow>
   path_view (upd_path i f ps) = path_view ps"
  by (auto simp: path_view_def upd_path_def)

lemma send_view_emit [simp]:
  "send_view (emit es s) = send_view s" "send_view (triggerAck s) = send_view s" "send_view (wakeSend s) = send_view s"
  by (simp_all add: send_view_def emit_def triggerAck_def wakeSend_def)

lemma send_inv_emit [simp]:
  "send_inv W (emit es s) = send_inv W s" "send_inv W (triggerAck s) = send_inv W s" "send_inv W (wakeSend s) = send_inv W s"
  by (rule send_inv_view, simp)+

lemma send_inv_new: "send_inv [] (newStreamFull c now ini)"
  by (simp add: send_inv_def newStreamFull_def queued_def queue_ok_def paths_ok_def Let_def owned_def
      balanced_def new_path_def)

section \<open>Writing\<close>

lemma write_loop_inv:
  "write_loop tot b s = (res, s') \<Longrightarrow> send_inv W s \<Longrightarrow> length W + length b < 2 ^ 63 \<Longrightarrow>
   \<exists>n \<le> length b. send_inv (W @ take n b) s' \<and> st_out s' = st_out s \<and>
     (case res of
        Write_Done t \<Rightarrow> t = tot + int n \<and> n = length b
      | Write_Blocked t rest \<Rightarrow> t = tot + int n \<and> rest = drop n b \<and> rest \<noteq> []
      | Write_Err t e \<Rightarrow> t = tot + int n)"
proof (induction tot b s arbitrary: W rule: write_loop.induct)
  case (1 tot b s)
  let ?room = "cf_sendBufCap (st_cfg s) - (st_pendingBytes s + i64_of_u64 (st_sentOff s - st_cumAcked s))"
  show ?case
  proof (cases "b \<noteq> [] \<and> st_werr s = None \<and> \<not> st_closed s \<and> 0 < ?room")
    case False
    then have "s' = s" "case res of Write_Done t \<Rightarrow> t = tot \<and> b = []
        | Write_Blocked t rest \<Rightarrow> t = tot \<and> rest = b \<and> rest \<noteq> [] | Write_Err t e \<Rightarrow> t = tot"
      using "1.prems"(1) by (auto simp: write_loop.simps[of tot b s] Let_def split: option.splits if_splits)
    then show ?thesis using "1.prems"(2) by (intro exI[of _ 0]) (auto split: write_result.splits)
  next
    case True
    define n where "n = min (nat ?room) (length b)"
    define q where "q = wakeSend (s\<lparr>st_sendQ := st_sendQ s @ [take n b], st_pendingBytes := st_pendingBytes s + int n\<rparr>)"
    have n: "0 < n" "n \<le> length b" using True by (simp_all add: n_def)
    have run: "write_loop (tot + int n) (drop n b) q = (res, s')"
      using "1.prems"(1) True by (simp add: write_loop.simps[of tot b s] Let_def n_def q_def)
    have inv: "send_inv (W @ take n b) q"
      using "1.prems"(2,3) n
      by (cases "st_sendQ s")
        (auto simp: q_def send_inv_def queued_def queue_ok_def paths_ok_def wakeSend_def tiling_extend)
    have ih: "\<exists>m \<le> length (drop n b). send_inv ((W @ take n b) @ take m (drop n b)) s' \<and> st_out s' = st_out q \<and>
        (case res of Write_Done t \<Rightarrow> t = tot + int n + int m \<and> m = length (drop n b)
          | Write_Blocked t rest \<Rightarrow> t = tot + int n + int m \<and> rest = drop m (drop n b) \<and> rest \<noteq> []
          | Write_Err t e \<Rightarrow> t = tot + int n + int m)"
      using True "1.prems"(3) n
      by (intro "1.IH"[OF _ _ _ refl refl _ n_def run[unfolded q_def] inv[unfolded q_def], folded q_def]) auto
    then obtain m where m: "m \<le> length (drop n b)" "send_inv ((W @ take n b) @ take m (drop n b)) s'"
      "st_out s' = st_out q"
      "case res of Write_Done t \<Rightarrow> t = tot + int n + int m \<and> m = length (drop n b)
        | Write_Blocked t rest \<Rightarrow> t = tot + int n + int m \<and> rest = drop m (drop n b) \<and> rest \<noteq> []
        | Write_Err t e \<Rightarrow> t = tot + int n + int m" by blast
    have "take n b @ take m (drop n b) = take (n + m) b" by (simp add: take_add)
    then show ?thesis using m n
      by (intro exI[of _ "n + m"]) (auto simp: q_def wakeSend_def add.commute split: write_result.splits)
  qed
qed

section \<open>Sending a frame\<close>

text \<open>What holds of every DATA frame: bytes of \<open>W\<close> at their offset, at least one and at most \<open>maxFramePayload\<close>.\<close>

definition frame_of :: "bytes \<Rightarrow> u64 \<Rightarrow> bytes \<Rightarrow> bool" where
  "frame_of W off payload \<longleftrightarrow> payload \<noteq> [] \<and> length payload \<le> maxFramePayload \<and>
     unat off + length payload \<le> length W \<and> take (length payload) (drop (unat off) W) = payload"

lemma frame_of_extend: "frame_of W off payload \<Longrightarrow> frame_of (W @ V) off payload"
  by (auto simp: frame_of_def)

lemma send_invD:
  assumes "send_inv W s"
  shows "length W < 2 ^ 63" "unat (st_sentOff s) \<le> length W"
    "tiling W (unat (st_cumAcked s)) (st_unacked s) (unat (st_sentOff s))"
    "drop (unat (st_sentOff s)) W = queued s" "st_pendingBytes s = int (length (queued s))"
    "queue_ok s" "paths_ok s" "normal (st_peerRanges s)"
  using assms by (simp_all add: send_inv_def)

lemma next_resend_inv:
  assumes inv: "send_inv W s" and r: "next_resend (st_peerRanges s) 0 (st_unacked s) = (gs, hole)"
  shows "send_inv W (s\<lparr>st_unacked := gs\<rparr>)"
proof -
  note f = next_resend_facts[OF r]
  have "tiling W (unat (st_cumAcked s)) gs (unat (st_sentOff s))"
    using f send_invD(3)[OF inv] tiling_same_bytes[of gs "st_unacked s"] by simp
  moreover have "ss_path ` set gs = ss_path ` set (st_unacked s)" using f by (metis list.set_map)
  then have "owned gs (st_paths s)" using send_invD(7)[OF inv] by (simp only: paths_ok_def owned_def)
  moreover have "balanced gs (st_paths s)" using send_invD(7)[OF inv] f by (simp add: paths_ok_def balanced_def)
  ultimately show ?thesis using inv by (simp add: send_inv_def queued_def queue_ok_def paths_ok_def)
qed

lemma paths_ok_upd:
  assumes "distinct (map p_id ps)" and "owned gs' ps" and "balanced gs' (upd_path i f ps)"
    and "\<And>p. p_id (f p) = p_id p \<and> p_dead (f p) = p_dead p" and "\<forall>p \<in> set ps. p_dead p \<longrightarrow> st_closed s"
    and "st_paths s = upd_path i f ps" and "st_unacked s = gs'"
  shows "paths_ok s"
  using assms map_id_upd_path[of f i ps] ids_upd_path[of f i ps] owned_ids[of "upd_path i f ps" ps gs']
  by (auto simp: paths_ok_def set_upd_path)

text \<open>The frame of a resend is the part of its hole that fits a frame.\<close>

lemma take_resend_facts:
  assumes til: "tiling W a gs b" and b: "b \<le> length W" "length W < 2 ^ 63" and k: "k < length gs"
    and hole: "(hs, he) = first_hole (ss_off (gs ! k)) (sseg_end (gs ! k)) rs" "hs < he"
    and t: "take_resend k hs he gs = (off, payload)"
  shows "off = hs" and "length payload = min (unat he - unat hs) maxFramePayload"
    and "0 < length payload" and "frame_of W off payload"
    and "unat (ss_off (gs ! k)) \<le> unat hs"
    and "unat hs + length payload \<le> unat (ss_off (gs ! k)) + length (ss_data (gs ! k))"
    and "unat hs + length payload \<le> unat he"
proof -
  let ?g = "gs ! k"
  have g: "a \<le> unat (ss_off ?g)" "unat (ss_off ?g) + length (ss_data ?g) \<le> b"
    "take (length (ss_data ?g)) (drop (unat (ss_off ?g)) W) = ss_data ?g"
    using tiling_member[OF til, of ?g] k by simp_all
  have "unat (ss_off ?g) + length (ss_data ?g) < 2 ^ 64" using g b by simp
  note h = hole_in_seg[OF this hole]
  have d0: "unat (hs - ss_off ?g) = unat hs - unat (ss_off ?g)"
    using h by (simp add: unat_diff_le word_le_nat_alt)
  have w: "unat (hs + of_nat maxFramePayload) = unat hs + maxFramePayload"
    using h g b unat_add_len[of hs maxFramePayload] by (simp add: maxFramePayload_def u64_of_len_def)
  then have m: "unat (min he (hs + of_nat maxFramePayload)) = min (unat he) (unat hs + maxFramePayload)"
    by (simp add: min_def word_le_nat_alt)
  have "hs \<le> min he (hs + of_nat maxFramePayload)"
    using h m by (simp add: word_le_nat_alt maxFramePayload_def)
  then have n: "unat (min he (hs + of_nat maxFramePayload) - hs) = min (unat he - unat hs) maxFramePayload"
    using m by (simp add: unat_diff_le)
  let ?n = "min (unat he - unat hs) maxFramePayload"
  have p: "off = hs" "payload = take ?n (drop (unat hs - unat (ss_off ?g)) (ss_data ?g))"
    using t unfolding take_resend_def Let_def n d0 by auto
  show "off = hs" by (rule p)
  show len: "length payload = ?n" using h unfolding p(2) by simp
  show pos: "0 < length payload" using h unfolding len by (simp add: maxFramePayload_def)
  show "unat (ss_off ?g) \<le> unat hs" "unat hs + length payload \<le> unat (ss_off ?g) + length (ss_data ?g)"
    "unat hs + length payload \<le> unat he" using h unfolding len by simp_all
  have "payload = take ?n (drop (unat hs - unat (ss_off ?g)) (take (length (ss_data ?g)) (drop (unat (ss_off ?g)) W)))"
    using g(3) p(2) by simp
  also have "\<dots> = take ?n (drop (unat hs) W)" using h by (simp add: drop_take)
  finally show "frame_of W off payload"
    using pos h g b len by (simp add: frame_of_def p(1))
qed

lemma commit_resend_inv:
  assumes inv: "send_inv W s" and k: "k < length (st_unacked s)" and pool: "ss_path (st_unacked s ! k) = None"
    and hole: "(hs, he) = first_hole (ss_off (st_unacked s ! k)) (sseg_end (st_unacked s ! k)) rs" "hs < he"
    and t: "take_resend k hs he (st_unacked s) = (off, payload)" and i: "i \<in> p_id ` set (st_paths s)"
  shows "send_inv W (commit_resend k off payload i now s)"
proof -
  note v = send_invD[OF inv]
  note tr = take_resend_facts[OF v(3,2,1) k hole t]
  have b: "unat (st_sentOff s) < 2 ^ 64" using v by simp
  let ?gs = "split_resend (st_unacked s) k off (length payload) i now"
  note sr = split_resend_facts[OF v(3) b k pool, where hs = off and n = "length payload" and i = i and now = now]
  have til: "tiling W (unat (st_cumAcked s)) ?gs (unat (st_sentOff s))" using sr(1) tr by simp
  have ch: "charged j ?gs = charged j (st_unacked s) + (if j = i then int (length payload) else 0)" for j
    using sr(2) tr by simp
  have own: "owned ?gs (st_paths s)"
  proof (rule owned_more)
    show "owned (st_unacked s) (st_paths s)" using v(7) by (simp add: paths_ok_def)
    show "ss_path ` set ?gs \<subseteq> insert None (insert (Some i) (ss_path ` set (st_unacked s)))" using sr(3) tr by simp
  qed (rule i)
  have "paths_ok (commit_resend k off payload i now s)"
    using v(7) own balanced_charge_more[of "st_unacked s" "st_paths s" ?gs i "int (length payload)", OF _ ch]
    by (intro paths_ok_upd[of "st_paths s" ?gs i]) (simp_all add: paths_ok_def commit_resend_def Let_def)
  then show ?thesis using inv til
    by (simp add: send_inv_def commit_resend_def Let_def queued_def queue_ok_def)
qed

section \<open>Fresh data\<close>

lemma queue_head:
  assumes "queue_ok s" and "queued s \<noteq> []"
  shows "st_sendQ s \<noteq> []" and "st_qHead s < length (hd (st_sendQ s))"
    and "queued s = drop (st_qHead s) (hd (st_sendQ s)) @ concat (tl (st_sendQ s))"
  using assms by (cases "st_sendQ s"; auto simp: queue_ok_def queued_def)+

lemma fresh_len_facts:
  assumes inv: "send_inv W s" and pend: "st_pendingBytes s \<noteq> 0"
    and wnd: "\<not> st_advWindow s \<le> st_sentOff s - st_cumAcked s"
  shows "fresh_len s = min (min (length (hd (st_sendQ s)) - st_qHead s) (unat (st_advWindow s - (st_sentOff s - st_cumAcked s)))) maxFramePayload"
    and "0 < fresh_len s" and "fresh_len s \<le> length (hd (st_sendQ s)) - st_qHead s"
    and "st_sentOff s - st_cumAcked s + u64_of_len (fresh_len s) \<le> st_advWindow s"
proof -
  note v = send_invD[OF inv]
  have ne: "queued s \<noteq> []" using v(5) pend by auto
  note q = queue_head[OF v(6) ne]
  let ?m = "length (hd (st_sendQ s)) - st_qHead s" and ?u = "st_sentOff s - st_cumAcked s"
  have "?m \<le> length (queued s)" unfolding q(3) by simp
  then have m: "?m < 2 ^ 64" using v(1,2) arg_cong[OF v(4), of length] by simp
  have r: "unat (st_advWindow s - ?u) = unat (st_advWindow s) - unat ?u" "unat ?u < unat (st_advWindow s)"
    using wnd by (simp_all add: unat_diff_le word_le_nat_alt not_le less_imp_le)
  have um: "unat (min x y) = min (unat x) (unat y)" for x y :: u64
    by (simp add: min_def word_le_nat_alt)
  have mp: "unat (of_nat maxFramePayload :: u64) = maxFramePayload" by (simp add: maxFramePayload_def)
  show eq: "fresh_len s = min (min ?m (unat (st_advWindow s - ?u))) maxFramePayload"
    unfolding fresh_len_def um mp unat_u64_of_len[OF m, unfolded u64_of_len_def] ..
  then show "0 < fresh_len s" using q(2) r by (simp add: maxFramePayload_def)
  show "fresh_len s \<le> ?m" unfolding eq by (simp add: min_le_iff_disj)
  have "fresh_len s \<le> unat (st_advWindow s) - unat ?u" using eq r(1) by (simp add: min_le_iff_disj)
  then have "unat ?u + fresh_len s \<le> unat (st_advWindow s)" using r(2) by simp
  moreover have "unat (st_advWindow s) < 2 ^ 64" using unsigned_less[of "st_advWindow s"] by simp
  ultimately show "?u + u64_of_len (fresh_len s) \<le> st_advWindow s"
    by (simp add: word_le_nat_alt unat_add_len)
qed

lemma commit_fresh_inv:
  assumes inv: "send_inv W s" and pend: "st_pendingBytes s \<noteq> 0"
    and wnd: "\<not> st_advWindow s \<le> st_sentOff s - st_cumAcked s"
    and p: "payload = take (fresh_len s) (drop (st_qHead s) (hd (st_sendQ s)))" and i: "i \<in> p_id ` set (st_paths s)"
  shows "send_inv W (commit_fresh payload i now s)" and "frame_of W (st_sentOff s) payload"
    and "length payload = fresh_len s"
    and "unat (st_sentOff (commit_fresh payload i now s)) = unat (st_sentOff s) + length payload"
proof -
  note v = send_invD[OF inv]
  have ne: "queued s \<noteq> []" using v(5) pend by auto
  note q = queue_head[OF v(6) ne]
  note f = fresh_len_facts[OF inv pend wnd]
  let ?n = "fresh_len s" and ?s = "commit_fresh payload i now s"
  show len: "length payload = ?n" using f(3) p by simp
  have pay: "payload = take ?n (queued s)" using p f(3) unfolding q(3) by simp
  have nW: "unat (st_sentOff s) + ?n \<le> length W"
    using f(3) arg_cong[OF v(4), of length] v(2) ne unfolding q(3) by simp
  have so: "unat (st_sentOff ?s) = unat (st_sentOff s) + ?n"
    using nW v(1) len by (simp add: commit_fresh_def Let_def unat_add_len)
  then show "unat (st_sentOff ?s) = unat (st_sentOff s) + length payload" using len by simp
  have fr: "?n \<le> maxFramePayload" using f(1) by simp
  show frame: "frame_of W (st_sentOff s) payload"
    using len f(2) fr nW pay v(4) by (simp add: frame_of_def flip: length_greater_0_conv)
  have rest: "queued ?s = drop ?n (queued s)"
  proof (cases "st_qHead s + ?n = length (hd (st_sendQ s))")
    case True
    then have "queued ?s = concat (tl (st_sendQ s))" using len by (simp add: commit_fresh_def Let_def queued_def)
    moreover have "?n = length (drop (st_qHead s) (hd (st_sendQ s)))" using True by simp
    ultimately show ?thesis unfolding q(3) by simp
  next
    case False
    then show ?thesis using len by (simp add: commit_fresh_def Let_def queued_def add.commute)
  qed
  have qok: "queue_ok ?s"
  proof (cases "st_qHead s + ?n = length (hd (st_sendQ s))")
    case True
    have "[] \<notin> set (tl (st_sendQ s))" using v(6) by (metis list.set_sel(2) queue_ok_def q(1))
    then show ?thesis using True len
      by (cases "tl (st_sendQ s)") (auto simp: queue_ok_def commit_fresh_def Let_def)
  next
    case False
    then show ?thesis using v(6) f(3) len q(1,2) by (simp add: queue_ok_def commit_fresh_def Let_def)
  qed
  let ?g = "\<lparr>ss_off = st_sentOff s, ss_data = payload, ss_path = Some i, ss_sentAt = now, ss_sacked = False\<rparr>"
  have "tiling W (unat (st_sentOff s)) [?g] (unat (st_sentOff s) + ?n)"
    using frame len by (intro tiling_one) (simp_all add: frame_of_def)
  then have til: "tiling W (unat (st_cumAcked s)) (st_unacked s @ [?g]) (unat (st_sentOff ?s))"
    unfolding so by (rule tiling_cat[OF v(3)])
  have ch: "charged j (st_unacked s @ [?g]) = charged j (st_unacked s) + (if j = i then int (length payload) else 0)" for j
    by (simp add: charge_def seg_len_def)
  have own: "owned (st_unacked s @ [?g]) (st_paths s)"
  proof (rule owned_more)
    show "owned (st_unacked s) (st_paths s)" using v(7) by (simp add: paths_ok_def)
    show "ss_path ` set (st_unacked s @ [?g]) \<subseteq> insert None (insert (Some i) (ss_path ` set (st_unacked s)))" by auto
  qed (rule i)
  have "paths_ok ?s"
    using v(7) own balanced_charge_more[of "st_unacked s" "st_paths s" "st_unacked s @ [?g]" i "int (length payload)", OF _ ch]
    by (intro paths_ok_upd[of "st_paths s" "st_unacked s @ [?g]" i]) (simp_all add: paths_ok_def commit_fresh_def Let_def)
  moreover have "st_pendingBytes ?s = int (length (queued ?s))"
  proof -
    have "length (queued s) = length (hd (st_sendQ s)) - st_qHead s + length (concat (tl (st_sendQ s)))"
      unfolding q(3) by simp
    then have "?n \<le> length (queued s)" using f(3) by simp
    then show ?thesis using v(5) len unfolding rest by (simp add: commit_fresh_def Let_def of_nat_diff)
  qed
  moreover have "drop (unat (st_sentOff ?s)) W = queued ?s"
    unfolding so rest v(4)[symmetric] by (simp add: add.commute)
  moreover have "st_unacked ?s = st_unacked s @ [?g]" "st_cumAcked ?s = st_cumAcked s" "st_peerRanges ?s = st_peerRanges s"
    by (simp_all add: commit_fresh_def Let_def)
  ultimately show "send_inv W ?s" unfolding send_inv_def using v til so nW qok by simp
qed

lemma pickData_id: "pickData ps len now = Some p \<Longrightarrow> p_id p \<in> p_id ` set ps"
  using pickData_in by blast

lemma pickAck_id: "pickAck ps = Some p \<Longrightarrow> p_id p \<in> p_id ` set ps"
  using mds.pick_ack_law by blast

text \<open>
  A frame that \<open>trySend\<close> emits is a resend of a hole, disjoint from what the last ACK says the peer
  has, or new data within the advertised window.
\<close>

definition resend_ok :: "stream \<Rightarrow> u64 \<Rightarrow> bytes \<Rightarrow> bool" where
  "resend_ok s off payload \<longleftrightarrow>
     (\<forall>x. unat off \<le> unat x \<and> unat x < unat off + length payload \<longrightarrow> x \<notin> covers (st_peerRanges s)) \<and>
     unat off + length payload \<le> unat (st_sentOff s)"

definition fresh_ok :: "stream \<Rightarrow> u64 \<Rightarrow> bytes \<Rightarrow> bool" where
  "fresh_ok s off payload \<longleftrightarrow> off = st_sentOff s \<and>
     st_sentOff s - st_cumAcked s + u64_of_len (length payload) \<le> st_advWindow s"

lemma trySend_locked_cases:
  assumes inv: "send_inv W s" and run: "trySend_locked now s = (r, s')"
  obtains (nothing) "r = None" "send_inv W s'" "send_view s' = send_view (s\<lparr>st_unacked := st_unacked s'\<rparr>)" "st_out s' = st_out s"
  | (resend) i off payload where "r = Some (i, off, payload)" "send_inv W s'" "frame_of W off payload"
      "i \<in> p_id ` set (st_paths s)" "resend_ok s off payload" "st_sentOff s' = st_sentOff s" "st_out s' = st_out s"
      "unat (st_cumAcked s) \<le> unat off" "st_cumAcked s' = st_cumAcked s" "st_rbuf s' = st_rbuf s"
  | (fresh) i off payload where "r = Some (i, off, payload)" "send_inv W s'" "frame_of W off payload"
      "i \<in> p_id ` set (st_paths s)" "fresh_ok s off payload"
      "unat (st_sentOff s') = unat (st_sentOff s) + length payload" "st_out s' = st_out s"
      "st_cumAcked s' = st_cumAcked s" "st_rbuf s' = st_rbuf s"
proof -
  obtain gs hole where nr: "next_resend (st_peerRanges s) 0 (st_unacked s) = (gs, hole)" by fastforce
  let ?s = "s\<lparr>st_unacked := gs\<rparr>"
  have inv1: "send_inv W ?s" by (rule next_resend_inv[OF inv nr])
  show thesis
  proof (cases "st_closed s \<or> st_werr s \<noteq> None \<or> \<not> st_gotWindow s")
    case True
    then have "r = None" "s' = s" using run by (auto simp: trySend_locked_def)
    with inv show thesis by - (rule nothing, simp_all)
  next
    case False
    show thesis
    proof (cases hole)
      case (Some h)
      obtain k hs he where h: "h = (k, hs, he)" by (metis prod_cases3)
      obtain off payload where t: "take_resend k hs he gs = (off, payload)" by fastforce
      note f = next_resend_facts[OF nr, unfolded Some h, simplified]
      show thesis
      proof (cases "pickData (st_paths s) (int (length payload)) now")
        case None
        then have "r = None" "s' = ?s" using run False nr Some h t by (auto simp: trySend_locked_def)
        with inv1 show thesis by - (rule nothing, simp_all)
      next
        case pick: (Some p)
        have res: "r = Some (p_id p, off, payload)" "s' = commit_resend k off payload (p_id p) now ?s"
          using run False nr Some h t pick by (auto simp: trySend_locked_def)
        have k: "k < length (st_unacked ?s)" "ss_path (st_unacked ?s ! k) = None"
          "(hs, he) = first_hole (ss_off (st_unacked ?s ! k)) (sseg_end (st_unacked ?s ! k)) (st_peerRanges s)" "hs < he"
          using f by simp_all
        have i: "p_id p \<in> p_id ` set (st_paths ?s)" using pickData_id[OF pick] by simp
        have t': "take_resend k hs he (st_unacked ?s) = (off, payload)" using t by simp
        note v = send_invD[OF inv1]
        note tr = take_resend_facts[OF v(3,2,1) k(1,3,4) t']
        note seg = tiling_member[OF v(3) nth_mem[OF k(1)]]
        have "covers (st_peerRanges s) \<inter> {hs..<he} = {}"
          using first_hole_hole[OF _ k(3)[symmetric] k(4)] send_invD(8)[OF inv] by blast
        then have "resend_ok s off payload"
          using tr seg by (auto simp: resend_ok_def word_le_nat_alt word_less_nat_alt)
        then show thesis
          using resend[OF res(1)] commit_resend_inv[OF inv1 k(1,2,3,4) t' i, of now] tr seg i
          by (simp add: res(2)) (simp add: commit_resend_def Let_def)
      qed
    next
      case None
      show thesis
      proof (cases "st_pendingBytes s = 0 \<or> st_advWindow s \<le> st_sentOff s - st_cumAcked s")
        case True
        then have "r = None" "s' = ?s" using run False nr None by (auto simp: trySend_locked_def)
        with inv1 show thesis by - (rule nothing, simp_all)
      next
        case room: False
        define payload where "payload = take (fresh_len s) (drop (st_qHead s) (hd (st_sendQ s)))"
        have fl: "fresh_len ?s = fresh_len s" by (simp add: fresh_len_def)
        have eq: "trySend_locked now s = (case pickData (st_paths s) (int (length payload)) now of
            None \<Rightarrow> (None, ?s)
          | Some p \<Rightarrow> (Some (p_id p, st_sentOff s, payload), commit_fresh payload (p_id p) now ?s))"
          using False nr None room unfolding trySend_locked_def payload_def
          by (simp add: Let_def fl cong: option.case_cong)
        show thesis
        proof (cases "pickData (st_paths s) (int (length payload)) now")
          case None
          then have "r = None" "s' = ?s" using run eq by auto
          with inv1 show thesis by - (rule nothing, simp_all)
        next
          case (Some p)
          have res: "r = Some (p_id p, st_sentOff s, payload)" "s' = commit_fresh payload (p_id p) now ?s"
            using run eq Some by auto
          have pre: "st_pendingBytes ?s \<noteq> 0" "\<not> st_advWindow ?s \<le> st_sentOff ?s - st_cumAcked ?s"
            "payload = take (fresh_len ?s) (drop (st_qHead ?s) (hd (st_sendQ ?s)))"
            "p_id p \<in> p_id ` set (st_paths ?s)"
            using room pickData_id[OF Some] by (simp_all add: payload_def fl)
          note c = commit_fresh_inv[OF inv1 pre]
          note w = fresh_len_facts(4)[OF inv1 pre(1,2)]
          show thesis using fresh[OF res(1)] c w pre(4)
            by (simp add: res(2) fresh_ok_def fl) (simp add: commit_fresh_def Let_def)
        qed
      qed
    qed
  qed
qed

section \<open>Dropping a path\<close>

text \<open>The frames with payload among the effects.\<close>

fun data_writes :: "effect list \<Rightarrow> (u64 \<times> bytes) list" where
  "data_writes [] = []"
| "data_writes (Eff_Write i (M_Data off ts p) # es) = (off, p) # data_writes es"
| "data_writes (e # es) = data_writes es"

text \<open>The ACKs among the effects: sequence number, cumulative offset, ranges.\<close>

fun ack_writes :: "effect list \<Rightarrow> (u64 \<times> u64 \<times> brange list) list" where
  "ack_writes [] = []"
| "ack_writes (Eff_Write i (M_Ack cum echo pth wnd sq rs) # es) = (sq, cum, rs) # ack_writes es"
| "ack_writes (e # es) = ack_writes es"

lemma ack_writes_append [simp]: "ack_writes (es @ es') = ack_writes es @ ack_writes es'"
  by (induction es rule: ack_writes.induct) simp_all

lemma ack_writes_map [simp]:
  "ack_writes (map (\<lambda>p. Eff_Close (f p)) ps) = []"
  "ack_writes (concat (map (\<lambda>p. [Eff_Write (f p) M_Fin, Eff_Close (g p)]) ps)) = []"
  by (induction ps) simp_all

lemma ack_writes_map_ids [simp]:
  "ack_writes (map Eff_Degraded is) = []" "ack_writes (map (\<lambda>i. Eff_Go_Ping i b t) is) = []"
  by (induction "is") simp_all

lemma data_writes_append [simp]: "data_writes (es @ es') = data_writes es @ data_writes es'"
  by (induction es rule: data_writes.induct) simp_all

lemma data_writes_map [simp]:
  "data_writes (map (\<lambda>p. Eff_Close (f p)) ps) = []"
  "data_writes (concat (map (\<lambda>p. [Eff_Write (f p) M_Fin, Eff_Close (g p)]) ps)) = []"
  by (induction ps) simp_all

lemma data_writes_map_ids [simp]:
  "data_writes (map Eff_Degraded is) = []" "data_writes (map (\<lambda>i. Eff_Go_Ping i b t) is) = []"
  by (induction "is") simp_all

text \<open>
  The rules for \<open>dropPath\<close>: what every step of it keeps, it keeps, its recursion included. It sets an error only
  where it ends the stream.
\<close>

lemma drop_path_end_rule:
  assumes "P s" and "\<And>s i. P s \<Longrightarrow> P (remove_path i s)"
    and "\<And>s es. P s \<Longrightarrow> data_writes es = [] \<Longrightarrow> ack_writes es = [] \<Longrightarrow> P (emit es s)"
    and "\<And>s e. P s \<Longrightarrow> P (shutdown e s)" and "\<And>s e x. P s \<Longrightarrow> P (shutdown e (s\<lparr>st_rerr := Some x\<rparr>))"
    and "\<And>s. P s \<Longrightarrow> P (wakeSend s)" and "\<And>s. P s \<Longrightarrow> P (triggerAck s)"
  shows "P (drop_path wr i cause notify s)"
  using assms(1)
proof (induction wr i cause notify s rule: drop_path.induct)
  case (1 wr i cause notify s)
  show ?case
  proof (cases "\<exists>p. lookup i (st_paths s) = Some p \<and> \<not> p_dead p")
    case False
    then show ?thesis using "1.prems" by (subst drop_path.simps) (auto split: option.splits)
  next
    case True
    then obtain p where p: "lookup i (st_paths s) = Some p" "\<not> p_dead p" by blast
    define s2 where "s2 = emit [Eff_Close i, Eff_Removed i cause] (remove_path i s)"
    define s3 where "s3 = (if notify \<and> \<not> st_closed s2
        then case pickAck (st_paths s2) of None \<Rightarrow> s2
          | Some q \<Rightarrow> let s' = emit [Eff_Write (p_id q) (M_Path_Drop i)] s2 in
              if wr (p_id q) then s' else drop_path wr (p_id q) (Some E_Write) True s'
        else s2)"
    have P2: "P s2" unfolding s2_def using "1.prems" assms(2,3) by simp
    have P3: "P s3"
    proof (cases "notify \<and> \<not> st_closed s2 \<and> pickAck (st_paths s2) \<noteq> None")
      case False
      then show ?thesis using P2 unfolding s3_def by (auto split: option.split)
    next
      case True
      then obtain q where q: "pickAck (st_paths s2) = Some q" by blast
      have P': "P (emit [Eff_Write (p_id q) (M_Path_Drop i)] s2)" using P2 assms(3) by simp
      then have "\<not> wr (p_id q) \<Longrightarrow> P (drop_path wr (p_id q) (Some E_Write) True (emit [Eff_Write (p_id q) (M_Path_Drop i)] s2))"
        using "1.IH"[OF p refl s2_def _ q refl] True by blast
      then show ?thesis using True q P' unfolding s3_def Let_def by simp
    qed
    show ?thesis
    proof -
      have "drop_path wr i cause notify s =
          finish_drop cause (st_paths (remove_path i s) = []) (st_finRecv (remove_path i s)) s3"
        unfolding s3_def s2_def using p by (subst drop_path.simps) (simp add: Let_def)
      then show ?thesis using P3 assms(4,5,6,7) by (simp add: finish_drop_def)
    qed
  qed
qed

lemma drop_path_rule:
  assumes "P s" and "\<And>s i. P s \<Longrightarrow> P (remove_path i s)"
    and "\<And>s es. P s \<Longrightarrow> data_writes es = [] \<Longrightarrow> ack_writes es = [] \<Longrightarrow> P (emit es s)"
    and "\<And>s e. P s \<Longrightarrow> P (shutdown e s)" and "\<And>s e. P s \<Longrightarrow> P (s\<lparr>st_rerr := Some e\<rparr>)"
    and "\<And>s. P s \<Longrightarrow> P (wakeSend s)" and "\<And>s. P s \<Longrightarrow> P (triggerAck s)"
  shows "P (drop_path wr i cause notify s)"
  by (rule drop_path_end_rule[where P = P]) (simp_all add: assms)

lemma remove_path_simps [simp]:
  "st_paths (remove_path i s) = filter (\<lambda>p. p_id p \<noteq> i) (st_paths s)"
  "st_unacked (remove_path i s) = orphan i (st_unacked s)"
  "st_closed (remove_path i s) = st_closed s" "st_cumAcked (remove_path i s) = st_cumAcked s"
  "st_sentOff (remove_path i s) = st_sentOff s" "st_sendQ (remove_path i s) = st_sendQ s"
  "st_qHead (remove_path i s) = st_qHead s" "st_pendingBytes (remove_path i s) = st_pendingBytes s"
  "st_peerRanges (remove_path i s) = st_peerRanges s" "st_out (remove_path i s) = st_out s"
  by (simp_all add: remove_path_def)

lemma remove_path_inv: "send_inv W s \<Longrightarrow> send_inv W (remove_path i s)"
proof -
  assume inv: "send_inv W s"
  note v = send_invD[OF inv]
  let ?ps = "filter (\<lambda>p. p_id p \<noteq> i) (st_paths s)"
  have ids: "p_id ` set ?ps = p_id ` set (st_paths s) - {i}" by auto
  have "ss_path ` set (orphan i (st_unacked s)) \<subseteq> insert None (Some ` p_id ` set ?ps)"
  proof
    fix x assume "x \<in> ss_path ` set (orphan i (st_unacked s))"
    then have "x = None \<or> x \<noteq> Some i \<and> x \<in> ss_path ` set (st_unacked s)" using orphan_paths[of i "st_unacked s"] by auto
    moreover have "ss_path ` set (st_unacked s) \<subseteq> insert None (Some ` p_id ` set (st_paths s))"
      using v(7) by (simp only: paths_ok_def owned_def)
    ultimately show "x \<in> insert None (Some ` p_id ` set ?ps)" unfolding ids by fastforce
  qed
  then have own: "owned (orphan i (st_unacked s)) ?ps" by (simp only: owned_def)
  have "balanced (orphan i (st_unacked s)) ?ps"
    using v(7) orphan_charged by (auto simp: paths_ok_def balanced_def)
  moreover have "distinct (map p_id ?ps)" using v(7) by (simp add: paths_ok_def distinct_map_filter)
  moreover have "tiling W (unat (st_cumAcked s)) (orphan i (st_unacked s)) (unat (st_sentOff s))"
    using v(3) tiling_same_bytes[OF orphan_bytes] by simp
  moreover have "\<forall>p \<in> set ?ps. p_dead p \<longrightarrow> st_closed s" using v(7) by (auto simp: paths_ok_def)
  ultimately have "paths_ok (remove_path i s)" "tiling W (unat (st_cumAcked s)) (orphan i (st_unacked s)) (unat (st_sentOff s))"
    using own by (simp_all only: paths_ok_def remove_path_simps)
  then show ?thesis using inv by (simp add: send_inv_def queued_def queue_ok_def)
qed

lemma kill_paths_ids: "map p_id (kill_paths ps) = map p_id ps"
  by (simp add: kill_paths_def o_def)

lemma kill_inv: "send_inv W s \<Longrightarrow> send_inv W (s\<lparr>st_once := a, st_closed := True, st_rerr := x, st_werr := y, st_paths := kill_paths (st_paths s)\<rparr>)"
proof -
  assume inv: "send_inv W s"
  have ids: "p_id ` set (kill_paths (st_paths s)) = p_id ` set (st_paths s)"
    using kill_paths_ids by (metis list.set_map)
  have "balanced gs (kill_paths ps) = balanced gs ps" for gs ps
    by (auto simp: balanced_def kill_paths_def)
  then show ?thesis using inv owned_ids[OF ids] kill_paths_ids
    by (simp add: send_inv_def queued_def queue_ok_def paths_ok_def)
qed

lemma shutdown_inv: "send_inv W s \<Longrightarrow> send_inv W (shutdown e s)"
  using kill_inv[of W s] by (simp add: shutdown_def)

lemma close_inv: "send_inv W s \<Longrightarrow> send_inv W (stream_close s)"
  using kill_inv[of W s, where a = True and x = "st_rerr s" and y = "st_werr s"] by (simp add: stream_close_def)

lemma drop_path_inv: "send_inv W s \<Longrightarrow> send_inv W (drop_path wr i cause notify s)"
proof (rule drop_path_rule)
  show "send_inv W s \<Longrightarrow> send_inv W (s\<lparr>st_rerr := Some e\<rparr>)" for s e
    by (subst send_inv_view[of _ s]) (simp_all add: send_view_def)
qed (simp_all add: remove_path_inv shutdown_inv)

section \<open>Operations that send no data\<close>

text \<open>An operation is quiet when it writes no DATA frame and keeps the receive buffer.\<close>

definition quiet :: "stream \<Rightarrow> stream \<Rightarrow> bool" where
  "quiet s s' \<longleftrightarrow> st_rbuf s' = st_rbuf s \<and> (\<exists>es. st_out s' = st_out s @ es \<and> data_writes es = [])"

lemma quiet_refl [simp]: "quiet s s"
  by (simp add: quiet_def)

lemma quiet_trans: "quiet a b \<Longrightarrow> quiet b c \<Longrightarrow> quiet a c"
  unfolding quiet_def by (metis append_assoc data_writes_append append_Nil2)

lemma quiet_emit: "data_writes es = [] \<Longrightarrow> quiet s (emit es s)"
  by (auto simp: quiet_def emit_def)

lemma quiet_same: "st_out s' = st_out s \<Longrightarrow> st_rbuf s' = st_rbuf s \<Longrightarrow> quiet s s'"
  by (simp add: quiet_def)

lemma quiet_wake: "quiet s (wakeSend s)" "quiet s (triggerAck s)"
  by (simp_all add: quiet_same wakeSend_def triggerAck_def)

lemma quiet_shutdown: "quiet s (shutdown e s)"
  by (simp add: shutdown_def quiet_def emit_def)

lemma quiet_drop_path: "quiet s (drop_path wr i cause notify s)"
proof (rule drop_path_rule[where P = "quiet s"])
  show "quiet s (remove_path i q)" if "quiet s q" for q i
    by (rule quiet_trans[OF that]) (simp add: quiet_same remove_path_def)
  show "quiet s (emit es q)" if "quiet s q" "data_writes es = []" for q es
    by (rule quiet_trans[OF that(1) quiet_emit[OF that(2)]])
  show "quiet s (shutdown e q)" if "quiet s q" for q e
    by (rule quiet_trans[OF that quiet_shutdown])
  show "quiet s (q\<lparr>st_rerr := Some e\<rparr>)" "quiet s (wakeSend q)" "quiet s (triggerAck q)" if "quiet s q" for q e
    by (rule quiet_trans[OF that], simp add: quiet_same wakeSend_def triggerAck_def)+
qed simp

text \<open>
  The rules for \<open>sendAck\<close>. \<open>P\<close> holds before an attempt and \<open>Q\<close> after it; an attempt that fails starts
  another one with fewer paths.
\<close>

lemma send_ack_loop_rule:
  assumes "P s" and "\<And>s. P s \<Longrightarrow> Q s"
    and "\<And>s. P s \<Longrightarrow> Q (s\<lparr>st_freedSinceAck := 0, st_ackSeq := st_ackSeq s + 1\<rparr>)"
    and "\<And>s i. P s \<Longrightarrow> Q (emit [Eff_Write i (ack_msg s)] (s\<lparr>st_freedSinceAck := 0, st_ackSeq := st_ackSeq s + 1\<rparr>))"
    and "\<And>s i. Q s \<Longrightarrow> Q (drop_path wr i (Some E_Write) True s)"
    and "\<And>s s' i. P s \<Longrightarrow>
      s' = drop_path wr i (Some E_Write) True
        (emit [Eff_Write i (ack_msg s)] (s\<lparr>st_freedSinceAck := 0, st_ackSeq := st_ackSeq s + 1\<rparr>)) \<Longrightarrow>
      Q s' \<Longrightarrow> length (st_paths s') < length (st_paths s) \<Longrightarrow> P s'"
  shows "Q (send_ack wr s)"
  using assms
proof (induction wr s rule: send_ack.induct)
  case (1 wr s)
  define s1 where "s1 = s\<lparr>st_freedSinceAck := 0, st_ackSeq := st_ackSeq s + 1\<rparr>"
  show ?case
  proof (cases "st_closed s \<or> pickAck (st_paths s) = None")
    case True
    then have "send_ack wr s = (if st_closed s then s else s1)"
      by (subst send_ack.simps) (auto simp: s1_def Let_def)
    then show ?thesis using "1.prems"(1,2,3) by (simp add: s1_def)
  next
    case False
    then obtain p where p: "pickAck (st_paths s) = Some p" and nc: "\<not> st_closed s" by auto
    define s2 where "s2 = emit [Eff_Write (p_id p) (ack_msg s)] s1"
    define s3 where "s3 = drop_path wr (p_id p) (Some E_Write) True s2"
    have Q: "Q s2" "Q s3" unfolding s3_def s2_def s1_def using "1.prems"(1,4,5) by simp_all
    have eq: "send_ack wr s = (if wr (p_id p) then s2
        else if length (st_paths s3) < length (st_paths s) then send_ack wr s3 else s3)"
      using p nc by (subst send_ack.simps) (simp add: Let_def s1_def s2_def s3_def)
    have "Q (send_ack wr s3)" if l: "\<not> wr (p_id p)" "length (st_paths s3) < length (st_paths s)"
    proof -
      have "P s3" by (rule "1.prems"(6)[OF "1.prems"(1) _ Q(2) l(2), of "p_id p"]) (simp add: s3_def s2_def s1_def)
      then show ?thesis by (rule "1.IH"[OF nc s1_def p s2_def l(1) s3_def l(2) _ "1.prems"(2,3,4,5,6)])
    qed
    then show ?thesis using Q eq by simp
  qed
qed

lemma send_ack_rule:
  assumes "P s" and "\<And>s. P s \<Longrightarrow> P (s\<lparr>st_freedSinceAck := 0, st_ackSeq := st_ackSeq s + 1\<rparr>)"
    and "\<And>s i. P s \<Longrightarrow> P (emit [Eff_Write i (ack_msg s)] (s\<lparr>st_freedSinceAck := 0, st_ackSeq := st_ackSeq s + 1\<rparr>))"
    and "\<And>s i. P s \<Longrightarrow> P (drop_path wr i (Some E_Write) True s)"
  shows "P (send_ack wr s)"
  by (rule send_ack_loop_rule[where P = P and Q = P, OF assms(1) _ assms(2,3,4)])

lemma send_ack_inv: "send_inv W s \<Longrightarrow> send_inv W (send_ack wr s) \<and> quiet s (send_ack wr s)"
proof (rule send_ack_rule[where P = "\<lambda>q. send_inv W q \<and> quiet s q"])
  fix q i assume q: "send_inv W q \<and> quiet s q"
  let ?q = "q\<lparr>st_freedSinceAck := 0, st_ackSeq := st_ackSeq q + 1\<rparr>"
  have "send_view ?q = send_view q" by (simp add: send_view_def)
  then have i: "send_inv W ?q" using q send_inv_view[of ?q q W] by blast
  have s: "quiet s ?q" using q quiet_trans[of s q ?q] by (simp add: quiet_same)
  show "send_inv W ?q \<and> quiet s ?q" using i s ..
  show "send_inv W (emit [Eff_Write i (ack_msg q)] ?q) \<and> quiet s (emit [Eff_Write i (ack_msg q)] ?q)"
    using i quiet_trans[OF s quiet_emit] by (simp add: ack_msg_def)
  show "send_inv W (drop_path wr i (Some E_Write) True q) \<and> quiet s (drop_path wr i (Some E_Write) True q)"
    using q drop_path_inv quiet_trans[OF _ quiet_drop_path] by blast
qed simp

text \<open>The rule for \<open>writeCtrl\<close>: what its writes and the drops of the paths that fail keep, it keeps.\<close>

lemma writeCtrl_rule:
  assumes "P s" and "\<And>s i. P s \<Longrightarrow> P (emit [Eff_Write i (M_Ctrl ft body)] s)"
    and "\<And>s i. P s \<Longrightarrow> P (drop_path wr i (Some E_Write) True s)"
  shows "P (snd (writeCtrl wr ft body s))"
  using assms
proof (induction wr ft body s rule: writeCtrl.induct)
  case (1 wr ft body s)
  show ?case
  proof (cases "st_closed s \<or> pickAck (st_paths s) = None")
    case True
    then show ?thesis using "1.prems"(1) by (subst writeCtrl.simps) auto
  next
    case False
    then obtain p where p: "pickAck (st_paths s) = Some p" and nc: "\<not> st_closed s" by auto
    define s1 where "s1 = emit [Eff_Write (p_id p) (M_Ctrl ft body)] s"
    define s2 where "s2 = drop_path wr (p_id p) (Some E_Write) True s1"
    have P: "P s1" "P s2" unfolding s2_def s1_def using "1.prems" by simp_all
    have eq: "writeCtrl wr ft body s = (if wr (p_id p) then (None, s1)
        else if length (st_paths s2) < length (st_paths s) then writeCtrl wr ft body s2 else (Some E_No_Paths, s2))"
      using p nc by (subst writeCtrl.simps) (simp add: Let_def s1_def s2_def)
    then show ?thesis using P "1.IH"[OF nc p s1_def _ s2_def _ P(2) "1.prems"(2,3)] by simp
  qed
qed

lemma writeCtrl_inv: "send_inv W s \<Longrightarrow> send_inv W (snd (writeCtrl wr ft body s)) \<and> quiet s (snd (writeCtrl wr ft body s))"
  by (rule writeCtrl_rule[where P = "\<lambda>q. send_inv W q \<and> quiet s q"])
    (auto simp: drop_path_inv intro: quiet_trans[OF _ quiet_emit] quiet_trans[OF _ quiet_drop_path])

lemma path_view_map:
  "(\<And>p. p_id (f p) = p_id p \<and> p_inflight (f p) = p_inflight p \<and> p_dead (f p) = p_dead p) \<Longrightarrow>
   path_view (map f ps) = path_view ps"
  by (simp add: path_view_def)

lemma send_inv_paths:
  "send_inv W s \<Longrightarrow> path_view ps = path_view (st_paths s) \<Longrightarrow> send_inv W (s\<lparr>st_paths := ps\<rparr>)"
  by (subst send_inv_view[of _ s]) (simp_all add: send_view_def)

lemma tick_path_view:
  "p_id (fst (tick_path b now p)) = p_id p \<and> p_inflight (fst (tick_path b now p)) = p_inflight p \<and>
   p_dead (fst (tick_path b now p)) = p_dead p"
  by (simp add: tick_path_def tick_rx_def Let_def)

lemma updateWindowCap_view:
  "send_view (updateWindowCap s) = send_view s" "st_out (updateWindowCap s) = st_out s"
  by (simp_all add: updateWindowCap_def set_window_cap_def Let_def send_view_def triggerAck_def)

lemma updateWindowCap_rbuf:
  "st_rbuf (updateWindowCap s) = st_rbuf s \<or> st_rbuf (updateWindowCap s) = rb_setCap (st_rbuf s) (target_cap s)"
  by (simp add: updateWindowCap_def set_window_cap_def Let_def triggerAck_def)

lemma checkSoftFail_inv:
  assumes "send_inv W s" and "checkSoftFail now s = (drops, moved, s')"
  shows "send_inv W s'" and "st_out s' = st_out s" and "st_rbuf s' = st_rbuf s"
proof -
  obtain gs ps m where r: "soft_fail_segs (st_peerRanges s) now (sendTs s now) (st_unacked s) (st_paths s) = (gs, ps, m)"
    by (metis prod_cases3)
  then have s': "s' = s\<lparr>st_unacked := gs, st_paths := ps\<rparr>" using assms(2) by (simp add: checkSoftFail_def)
  note v = send_invD[OF assms(1)]
  have f: "map (\<lambda>g. (ss_off g, ss_data g)) gs = map (\<lambda>g. (ss_off g, ss_data g)) (st_unacked s)"
    "map p_id ps = map p_id (st_paths s)" "ss_path ` set gs \<subseteq> insert None (ss_path ` set (st_unacked s))"
    "balanced gs ps"
    using soft_fail_segs_facts[OF r, of "[]"] v(7) by (simp_all add: paths_ok_def)
  have ids: "p_id ` set ps = p_id ` set (st_paths s)" using f(2) by (metis list.set_map)
  have own: "owned gs ps"
    unfolding owned_ids[OF ids] using v(7) f(3) owned_subset[of "st_unacked s" "st_paths s" gs] by (simp add: paths_ok_def)
  have dead: "\<forall>p \<in> set ps. p_dead p \<longrightarrow> st_closed s"
  proof (rule dead_map[OF soft_fail_dead[OF r]])
    show "\<forall>p \<in> set (st_paths s). p_dead p \<longrightarrow> st_closed s" using v(7) unfolding paths_ok_def by blast
  qed
  show "send_inv W s'" using assms(1) f own dead tiling_same_bytes[OF f(1)]
    by (simp add: s' send_inv_def queued_def queue_ok_def paths_ok_def)
  show "st_out s' = st_out s" "st_rbuf s' = st_rbuf s" by (simp_all add: s')
qed

section \<open>The tick\<close>

text \<open>The receive buffer of \<open>s'\<close> is that of \<open>s\<close> up to its capacity; no DATA is written.\<close>

definition quiet_cap :: "stream \<Rightarrow> stream \<Rightarrow> bool" where
  "quiet_cap s s' \<longleftrightarrow> (\<exists>c. st_rbuf s' = rb_setCap (st_rbuf s) c) \<and>
     (\<exists>es. st_out s' = st_out s @ es \<and> data_writes es = [])"

lemma setCap_same: "rb_setCap r (rb_cap r) = r"
  by (simp add: rb_setCap_def)

lemma setCap_twice: "rb_setCap (rb_setCap r a) b = rb_setCap r b"
  by (simp add: rb_setCap_def)

lemma quiet_cap_quiet: "quiet s s' \<Longrightarrow> quiet_cap s s'"
  unfolding quiet_def quiet_cap_def using setCap_same by metis

lemma quiet_cap_trans: "quiet_cap a b \<Longrightarrow> quiet b c \<Longrightarrow> quiet_cap a c"
  unfolding quiet_def quiet_cap_def by (metis append_assoc data_writes_append append_Nil2)

lemma drop_all_inv:
  "send_inv W s \<Longrightarrow> send_inv W (foldl (\<lambda>s i. drop_path wr i c b s) s is) \<and> quiet s (foldl (\<lambda>s i. drop_path wr i c b s) s is)"
proof (induction "is" arbitrary: s)
  case (Cons i js)
  then show ?case
    using drop_path_inv[of W s wr i c b] Cons.IH[of "drop_path wr i c b s"] quiet_trans[OF quiet_drop_path[of s wr i c b]]
    by simp
qed simp

lemma onTick_inv:
  assumes inv: "send_inv W s"
  shows "send_inv W (onTick wr now s) \<and> quiet_cap s (onTick wr now s)"
proof (cases "st_closed s")
  case True
  then show ?thesis using inv quiet_cap_quiet[OF quiet_refl] by (simp add: onTick_def)
next
  case False
  define ticks where "ticks = map (tick_path (0 < st_pendingBytes s \<or> st_unacked s \<noteq> []) now) (st_paths s)"
  define s1 where "s1 = s\<lparr>st_paths := map fst ticks\<rparr>"
  define s2 where "s2 = updateWindowCap s1"
  obtain drops moved s3 where sf: "checkSoftFail now s2 = (drops, moved, s3)" by (metis prod_cases3)
  define es where "es = map Eff_Degraded (concat (map (\<lambda>(p, r, d, g). d) ticks))
      @ (if concat (map (\<lambda>(p, r, d, g). r) ticks) = [] then [] else [Eff_Go_Telemetry (concat (map (\<lambda>(p, r, d, g). r) ticks))])
      @ map (\<lambda>i. Eff_Go_Ping i False (sendTs s3 now)) (concat (map (\<lambda>(p, r, d, g). g) ticks))"
  define s4 where "s4 = foldl (\<lambda>s i. drop_path wr i (Some E_Path_RTO) True s) (emit es s3) drops"
  define s5 where "s5 = (if moved then wakeSend s4 else s4)"
  have eq: "onTick wr now s = (if cf_policy (st_cfg s5) then emit [Eff_Go_Policy] s5 else s5)"
    using False sf unfolding onTick_def s5_def s4_def es_def s2_def s1_def ticks_def
    by (simp add: Let_def)
  have "path_view (map fst ticks) = path_view (st_paths s)"
    unfolding ticks_def map_map o_def by (rule path_view_map) (rule tick_path_view)
  then have i1: "send_inv W s1" unfolding s1_def by (rule send_inv_paths[OF inv])
  have i2: "send_inv W s2" using i1 send_inv_view[OF updateWindowCap_view(1)] by (simp add: s2_def)
  have "\<exists>c. st_rbuf s2 = rb_setCap (st_rbuf s1) c"
    using updateWindowCap_rbuf[of s1] setCap_same[of "st_rbuf s1"] unfolding s2_def by metis
  then have q2: "quiet_cap s s2"
    using updateWindowCap_view(2)[of s1] by (simp add: quiet_cap_def s2_def s1_def)
  note i3 = checkSoftFail_inv[OF i2 sf]
  have q3: "quiet_cap s s3" using i3 quiet_cap_trans[OF q2 quiet_same] by simp
  have "data_writes es = []" by (simp add: es_def)
  then have q3e: "quiet_cap s (emit es s3)" by (rule quiet_cap_trans[OF q3 quiet_emit])
  have i4: "send_inv W s4 \<and> quiet (emit es s3) s4"
    unfolding s4_def using i3 by (intro drop_all_inv) simp
  then have "quiet_cap s s4" using quiet_cap_trans[OF q3e] by blast
  then have i5: "send_inv W s5 \<and> quiet_cap s s5"
    using i4 quiet_cap_trans[of s s4 "wakeSend s4"] quiet_wake by (simp add: s5_def)
  then show ?thesis using quiet_cap_trans[of s s5] quiet_emit[of "[Eff_Go_Policy]" s5] unfolding eq by simp
qed

section \<open>Receiving\<close>

lemma noteRTT_view: "p_id (noteRTT r now e p) = p_id p \<and> p_inflight (noteRTT r now e p) = p_inflight p \<and> p_dead (noteRTT r now e p) = p_dead p"
  by (simp add: noteRTT_def clearSuspect_def Let_def)

lemma credit_dead: "map p_dead (credit g n now ps) = map p_dead ps"
  by (auto simp: credit_def map_dead_upd_path creditDelivered_def onDelivered_def Let_def split: option.split)

lemma free_acked_dead: "free_acked cum now gs ps = (gs', ps') \<Longrightarrow> map p_dead ps' = map p_dead ps"
proof (induction gs arbitrary: ps)
  case (Cons g gs)
  then show ?case by (auto simp: Let_def credit_dead split: if_splits)
qed simp

lemma freeAcked_inv:
  assumes inv: "send_inv W s" and cum: "st_cumAcked s \<le> c" "c \<le> st_sentOff s"
  shows "send_inv W (freeAcked now (s\<lparr>st_cumAcked := c\<rparr>))"
proof -
  obtain gs ps where r: "free_acked c now (st_unacked s) (st_paths s) = (gs, ps)" by fastforce
  note v = send_invD[OF inv]
  have f: "tiling W (unat c) gs (unat (st_sentOff s))" "map p_id ps = map p_id (st_paths s)"
    "ss_path ` set gs \<subseteq> ss_path ` set (st_unacked s)" "balanced gs ps"
    using free_acked_facts[OF r v(3)] v cum by (simp_all add: word_le_nat_alt paths_ok_def)
  have ids: "p_id ` set ps = p_id ` set (st_paths s)" using f(2) by (metis list.set_map)
  have "ss_path ` set gs \<subseteq> insert None (ss_path ` set (st_unacked s))" using f(3) by (rule order_trans) (rule subset_insertI)
  then have own: "owned gs ps"
    unfolding owned_ids[OF ids] using v(7) owned_subset[of "st_unacked s" "st_paths s" gs] by (simp add: paths_ok_def)
  have dead: "\<forall>p \<in> set ps. p_dead p \<longrightarrow> st_closed s"
  proof (rule dead_map[OF free_acked_dead[OF r]])
    show "\<forall>p \<in> set (st_paths s). p_dead p \<longrightarrow> st_closed s" using v(7) unfolding paths_ok_def by blast
  qed
  have eq: "freeAcked now (s\<lparr>st_cumAcked := c\<rparr>) = s\<lparr>st_cumAcked := c, st_unacked := gs, st_paths := ps\<rparr>"
    by (simp add: freeAcked_def r)
  show ?thesis unfolding eq using inv f own dead
    by (simp add: send_inv_def queued_def queue_ok_def paths_ok_def)
qed

lemma freeAcked_same: "st_out (freeAcked now s) = st_out s" "st_rbuf (freeAcked now s) = st_rbuf s"
  "st_sentOff (freeAcked now s) = st_sentOff s" "st_cumAcked (freeAcked now s) = st_cumAcked s"
  by (simp_all add: freeAcked_def split: prod.split)

lemma apply_ack_inv:
  assumes inv: "send_inv W s" and cum: "st_cumAcked s \<le> f_cum f" "f_cum f \<le> st_sentOff s"
    and ranges: "list_all valid_range (f_ranges f)"
  shows "send_inv W (apply_ack now f s)" and "quiet s (apply_ack now f s)"
    and "st_cumAcked (apply_ack now f s) = f_cum f" and "st_sentOff (apply_ack now f s) = st_sentOff s"
    and "st_peerRanges (apply_ack now f s) = normalize_ranges (f_ranges f)"
    and "st_advWindow (apply_ack now f s) = f_window f"
proof -
  define s1 where "s1 = (let s = s\<lparr>st_peerAckSeq := f_seq f, st_gotPeerAck := True\<rparr> in
    if f_tsPath f \<noteq> 0 \<and> f_tsEcho f \<noteq> 0
    then s\<lparr>st_paths := upd_path (f_tsPath f - 1) (noteRTT (echo_rtt (sendTs s now) (f_tsEcho f)) now (f_tsEcho f)) (st_paths s)\<rparr>
    else s)"
  define s2 where "s2 = (if st_cumAcked s1 < f_cum f then freeAcked now (s1\<lparr>st_cumAcked := f_cum f\<rparr>) else s1)"
  define s3 where "s3 = s2\<lparr>st_advWindow := f_window f, st_gotWindow := True, st_peerRanges := normalize_ranges (f_ranges f)\<rparr>"
  have eq: "apply_ack now f s = wakeSend s3"
    by (simp add: apply_ack_def s3_def s2_def s1_def Let_def)
  have same: "st_cumAcked s1 = st_cumAcked s" "st_sentOff s1 = st_sentOff s" "st_out s1 = st_out s" "st_rbuf s1 = st_rbuf s"
    by (simp_all add: s1_def Let_def)
  have "send_view s1 = send_view s"
    using path_view_upd[of "noteRTT (echo_rtt (sendTs (s\<lparr>st_peerAckSeq := f_seq f, st_gotPeerAck := True\<rparr>) now) (f_tsEcho f)) now (f_tsEcho f)"
        "f_tsPath f - 1" "st_paths s"] noteRTT_view
    by (simp add: s1_def Let_def send_view_def)
  then have i1: "send_inv W s1" using inv send_inv_view[of s1 s W] by blast
  have cum2: "st_cumAcked s2 = f_cum f"
    using cum same by (auto simp: s2_def freeAcked_same not_less)
  have i2: "send_inv W s2"
    using freeAcked_inv[OF i1, of "f_cum f" now] i1 cum same by (simp add: s2_def)
  have n: "normal (normalize_ranges (f_ranges f))" by (rule normalize_ranges_normal(1)[OF ranges])
  then have "send_inv W s3" using i2 by (simp add: s3_def send_inv_def queued_def queue_ok_def paths_ok_def)
  then show "send_inv W (apply_ack now f s)" by (simp add: eq)
  have "st_out s2 = st_out s" "st_rbuf s2 = st_rbuf s" "st_sentOff s2 = st_sentOff s"
    using same by (simp_all add: s2_def freeAcked_same)
  then show "quiet s (apply_ack now f s)" "st_sentOff (apply_ack now f s) = st_sentOff s"
    by (simp_all add: eq s3_def wakeSend_def quiet_same)
  show "st_cumAcked (apply_ack now f s) = f_cum f" "st_peerRanges (apply_ack now f s) = normalize_ranges (f_ranges f)"
    "st_advWindow (apply_ack now f s) = f_window f"
    using cum2 by (simp_all add: eq s3_def wakeSend_def)
qed

lemma recv_ack_inv:
  assumes inv: "send_inv W s" and ranges: "list_all valid_range (f_ranges f)"
  shows "send_inv W (recv_ack wr now i f s) \<and> quiet s (recv_ack wr now i f s)"
proof (cases "st_gotPeerAck s \<and> f_seq f \<le> st_peerAckSeq s")
  case True
  then show ?thesis using inv by (simp add: recv_ack_def)
next
  case False
  show ?thesis
  proof (cases "validate_ack f (st_sentOff s) (st_cumAcked s) (st_peerAckSeq s) (st_gotPeerAck s)")
    case None
    have "st_cumAcked s \<le> f_cum f" "f_cum f \<le> st_sentOff s"
      using None by (auto simp: validate_ack_def not_less split: if_splits)
    from apply_ack_inv(1,2)[OF inv this ranges] have "send_inv W (apply_ack now f s) \<and> quiet s (apply_ack now f s)" by blast
    moreover have "recv_ack wr now i f s = apply_ack now f s" using False None by (auto simp: recv_ack_def)
    ultimately show ?thesis by simp
  next
    case (Some e)
    then show ?thesis using False drop_path_inv[OF inv] quiet_drop_path by (auto simp: recv_ack_def)
  qed
qed

lemma telemetry_view:
  "path_view (foldl (\<lambda>ps (i, r). upd_path i (\<lambda>p. p\<lparr>p_peerRate := float_of_u64 r, p_peerRateAt := now\<rparr>) ps) ps rates)
   = path_view ps"
proof (induction rates arbitrary: ps)
  case (Cons x rates)
  obtain i r where x: "x = (i, r)" by fastforce
  show ?case unfolding x foldl_Cons case_prod_conv Cons.IH by (rule path_view_upd) simp
qed simp

fun input_ok :: "input \<Rightarrow> bool" where
  "input_ok (In_Ack f) = list_all valid_range (f_ranges f)"
| "input_ok _ = True"

text \<open>Receiving never writes DATA, and only DATA frames touch the receive buffer.\<close>

lemma recv_inv:
  assumes inv: "send_inv W s" and ok: "input_ok x" and run: "recv wr now i x s = Inr s'"
  shows "send_inv W s'" and "\<exists>es. st_out s' = st_out s @ es \<and> data_writes es = []"
    and "case x of In_Data off ts d \<Rightarrow> rb_add (st_rbuf s) off d = Inr (st_rbuf s') | _ \<Rightarrow> st_rbuf s' = st_rbuf s"
proof -
  have "send_inv W s' \<and> (\<exists>es. st_out s' = st_out s @ es \<and> data_writes es = []) \<and>
    (case x of In_Data off ts d \<Rightarrow> rb_add (st_rbuf s) off d = Inr (st_rbuf s') | _ \<Rightarrow> st_rbuf s' = st_rbuf s)"
  proof (cases x)
    case (In_Data off ts d)
    then obtain r where r: "rb_add (st_rbuf s) off d = Inr r"
      using run by (auto simp: recv_def recv_data_def split: sum.splits)
    define s1 where "s1 = s\<lparr>st_rbuf := r, st_lastDataTs := ts, st_lastDataPath := Some i,
      st_paths := upd_path i (\<lambda>p. p\<lparr>p_rxBytes := p_rxBytes p + u64_of_len (length d)\<rparr>) (st_paths s)\<rparr>"
    have "send_view s1 = send_view s"
      using path_view_upd[of "\<lambda>p. p\<lparr>p_rxBytes := p_rxBytes p + u64_of_len (length d)\<rparr>" i "st_paths s"]
      by (simp add: s1_def send_view_def)
    then have i1: "send_inv W s1" using inv send_inv_view[of s1 s W] by blast
    have "s' = shutdown E_Overflow s1 \<or> s' = triggerAck s1"
      using run In_Data r by (auto simp: recv_def recv_data_def s1_def Let_def split: if_splits)
    then have "send_inv W s' \<and> quiet s1 s'" using i1 shutdown_inv quiet_shutdown quiet_wake by auto
    then show ?thesis using In_Data r by (simp add: quiet_def s1_def)
  next
    case (In_Ack f)
    then show ?thesis using run ok recv_ack_inv[OF inv, of f wr now i] by (auto simp: recv_def quiet_def)
  next
    case (In_Path_Drop b)
    then show ?thesis using run drop_path_inv[OF inv] quiet_drop_path inv quiet_refl[of s]
      by (auto simp: recv_def handlePathDrop_def quiet_def split: option.splits if_splits)
  next
    case (In_Ping b)
    have "send_inv W (s\<lparr>st_paths := upd_path i (noteRTT r now t) (st_paths s)\<rparr>)" for r t
      using send_inv_paths[OF inv] path_view_upd noteRTT_view by simp
    then show ?thesis using run inv In_Ping
      by (auto simp: recv_def emit_def[of _ s, symmetric] split: option.splits if_splits prod.splits)
        (auto simp: emit_def)
  next
    case (In_Telemetry b)
    show ?thesis
    proof (cases b)
      case None
      then show ?thesis using run inv In_Telemetry by (simp add: recv_def)
    next
      case (Some rates)
      define ps where "ps = foldl (\<lambda>ps (i, r). upd_path i (\<lambda>p. p\<lparr>p_peerRate := float_of_u64 r, p_peerRateAt := now\<rparr>) ps)
        (st_paths s) rates"
      have v: "path_view ps = path_view (st_paths s)" unfolding ps_def by (rule telemetry_view)
      have "s' = wakeSend (s\<lparr>st_paths := ps\<rparr>)"
        using run In_Telemetry Some by (simp add: recv_def recv_telemetry_def ps_def)
      then have "send_inv W s'" "st_out s' = st_out s" "st_rbuf s' = st_rbuf s"
        using send_inv_paths[OF inv v] by simp_all (simp_all add: wakeSend_def)
      then show ?thesis using In_Telemetry by simp
    qed
  next
    case In_Fin
    have "send_inv W (s\<lparr>st_finRecv := True\<rparr>)" using inv by (subst send_inv_view[of _ s]) (simp_all add: send_view_def)
    then show ?thesis using run In_Fin drop_path_inv quiet_drop_path[of "s\<lparr>st_finRecv := True\<rparr>"]
      by (auto simp: recv_def quiet_def)
  next
    case In_Rst
    then show ?thesis using run shutdown_inv[OF inv] quiet_shutdown by (auto simp: recv_def quiet_def)
  next
    case In_Other
    then show ?thesis using run inv by (simp add: recv_def)
  next
    case (In_Error e)
    then show ?thesis using run drop_path_inv[OF inv] quiet_drop_path inv
      by (auto simp: recv_def quiet_def split: if_splits)
  qed
  then show "send_inv W s'" "\<exists>es. st_out s' = st_out s @ es \<and> data_writes es = []"
    "case x of In_Data off ts d \<Rightarrow> rb_add (st_rbuf s) off d = Inr (st_rbuf s') | _ \<Rightarrow> st_rbuf s' = st_rbuf s"
    by blast+
qed

end
