(* ===== verification/Stream_Run.thy ===== *)
theory Stream_Run
  imports Stream_Inv "HOL-Library.Sublist"
begin

text \<open>
  Runs of a stream. A world is a stream with its history: the bytes written to it and read from it,
  and the path ids that were reserved and not attached yet. A run is any sequence of the operations
  of \<open>Stream\<close>, in any order, with any clock readings and any write failures; what the operations ask
  of their environment is \<open>sop_ok\<close>. The first half shows what every operation does to the identity of
  the stream, its paths and its lifecycle flags.
\<close>

section \<open>Identity and lifecycle\<close>

text \<open>The capacity of the receive buffer stays within the configured bounds.\<close>

definition cap_ok :: "stream \<Rightarrow> bool" where
  "cap_ok s \<longleftrightarrow> cf_minBuf (st_cfg s) \<le> rb_cap (st_rbuf s) \<and> rb_cap (st_rbuf s) \<le> cf_maxBuf (st_cfg s)"

text \<open>The trace only grows, and a stream that ends says so to its aggregator.\<close>

definition traced :: "stream \<Rightarrow> stream \<Rightarrow> bool" where
  "traced s s' \<longleftrightarrow> (\<exists>es. st_out s' = st_out s @ es \<and> (st_once s' \<longrightarrow> st_once s \<or> Eff_Deregister \<in> set es))"

lemma traced_same: "st_out s' = st_out s @ es \<Longrightarrow> st_once s' = st_once s \<Longrightarrow> traced s s'"
  by (auto simp: traced_def)

lemma traced_id [simp]: "st_out s' = st_out s \<Longrightarrow> st_once s' = st_once s \<Longrightarrow> traced s s'"
  by (rule traced_same[of _ _ "[]"]) simp_all

lemma traced_trans: "traced a b \<Longrightarrow> traced b c \<Longrightarrow> traced a c"
  unfolding traced_def by (elim exE conjE) (auto simp: append_assoc)

lemma traced_grows: "traced s s' \<Longrightarrow> \<exists>es. st_out s' = st_out s @ es"
  by (auto simp: traced_def)

definition evolves :: "stream \<Rightarrow> stream \<Rightarrow> bool" where
  "evolves s s' \<longleftrightarrow>
     st_base s' = st_base s \<and> st_nextPathID s' = st_nextPathID s \<and> st_remoteParity s' = st_remoteParity s \<and>
     st_seenRemote s' = st_seenRemote s \<and> subseq (map p_id (st_paths s')) (map p_id (st_paths s)) \<and>
     (st_closed s \<longrightarrow> st_closed s') \<and> (st_once s \<longrightarrow> st_once s') \<and>
     ((st_once s \<longrightarrow> st_closed s) \<longrightarrow> st_once s' \<longrightarrow> st_closed s') \<and> traced s s' \<and>
     st_cumAcked s \<le> st_cumAcked s' \<and> cf_minBuf (st_cfg s') = cf_minBuf (st_cfg s) \<and>
     cf_maxBuf (st_cfg s') = cf_maxBuf (st_cfg s) \<and> (cap_ok s \<longrightarrow> cap_ok s')"

lemma evolves_refl [simp]: "evolves s s"
  by (simp add: evolves_def cap_ok_def)

lemma evolves_trans: "evolves a b \<Longrightarrow> evolves b c \<Longrightarrow> evolves a c"
  unfolding evolves_def by (elim conjE) (auto intro: subseq_order.order_trans traced_trans)

text \<open>An operation that leaves these fields alone.\<close>

lemma evolves_same:
  assumes "st_base s' = st_base s" "st_nextPathID s' = st_nextPathID s" "st_remoteParity s' = st_remoteParity s"
    "st_seenRemote s' = st_seenRemote s" "map p_id (st_paths s') = map p_id (st_paths s)"
    "st_closed s' = st_closed s" "st_once s' = st_once s" "st_out s' = st_out s @ es"
    "st_cumAcked s' = st_cumAcked s" "st_cfg s' = st_cfg s" "rb_cap (st_rbuf s') = rb_cap (st_rbuf s)"
  shows "evolves s s'"
  using assms traced_same[of s' s es] by (simp add: evolves_def cap_ok_def)

lemma evolves_small [simp]:
  "evolves s (emit es s)" "evolves s (triggerAck s)" "evolves s (wakeSend s)"
  by (simp_all add: evolves_def cap_ok_def emit_def triggerAck_def wakeSend_def traced_same)

lemma evolves_shutdown: "evolves s (shutdown e s)"
  by (simp add: evolves_def cap_ok_def shutdown_def emit_def kill_paths_ids traced_def)

lemma evolves_close: "evolves s (stream_close s)"
  by (simp add: evolves_def cap_ok_def stream_close_def emit_def kill_paths_ids traced_def)

lemma evolves_drop_path: "evolves s (drop_path wr i cause notify s)"
proof (rule drop_path_rule[where P = "evolves s"])
  show "evolves s (remove_path i q)" if "evolves s q" for q i
  proof (rule evolves_trans[OF that])
    show "evolves q (remove_path i q)"
      by (simp add: evolves_def cap_ok_def remove_path_def subseq_map)
  qed
  show "evolves s (emit es q)" "evolves s (wakeSend q)" "evolves s (triggerAck q)" if "evolves s q" for q es
    by (rule evolves_trans[OF that], simp)+
  show "evolves s (shutdown e q)" if "evolves s q" for q e
    by (rule evolves_trans[OF that evolves_shutdown])
  show "evolves s (q\<lparr>st_rerr := Some e\<rparr>)" if "evolves s q" for q e
    by (rule evolves_trans[OF that]) (simp add: evolves_def cap_ok_def)
qed simp

text \<open>
  The rule for \<open>Write\<close>: what every chunk it queues keeps holds where it stops, with nothing left, an
  error, or no room.
\<close>

definition send_room :: "stream \<Rightarrow> int" where
  "send_room s = cf_sendBufCap (st_cfg s) - (st_pendingBytes s + i64_of_u64 (st_sentOff s - st_cumAcked s))"

definition enqueue :: "bytes \<Rightarrow> stream \<Rightarrow> stream" where
  "enqueue d s = wakeSend (s\<lparr>st_sendQ := st_sendQ s @ [d], st_pendingBytes := st_pendingBytes s + int (length d)\<rparr>)"

fun write_stop :: "write_result \<Rightarrow> int \<Rightarrow> bytes \<Rightarrow> stream \<Rightarrow> bool" where
  "write_stop (Write_Done t) tot b s \<longleftrightarrow> t = tot \<and> b = []"
| "write_stop (Write_Blocked t r) tot b s \<longleftrightarrow> t = tot \<and> r = b \<and> b \<noteq> [] \<and> send_room s \<le> 0"
| "write_stop (Write_Err t e) tot b s \<longleftrightarrow> t = tot \<and> (st_werr s = Some e \<or> st_closed s \<and> e = E_Closed)"

lemma write_loop_rule:
  assumes run: "write_loop tot b s = (res, s')" and start: "P tot b s"
    and step: "\<And>tot b s n. P tot b s \<Longrightarrow> st_werr s = None \<Longrightarrow> \<not> st_closed s \<Longrightarrow> 0 < n \<Longrightarrow> n \<le> length b \<Longrightarrow>
      int n \<le> send_room s \<Longrightarrow> P (tot + int n) (drop n b) (enqueue (take n b) s)"
  shows "\<exists>tot' b'. P tot' b' s' \<and> write_stop res tot' b' s'"
  using run start
proof (induction tot b s rule: write_loop.induct)
  case (1 tot b s)
  define n where "n = min (nat (send_room s)) (length b)"
  show ?case
  proof (cases "b \<noteq> [] \<and> st_werr s = None \<and> \<not> st_closed s \<and> 0 < send_room s")
    case False
    then have "s' = s" "write_stop res tot b s"
      using "1.prems"(1) by (auto simp: write_loop.simps[of tot b s] Let_def send_room_def split: option.splits if_splits)
    then show ?thesis using "1.prems"(2) by blast
  next
    case True
    have n: "0 < n" "n \<le> length b" "int n \<le> send_room s" using True by (auto simp: n_def min_def)
    then have p: "P (tot + int n) (drop n b) (enqueue (take n b) s)" using step[OF "1.prems"(2)] True by blast
    have eq: "enqueue (take n b) s = wakeSend (s\<lparr>st_sendQ := st_sendQ s @ [take n b], st_pendingBytes := st_pendingBytes s + int n\<rparr>)"
      using n by (simp add: enqueue_def)
    have "write_loop (tot + int n) (drop n b) (enqueue (take n b) s) = (res, s')"
      using "1.prems"(1) True unfolding eq
      by (simp add: write_loop.simps[of tot b s] Let_def n_def send_room_def)
    then show ?thesis using "1.IH"[OF _ _ _ refl refl _ n_def[unfolded send_room_def]] p True unfolding eq send_room_def by simp
  qed
qed

lemma enqueue_simps [simp]:
  "st_rbuf (enqueue d s) = st_rbuf s" "st_cfg (enqueue d s) = st_cfg s" "st_sentOff (enqueue d s) = st_sentOff s"
  "st_werr (enqueue d s) = st_werr s" "st_closed (enqueue d s) = st_closed s" "evolves s (enqueue d s)"
  by (simp_all add: enqueue_def wakeSend_def evolves_def cap_ok_def)

lemma evolves_write:
  assumes "write_loop tot b s = (res, s')"
  shows "evolves s s'"
proof -
  have "\<exists>tot' b'. evolves s s' \<and> write_stop res tot' b' s'"
    by (rule write_loop_rule[OF assms, where P = "\<lambda>_ _. evolves s"]) (auto intro: evolves_trans[OF _ enqueue_simps(6)])
  then show ?thesis by blast
qed

lemma evolves_trySend_locked: "trySend_locked now s = (r, s') \<Longrightarrow> evolves s s'"
  by (rule evolves_same[where es = "[]"])
    (auto simp: trySend_locked_def Let_def commit_resend_def commit_fresh_def map_id_upd_path
       split: if_splits option.splits prod.splits)

lemma evolves_trySend:
  assumes "trySend wr now s = (r, s')"
  shows "evolves s s'"
proof -
  obtain x q where q: "trySend_locked now s = (x, q)" by fastforce
  note e = evolves_trySend_locked[OF q]
  show ?thesis
  proof (cases x)
    case None
    then show ?thesis using assms q e by (simp add: trySend_def)
  next
    case (Some f)
    obtain i off payload where f: "f = (i, off, payload)" by (metis prod_cases3)
    let ?q = "emit [Eff_Write i (M_Data off (sendTs s now) payload)] q"
    have "evolves s ?q" by (rule evolves_trans[OF e]) simp
    moreover have "s' = ?q \<or> s' = drop_path wr i (Some E_Write) True ?q"
      using assms q Some f by (auto simp: trySend_def Let_def split: if_splits)
    ultimately show ?thesis using evolves_trans[OF _ evolves_drop_path] by blast
  qed
qed


lemma evolves_trans_emit: "evolves s q \<Longrightarrow> evolves s (emit es q)"
  by (erule evolves_trans) simp

lemma evolves_trans_drop: "evolves s q \<Longrightarrow> evolves s (drop_path wr i c b q)"
  by (rule evolves_trans[OF _ evolves_drop_path])

lemma evolves_send_ack: "evolves s (send_ack wr s)"
proof (rule send_ack_rule[where P = "evolves s"])
  fix q i assume q: "evolves s q"
  have "evolves q (q\<lparr>st_freedSinceAck := 0, st_ackSeq := st_ackSeq q + 1\<rparr>)"
    by (rule evolves_same[where es = "[]"]) simp_all
  then show "evolves s (q\<lparr>st_freedSinceAck := 0, st_ackSeq := st_ackSeq q + 1\<rparr>)"
    "evolves s (emit [Eff_Write i (ack_msg q)] (q\<lparr>st_freedSinceAck := 0, st_ackSeq := st_ackSeq q + 1\<rparr>))"
    using evolves_trans[OF q] evolves_trans_emit by blast+
  show "evolves s (drop_path wr i (Some E_Write) True q)" by (rule evolves_trans_drop[OF q])
qed simp

lemma evolves_writeCtrl: "evolves s (snd (writeCtrl wr ft body s))"
  by (rule writeCtrl_rule[where P = "evolves s"]) (auto intro: evolves_trans_emit evolves_trans_drop)

lemma evolves_ping: "evolves s (send_ping wr i b t s)"
  by (simp add: send_ping_def Let_def evolves_trans_drop)

lemma evolves_telemetry: "evolves s (send_telemetry wr rates s)"
  by (auto simp: send_telemetry_def Let_def evolves_trans_drop split: option.split)

lemma evolves_removePath: "removePath wr i s = (r, s') \<Longrightarrow> evolves s s'"
  by (auto simp: removePath_def evolves_drop_path split: if_splits)

lemma rb_read_cap: "rb_read r room = (out, r') \<Longrightarrow> rb_cap r' = rb_cap r"
  by (auto simp: rb_read_def split: prod.splits)

lemma evolves_read: "stream_read room s = (r, s') \<Longrightarrow> evolves s s'"
  by (rule evolves_same[where es = "[]"])
    (auto simp: stream_read_def Let_def triggerAck_def rb_read_cap split: if_splits option.splits prod.splits)

lemma evolves_drop_all: "evolves s (foldl (\<lambda>s i. drop_path wr i c b s) s is)"
  by (induction "is" arbitrary: s) (auto intro: evolves_trans[OF evolves_drop_path])

lemma evolves_windowCap: "evolves s (updateWindowCap s)"
proof -
  have "cf_minBuf (st_cfg s) \<le> target_cap s \<and> target_cap s \<le> cf_maxBuf (st_cfg s)" if "cap_ok s"
    using that by (simp add: target_cap_def Let_def cap_ok_def)
  then show ?thesis
    by (auto simp: evolves_def cap_ok_def updateWindowCap_def set_window_cap_def Let_def triggerAck_def rb_setCap_def)
qed

lemma drain_cap: "case_sum (\<lambda>_. True) (\<lambda>r'. rb_cap r' = rb_cap r) (rb_drain r)"
proof -
  have "case_sum (\<lambda>_. True) (\<lambda>r'. rb_cap r' = rb_cap r \<and> \<not> drain_ready r') (rb_drain r)"
  proof (rule rb_drain_rule[where P = "\<lambda>q. rb_cap q = rb_cap r"])
    show "case_sum (\<lambda>_. True) (\<lambda>q. rb_cap q = rb_cap r) (drain_step q)" if "rb_cap q = rb_cap r" for q
      using that by (auto simp: drain_step_def Let_def split: prod.split sum.split)
  qed simp
  then show ?thesis by (auto split: sum.splits)
qed

lemma rb_add_cap: "rb_add r off d = Inr r' \<Longrightarrow> rb_cap r' = rb_cap r"
proof -
  have "rb_cap q' = rb_cap q" if "rb_drain q = Inr q'" for q q' using drain_cap[of q] that by simp
  then show "rb_add r off d = Inr r' \<Longrightarrow> rb_cap r' = rb_cap r"
    by (fastforce simp: rb_add_def Let_def split: if_splits sum.splits)
qed

lemma soft_fail_ids:
  "soft_fail_segs rs now ts gs ps = (gs', ps', m) \<Longrightarrow> map p_id ps' = map p_id ps"
proof (induction gs arbitrary: ps gs' ps' m)
  case (Cons g gs)
  obtain g1 ps1 m1 where one: "soft_fail_seg rs now ts g ps = (g1, ps1, m1)" by (metis prod_cases3)
  obtain gs2 m2 where rest: "soft_fail_segs rs now ts gs ps1 = (gs2, ps', m2)"
    using Cons.prems by (simp add: one split: prod.splits)
  show ?case using Cons.IH[OF rest] soft_fail_seg_same(3)[OF one] by simp
qed simp

lemma evolves_softFail:
  assumes "checkSoftFail now s = (drops, moved, s')"
  shows "evolves s s'"
proof -
  obtain gs ps m where r: "soft_fail_segs (st_peerRanges s) now (sendTs s now) (st_unacked s) (st_paths s) = (gs, ps, m)"
    by (metis prod_cases3)
  then have "s' = s\<lparr>st_unacked := gs, st_paths := ps\<rparr>" using assms by (simp add: checkSoftFail_def)
  then show ?thesis using soft_fail_ids[OF r] by (simp add: evolves_def cap_ok_def)
qed

lemma evolves_tick: "evolves s (onTick wr now s)"
proof (cases "st_closed s")
  case True
  then show ?thesis by (simp add: onTick_def)
next
  case False
  define ticks where "ticks = map (tick_path (0 < st_pendingBytes s \<or> st_unacked s \<noteq> []) now) (st_paths s)"
  define s1 where "s1 = s\<lparr>st_paths := map fst ticks\<rparr>"
  define s2 where "s2 = updateWindowCap s1"
  obtain drops moved s3 where sf: "checkSoftFail now s2 = (drops, moved, s3)" by (metis prod_cases3)
  define es where "es = map Eff_Degraded (concat (map (\<lambda>(p, r, d, g). d) ticks))
      @ (if concat (map (\<lambda>(p, r, d, g). r) ticks) = [] then [] else [Eff_Go_Telemetry (concat (map (\<lambda>(p, r, d, g). r) ticks))])
      @ map (\<lambda>i. Eff_Go_Ping i False (sendTs s3 now)) (concat (map (\<lambda>(p, r, d, g). g) ticks))"
  define s4 where "s4 = foldl (\<lambda>s i. drop_path wr i (Some E_Path_RTO) True s) (emit es s3) drops"
  define s5 where "s5 = (if moved then wakeSend s4 else s4)"
  have eq: "onTick wr now s = (if cf_policy (st_cfg s5) then emit [Eff_Go_Policy] s5 else s5)"
    using False sf unfolding onTick_def s5_def s4_def es_def s2_def s1_def ticks_def
    by (simp add: Let_def)
  have "map p_id (map fst ticks) = map p_id (st_paths s)"
    by (simp add: ticks_def tick_path_view)
  then have "evolves s s1" by (simp add: s1_def evolves_def cap_ok_def)
  then have "evolves s s2" unfolding s2_def by (rule evolves_trans[OF _ evolves_windowCap])
  then have "evolves s s3" by (rule evolves_trans[OF _ evolves_softFail[OF sf]])
  then have "evolves s s4"
    unfolding s4_def by (rule evolves_trans[OF evolves_trans_emit evolves_drop_all])
  then have "evolves s s5" by (auto simp: s5_def intro: evolves_trans)
  then show ?thesis unfolding eq by (simp add: evolves_trans_emit)
qed

lemma free_acked_ids: "free_acked cum now gs ps = (gs', ps') \<Longrightarrow> map p_id ps' = map p_id ps"
proof (induction gs arbitrary: ps)
  case (Cons g gs)
  then show ?case by (auto simp: Let_def credit_ids split: if_splits)
qed simp

lemma evolves_freeAcked: "evolves s (freeAcked now s)"
proof -
  obtain gs ps where r: "free_acked (st_cumAcked s) now (st_unacked s) (st_paths s) = (gs, ps)" by fastforce
  then have "freeAcked now s = s\<lparr>st_unacked := gs, st_paths := ps\<rparr>" by (simp add: freeAcked_def)
  then show ?thesis using free_acked_ids[OF r] by (simp add: evolves_def cap_ok_def)
qed

lemma evolves_upd_path:
  "(\<And>p. p_id (f p) = p_id p) \<Longrightarrow> evolves s (s\<lparr>st_paths := upd_path i f (st_paths s)\<rparr>)"
  by (simp add: evolves_def cap_ok_def map_id_upd_path)

lemma evolves_apply_ack: "evolves s (apply_ack now f s)"
proof -
  define s0 where "s0 = s\<lparr>st_peerAckSeq := f_seq f, st_gotPeerAck := True\<rparr>"
  define s1 where "s1 = (if f_tsPath f \<noteq> 0 \<and> f_tsEcho f \<noteq> 0
    then s0\<lparr>st_paths := upd_path (f_tsPath f - 1) (noteRTT (echo_rtt (sendTs s0 now) (f_tsEcho f)) now (f_tsEcho f)) (st_paths s0)\<rparr>
    else s0)"
  define s2 where "s2 = (if st_cumAcked s1 < f_cum f then freeAcked now (s1\<lparr>st_cumAcked := f_cum f\<rparr>) else s1)"
  have "evolves s s0" by (simp add: s0_def evolves_def cap_ok_def)
  moreover have "evolves s0 s1" by (simp add: s1_def evolves_upd_path noteRTT_view)
  moreover have "evolves s1 (s1\<lparr>st_cumAcked := f_cum f\<rparr>)" if "st_cumAcked s1 < f_cum f"
    using that by (simp add: evolves_def cap_ok_def)
  then have "evolves s1 s2" using evolves_trans[OF _ evolves_freeAcked] by (simp add: s2_def)
  moreover have "evolves s2 (wakeSend (s2\<lparr>st_advWindow := f_window f, st_gotWindow := True, st_peerRanges := normalize_ranges (f_ranges f)\<rparr>))"
    by (simp add: evolves_def cap_ok_def wakeSend_def)
  moreover have "apply_ack now f s = wakeSend (s2\<lparr>st_advWindow := f_window f, st_gotWindow := True, st_peerRanges := normalize_ranges (f_ranges f)\<rparr>)"
    by (simp add: apply_ack_def s2_def s1_def s0_def Let_def)
  ultimately show ?thesis using evolves_trans by metis
qed

lemma telemetry_ids:
  "map p_id (foldl (\<lambda>ps (i, r). upd_path i (\<lambda>p. p\<lparr>p_peerRate := float_of_u64 r, p_peerRateAt := now\<rparr>) ps) ps rates) = map p_id ps"
  using path_view_eqD(1)[OF telemetry_view] .

lemma evolves_recv:
  assumes run: "recv wr now i x s = Inr s'"
  shows "evolves s s'"
proof (cases x)
  case (In_Data off ts d)
  then obtain r where r: "rb_add (st_rbuf s) off d = Inr r"
    using run by (auto simp: recv_def recv_data_def split: sum.splits)
  define s1 where "s1 = s\<lparr>st_rbuf := r, st_lastDataTs := ts, st_lastDataPath := Some i,
      st_paths := upd_path i (\<lambda>p. p\<lparr>p_rxBytes := p_rxBytes p + u64_of_len (length d)\<rparr>) (st_paths s)\<rparr>"
  have "evolves s s1" using rb_add_cap[OF r] by (simp add: s1_def evolves_def cap_ok_def map_id_upd_path)
  moreover have "s' = shutdown E_Overflow s1 \<or> s' = triggerAck s1"
    using run In_Data r by (auto simp: recv_def recv_data_def s1_def Let_def split: if_splits)
  ultimately show ?thesis using evolves_trans[OF _ evolves_shutdown] evolves_trans[OF _ evolves_small(2)] by blast
next
  case (In_Ping b)
  have "evolves s (s\<lparr>st_paths := upd_path i (noteRTT r now t) (st_paths s)\<rparr>)" for r t
    by (simp add: evolves_upd_path noteRTT_view)
  then show ?thesis using run In_Ping by (auto simp: recv_def split: option.splits if_splits prod.splits)
next
  case (In_Telemetry b)
  then show ?thesis using run
    by (cases b) (auto simp: recv_def recv_telemetry_def evolves_def cap_ok_def wakeSend_def telemetry_ids)
next
  case In_Fin
  have "evolves s (s\<lparr>st_finRecv := True\<rparr>)" by (simp add: evolves_def cap_ok_def)
  then show ?thesis using run In_Fin by (auto simp: recv_def evolves_trans_drop)
next
  case (In_Ack f)
  then show ?thesis using run evolves_apply_ack evolves_drop_path by (auto simp: recv_def recv_ack_def split: option.splits)
qed (use run in \<open>auto simp: recv_def handlePathDrop_def evolves_drop_path evolves_shutdown split: option.splits if_splits\<close>)


lemma evolves_attach:
  "attachPath now p s = (None, s') \<Longrightarrow>
   map p_id (st_paths s') = map p_id (st_paths s) @ [p_id p] \<and> st_nextPathID s' = st_nextPathID s \<and>
   st_remoteParity s' = st_remoteParity s \<and> st_seenRemote s' = st_seenRemote s"
  by (auto simp: attachPath_def Let_def wakeSend_def emit_def split: if_splits)

section \<open>Worlds and runs\<close>

record world =
  w_s :: stream
  w_written :: bytes
  w_read :: bytes
  w_granted :: "u64 list"

definition new_world :: "stream_config \<Rightarrow> gotime \<Rightarrow> bool \<Rightarrow> world" where
  "new_world c now ini = \<lparr>w_s = newStreamFull c now ini, w_written = [], w_read = [], w_granted = []\<rparr>"

text \<open>
  The passes of \<open>sendLoop\<close>: an ACK, or frames until \<open>trySend\<close> finds nothing to send; \<open>ts\<close> are the clock
  readings of its attempts.
\<close>

definition ack_pass :: "(u64 \<Rightarrow> bool) \<Rightarrow> stream \<Rightarrow> stream" where
  "ack_pass wr s = send_ack wr (s\<lparr>st_ackCh := False\<rparr>)"

fun send_burst :: "(u64 \<Rightarrow> bool) \<Rightarrow> gotime list \<Rightarrow> stream \<Rightarrow> bool \<times> stream" where
  "send_burst wr [] s = (True, s)"
| "send_burst wr (now # ts) s =
     (case trySend wr now s of
        (False, s') \<Rightarrow> (False, s')
      | (True, s') \<Rightarrow> send_burst wr ts s')"

definition send_pass :: "(u64 \<Rightarrow> bool) \<Rightarrow> gotime list \<Rightarrow> stream \<Rightarrow> bool \<times> stream" where
  "send_pass wr ts s = send_burst wr ts (s\<lparr>st_sendWake := False\<rparr>)"

datatype sop =
    Do_Write bytes
  | Do_Read nat
  | Do_Send "u64 \<Rightarrow> bool" "gotime list"
  | Do_Ack "u64 \<Rightarrow> bool"
  | Do_Tick "u64 \<Rightarrow> bool" gotime
  | Do_Recv "u64 \<Rightarrow> bool" gotime u64 input
  | Do_Reserve_Local
  | Do_Reserve_Remote u64
  | Do_Attach gotime path
  | Do_Remove "u64 \<Rightarrow> bool" u64
  | Do_Ping "u64 \<Rightarrow> bool" u64 bool u64
  | Do_Telemetry "u64 \<Rightarrow> bool" "(u64 \<times> u64) list"
  | Do_Ctrl "u64 \<Rightarrow> bool" frame_type bytes
  | Do_Close

fun taken :: "write_result \<Rightarrow> nat" where
  "taken (Write_Done t) = nat t"
| "taken (Write_Blocked t b) = nat t"
| "taken (Write_Err t e) = nat t"

fun sop_step :: "sop \<Rightarrow> world \<Rightarrow> world run" where
  "sop_step (Do_Write b) w =
     (let (res, s) = stream_write b (w_s w) in Inr (w\<lparr>w_s := s, w_written := w_written w @ take (taken res) b\<rparr>))"
| "sop_step (Do_Read room) w =
     (let (res, s) = stream_read room (w_s w) in
      Inr (w\<lparr>w_s := s, w_read := w_read w @ (case res of Read_Bytes b \<Rightarrow> b | _ \<Rightarrow> [])\<rparr>))"
| "sop_step (Do_Send wr ts) w = Inr (w\<lparr>w_s := snd (send_pass wr ts (w_s w))\<rparr>)"
| "sop_step (Do_Ack wr) w = Inr (w\<lparr>w_s := ack_pass wr (w_s w)\<rparr>)"
| "sop_step (Do_Tick wr now) w = Inr (w\<lparr>w_s := onTick wr now (w_s w)\<rparr>)"
| "sop_step (Do_Recv wr now i x) w =
     (case recv wr now i x (w_s w) of Inl e \<Rightarrow> Inl e | Inr s \<Rightarrow> Inr (w\<lparr>w_s := s\<rparr>))"
| "sop_step Do_Reserve_Local w =
     (case reserveLocalPathID (w_s w) of
        Inl e \<Rightarrow> Inr w
      | Inr (i, s) \<Rightarrow> Inr (w\<lparr>w_s := s, w_granted := i # w_granted w\<rparr>))"
| "sop_step (Do_Reserve_Remote i) w =
     (case reserveRemotePathID i (w_s w) of
        (False, s) \<Rightarrow> Inr (w\<lparr>w_s := s\<rparr>)
      | (True, s) \<Rightarrow> Inr (w\<lparr>w_s := s, w_granted := i # w_granted w\<rparr>))"
| "sop_step (Do_Attach now p) w =
     (case attachPath now p (w_s w) of
        (Some e, s) \<Rightarrow> Inr (w\<lparr>w_s := s\<rparr>)
      | (None, s) \<Rightarrow> Inr (w\<lparr>w_s := s, w_granted := removeAll (p_id p) (w_granted w)\<rparr>))"
| "sop_step (Do_Remove wr i) w = Inr (w\<lparr>w_s := snd (removePath wr i (w_s w))\<rparr>)"
| "sop_step (Do_Ping wr i b t) w = Inr (w\<lparr>w_s := send_ping wr i b t (w_s w)\<rparr>)"
| "sop_step (Do_Telemetry wr rates) w = Inr (w\<lparr>w_s := send_telemetry wr rates (w_s w)\<rparr>)"
| "sop_step (Do_Ctrl wr ft body) w = Inr (w\<lparr>w_s := snd (writeCtrl wr ft body (w_s w))\<rparr>)"
| "sop_step Do_Close w = Inr (w\<lparr>w_s := stream_close (w_s w)\<rparr>)"

text \<open>
  What the environment owes: DATA frames carry the bytes of one stream \<open>c\<close>, the decoder has checked the
  ranges of an ACK, a stream carries less than \<open>2^63\<close> bytes and allocates less than \<open>2^63\<close> path ids, and a
  new path is attached under an id that was reserved for it, once.
\<close>

fun sop_ok :: "(nat \<Rightarrow> byte) \<Rightarrow> world \<Rightarrow> sop \<Rightarrow> bool" where
  "sop_ok c w (Do_Write b) \<longleftrightarrow> length (w_written w) + length b < 2 ^ 63"
| "sop_ok c w (Do_Recv wr now i x) \<longleftrightarrow>
     (case x of In_Data off ts d \<Rightarrow> frame_agrees c off d | In_Ack f \<Rightarrow> list_all valid_range (f_ranges f) | _ \<Rightarrow> True)"
| "sop_ok c w Do_Reserve_Local \<longleftrightarrow> unat (st_nextPathID (w_s w)) + 2 < 2 ^ 64"
| "sop_ok c w (Do_Attach now p) \<longleftrightarrow> p_id p \<in> set (w_granted w) \<and> p_inflight p = 0 \<and> \<not> p_dead p"
| "sop_ok c w _ \<longleftrightarrow> True"

inductive reach :: "(nat \<Rightarrow> byte) \<Rightarrow> world \<Rightarrow> world \<Rightarrow> bool" for c w0 where
  reach_start: "reach c w0 w0"
| reach_step: "reach c w0 w \<Longrightarrow> sop_ok c w x \<Longrightarrow> sop_step x w = Inr w' \<Longrightarrow> reach c w0 w'"

end
