(* ===== verification/Stream_Props.thy ===== *)
theory Stream_Props
  imports Stream_Run
begin

text \<open>
  What a stream guarantees over any run: the bytes it sends are the bytes written, the bytes read are
  the bytes of the peer's stream, its accounts balance, and path ids are used once. Then the
  guarantees of single operations: window, retransmission, ACK handling, path death, read and write.
\<close>

lemma evolves_flags [simp]: "evolves s (s\<lparr>st_ackCh := b\<rparr>)" "evolves s (s\<lparr>st_sendWake := b\<rparr>)"
  by (simp_all add: evolves_def cap_ok_def)

section \<open>Path ids\<close>

text \<open>An id is known when it was granted: remote ids are recorded, local ones lie below the counter.\<close>

definition id_known :: "stream \<Rightarrow> u64 \<Rightarrow> bool" where
  "id_known s i \<longleftrightarrow> (if i AND 1 = st_remoteParity s then i \<in> set (st_seenRemote s) else i < st_nextPathID s)"

definition ids_inv :: "stream \<Rightarrow> u64 list \<Rightarrow> bool" where
  "ids_inv s granted \<longleftrightarrow> distinct (map p_id (st_paths s) @ granted) \<and>
     list_all (id_known s) (map p_id (st_paths s) @ granted) \<and>
     st_remoteParity s \<in> {0, 1} \<and> st_nextPathID s AND 1 \<noteq> st_remoteParity s"

lemma subseq_set_distinct:
  "subseq xs ys \<Longrightarrow> set xs \<subseteq> set ys" "subseq xs ys \<Longrightarrow> distinct ys \<Longrightarrow> distinct xs"
  by (auto simp: subseq_conv_nths set_nths_subset distinct_nthsI)
    (auto simp: set_nths)

lemma parity_add_two: "((n::u64) + 2) AND 1 = n AND 1"
  by (simp add: and_one_eq mod_2_eq_odd)

lemma ids_inv_new: "ids_inv (newStreamFull c now ini) []"
  by (simp add: ids_inv_def newStreamFull_def Let_def id_known_def new_path_def)

lemma ids_inv_evolves:
  assumes inv: "ids_inv s granted" and ev: "evolves s s'"
  shows "ids_inv s' granted"
proof -
  have sub: "subseq (map p_id (st_paths s') @ granted) (map p_id (st_paths s) @ granted)"
    and eq: "st_remoteParity s' = st_remoteParity s" "st_nextPathID s' = st_nextPathID s" "id_known s' = id_known s"
    using ev by (auto simp: evolves_def id_known_def fun_eq_iff)
  show ?thesis
    using inv subseq_set_distinct[OF sub] unfolding ids_inv_def eq list_all_iff by blast
qed

lemma ids_inv_local:
  assumes inv: "ids_inv s granted" and run: "reserveLocalPathID s = Inr (i, s')" and room: "unat (st_nextPathID s) + 2 < 2 ^ 64"
  shows "ids_inv s' (i # granted)"
proof -
  have i: "i = st_nextPathID s" and s': "s' = s\<lparr>st_nextPathID := st_nextPathID s + 2\<rparr>"
    using run by (auto simp: reserveLocalPathID_def split: if_splits)
  have "unat (st_nextPathID s + 2) = unat (st_nextPathID s) + 2"
    using room unat_add_no_wrap[of "st_nextPathID s" 2] by simp
  then have lt: "st_nextPathID s < st_nextPathID s + 2" by (simp add: word_less_nat_alt)
  have k: "id_known s' j" if "id_known s j" for j
    using that lt by (auto simp: id_known_def s' split: if_splits)
  have "\<not> id_known s i" using inv by (simp add: i id_known_def ids_inv_def)
  then have "i \<notin> set (map p_id (st_paths s) @ granted)" using inv unfolding ids_inv_def list_all_iff by blast
  moreover have "id_known s' i" using inv lt by (simp add: i s' id_known_def ids_inv_def)
  ultimately show ?thesis using inv k
    by (auto simp: ids_inv_def s' parity_add_two list_all_iff)
qed

lemma ids_inv_remote:
  assumes inv: "ids_inv s granted" and run: "reserveRemotePathID i s = (True, s')"
  shows "ids_inv s' (i # granted)"
proof -
  have i: "i AND 1 = st_remoteParity s" "i \<notin> set (st_seenRemote s)" and s': "s' = s\<lparr>st_seenRemote := i # st_seenRemote s\<rparr>"
    using run by (auto simp: reserveRemotePathID_def split: if_splits)
  have k: "id_known s' j" if "id_known s j \<or> j = i" for j
    using that i by (auto simp: id_known_def s')
  have "\<not> id_known s i" using i by (simp add: id_known_def)
  then have "i \<notin> set (map p_id (st_paths s) @ granted)" using inv unfolding ids_inv_def list_all_iff by blast
  then show ?thesis using inv k by (auto simp: ids_inv_def s' list_all_iff)
qed

lemma ids_inv_attach:
  assumes inv: "ids_inv s granted" and run: "attachPath now p s = (None, s')" and id: "p_id p \<in> set granted"
  shows "ids_inv s' (removeAll (p_id p) granted)"
proof -
  have e: "map p_id (st_paths s') = map p_id (st_paths s) @ [p_id p]" "id_known s' = id_known s"
    "st_remoteParity s' = st_remoteParity s" "st_nextPathID s' = st_nextPathID s"
    using evolves_attach[OF run] by (auto simp: id_known_def fun_eq_iff)
  have d: "distinct (map p_id (st_paths s') @ removeAll (p_id p) granted)"
    using inv id by (auto simp: e ids_inv_def distinct_removeAll)
  have "set (map p_id (st_paths s') @ removeAll (p_id p) granted) \<subseteq> set (map p_id (st_paths s) @ granted)"
    using id by (auto simp: e)
  then have "list_all (id_known s) (map p_id (st_paths s') @ removeAll (p_id p) granted)"
    using inv unfolding ids_inv_def list_all_iff by blast
  then show ?thesis using inv d by (simp add: ids_inv_def e)
qed

section \<open>The invariant of a world\<close>

definition frames_ok :: "bytes \<Rightarrow> effect list \<Rightarrow> bool" where
  "frames_ok W es \<longleftrightarrow> list_all (\<lambda>(off, payload). frame_of W off payload) (data_writes es)"

lemma frames_ok_simps [simp]:
  "frames_ok W []" "frames_ok W (es @ es') \<longleftrightarrow> frames_ok W es \<and> frames_ok W es'"
  "frames_ok W [Eff_Write i (M_Data off ts payload)] \<longleftrightarrow> frame_of W off payload"
  by (simp_all add: frames_ok_def)

lemma frames_ok_quiet: "data_writes es = [] \<Longrightarrow> frames_ok W es"
  by (simp add: frames_ok_def)

lemma frames_ok_extend: "frames_ok W es \<Longrightarrow> frames_ok (W @ V) es"
  by (auto simp: frames_ok_def list_all_iff frame_of_extend)

definition world_inv :: "(nat \<Rightarrow> byte) \<Rightarrow> world \<Rightarrow> bool" where
  "world_inv c w \<longleftrightarrow> send_inv (w_written w) (w_s w) \<and> frames_ok (w_written w) (st_out (w_s w)) \<and>
     rb_inv (st_rbuf (w_s w)) \<and> delivered c (w_read w) (st_rbuf (w_s w)) \<and> ids_inv (w_s w) (w_granted w)"

lemma world_inv_new: "world_inv c (new_world cf now ini)"
  using send_inv_new[of cf now ini] ids_inv_new[of cf now ini]
  by (simp add: world_inv_def new_world_def newStreamFull_def Let_def rb_inv_new delivered_def)
    (simp add: new_rbuf_def)

lemma trySend_locked_rbuf: "trySend_locked now s = (r, s') \<Longrightarrow> st_rbuf s' = st_rbuf s"
  by (auto simp: trySend_locked_def Let_def commit_resend_def commit_fresh_def
       split: if_splits option.splits prod.splits)

lemma trySend_inv:
  assumes inv: "send_inv W s" and run: "trySend wr now s = (b, s')"
  shows "send_inv W s' \<and> st_rbuf s' = st_rbuf s \<and> (\<exists>es. st_out s' = st_out s @ es \<and> frames_ok W es)"
proof -
  obtain r q where q: "trySend_locked now s = (r, q)" by fastforce
  have rb: "st_rbuf q = st_rbuf s" by (rule trySend_locked_rbuf[OF q])
  have frame: ?thesis if f: "r = Some (i, off, payload)" "send_inv W q" "frame_of W off payload" "st_out q = st_out s"
    for i off payload
  proof -
    let ?e = "[Eff_Write i (M_Data off (sendTs s now) payload)]"
    let ?q = "emit ?e q"
    have "s' = ?q \<or> s' = drop_path wr i (Some E_Write) True ?q"
      using run q f(1) by (auto simp: trySend_def Let_def split: if_splits)
    then have "send_inv W s' \<and> quiet ?q s'"
      using f(2) drop_path_inv quiet_drop_path by auto
    then obtain es where "send_inv W s'" "st_rbuf s' = st_rbuf q" "st_out s' = st_out s @ (?e @ es)" "data_writes es = []"
      using f(4) by (auto simp: quiet_def emit_def)
    moreover from this have "frames_ok W (?e @ es)" using f(3) frames_ok_quiet by (simp only: frames_ok_simps)
    ultimately show ?thesis using rb by metis
  qed
  show ?thesis
  proof (cases rule: trySend_locked_cases[OF inv q])
    case 1
    then have "s' = q" using run q by (simp add: trySend_def)
    then show ?thesis using 1 rb by auto
  qed (use frame in blast)+
qed

lemma send_burst_inv:
  "send_inv W s \<Longrightarrow> send_burst wr ts s = (b, s') \<Longrightarrow>
   send_inv W s' \<and> st_rbuf s' = st_rbuf s \<and> (\<exists>es. st_out s' = st_out s @ es \<and> frames_ok W es) \<and> evolves s s'"
proof (induction wr ts s rule: send_burst.induct)
  case (2 wr now ts s)
  obtain more q where q: "trySend wr now s = (more, q)" by fastforce
  note i = trySend_inv[OF "2.prems"(1) q] and e = evolves_trySend[OF q]
  show ?case
  proof (cases more)
    case True
    then have "send_burst wr ts q = (b, s')" using "2.prems"(2) q by simp
    then have r: "send_inv W s' \<and> st_rbuf s' = st_rbuf q \<and> (\<exists>es. st_out s' = st_out q @ es \<and> frames_ok W es) \<and> evolves q s'"
      using "2.IH"[of more q] q i True by simp
    then have "\<exists>es. st_out s' = st_out s @ es \<and> frames_ok W es" using i by (metis append_assoc frames_ok_simps(2))
    then show ?thesis using r i evolves_trans[OF e] by simp
  next
    case False
    then show ?thesis using "2.prems"(2) q i e by simp
  qed
qed auto


text \<open>Every operation keeps the invariant; most of them are quiet.\<close>

lemma world_inv_quiet:
  assumes inv: "world_inv c w" and s': "send_inv (w_written w) s'" "quiet_cap (w_s w) s'" "evolves (w_s w) s'"
  shows "world_inv c (w\<lparr>w_s := s'\<rparr>)"
proof -
  obtain k es where "st_rbuf s' = rb_setCap (st_rbuf (w_s w)) k" "st_out s' = st_out (w_s w) @ es" "data_writes es = []"
    using s'(2) by (auto simp: quiet_cap_def)
  then show ?thesis
    using inv s'(1) ids_inv_evolves[OF _ s'(3)] frames_ok_quiet[of es]
    by (simp add: world_inv_def rb_inv_setCap) (simp add: rb_setCap_def delivered_def)
qed

lemma send_ack_pass_inv: "send_inv W s \<Longrightarrow> send_inv W (ack_pass wr s) \<and> quiet s (ack_pass wr s) \<and> evolves s (ack_pass wr s)"
proof -
  let ?s = "s\<lparr>st_ackCh := False\<rparr>"
  assume inv: "send_inv W s"
  have "send_view ?s = send_view s" by (simp add: send_view_def)
  then have "send_inv W ?s" using inv send_inv_view[of ?s s W] by blast
  moreover have "quiet s ?s" by (simp add: quiet_same)
  moreover have "evolves s ?s" by simp
  ultimately show ?thesis
    using send_ack_inv[of W ?s wr] quiet_trans[of s ?s] evolves_trans[OF _ evolves_send_ack] by (auto simp: ack_pass_def)
qed

lemma send_pass_inv:
  assumes inv: "send_inv W s" and run: "send_pass wr ts s = (b, s')"
  shows "send_inv W s' \<and> st_rbuf s' = st_rbuf s \<and> (\<exists>es. st_out s' = st_out s @ es \<and> frames_ok W es) \<and> evolves s s'"
proof -
  let ?s = "s\<lparr>st_sendWake := False\<rparr>"
  have "send_view ?s = send_view s" by (simp add: send_view_def)
  then have "send_inv W ?s" using inv send_inv_view[of ?s s W] by blast
  from send_burst_inv[OF this run[unfolded send_pass_def]] show ?thesis
    using evolves_trans[OF evolves_flags(2)[of s False], of s'] by simp
qed

lemma ping_inv: "send_inv W s \<Longrightarrow> send_inv W (send_ping wr i b t s) \<and> quiet s (send_ping wr i b t s)"
  using quiet_trans[OF quiet_emit quiet_drop_path, of "[Eff_Write i (M_Ping t b)]" s]
  by (simp add: send_ping_def Let_def drop_path_inv quiet_emit)

lemma telemetry_inv: "send_inv W s \<Longrightarrow> send_inv W (send_telemetry wr rates s) \<and> quiet s (send_telemetry wr rates s)"
  using quiet_trans[OF quiet_emit quiet_drop_path, of "[Eff_Write i (M_Telemetry rates)]" s for i]
  by (auto simp: send_telemetry_def Let_def drop_path_inv quiet_emit split: option.split)

lemma removePath_inv: "send_inv W s \<Longrightarrow> removePath wr i s = (r, s') \<Longrightarrow> send_inv W s' \<and> quiet s s'"
  by (auto simp: removePath_def drop_path_inv quiet_drop_path split: if_splits)

lemma quiet_close: "quiet s (stream_close s)"
proof -
  have "data_writes (concat (map (\<lambda>p. [Eff_Write (p_id p) M_Fin, Eff_Close (p_id p)]) ps)) = []" for ps
    by (induction ps) simp_all
  then show ?thesis by (simp add: stream_close_def quiet_def emit_def)
qed

lemma stream_read_inv:
  assumes run: "stream_read room s = (res, s')"
  shows "send_view s' = send_view s" and "st_out s' = st_out s"
    and "(st_rbuf s' = st_rbuf s \<and> (case res of Read_Bytes b \<Rightarrow> b = [] | _ \<Rightarrow> True)) \<or>
         (\<exists>b. res = Read_Bytes b \<and> rb_read (st_rbuf s) room = (b, st_rbuf s'))"
proof -
  have "send_view s' = send_view s \<and> st_out s' = st_out s \<and>
    ((st_rbuf s' = st_rbuf s \<and> (case res of Read_Bytes b \<Rightarrow> b = [] | _ \<Rightarrow> True)) \<or>
         (\<exists>b. res = Read_Bytes b \<and> rb_read (st_rbuf s) room = (b, st_rbuf s')))"
    using run by (auto simp: stream_read_def Let_def triggerAck_def send_view_def split: if_splits option.splits prod.splits)
  then show "send_view s' = send_view s" "st_out s' = st_out s"
    "(st_rbuf s' = st_rbuf s \<and> (case res of Read_Bytes b \<Rightarrow> b = [] | _ \<Rightarrow> True)) \<or>
         (\<exists>b. res = Read_Bytes b \<and> rb_read (st_rbuf s) room = (b, st_rbuf s'))" by blast+
qed

lemma attachPath_inv:
  assumes inv: "send_inv W s" and run: "attachPath now p s = (None, s')"
    and p: "p_id p \<notin> p_id ` set (st_paths s)" "p_inflight p = 0" "\<not> p_dead p"
  shows "send_inv W s'" and "quiet s s'"
proof -
  define q where "q = (if is_zero_time (p_attachedAt p) then p\<lparr>p_attachedAt := now\<rparr> else p)"
  have q: "p_id q = p_id p" "p_inflight q = 0" "\<not> p_dead q" using p(2,3) by (simp_all add: q_def)
  have s': "s' = wakeSend (emit [Eff_Added (p_id q), Eff_Go_Recv (p_id q), Eff_Go_Ping (p_id q) False (sendTs s now)]
                 (s\<lparr>st_paths := st_paths s @ [q]\<rparr>))"
    using run by (auto simp: attachPath_def Let_def q_def split: if_splits)
  note v = send_invD[OF inv]
  have "Some (p_id p) \<notin> ss_path ` set (st_unacked s)"
    using v(7) p(1) unfolding paths_ok_def owned_def by fastforce
  then have "charge (p_id p) g = 0" if "g \<in> set (st_unacked s)" for g
    using that by (auto simp: charge_def image_iff)
  then have z: "charged (p_id p) (st_unacked s) = 0" by (simp add: charged_def cong: map_cong)
  have "owned (st_unacked s) (st_paths s @ [q])"
    using v(7) unfolding paths_ok_def owned_def by auto
  moreover have "balanced (st_unacked s) (st_paths s @ [q])"
    using v(7) q z by (auto simp: paths_ok_def balanced_def)
  ultimately have "send_inv W (s\<lparr>st_paths := st_paths s @ [q]\<rparr>)"
    using inv p q by (simp add: send_inv_def queued_def queue_ok_def paths_ok_def)
  then show "send_inv W s'" by (simp add: s')
  show "quiet s s'" by (simp add: s' quiet_def wakeSend_def emit_def)
qed


lemma taken_write: "stream_write b s = (res, s') \<Longrightarrow> send_inv W s \<Longrightarrow> length W + length b < 2 ^ 63 \<Longrightarrow>
   send_inv (W @ take (taken res) b) s' \<and> st_out s' = st_out s"
  using write_loop_inv[of 0 b s res s' W] by (cases res) (auto simp: stream_write_def)

lemma write_loop_rbuf:
  assumes "write_loop tot b s = (res, s')"
  shows "st_rbuf s' = st_rbuf s"
proof -
  have "\<exists>tot' b'. st_rbuf s' = st_rbuf s \<and> write_stop res tot' b' s'"
    by (rule write_loop_rule[OF assms, where P = "\<lambda>_ _ q. st_rbuf q = st_rbuf s"]) simp_all
  then show ?thesis by blast
qed

lemma reserve_inv:
  "reserveLocalPathID s = Inr (i, s') \<Longrightarrow> send_view s' = send_view s \<and> quiet s s'"
  "reserveRemotePathID j s = (b, s') \<Longrightarrow> send_view s' = send_view s \<and> quiet s s' \<and> (b \<or> s' = s)"
  by (auto simp: reserveLocalPathID_def reserveRemotePathID_def send_view_def quiet_def split: if_splits)

lemma world_inv_grant:
  assumes inv: "world_inv c w" and v: "send_view s' = send_view (w_s w)" "quiet (w_s w) s'" and ids: "ids_inv s' g"
  shows "world_inv c (w\<lparr>w_s := s', w_granted := g\<rparr>)"
proof -
  obtain es where "st_out s' = st_out (w_s w) @ es" "data_writes es = []" "st_rbuf s' = st_rbuf (w_s w)"
    using v(2) by (auto simp: quiet_def)
  then show ?thesis using inv ids send_inv_view[OF v(1)] frames_ok_quiet[of es] by (simp add: world_inv_def)
qed

lemma world_inv_recv:
  assumes inv: "world_inv c w" and ok: "sop_ok c w (Do_Recv wr now i x)" and run: "recv wr now i x (w_s w) = Inr s'"
  shows "world_inv c (w\<lparr>w_s := s'\<rparr>)"
proof -
  have "input_ok x" using ok by (cases x) simp_all
  note r = recv_inv[OF _ this run, of "w_written w"]
  obtain es where es: "st_out s' = st_out (w_s w) @ es" "data_writes es = []" using r(2) inv by (auto simp: world_inv_def)
  have "rb_inv (st_rbuf s') \<and> delivered c (w_read w) (st_rbuf s')"
    using r(3) inv ok rb_inv_add rb_add_delivered by (cases x) (auto simp: world_inv_def)
  then show ?thesis
    using r(1) es inv ids_inv_evolves[OF _ evolves_recv[OF run]] frames_ok_quiet[of es] by (simp add: world_inv_def)
qed

lemma world_inv_step:
  assumes inv: "world_inv c w" and ok: "sop_ok c w x" and run: "sop_step x w = Inr w'"
  shows "world_inv c w'"
proof -
  have si: "send_inv (w_written w) (w_s w)" using inv by (simp add: world_inv_def)
  note quiet_step = world_inv_quiet[OF inv _ quiet_cap_quiet]
  show ?thesis
  proof (cases x)
    case (Do_Write b)
    then obtain res s' where r: "stream_write b (w_s w) = (res, s')" "w' = w\<lparr>w_s := s', w_written := w_written w @ take (taken res) b\<rparr>"
      using run by (auto split: prod.splits)
    show ?thesis
      using inv ok Do_Write taken_write[OF r(1) si] write_loop_rbuf[of 0 b] evolves_write[of 0 b] r ids_inv_evolves frames_ok_extend
      by (auto simp: world_inv_def stream_write_def)
  next
    case (Do_Read room)
    then obtain res s' where r: "stream_read room (w_s w) = (res, s')"
      "w' = w\<lparr>w_s := s', w_read := w_read w @ (case res of Read_Bytes b \<Rightarrow> b | _ \<Rightarrow> [])\<rparr>"
      using run by (auto split: prod.splits)
    note f = stream_read_inv[OF r(1)]
    have "rb_inv (st_rbuf s') \<and> delivered c (w_read w') (st_rbuf s')"
      using f(3) inv rb_read_spec(1) rb_read_delivered by (auto simp: r(2) world_inv_def split: read_result.splits)
    then show ?thesis using inv send_inv_view[OF f(1)] f(2) ids_inv_evolves[OF _ evolves_read[OF r(1)]]
      by (simp add: r(2) world_inv_def)
  next
    case (Do_Send wr ts)
    then obtain b s' where r: "send_pass wr ts (w_s w) = (b, s')" "w' = w\<lparr>w_s := s'\<rparr>"
      using run by (cases "send_pass wr ts (w_s w)") auto
    show ?thesis using send_pass_inv[OF si r(1)] inv ids_inv_evolves by (auto simp: r(2) world_inv_def)
  next
    case (Do_Ack wr)
    then show ?thesis using run send_ack_pass_inv[OF si] quiet_step by auto
  next
    case (Do_Tick wr now)
    then show ?thesis using run onTick_inv[OF si] world_inv_quiet[OF inv] evolves_tick by auto
  next
    case (Do_Recv wr now i y)
    then show ?thesis using run world_inv_recv[OF inv ok[unfolded Do_Recv]] by (auto split: sum.splits)
  next
    case Do_Reserve_Local
    show ?thesis
    proof (cases "reserveLocalPathID (w_s w)")
      case (Inl e)
      then show ?thesis using run inv Do_Reserve_Local by simp
    next
      case (Inr r)
      obtain i s' where r: "reserveLocalPathID (w_s w) = Inr (i, s')" using Inr by (cases r) simp
      then have "w' = w\<lparr>w_s := s', w_granted := i # w_granted w\<rparr>" using run Do_Reserve_Local by simp
      moreover have "ids_inv s' (i # w_granted w)"
        using ids_inv_local[OF _ r] inv ok Do_Reserve_Local by (simp add: world_inv_def)
      ultimately show ?thesis using world_inv_grant[OF inv] reserve_inv(1)[OF r] by blast
    qed
  next
    case (Do_Reserve_Remote i)
    obtain b s' where r: "reserveRemotePathID i (w_s w) = (b, s')" by fastforce
    show ?thesis
    proof (cases b)
      case True
      then have "w' = w\<lparr>w_s := s', w_granted := i # w_granted w\<rparr>" using run Do_Reserve_Remote r by simp
      moreover have "ids_inv s' (i # w_granted w)"
        using ids_inv_remote[of "w_s w" "w_granted w" i s'] r True inv by (simp add: world_inv_def)
      ultimately show ?thesis using world_inv_grant[OF inv] reserve_inv(2)[OF r] by blast
    next
      case False
      then show ?thesis using run Do_Reserve_Remote r reserve_inv(2)[OF r] inv by simp
    qed
  next
    case (Do_Attach now p)
    obtain e s' where r: "attachPath now p (w_s w) = (e, s')" by fastforce
    show ?thesis
    proof (cases e)
      case None
      then have w': "w' = w\<lparr>w_s := s', w_granted := removeAll (p_id p) (w_granted w)\<rparr>" using run Do_Attach r by simp
      have g: "p_id p \<in> set (w_granted w)" "p_inflight p = 0" "\<not> p_dead p" using ok Do_Attach by simp_all
      have "p_id p \<notin> p_id ` set (st_paths (w_s w))"
        using inv g(1) by (auto simp: world_inv_def ids_inv_def)
      note a = attachPath_inv[OF si r[unfolded None] this g(2,3)]
      obtain es where "st_out s' = st_out (w_s w) @ es" "data_writes es = []" "st_rbuf s' = st_rbuf (w_s w)"
        using a(2) by (auto simp: quiet_def)
      then show ?thesis
        using a(1) inv ids_inv_attach[OF _ r[unfolded None] g(1)] frames_ok_quiet[of es] by (simp add: w' world_inv_def)
    next
      case (Some err)
      then have "s' = w_s w" using r by (simp add: attachPath_def split: if_splits)
      then show ?thesis using run Do_Attach r Some inv by simp
    qed
  next
    case (Do_Remove wr i)
    obtain e s' where r: "removePath wr i (w_s w) = (e, s')" by fastforce
    then show ?thesis using run Do_Remove removePath_inv[OF si r] evolves_removePath[OF r] quiet_step by auto
  next
    case (Do_Ping wr i b t)
    then show ?thesis using run ping_inv[OF si] evolves_ping quiet_step by auto
  next
    case (Do_Telemetry wr rates)
    then show ?thesis using run telemetry_inv[OF si] evolves_telemetry quiet_step by auto
  next
    case (Do_Ctrl wr ft body)
    then show ?thesis using run writeCtrl_inv[OF si] evolves_writeCtrl quiet_step by auto
  next
    case Do_Close
    then show ?thesis using run close_inv[OF si] quiet_close evolves_close quiet_step by auto
  qed
qed

lemma reach_inv: "reach c w0 w \<Longrightarrow> world_inv c w0 \<Longrightarrow> world_inv c w"
  by (induction rule: reach.induct) (auto intro: world_inv_step)


section \<open>Runs only move forward\<close>

definition forward :: "world \<Rightarrow> world \<Rightarrow> bool" where
  "forward w w' \<longleftrightarrow> st_cumAcked (w_s w) \<le> st_cumAcked (w_s w') \<and>
     prefix (w_written w) (w_written w') \<and> prefix (w_read w) (w_read w') \<and>
     traced (w_s w) (w_s w') \<and>
     (st_closed (w_s w) \<longrightarrow> st_closed (w_s w')) \<and>
     ((st_once (w_s w) \<longrightarrow> st_closed (w_s w)) \<longrightarrow> st_once (w_s w') \<longrightarrow> st_closed (w_s w')) \<and> (cap_ok (w_s w) \<longrightarrow> cap_ok (w_s w')) \<and>
     cf_minBuf (st_cfg (w_s w')) = cf_minBuf (st_cfg (w_s w)) \<and> cf_maxBuf (st_cfg (w_s w')) = cf_maxBuf (st_cfg (w_s w)) \<and>
     (\<forall>i. id_known (w_s w) i \<longrightarrow> id_known (w_s w') i)"

lemma forward_refl [simp]: "forward w w"
  by (simp add: forward_def)

lemma forward_trans: "forward a b \<Longrightarrow> forward b d \<Longrightarrow> forward a d"
  unfolding forward_def by (elim conjE, intro conjI) (auto intro: prefix_order.order_trans traced_trans)

lemma forward_evolves:
  "evolves (w_s w) (w_s w') \<Longrightarrow> prefix (w_written w) (w_written w') \<Longrightarrow> prefix (w_read w) (w_read w') \<Longrightarrow> forward w w'"
  by (auto simp: forward_def evolves_def id_known_def)

lemma evolves_ack_pass: "evolves s (ack_pass wr s)"
proof -
  have "evolves s (s\<lparr>st_ackCh := False\<rparr>)" by simp
  then show ?thesis using evolves_trans[OF _ evolves_send_ack] by (simp add: ack_pass_def)
qed

lemma evolves_send_burst: "send_burst wr ts s = (b, s') \<Longrightarrow> evolves s s'"
proof (induction wr ts s rule: send_burst.induct)
  case (2 wr now ts s)
  obtain more q where q: "trySend wr now s = (more, q)" by fastforce
  show ?case
    using "2.prems" "2.IH"[OF q[symmetric]] q evolves_trySend[OF q] evolves_trans[of s q s']
    by (cases more) auto
qed simp

lemma evolves_send_pass: "send_pass wr ts s = (b, s') \<Longrightarrow> evolves s s'"
proof -
  assume r: "send_pass wr ts s = (b, s')"
  have "evolves s (s\<lparr>st_sendWake := False\<rparr>)" by simp
  then show ?thesis using evolves_trans[OF _ evolves_send_burst[OF r[unfolded send_pass_def]]] by simp
qed

lemma step_forward:
  assumes ok: "sop_ok c w x" and run: "sop_step x w = Inr w'"
  shows "forward w w'"
proof (cases x)
  case (Do_Write b)
  then show ?thesis using run evolves_write[of 0 b "w_s w"]
    by (auto simp: stream_write_def split: prod.splits intro!: forward_evolves)
next
  case (Do_Read room)
  then show ?thesis using run evolves_read by (auto split: prod.splits intro!: forward_evolves)
next
  case (Do_Send wr ts)
  then show ?thesis using run evolves_send_pass[of wr ts "w_s w"]
    by (cases "send_pass wr ts (w_s w)") (auto intro!: forward_evolves)
next
  case (Do_Recv wr now i y)
  then show ?thesis using run evolves_recv by (auto split: sum.splits intro!: forward_evolves)
next
  case Do_Reserve_Local
  have "unat (st_nextPathID (w_s w) + 2) = unat (st_nextPathID (w_s w)) + 2"
    using ok Do_Reserve_Local unat_add_no_wrap[of "st_nextPathID (w_s w)" 2] by simp
  then have "st_nextPathID (w_s w) \<le> st_nextPathID (w_s w) + 2" by (simp add: word_le_nat_alt)
  then show ?thesis using run Do_Reserve_Local
    by (auto simp: reserveLocalPathID_def forward_def id_known_def cap_ok_def split: if_splits)
next
  case (Do_Reserve_Remote i)
  then show ?thesis using run
    by (auto simp: reserveRemotePathID_def forward_def id_known_def cap_ok_def split: if_splits)
next
  case (Do_Attach now p)
  then show ?thesis using run
    by (auto simp: attachPath_def Let_def forward_def id_known_def cap_ok_def wakeSend_def emit_def traced_same split: if_splits)
next
  case (Do_Remove wr i)
  obtain e s' where "removePath wr i (w_s w) = (e, s')" by fastforce
  then show ?thesis using run Do_Remove evolves_removePath[of wr i "w_s w" e s'] by (auto intro!: forward_evolves)
qed (use run evolves_ack_pass evolves_tick evolves_ping evolves_telemetry evolves_writeCtrl evolves_close in
    \<open>auto intro!: forward_evolves\<close>)

lemma reach_forward: "reach c w0 w \<Longrightarrow> forward w0 w"
  by (induction rule: reach.induct) (auto intro: forward_trans step_forward)

lemma norm_config_bounds: "0 < cf_minBuf (norm_config c) \<and> cf_minBuf (norm_config c) \<le> cf_maxBuf (norm_config c)"
  by (simp add: norm_config_def Let_def defaultMinReorderBuf_def defaultMaxReorderBuf_def)


section \<open>Properties of runs\<close>

lemma tiling_concat:
  assumes "tiling W a gs b"
  shows "drop a W = concat (map ss_data gs) @ drop b W" and "a + total_len ss_data gs = b"
  using assms
proof (induction gs arbitrary: a)
  case (Cons g gs)
  case 1
  then show ?case using Cons.IH(1)[of "a + length (ss_data g)"] append_take_drop_id[of "length (ss_data g)" "drop a W"]
    by (simp add: add.commute)
  case 2
  then show ?case using Cons.IH(2)[of "a + length (ss_data g)"] by simp
qed simp_all

text \<open>
  C5: in every run, every DATA frame that a stream writes, first transmission or retransmission, on
  whatever path, is not empty, holds at most 64 KiB, and carries exactly the bytes the application
  wrote at that offset.
\<close>

theorem stream_sends_written_bytes:
  assumes "reach c (new_world cf t ini) w" and "(off, payload) \<in> set (data_writes (st_out (w_s w)))"
  shows "payload \<noteq> [] \<and> length payload \<le> 65536 \<and> unat off + length payload \<le> length (w_written w) \<and>
    take (length payload) (drop (unat off) (w_written w)) = payload"
  using reach_inv[OF assms(1) world_inv_new] assms(2)
  by (auto simp: world_inv_def frames_ok_def list_all_iff frame_of_def maxFramePayload_def)

text \<open>
  C4: in every run, what the application has read is a prefix of the peer's byte stream, in order,
  without gaps or duplicates, whatever order the paths deliver the frames in and whatever else happens.
\<close>

theorem stream_delivers_prefix:
  assumes "reach c (new_world cf t ini) w"
  shows "w_read w = window_of c 0 (length (w_read w))"
proof -
  have d: "w_read w @ concat (map seg_data (rb_ready (st_rbuf (w_s w)))) = window_of c 0 (unat (rb_next (st_rbuf (w_s w))))"
    using reach_inv[OF assms world_inv_new] by (simp add: world_inv_def delivered_def)
  then have "length (w_read w) \<le> unat (rb_next (st_rbuf (w_s w)))"
    by (metis length_append length_window_of diff_zero le_add1)
  then show ?thesis using d take_window_of[of 0 "length (w_read w)"] by (metis add_0 append_eq_conv_conj)
qed

text \<open>
  C6: in every run the books of the sender balance: the bytes written are the acknowledged prefix,
  then the unacknowledged segments in order, then the queue; \<open>pendingBytes\<close> is the length of the
  queue; a segment is on a live path or in the resend pool; the in-flight count of every path is the
  number of its segments' bytes that no SACK range covers.
\<close>

theorem stream_accounts_balance:
  assumes "reach c (new_world cf t ini) w"
  shows "let s = w_s w in
    drop (unat (st_cumAcked s)) (w_written w) = concat (map ss_data (st_unacked s)) @ queued s \<and>
    st_pendingBytes s = int (length (queued s)) \<and>
    unat (st_cumAcked s) + total_len ss_data (st_unacked s) = unat (st_sentOff s) \<and>
    ss_path ` set (st_unacked s) \<subseteq> insert None (Some ` p_id ` set (st_paths s)) \<and>
    list_all (\<lambda>p. p_inflight p = charged (p_id p) (st_unacked s) \<and> 0 \<le> p_inflight p) (st_paths s)"
proof -
  let ?s = "w_s w"
  have inv: "send_inv (w_written w) ?s" using reach_inv[OF assms world_inv_new] by (simp add: world_inv_def)
  note v = send_invD[OF inv]
  note t = tiling_concat[OF v(3)]
  show ?thesis
    using v(4,5,7) t balanced_nonneg[of "st_unacked ?s"]
    by (auto simp: Let_def paths_ok_def owned_def balanced_def list_all_iff charged_nonneg)
qed


text \<open>
  C12: a path id is used once: the live paths and the reserved ids are always distinct, and an id that
  was reserved, by either end, is never handed out again in the rest of the run, whether its path was
  attached, removed or never came up.
\<close>

theorem stream_path_ids_once:
  assumes "reach c (new_world cf t ini) w"
  shows "distinct (map p_id (st_paths (w_s w)) @ w_granted w) \<and>
    (\<forall>i w'. i \<in> set (map p_id (st_paths (w_s w)) @ w_granted w) \<longrightarrow> reach c w w' \<longrightarrow>
      fst (reserveRemotePathID i (w_s w')) = False \<and> (\<forall>s'. reserveLocalPathID (w_s w') \<noteq> Inr (i, s')))"
proof (intro conjI allI impI)
  have inv: "world_inv c w" by (rule reach_inv[OF assms world_inv_new])
  then show "distinct (map p_id (st_paths (w_s w)) @ w_granted w)" by (simp only: world_inv_def ids_inv_def)
  fix i w'
  assume i: "i \<in> set (map p_id (st_paths (w_s w)) @ w_granted w)" and later: "reach c w w'"
  have "id_known (w_s w) i" using inv i by (simp only: world_inv_def ids_inv_def list_all_iff)
  then have k: "id_known (w_s w') i" using reach_forward[OF later] by (simp add: forward_def)
  then show "fst (reserveRemotePathID i (w_s w')) = False"
    by (auto simp: reserveRemotePathID_def id_known_def)
  fix s'
  have "ids_inv (w_s w') (w_granted w')" using reach_inv[OF later inv] by (simp add: world_inv_def)
  then have "\<not> id_known (w_s w') (st_nextPathID (w_s w'))" by (simp add: ids_inv_def id_known_def)
  then show "reserveLocalPathID (w_s w') \<noteq> Inr (i, s')" using k by (auto simp: reserveLocalPathID_def)
qed

text \<open>
  C13: runs only move forward: the acknowledged offset, what was written, read and sent never shrinks,
  a closed stream stays closed, and the capacity of the receive buffer stays within the configured
  bounds, whatever the measured rates and round-trip times.
\<close>

theorem stream_runs_forward:
  assumes "reach c (new_world cf t ini) w" and "reach c w w'"
  shows "st_cumAcked (w_s w) \<le> st_cumAcked (w_s w') \<and> st_cumAcked (w_s w') \<le> st_sentOff (w_s w') \<and>
    prefix (w_written w) (w_written w') \<and> prefix (w_read w) (w_read w') \<and>
    prefix (st_out (w_s w)) (st_out (w_s w')) \<and> (st_closed (w_s w) \<longrightarrow> st_closed (w_s w')) \<and>
    cf_minBuf (norm_config cf) \<le> rb_cap (st_rbuf (w_s w')) \<and> rb_cap (st_rbuf (w_s w')) \<le> cf_maxBuf (norm_config cf)"
proof -
  have f: "forward (new_world cf t ini) w" "forward w w'" using assms reach_forward by blast+
  have "world_inv c w'" using reach_inv[OF assms(2) reach_inv[OF assms(1) world_inv_new]] .
  then have "unat (st_cumAcked (w_s w')) \<le> unat (st_sentOff (w_s w'))"
    by (auto simp: world_inv_def send_inv_def dest: tiling_mono)
  moreover have "cap_ok (w_s (new_world cf t ini))"
    using norm_config_bounds[of cf] by (simp add: cap_ok_def new_world_def newStreamFull_def Let_def new_rbuf_def windowCap_def)
  then have "cap_ok (w_s w')" using forward_trans[OF f] by (simp add: forward_def)
  moreover have "cf_minBuf (st_cfg (w_s w')) = cf_minBuf (norm_config cf)" "cf_maxBuf (st_cfg (w_s w')) = cf_maxBuf (norm_config cf)"
    using forward_trans[OF f] by (simp_all add: forward_def new_world_def newStreamFull_def Let_def)
  moreover have "prefix (st_out (w_s w)) (st_out (w_s w'))"
    using traced_grows[of "w_s w" "w_s w'"] f(2) by (auto simp: forward_def)
  ultimately show ?thesis using f(2) by (auto simp: forward_def cap_ok_def word_le_nat_alt)
qed


section \<open>The death of a path\<close>

lemma evolves_finish: "evolves s (finish_drop cause de fin s)"
proof -
  have "evolves s (s\<lparr>st_rerr := Some e\<rparr>)" for e by (simp add: evolves_def cap_ok_def)
  then show ?thesis
    using evolves_trans[OF _ evolves_shutdown] evolves_trans[of s "triggerAck s"]
    by (auto simp: finish_drop_def evolves_shutdown)
qed

lemma drop_path_shape:
  assumes p: "lookup i (st_paths s) = Some p" "\<not> p_dead p"
  obtains s3 where "drop_path wr i cause notify s = finish_drop cause (st_paths (remove_path i s) = []) (st_finRecv (remove_path i s)) s3"
    and "evolves (remove_path i s) s3"
proof -
  define s2 where "s2 = emit [Eff_Close i, Eff_Removed i cause] (remove_path i s)"
  define s3 where "s3 = (if notify \<and> \<not> st_closed s2
      then case pickAck (st_paths s2) of None \<Rightarrow> s2
        | Some q \<Rightarrow> let s' = emit [Eff_Write (p_id q) (M_Path_Drop i)] s2 in
            if wr (p_id q) then s' else drop_path wr (p_id q) (Some E_Write) True s'
      else s2)"
  have e2: "evolves (remove_path i s) s2" by (simp add: s2_def)
  have "evolves (remove_path i s) s3"
    unfolding s3_def Let_def
    by (auto intro: e2 evolves_trans_emit[OF e2] evolves_trans_drop[OF evolves_trans_emit[OF e2]] split: option.split)
  moreover have "drop_path wr i cause notify s = finish_drop cause (st_paths (remove_path i s) = []) (st_finRecv (remove_path i s)) s3"
    unfolding s3_def s2_def using p by (subst drop_path.simps) (simp add: Let_def)
  ultimately show thesis using that by blast
qed

lemma drop_path_after_remove:
  assumes "lookup i (st_paths s) = Some p" "\<not> p_dead p"
  shows "evolves (remove_path i s) (drop_path wr i cause notify s)"
  using drop_path_shape[OF assms, of wr cause notify] evolves_trans[OF _ evolves_finish] by metis

lemma drop_path_removes:
  assumes "lookup i (st_paths s) = Some p" "\<not> p_dead p"
  shows "i \<notin> p_id ` set (st_paths (drop_path wr i cause notify s))"
    and "length (st_paths (drop_path wr i cause notify s)) < length (st_paths s)"
proof -
  let ?s = "drop_path wr i cause notify s"
  have sub: "subseq (map p_id (st_paths ?s)) (map p_id (filter (\<lambda>p. p_id p \<noteq> i) (st_paths s)))"
    using drop_path_after_remove[OF assms] by (simp add: evolves_def)
  then show "i \<notin> p_id ` set (st_paths ?s)" using subseq_set_distinct(1)[OF sub] by auto
  have "length (st_paths ?s) \<le> length (filter (\<lambda>p. p_id p \<noteq> i) (st_paths s))"
    using list_emb_length[OF sub] by simp
  also have "\<dots> < length (st_paths s)" using remove_path_shrinks[OF assms(1)] by simp
  finally show "length (st_paths ?s) < length (st_paths s)" .
qed

lemma drop_path_none: "lookup i (st_paths s) = None \<Longrightarrow> drop_path wr i cause notify s = s"
  by (subst drop_path.simps) simp

lemma drop_path_offsets:
  "st_cumAcked (drop_path wr i cause notify s) = st_cumAcked s \<and> st_sentOff (drop_path wr i cause notify s) = st_sentOff s"
  by (rule drop_path_rule[where P = "\<lambda>q. st_cumAcked q = st_cumAcked s \<and> st_sentOff q = st_sentOff s"])
    (auto simp: emit_def shutdown_def wakeSend_def triggerAck_def)

lemma shutdown_closed: "(st_once s \<longrightarrow> st_closed s) \<Longrightarrow> st_closed (shutdown e s)"
  by (simp add: shutdown_def emit_def)

lemma unacked_bytes:
  assumes "send_inv W s"
  shows "concat (map ss_data (st_unacked s)) = take (unat (st_sentOff s) - unat (st_cumAcked s)) (drop (unat (st_cumAcked s)) W)"
    and "unat (st_cumAcked s) \<le> unat (st_sentOff s)"
proof -
  note t = tiling_concat[OF send_invD(3)[OF assms]]
  have "length (concat (map ss_data (st_unacked s))) = unat (st_sentOff s) - unat (st_cumAcked s)"
    using t(2) by (simp add: length_concat_map)
  then show "concat (map ss_data (st_unacked s)) = take (unat (st_sentOff s) - unat (st_cumAcked s)) (drop (unat (st_cumAcked s)) W)"
    unfolding t(1) by simp
  show "unat (st_cumAcked s) \<le> unat (st_sentOff s)" using t(2) by simp
qed


text \<open>The last path ends the stream, also when it dies in the cascade of failed notifications.\<close>

lemma finish_dead_end:
  assumes "(st_once s \<longrightarrow> st_closed s)" and "\<not> st_closed s"
  shows "st_closed (finish_drop cause True fin s) \<and> st_rerr (finish_drop cause True fin s) \<noteq> None \<and>
    st_werr (finish_drop cause True fin s) \<noteq> None"
  using assms by (auto simp: finish_drop_def shutdown_def emit_def)

lemma drop_path_last:
  "(st_once s \<longrightarrow> st_closed s) \<Longrightarrow> \<not> st_closed s \<Longrightarrow> st_paths s \<noteq> [] \<Longrightarrow>
   st_paths (drop_path wr i cause notify s) = [] \<Longrightarrow>
   st_closed (drop_path wr i cause notify s) \<and> st_rerr (drop_path wr i cause notify s) \<noteq> None \<and>
   st_werr (drop_path wr i cause notify s) \<noteq> None"
proof (induction wr i cause notify s rule: drop_path.induct)
  case (1 wr i cause notify s)
  have "drop_path wr i cause notify s \<noteq> s" using "1.prems"(3,4) by auto
  then obtain p where p: "lookup i (st_paths s) = Some p" "\<not> p_dead p"
    by (subst (asm) drop_path.simps) (auto split: option.splits if_splits)
  define s2 where "s2 = emit [Eff_Close i, Eff_Removed i cause] (remove_path i s)"
  define s3 where "s3 = (if notify \<and> \<not> st_closed s2
      then case pickAck (st_paths s2) of None \<Rightarrow> s2
        | Some q \<Rightarrow> let s' = emit [Eff_Write (p_id q) (M_Path_Drop i)] s2 in
            if wr (p_id q) then s' else drop_path wr (p_id q) (Some E_Write) True s'
      else s2)"
  have eq: "drop_path wr i cause notify s = finish_drop cause (st_paths (remove_path i s) = []) (st_finRecv (remove_path i s)) s3"
    unfolding s3_def s2_def using p by (subst drop_path.simps) (simp add: Let_def)
  have s2: "st_once s2 = st_once s" "st_closed s2 = st_closed s" "st_paths s2 = st_paths (remove_path i s)"
    by (simp_all add: s2_def emit_def) (simp add: remove_path_def)
  show ?case
  proof (cases "st_paths (remove_path i s) = []")
    case True
    then have "s3 = s2" using s2(3) by (simp add: s3_def pickAck_def)
    then show ?thesis using finish_dead_end[of s2] s2 "1.prems"(1,2) True unfolding eq by simp
  next
    case False
    have s': "drop_path wr i cause notify s = wakeSend (triggerAck s3)"
      unfolding eq finish_drop_def using False by (simp only: if_False)
    have e3: "st_paths s3 = []" using "1.prems"(4) unfolding s' by (simp add: wakeSend_def triggerAck_def)
    then obtain q where q: "notify \<and> \<not> st_closed s2" "pickAck (st_paths s2) = Some q" "\<not> wr (p_id q)"
      using False s2(3) unfolding s3_def Let_def emit_def by (auto split: option.splits if_splits)
    define s4 where "s4 = emit [Eff_Write (p_id q) (M_Path_Drop i)] s2"
    have s3: "s3 = drop_path wr (p_id q) (Some E_Write) True s4"
      using q by (simp add: s3_def s4_def)
    have "st_closed s3 \<and> st_rerr s3 \<noteq> None \<and> st_werr s3 \<noteq> None"
      unfolding s3
    proof (rule "1.IH"[OF p refl s2_def q(1,2) s4_def q(3)])
      show "st_paths s4 \<noteq> []" using False s2(3) by (simp add: s4_def emit_def)
      show "st_once s4 \<longrightarrow> st_closed s4" "\<not> st_closed s4" using "1.prems"(1,2) s2 by (simp_all add: s4_def emit_def)
      show "st_paths (drop_path wr (p_id q) (Some E_Write) True s4) = []" using e3 unfolding s3 .
    qed
    then show ?thesis unfolding s' by (simp add: wakeSend_def triggerAck_def)
  qed
qed

lemma reach_once:
  assumes "reach c (new_world cf t ini) w"
  shows "st_once (w_s w) \<longrightarrow> st_closed (w_s w)"
  using reach_forward[OF assms] by (simp add: forward_def new_world_def newStreamFull_def Let_def)

lemma reach_send_inv:
  assumes "reach c (new_world cf t ini) w"
  shows "send_inv (w_written w) (w_s w)"
  using reach_inv[OF assms world_inv_new] by (simp add: world_inv_def)

text \<open>
  C9: the death of a path on an open stream: the path is gone, none of its segments stays charged to
  it, every unacknowledged byte is still held for retransmission and nothing of the queue is lost,
  dropping it again changes nothing, and a stream without paths is closed with an error for readers
  and writers. This covers the cascade in which the notification kills further paths.
\<close>

theorem drop_path_hands_over:
  assumes "reach c (new_world cf t ini) w" and "\<not> st_closed (w_s w)" and "lookup i (st_paths (w_s w)) = Some p"
  shows "let s = w_s w; s' = drop_path wr i cause notify s in
    i \<notin> p_id ` set (st_paths s') \<and> Some i \<notin> ss_path ` set (st_unacked s') \<and>
    concat (map ss_data (st_unacked s')) = concat (map ss_data (st_unacked s)) \<and> queued s' = queued s \<and>
    drop_path wr i cause' notify' s' = s' \<and>
    (st_paths s' = [] \<longrightarrow> st_closed s' \<and> st_rerr s' \<noteq> None \<and> st_werr s' \<noteq> None)"
proof -
  let ?s = "w_s w" and ?s' = "drop_path wr i cause notify (w_s w)"
  note inv = reach_send_inv[OF assms(1)]
  have live: "\<not> p_dead p" using assms(2,3) send_invD(7)[OF inv] lookup_Some[OF assms(3)] by (auto simp: paths_ok_def)
  note inv' = drop_path_inv[OF inv, of wr i cause notify]
  have gone: "i \<notin> p_id ` set (st_paths ?s')" by (rule drop_path_removes(1)[OF assms(3) live])
  then have "Some i \<notin> ss_path ` set (st_unacked ?s')"
    using send_invD(7)[OF inv'] unfolding paths_ok_def owned_def by blast
  moreover have "concat (map ss_data (st_unacked ?s')) = concat (map ss_data (st_unacked ?s))"
    unfolding unacked_bytes[OF inv] unacked_bytes[OF inv'] using drop_path_offsets by simp
  moreover have "queued ?s' = queued ?s" using send_invD(4)[OF inv] send_invD(4)[OF inv'] drop_path_offsets by simp
  moreover have "drop_path wr i cause' notify' ?s' = ?s'"
    using gone lookup_None by (intro drop_path_none) blast
  moreover have "st_paths ?s' = [] \<longrightarrow> st_closed ?s' \<and> st_rerr ?s' \<noteq> None \<and> st_werr ?s' \<noteq> None"
    using drop_path_last[of ?s wr i cause notify] reach_once[OF assms(1)] assms(2) lookup_Some[OF assms(3)]
    by (cases "st_paths ?s") auto
  ultimately show ?thesis using gone by (simp add: Let_def)
qed


section \<open>Acknowledgements\<close>

lemma recv_ack_offsets:
  fixes wr now i
  assumes inv: "send_inv W s" and ranges: "list_all valid_range (f_ranges f)"
  defines "s' \<equiv> recv_ack wr now i f s"
  shows "st_sentOff s' = st_sentOff s" and "st_cumAcked s \<le> st_cumAcked s'"
    and "st_cumAcked s' = st_cumAcked s \<or> st_cumAcked s' = f_cum f"
proof -
  have "st_sentOff s' = st_sentOff s \<and> st_cumAcked s \<le> st_cumAcked s' \<and> (st_cumAcked s' = st_cumAcked s \<or> st_cumAcked s' = f_cum f)"
  proof (cases "st_gotPeerAck s \<and> f_seq f \<le> st_peerAckSeq s")
    case True
    then show ?thesis by (simp add: s'_def recv_ack_def)
  next
    case False
    show ?thesis
    proof (cases "validate_ack f (st_sentOff s) (st_cumAcked s) (st_peerAckSeq s) (st_gotPeerAck s)")
      case None
      have c: "st_cumAcked s \<le> f_cum f" "f_cum f \<le> st_sentOff s"
        using None by (auto simp: validate_ack_def not_less split: if_splits)
      have "s' = apply_ack now f s" using False None by (auto simp: s'_def recv_ack_def)
      then show ?thesis using apply_ack_inv(3,4)[OF inv c ranges] c by simp
    next
      case (Some e)
      then have "s' = drop_path wr i (Some (E_Ack_Violation e)) True s" using False by (auto simp: s'_def recv_ack_def)
      then show ?thesis by (simp add: drop_path_offsets)
    qed
  qed
  then show "st_sentOff s' = st_sentOff s" "st_cumAcked s \<le> st_cumAcked s'"
    "st_cumAcked s' = st_cumAcked s \<or> st_cumAcked s' = f_cum f" by blast+
qed

text \<open>
  C8: an ACK frees exactly the bytes it acknowledges: whatever ACK the peer sends, stale, forged or
  honest, the acknowledged offset does not regress and does not pass what was sent, the bytes still
  held are the old ones less the acknowledged prefix, and the queue is untouched. A stale ACK changes
  nothing at all; one that breaks the protocol costs its path and acknowledges nothing.
\<close>

theorem ack_frees_acknowledged_prefix:
  assumes "reach c (new_world cf t ini) w" and "list_all valid_range (f_ranges f)"
  shows "let s = w_s w; s' = recv_ack wr now i f s in
    st_cumAcked s \<le> st_cumAcked s' \<and> st_cumAcked s' \<le> st_sentOff s \<and>
    concat (map ss_data (st_unacked s')) =
      drop (unat (st_cumAcked s') - unat (st_cumAcked s)) (concat (map ss_data (st_unacked s))) \<and>
    queued s' = queued s \<and>
    (if st_gotPeerAck s \<and> f_seq f \<le> st_peerAckSeq s then s' = s
     else case validate_ack f (st_sentOff s) (st_cumAcked s) (st_peerAckSeq s) (st_gotPeerAck s) of
        Some e \<Rightarrow> st_cumAcked s' = st_cumAcked s \<and> (\<not> st_closed s \<longrightarrow> i \<notin> p_id ` set (st_paths s'))
      | None \<Rightarrow> st_cumAcked s' = f_cum f)"
proof -
  let ?s = "w_s w" and ?s' = "recv_ack wr now i f (w_s w)"
  note inv = reach_send_inv[OF assms(1)]
  have inv': "send_inv (w_written w) ?s'" using recv_ack_inv[OF inv assms(2)] by simp
  note o = recv_ack_offsets[OF inv assms(2), of wr now i]
  note u = unacked_bytes[OF inv] and u' = unacked_bytes[OF inv']
  have le: "unat (st_cumAcked ?s) \<le> unat (st_cumAcked ?s')" "unat (st_cumAcked ?s') \<le> unat (st_sentOff ?s)"
    using o u'(2) by (simp_all add: word_le_nat_alt)
  have "concat (map ss_data (st_unacked ?s')) =
      drop (unat (st_cumAcked ?s') - unat (st_cumAcked ?s)) (concat (map ss_data (st_unacked ?s)))"
    unfolding u(1) u'(1) o(1) using le by (simp add: drop_take)
  moreover have "queued ?s' = queued ?s" using send_invD(4)[OF inv] send_invD(4)[OF inv'] o(1) by simp
  moreover have "if st_gotPeerAck ?s \<and> f_seq f \<le> st_peerAckSeq ?s then ?s' = ?s
     else case validate_ack f (st_sentOff ?s) (st_cumAcked ?s) (st_peerAckSeq ?s) (st_gotPeerAck ?s) of
        Some e \<Rightarrow> st_cumAcked ?s' = st_cumAcked ?s \<and> (\<not> st_closed ?s \<longrightarrow> i \<notin> p_id ` set (st_paths ?s'))
      | None \<Rightarrow> st_cumAcked ?s' = f_cum f"
  proof (cases "st_gotPeerAck ?s \<and> f_seq f \<le> st_peerAckSeq ?s")
    case False
    show ?thesis
    proof (cases "validate_ack f (st_sentOff ?s) (st_cumAcked ?s) (st_peerAckSeq ?s) (st_gotPeerAck ?s)")
      case None
      have c: "st_cumAcked ?s \<le> f_cum f" "f_cum f \<le> st_sentOff ?s"
        using None by (auto simp: validate_ack_def not_less split: if_splits)
      have "?s' = apply_ack now f ?s" using False None by (auto simp: recv_ack_def)
      then show ?thesis using apply_ack_inv(3)[OF inv c assms(2)] False None by auto
    next
      case (Some e)
      then have s': "?s' = drop_path wr i (Some (E_Ack_Violation e)) True ?s" using False by (auto simp: recv_ack_def)
      have "i \<notin> p_id ` set (st_paths ?s')" if "\<not> st_closed ?s"
      proof (cases "lookup i (st_paths ?s)")
        case None
        then show ?thesis unfolding s' drop_path_none[OF None] using lookup_None by blast
      next
        case (Some p)
        have "\<not> p_dead p" using that send_invD(7)[OF inv] lookup_Some[OF Some] by (auto simp: paths_ok_def)
        then show ?thesis unfolding s' by (rule drop_path_removes(1)[OF Some])
      qed
      then show ?thesis using Some False s' by (auto simp: drop_path_offsets)
    qed
  qed (simp add: recv_ack_def)
  ultimately show ?thesis using o(2) le(2) by (simp add: Let_def word_le_nat_alt)
qed


section \<open>Sending\<close>

text \<open>
  C7: a frame that \<open>trySend\<close> writes goes out on a live path, and either fills a hole of the
  retransmission buffer, of which no byte was reported as received by the last ACK, or carries the
  next new bytes within the window the peer advertised.
\<close>

theorem send_only_wanted_bytes:
  assumes "reach c (new_world cf t ini) w" and "trySend wr now (w_s w) = (True, s')"
  shows "let s = w_s w in \<exists>i off payload es.
    st_out s' = st_out s @ Eff_Write i (M_Data off (sendTs s now) payload) # es \<and> data_writes es = [] \<and>
    i \<in> p_id ` set (st_paths s) \<and>
    ((\<forall>x. unat off \<le> unat x \<and> unat x < unat off + length payload \<longrightarrow> x \<notin> covers (st_peerRanges s)) \<and>
        unat (st_cumAcked s) \<le> unat off \<and> unat off + length payload \<le> unat (st_sentOff s) \<or>
     off = st_sentOff s \<and> st_sentOff s - st_cumAcked s + u64_of_len (length payload) \<le> st_advWindow s)"
proof -
  let ?s = "w_s w"
  note inv = reach_send_inv[OF assms(1)]
  obtain r q where q: "trySend_locked now ?s = (r, q)" by fastforce
  have frame: "\<exists>es. st_out s' = st_out ?s @ Eff_Write i (M_Data off (sendTs ?s now) payload) # es \<and> data_writes es = []"
    if f: "r = Some (i, off, payload)" "st_out q = st_out ?s" for i off payload
  proof -
    let ?q = "emit [Eff_Write i (M_Data off (sendTs ?s now) payload)] q"
    have "s' = ?q \<or> s' = drop_path wr i (Some E_Write) True ?q"
      using assms(2) q f(1) by (auto simp: trySend_def Let_def split: if_splits)
    then have "quiet ?q s'" using quiet_drop_path by auto
    then show ?thesis using f(2) by (auto simp: quiet_def emit_def)
  qed
  show ?thesis
  proof (cases rule: trySend_locked_cases[OF inv q])
    case 1
    then show ?thesis using assms(2) q by (simp add: trySend_def)
  next
    case (2 i off payload)
    then show ?thesis using frame[of i off payload] unfolding resend_ok_def Let_def by blast
  next
    case (3 i off payload)
    then show ?thesis using frame[of i off payload] unfolding fresh_ok_def Let_def by blast
  qed
qed

text \<open>
  What the application may have outstanding: \<open>Write\<close> stops at \<open>sendBufCap\<close>.
\<close>

definition outstanding :: "stream \<Rightarrow> int" where
  "outstanding s = st_pendingBytes s + i64_of_u64 (st_sentOff s - st_cumAcked s)"

lemma write_loop_bound:
  assumes "write_loop 0 b s = (res, s')" and "outstanding s \<le> cf_sendBufCap (st_cfg s)"
  shows "\<exists>t b'. outstanding s' \<le> cf_sendBufCap (st_cfg s') \<and> st_sentOff s' = st_sentOff s \<and>
    st_werr s' = st_werr s \<and> st_closed s' = st_closed s \<and> write_stop res t b' s'"
proof -
  have room: "send_room q = cf_sendBufCap (st_cfg q) - outstanding q" for q by (simp add: send_room_def outstanding_def)
  have enq: "outstanding (enqueue d q) = outstanding q + int (length d)" for d q
    by (simp add: outstanding_def enqueue_def wakeSend_def)
  have "\<exists>t b'. (outstanding s' \<le> cf_sendBufCap (st_cfg s') \<and> st_sentOff s' = st_sentOff s \<and>
    st_werr s' = st_werr s \<and> st_closed s' = st_closed s) \<and> write_stop res t b' s'"
    using assms by (intro write_loop_rule[OF assms(1), where P = "\<lambda>_ _ q. outstanding q \<le> cf_sendBufCap (st_cfg q) \<and>
      st_sentOff q = st_sentOff s \<and> st_werr q = st_werr s \<and> st_closed q = st_closed s"]) (auto simp: room enq)
  then show ?thesis by simp
qed

text \<open>
  \<open>Write\<close> queues a prefix of its argument behind what is queued already, all of it when it
  succeeds; it never lets more than \<open>sendBufCap\<close> bytes be outstanding, blocks only when exactly that
  many are, and fails only on a stream that has failed or is closed.
\<close>

theorem write_queues_prefix:
  assumes "reach c (new_world cf t ini) w" and "length (w_written w) + length b < 2 ^ 63"
    and "stream_write b (w_s w) = (res, s')" and "outstanding (w_s w) \<le> cf_sendBufCap (st_cfg (w_s w))"
  shows "queued s' = queued (w_s w) @ take (taken res) b \<and> outstanding s' \<le> cf_sendBufCap (st_cfg s') \<and>
    (case res of
       Write_Done n \<Rightarrow> n = int (length b)
     | Write_Blocked n rest \<Rightarrow> rest = drop (nat n) b \<and> rest \<noteq> [] \<and> outstanding s' = cf_sendBufCap (st_cfg s')
     | Write_Err n e \<Rightarrow> n = int (length b) \<or> st_werr (w_s w) = Some e \<or> st_closed (w_s w) \<and> e = E_Closed)"
proof -
  let ?s = "w_s w"
  note inv = reach_send_inv[OF assms(1)]
  have run: "write_loop 0 b ?s = (res, s')" using assms(3) by (simp add: stream_write_def)
  obtain n where n: "n \<le> length b" "send_inv (w_written w @ take n b) s'"
    "case res of Write_Done t \<Rightarrow> t = 0 + int n \<and> n = length b
      | Write_Blocked t rest \<Rightarrow> t = 0 + int n \<and> rest = drop n b \<and> rest \<noteq> [] | Write_Err t e \<Rightarrow> t = 0 + int n"
    using write_loop_inv[OF run inv assms(2)] by blast
  have tk: "taken res = n" using n(3) by (cases res) auto
  obtain t b' where f: "outstanding s' \<le> cf_sendBufCap (st_cfg s')" "st_sentOff s' = st_sentOff ?s"
    "st_werr s' = st_werr ?s" "st_closed s' = st_closed ?s" "write_stop res t b' s'"
    using write_loop_bound[OF run assms(4)] by blast
  have "queued s' = queued ?s @ take n b"
    using send_invD(2,4)[OF inv] send_invD(4)[OF n(2)] f(2) by simp
  then show ?thesis using f n tk by (cases res) (auto simp: send_room_def outstanding_def)
qed


section \<open>The send pump ends\<close>

text \<open>
  Every frame that is written adds its bytes to the in-flight count of a path, and the counts never
  exceed what the application has written; every failed write removes a path.
\<close>

definition in_flight :: "stream \<Rightarrow> int" where
  "in_flight s = sum_list (map p_inflight (st_paths s))"

lemma charge_distinct: "distinct is \<Longrightarrow> sum_list (map (\<lambda>i. charge i g) is) \<le> seg_len g"
proof (induction "is")
  case Nil
  then show ?case by (simp add: seg_len_def)
next
  case (Cons i js)
  show ?case
  proof (cases "ss_path g = Some i")
    case True
    then have z: "map (\<lambda>i. charge i g) js = map (\<lambda>_. 0) js" using Cons.prems by (auto simp: charge_def)
    have "sum_list (map (\<lambda>i. charge i g) js) = 0" unfolding z by simp
    then show ?thesis by (simp add: charge_def seg_len_def)
  next
    case False
    then show ?thesis using Cons by (simp add: charge_def)
  qed
qed

lemma charged_distinct: "distinct is \<Longrightarrow> sum_list (map (\<lambda>i. charged i gs) is) \<le> int (total_len ss_data gs)"
proof (induction gs)
  case (Cons g gs)
  have "sum_list (map (\<lambda>i. charged i (g # gs)) is) = sum_list (map (\<lambda>i. charge i g) is) + sum_list (map (\<lambda>i. charged i gs) is)"
    by (simp add: sum_list_addf)
  then show ?case using Cons charge_distinct[OF Cons.prems, of g] by (simp add: seg_len_def)
qed simp

lemma in_flight_unacked:
  assumes "send_inv W s"
  shows "in_flight s \<le> int (total_len ss_data (st_unacked s))"
proof -
  note v = send_invD[OF assms]
  have "map p_inflight (st_paths s) = map (\<lambda>i. charged i (st_unacked s)) (map p_id (st_paths s))"
    using v(7) by (auto simp: paths_ok_def balanced_def)
  then show ?thesis
    unfolding in_flight_def using charged_distinct[of "map p_id (st_paths s)"] v(7) by (simp only: paths_ok_def)
qed

lemma in_flight_bound:
  assumes "send_inv W s"
  shows "in_flight s \<le> int (length W)"
  using in_flight_unacked[OF assms] tiling_concat(2)[OF send_invD(3)[OF assms]] send_invD(2)[OF assms] by linarith

lemma upd_path_Cons: "upd_path i f (p # ps) = (if p_id p = i then f p else p) # upd_path i f ps"
  by (simp add: upd_path_def)

lemma in_flight_upd:
  assumes "distinct (map p_id ps)" and "i \<in> p_id ` set ps" and "\<And>p. p_inflight (f p) = p_inflight p + n"
  shows "sum_list (map p_inflight (upd_path i f ps)) = sum_list (map p_inflight ps) + n"
  using assms(1,2)
proof (induction ps)
  case (Cons p ps)
  have "upd_path i f ps = ps" if "i \<notin> p_id ` set ps" using that by (induction ps) (auto simp: upd_path_def)
  then show ?case using Cons assms(3) by (cases "p_id p = i") (auto simp: upd_path_Cons)
qed simp

lemma trySend_locked_charges:
  assumes "trySend_locked now s = (Some (i, off, payload), s')"
  shows "\<exists>f. st_paths s' = upd_path i f (st_paths s) \<and> (\<forall>p. p_inflight (f p) = p_inflight p + int (length payload) \<and> p_id (f p) = p_id p)"
    and "\<not> st_closed s'"
  using assms
  by (auto simp: trySend_locked_def Let_def commit_resend_def commit_fresh_def split: if_splits option.splits prod.splits)

definition send_budget :: "bytes \<Rightarrow> stream \<Rightarrow> nat" where
  "send_budget W s = length (st_paths s) * (length W + 1) + nat (int (length W) - in_flight s)"

lemma in_flight_nonneg: "send_inv W s \<Longrightarrow> 0 \<le> in_flight s"
  unfolding in_flight_def using balanced_nonneg
  by (intro sum_list_nonneg) (auto simp: send_inv_def paths_ok_def)

lemma trySend_budget:
  assumes inv: "send_inv W s" and run: "trySend wr now s = (True, s')"
  shows "send_budget W s' < send_budget W s"
proof -
  obtain r q where q: "trySend_locked now s = (r, q)" by fastforce
  have r: "r \<noteq> None" using run q by (auto simp: trySend_def split: option.splits)
  obtain i off payload where f: "r = Some (i, off, payload)" "send_inv W q" "frame_of W off payload"
    "i \<in> p_id ` set (st_paths s)" "st_out q = st_out s"
    by (rule trySend_locked_cases[OF inv q]) (use r in auto)
  obtain g where g: "st_paths q = upd_path i g (st_paths s)" "\<And>p. p_inflight (g p) = p_inflight p + int (length payload)" "\<And>p. p_id (g p) = p_id p"
    using trySend_locked_charges(1)[OF q[unfolded f(1)]] by blast
  have d: "distinct (map p_id (st_paths s))" using send_invD(7)[OF inv] by (simp add: paths_ok_def)
  have fl: "in_flight q = in_flight s + int (length payload)"
    unfolding in_flight_def g(1) by (rule in_flight_upd[OF d f(4) g(2)])
  have len: "length (st_paths q) = length (st_paths s)" by (simp add: g(1) upd_path_def)
  have b: "0 < length payload" "in_flight q \<le> int (length W)" "0 \<le> in_flight s"
    using f(3) in_flight_bound[OF f(2)] in_flight_nonneg[OF inv] by (auto simp: frame_of_def)
  let ?q = "emit [Eff_Write i (M_Data off (sendTs s now) payload)] q"
  have s': "s' = (if wr i then ?q else drop_path wr i (Some E_Write) True ?q)"
    using run q f(1) by (auto simp: trySend_def Let_def split: if_splits)
  show ?thesis
  proof (cases "wr i")
    case True
    then have "in_flight s' = in_flight q" "length (st_paths s') = length (st_paths s)"
      using s' len by (simp_all add: emit_def in_flight_def)
    moreover have "nat (int (length W) - in_flight q) < nat (int (length W) - in_flight s)"
      using fl b by linarith
    ultimately show ?thesis by (simp add: send_budget_def)
  next
    case False
    have open_q: "\<not> st_closed ?q" using trySend_locked_charges(2)[OF q[unfolded f(1)]] by (simp add: emit_def)
    have "i \<in> p_id ` set (st_paths ?q)" using f(4) ids_upd_path[of g i "st_paths s"] g(3)
      by (simp add: emit_def g(1))
    then obtain p where p: "lookup i (st_paths ?q) = Some p" using lookup_None by fastforce
    have "send_inv W ?q" using f(2) by simp
    then have live: "\<not> p_dead p" using open_q lookup_Some[OF p] by (auto simp: send_inv_def paths_ok_def)
    have eq: "s' = drop_path wr i (Some E_Write) True ?q" using False s' by simp
    have "length (st_paths s') < length (st_paths s)"
      using drop_path_removes(2)[OF p live] len unfolding eq by (simp add: emit_def)
    then have "(length (st_paths s') + 1) * (length W + 1) \<le> length (st_paths s) * (length W + 1)"
      by (intro mult_le_mono1) simp
    moreover have "0 \<le> in_flight s'" unfolding eq by (rule in_flight_nonneg[OF drop_path_inv]) (use f(2) in simp)
    ultimately show ?thesis by (simp add: send_budget_def)
  qed
qed

lemma send_burst_ends:
  "send_inv W s \<Longrightarrow> send_budget W s < length ts \<Longrightarrow> fst (send_burst wr ts s) = False"
proof (induction wr ts s rule: send_burst.induct)
  case (2 wr now ts s)
  obtain more q where q: "trySend wr now s = (more, q)" by fastforce
  show ?case
  proof (cases more)
    case True
    then have "send_budget W q < length ts" using trySend_budget[OF "2.prems"(1)] q "2.prems"(2) by fastforce
    then show ?thesis using "2.IH"[of more q] trySend_inv[OF "2.prems"(1) q] q True by simp
  qed (simp add: q)
qed simp

text \<open>
  C10: the inner loop of the send pump ends: from any reachable state, whatever the clock shows and
  whichever writes fail, after at most \<open>(paths + 1) * (bytes written + 1)\<close> attempts \<open>trySend\<close> reports that
  there is nothing to send.
\<close>

theorem send_pump_terminates:
  assumes "reach c (new_world cf t ini) w"
    and "(length (st_paths (w_s w)) + 1) * (length (w_written w) + 1) \<le> length ts"
  shows "fst (send_pass wr ts (w_s w)) = False"
proof -
  let ?s = "(w_s w)\<lparr>st_sendWake := False\<rparr>"
  note inv = reach_send_inv[OF assms(1)]
  have "send_inv (w_written w) ?s" using inv send_inv_view[of ?s "w_s w"] by (simp add: send_view_def)
  moreover have "send_budget (w_written w) ?s < length ts"
    using assms(2) in_flight_nonneg[OF inv] by (simp add: send_budget_def in_flight_def)
  ultimately show ?thesis unfolding send_pass_def by (rule send_burst_ends)
qed


section \<open>Witnesses\<close>

definition demo_config :: stream_config where
  "demo_config = \<lparr>cf_minBuf = 100, cf_maxBuf = 400, cf_sendBufCap = 200, cf_telemetryInterval = 0, cf_policy = False\<rparr>"

definition demo_w0 :: world where "demo_w0 = new_world demo_config (At 0) True"

definition demo_ack :: frame where
  "demo_ack = empty_frame\<lparr>f_window := 100, f_seq := 1\<rparr>"

definition demo_content :: "nat \<Rightarrow> byte" where "demo_content n = of_nat n"

definition demo_w1 :: world where
  "demo_w1 = demo_w0\<lparr>w_s := (w_s demo_w0)\<lparr>st_sendQ := [[7, 8, 9]], st_pendingBytes := 3, st_sendWake := True\<rparr>,
     w_written := [7, 8, 9]\<rparr>"

definition demo_w2 :: world where
  "demo_w2 = demo_w1\<lparr>w_s := (w_s demo_w1)\<lparr>st_peerAckSeq := 1, st_gotPeerAck := True, st_advWindow := 100,
     st_gotWindow := True\<rparr>\<rparr>"

definition demo_w3 :: world where
  "demo_w3 = demo_w2\<lparr>w_s := (w_s demo_w2)\<lparr>st_sendWake := False, st_sendQ := [], st_pendingBytes := 0, st_sentOff := 3,
     st_unacked := [\<lparr>ss_off = 0, ss_data = [7, 8, 9], ss_path = Some 0, ss_sentAt = At 6000, ss_sacked = False\<rparr>],
     st_paths := [(new_path 0 True (At 0))\<lparr>p_inflight := 3\<rparr>],
     st_out := [Eff_Write 0 (M_Data 0 6 [7, 8, 9])]\<rparr>\<rparr>"

definition demo_w4 :: world where
  "demo_w4 = demo_w3\<lparr>w_s := (w_s demo_w3)\<lparr>st_rbuf := (new_rbuf 100)\<lparr>rb_next := 2, rb_ready := [mk_seg 0 [0, 1]], rb_size := 2, rb_readyBytes := 2\<rparr>,
     st_lastDataTs := 5, st_lastDataPath := Some 0, st_ackCh := True,
     st_paths := [(new_path 0 True (At 0))\<lparr>p_inflight := 3, p_rxBytes := 2\<rparr>]\<rparr>\<rparr>"

definition demo_w5 :: world where
  "demo_w5 = demo_w4\<lparr>w_s := (w_s demo_w4)\<lparr>st_rbuf := (new_rbuf 100)\<lparr>rb_next := 2\<rparr>, st_freedSinceAck := 2\<rparr>, w_read := [0, 1]\<rparr>"

text \<open>
  A run of an initiator: three bytes written, a first ACK that opens the window, the frame that carries
  them, a frame of the peer with two bytes, a read. \<open>demo_wk\<close> is the world after \<open>k\<close> steps.
\<close>

lemma pickData_single:
  assumes "\<not> p_suspect p" and "p_inflight p < minInflightCap"
  shows "pickData [p] len now = Some p"
proof -
  have "has_room now p" using assms(2) inflightCap_floor[of now p] by (simp add: has_room_def)
  then show ?thesis using assms(1) by (simp add: pickData_def pickMinDrain_least candidates_def first_least_def)
qed

lemmas demo_world_simps = demo_w0_def demo_w1_def demo_w2_def demo_w3_def demo_w4_def demo_w5_def demo_config_def
  new_world_def newStreamFull_def norm_config_def Let_def windowCap_def new_path_def wakeSend_def triggerAck_def emit_def

lemma demo_step1: "sop_step (Do_Write [7, 8, 9]) demo_w0 = Inr demo_w1"
  by (simp add: demo_world_simps stream_write_def write_loop.simps i64_of_u64_def)

lemma demo_step2: "sop_step (Do_Recv (\<lambda>_. True) (At 5000) 0 (In_Ack demo_ack)) demo_w1 = Inr demo_w2"
  by (simp add: demo_world_simps recv_def recv_ack_def validate_ack_def demo_ack_def empty_frame_def apply_ack_def normalize_ranges_def maxAckSeqAdvance_def)

lemma demo_step3: "sop_step (Do_Send (\<lambda>_. True) [At 6000, At 6000]) demo_w2 = Inr demo_w3"
  by (simp add: demo_world_simps send_pass_def trySend_def trySend_locked_def pickData_single minInflightCap_def maxFramePayload_def
     fresh_len_def commit_fresh_def upd_path_def sendTs_def microsecond_def quot_def min_duration_def max_duration_def u64_of_len_def sgn_if)

lemma demo_step4: "sop_step (Do_Recv (\<lambda>_. True) (At 7000) 0 (In_Data 0 5 [0, 1])) demo_w3 = Inr demo_w4"
  by (simp add: demo_world_simps recv_def recv_data_def rb_eval upd_path_def rb_sizeBytes_def)

lemma demo_step5: "sop_step (Do_Read 10) demo_w4 = Inr demo_w5"
  by (simp add: demo_world_simps stream_read_def rb_eval rb_avail_def rb_window_def quot_def)


lemma demo_window: "window_of demo_content 0 2 = [0, 1]"
  by (simp add: window_of_def demo_content_def upt_rec)

lemma demo_reach: "reach demo_content (new_world demo_config (At 0) True) demo_w5"
proof -
  let ?r = "reach demo_content (new_world demo_config (At 0) True)"
  have "?r demo_w0" unfolding demo_w0_def by (rule reach_start)
  then have "?r demo_w1" by (rule reach_step[OF _ _ demo_step1]) (simp add: demo_w0_def new_world_def)
  then have "?r demo_w2" by (rule reach_step[OF _ _ demo_step2]) (simp add: demo_ack_def empty_frame_def)
  then have "?r demo_w3" by (rule reach_step[OF _ _ demo_step3]) simp
  then have "?r demo_w4" by (rule reach_step[OF _ _ demo_step4])
      (simp add: frame_agrees_def demo_window[unfolded numeral_2_eq_2])
  then show "?r demo_w5" by (rule reach_step[OF _ _ demo_step5]) simp
qed

lemmas demo_state = demo_w5_def demo_w4_def demo_w3_def demo_w2_def demo_w1_def demo_w0_def new_world_def newStreamFull_def

lemma demo_facts:
  "w_written demo_w5 = [7, 8, 9]" "w_read demo_w5 = [0, 1]" "st_closed (w_s demo_w5) = False"
  "data_writes (st_out (w_s demo_w5)) = [(0, [7, 8, 9])]" "st_cumAcked (w_s demo_w5) = 0" "st_sentOff (w_s demo_w5) = 3"
  by (simp_all add: demo_state Let_def)

theorem stream_sends_written_bytes_witness:
  "data_writes (st_out (w_s demo_w5)) = [(0, [7, 8, 9])] \<and> take 3 (drop 0 (w_written demo_w5)) = [7, 8, 9]"
  using stream_sends_written_bytes[OF demo_reach, of 0 "[7, 8, 9]"] demo_facts by simp

theorem stream_delivers_prefix_witness: "w_read demo_w5 = [0, 1] \<and> w_read demo_w5 = window_of demo_content 0 2"
  using stream_delivers_prefix[OF demo_reach] demo_facts by (simp add: numeral_2_eq_2)

theorem stream_accounts_balance_witness:
  "w_written demo_w5 = concat (map ss_data (st_unacked (w_s demo_w5))) @ queued (w_s demo_w5)"
  using stream_accounts_balance[OF demo_reach] demo_facts by (simp add: Let_def)

theorem stream_path_ids_once_witness:
  "0 \<in> set (map p_id (st_paths (w_s demo_w5))) \<and> fst (reserveRemotePathID 0 (w_s demo_w5)) = False"
proof -
  have "0 \<in> set (map p_id (st_paths (w_s demo_w5)))" by (simp add: demo_state Let_def new_path_def)
  then show ?thesis using stream_path_ids_once[OF demo_reach] reach_start by auto
qed

theorem stream_runs_forward_witness: "100 \<le> rb_cap (st_rbuf (w_s demo_w5)) \<and> rb_cap (st_rbuf (w_s demo_w5)) \<le> 400"
  using stream_runs_forward[OF demo_reach reach_start] by (simp add: demo_config_def norm_config_def Let_def)

theorem drop_path_hands_over_witness:
  "let s' = drop_path (\<lambda>_. True) 0 None True (w_s demo_w5) in
     concat (map ss_data (st_unacked s')) = [7, 8, 9] \<and> st_closed s' \<and> st_paths s' = []"
proof -
  have p: "lookup 0 (st_paths (w_s demo_w5)) = Some ((new_path 0 True (At 0))\<lparr>p_inflight := 3, p_rxBytes := 2\<rparr>)"
    "concat (map ss_data (st_unacked (w_s demo_w5))) = [7, 8, 9]"
    by (simp_all add: demo_state Let_def new_path_def lookup_def)
  have e: "st_paths (drop_path (\<lambda>_. True) 0 None True (w_s demo_w5)) = []"
    using drop_path_removes(2)[OF p(1), of "\<lambda>_. True" None True] by (simp add: new_path_def demo_state Let_def)
  show ?thesis using drop_path_hands_over[OF demo_reach _ p(1), of "\<lambda>_. True" None True None True] demo_facts p(2) e
    by (simp add: Let_def)
qed

definition demo_ack2 :: frame where
  "demo_ack2 = empty_frame\<lparr>f_cum := 2, f_window := 100, f_seq := 2\<rparr>"

theorem ack_frees_acknowledged_prefix_witness:
  "let s' = recv_ack (\<lambda>_. True) (At 8000) 0 demo_ack2 (w_s demo_w5) in
     st_cumAcked s' = 2 \<and> concat (map ss_data (st_unacked s')) = [9]"
proof -
  have u: "concat (map ss_data (st_unacked (w_s demo_w5))) = [7, 8, 9]"
    "st_peerAckSeq (w_s demo_w5) = 1" "st_gotPeerAck (w_s demo_w5)"
    by (simp_all add: demo_state Let_def)
  have f: "f_cum demo_ack2 = 2" "f_seq demo_ack2 = 2" "f_ranges demo_ack2 = []"
    by (simp_all add: demo_ack2_def empty_frame_def)
  have "validate_ack demo_ack2 3 0 1 True = None"
    by (simp add: validate_ack_def f maxAckSeqAdvance_def)
  moreover have r: "list_all valid_range (f_ranges demo_ack2)" by (simp add: f)
  ultimately show ?thesis
    using ack_frees_acknowledged_prefix[OF demo_reach r, of "\<lambda>_. True" "At 8000" 0] demo_facts u f
    by (simp add: Let_def word_le_nat_alt)
qed

lemma demo_reach2: "reach demo_content (new_world demo_config (At 0) True) demo_w2"
proof -
  let ?r = "reach demo_content (new_world demo_config (At 0) True)"
  have "?r demo_w0" unfolding demo_w0_def by (rule reach_start)
  then have "?r demo_w1" by (rule reach_step[OF _ _ demo_step1]) (simp add: demo_w0_def new_world_def)
  then show "?r demo_w2" by (rule reach_step[OF _ _ demo_step2]) (simp add: demo_ack_def empty_frame_def)
qed

theorem send_only_wanted_bytes_witness:
  "\<exists>s'. trySend (\<lambda>_. True) (At 6000) (w_s demo_w2) = (True, s') \<and>
     (\<exists>i off payload es. st_out s' = st_out (w_s demo_w2) @ Eff_Write i (M_Data off 6 payload) # es \<and> i \<in> p_id ` set (st_paths (w_s demo_w2)))"
proof -
  obtain s' where s': "trySend (\<lambda>_. True) (At 6000) (w_s demo_w2) = (True, s')"
    by (simp add: demo_world_simps trySend_def trySend_locked_def pickData_single minInflightCap_def maxFramePayload_def
        fresh_len_def)
  have "sendTs (w_s demo_w2) (At 6000) = 6"
    by (simp add: demo_state Let_def sendTs_def microsecond_def quot_def min_duration_def max_duration_def sgn_if)
  then show ?thesis using send_only_wanted_bytes[OF demo_reach2 s'] s' by (auto simp: Let_def)
qed

theorem write_queues_prefix_witness:
  "\<exists>res s'. stream_write [1, 2] (w_s demo_w5) = (res, s') \<and> queued s' = queued (w_s demo_w5) @ take (taken res) [1, 2] \<and>
     outstanding s' \<le> cf_sendBufCap (st_cfg s')"
proof -
  obtain res s' where r: "stream_write [1, 2] (w_s demo_w5) = (res, s')" by fastforce
  have o: "outstanding (w_s demo_w5) \<le> cf_sendBufCap (st_cfg (w_s demo_w5))"
    by (simp add: outstanding_def i64_of_u64_def demo_state Let_def demo_config_def norm_config_def windowCap_def)
  show ?thesis using write_queues_prefix[OF demo_reach _ r o] r demo_facts by auto
qed

theorem send_pump_terminates_witness:
  "fst (send_pass (\<lambda>_. True) (replicate 8 (At 9000)) (w_s demo_w5)) = False"
  by (rule send_pump_terminates[OF demo_reach]) (simp add: demo_state Let_def)

end
