(* ===== verification/Stream_Pair.thy ===== *)
theory Stream_Pair
  imports Stream_Props
begin

text \<open>
  The two ends of an aggregate stream together. Every message that reaches one end on a path is one the other
  end has written to it; messages of different paths overtake each other, paths break at any time. Both ends run
  the operations of \<open>Stream_Run\<close>. What either end reads is what the other has written, and neither end ever
  hurts the other: no frame makes the reorder buffer panic and no ACK is a violation, because retransmission
  never cuts a frame at a new place.
\<close>

section \<open>Places where no frame is cut\<close>

definition span_of :: "u64 \<times> bytes \<Rightarrow> nat \<times> nat" where
  "span_of f = (unat (fst f), unat (fst f) + length (snd f))"

text \<open>No frame of \<open>F\<close> has bytes on both sides of \<open>n\<close>.\<close>

definition spares :: "(nat \<times> nat) set \<Rightarrow> nat \<Rightarrow> bool" where
  "spares F n \<longleftrightarrow> (\<forall>x \<in> F. snd x \<le> n \<or> n \<le> fst x)"

definition apart :: "(nat \<times> nat) set \<Rightarrow> bool" where
  "apart F \<longleftrightarrow> (\<forall>x \<in> F. fst x < snd x \<and> spares F (fst x) \<and> spares F (snd x))"

definition ranges_spare :: "(nat \<times> nat) set \<Rightarrow> brange list \<Rightarrow> bool" where
  "ranges_spare F rs \<longleftrightarrow> (\<forall>r \<in> set rs. spares F (unat (br_start r)) \<and> spares F (unat (br_end r)))"

lemma spares_simps [simp]: "spares {} n" "spares (insert x F) n \<longleftrightarrow> (snd x \<le> n \<or> n \<le> fst x) \<and> spares F n"
  by (auto simp: spares_def)

lemma spares_mono: "spares F n \<Longrightarrow> G \<subseteq> F \<Longrightarrow> spares G n"
  by (auto simp: spares_def)

lemma spares_beyond: "(\<And>x. x \<in> F \<Longrightarrow> snd x \<le> n) \<Longrightarrow> spares F n"
  by (simp add: spares_def)

lemma ranges_spare_simps [simp]:
  "ranges_spare F []" "ranges_spare {} rs"
  "ranges_spare F (r # rs) \<longleftrightarrow> spares F (unat (br_start r)) \<and> spares F (unat (br_end r)) \<and> ranges_spare F rs"
  by (auto simp: ranges_spare_def)

lemma ranges_spare_take: "ranges_spare F rs \<Longrightarrow> ranges_spare F (take n rs)"
  by (auto simp: ranges_spare_def dest: in_set_takeD)

lemma apartD: "apart F \<Longrightarrow> x \<in> F \<Longrightarrow> fst x < snd x \<and> spares F (fst x) \<and> spares F (snd x)"
  by (simp add: apart_def)

text \<open>Two frames are the same or have no byte in common, and a new one beyond all others keeps it so.\<close>

lemma apart_eq:
  assumes "apart F" "x \<in> F" "y \<in> F"
  shows "x = y \<or> snd x \<le> fst y \<or> snd y \<le> fst x"
proof -
  have "snd y \<le> fst x \<or> fst x \<le> fst y" "snd y \<le> snd x \<or> snd x \<le> fst y"
    using apartD[OF assms(1,2)] assms(3) by (simp_all add: spares_def)
  moreover have "snd x \<le> fst y \<or> fst y \<le> fst x" "snd x \<le> snd y \<or> snd y \<le> fst x"
    using apartD[OF assms(1,3)] assms(2) by (simp_all add: spares_def)
  ultimately show ?thesis by (auto simp: prod_eq_iff)
qed

lemma apart_insert:
  assumes "apart F" "fst x < snd x" "\<And>y. y \<in> F \<Longrightarrow> snd y \<le> fst x"
  shows "apart (insert x F)"
proof -
  have "spares F (fst x)" "spares F (snd x)" using assms(2,3) by (force intro: spares_beyond)+
  moreover have "snd y \<le> fst x \<and> fst y \<le> fst x" if "y \<in> F" for y
    using apartD[OF assms(1) that] assms(3)[OF that] by simp
  ultimately show ?thesis using assms(1,2) by (simp add: apart_def)
qed

text \<open>The endpoints of merged ranges are endpoints of the ranges that were merged.\<close>

definition ends_in :: "u64 set \<Rightarrow> u64 set \<Rightarrow> brange list \<Rightarrow> bool" where
  "ends_in A B rs \<longleftrightarrow> br_start ` set rs \<subseteq> A \<and> br_end ` set rs \<subseteq> B"

lemma merge_step_ends: "ends_in A B out \<Longrightarrow> br_start r \<in> A \<Longrightarrow> br_end r \<in> B \<Longrightarrow> ends_in A B (merge_step out r)"
  by (cases out rule: rev_cases) (simp_all add: merge_step_def ends_in_def)

lemma merge_ends: "ends_in A B rs \<Longrightarrow> ends_in A B (merge_ranges rs)"
proof -
  have "ends_in A B rs \<Longrightarrow> ends_in A B out \<Longrightarrow> ends_in A B (foldl merge_step out rs)" for out
  proof (induction rs arbitrary: out)
    case (Cons r rs)
    then have "ends_in A B (merge_step out r)" "ends_in A B rs"
      using merge_step_ends[of A B out r] by (simp_all add: ends_in_def)
    then show ?case using Cons.IH by simp
  qed simp
  moreover have "ends_in A B []" by (simp add: ends_in_def)
  ultimately show "ends_in A B rs \<Longrightarrow> ends_in A B (merge_ranges rs)" by (simp add: merge_ranges_def)
qed

lemma ranges_spare_ends: "ranges_spare F rs \<longleftrightarrow> ends_in {x. spares F (unat x)} {x. spares F (unat x)} rs"
  by (auto simp: ranges_spare_def ends_in_def)

lemma normalize_spares: "ranges_spare F rs \<Longrightarrow> ranges_spare F (normalize_ranges rs)"
proof -
  assume "ranges_spare F rs"
  then have "ends_in {x. spares F (unat x)} {x. spares F (unat x)} (sort_ranges rs)"
    by (simp add: ranges_spare_ends sort_ranges_def ends_in_def)
  from merge_ends[OF this] \<open>ranges_spare F rs\<close> show ?thesis by (simp add: ranges_spare_ends normalize_ranges_def)
qed

text \<open>A segment that no reported range cuts is a hole as a whole, or none at all.\<close>

lemma first_hole_whole:
  "first_hole cur e rs = (a, b) \<Longrightarrow> a < b \<Longrightarrow> ranges_spare {(unat cur, unat e)} rs \<Longrightarrow> a = cur \<and> b = e"
  by (induction cur e rs rule: first_hole.induct)
    (auto simp: word_le_nat_alt word_less_nat_alt min_def unsigned_word_eqI split: if_splits)

section \<open>What one end shows of itself\<close>

record shown =
  sh_segs :: "(u64 \<times> bytes) list"
  sh_sent :: u64
  sh_cum :: u64
  sh_ranges :: "brange list"
  sh_got :: bool
  sh_peerSeq :: u64
  sh_frames :: "(u64 \<times> bytes) list"
  sh_held :: "(u64 \<times> bytes) set"
  sh_next :: u64
  sh_seq :: u64
  sh_acks :: "(u64 \<times> u64 \<times> brange list) list"

definition shown_of :: "stream \<Rightarrow> shown" where
  "shown_of s =
     \<lparr>sh_segs = map (\<lambda>g. (ss_off g, ss_data g)) (st_unacked s), sh_sent = st_sentOff s, sh_cum = st_cumAcked s,
      sh_ranges = st_peerRanges s, sh_got = st_gotPeerAck s, sh_peerSeq = st_peerAckSeq s,
      sh_frames = data_writes (st_out s),
      sh_held = (\<lambda>g. (seg_off g, seg_data g)) ` set (rb_segs (st_rbuf s)), sh_next = rb_next (st_rbuf s),
      sh_seq = st_ackSeq s, sh_acks = ack_writes (st_out s)\<rparr>"

definition spans :: "shown \<Rightarrow> (nat \<times> nat) set" where
  "spans a = span_of ` set (sh_frames a)"

lemma spans_simps [simp]:
  "spans (a\<lparr>sh_frames := sh_frames a @ [f]\<rparr>) = insert (span_of f) (spans a)"
  "spans (a\<lparr>sh_segs := x1\<rparr>) = spans a" "spans (a\<lparr>sh_sent := x2\<rparr>) = spans a" "spans (a\<lparr>sh_cum := x3\<rparr>) = spans a"
  "spans (a\<lparr>sh_ranges := x4\<rparr>) = spans a" "spans (a\<lparr>sh_got := x5\<rparr>) = spans a" "spans (a\<lparr>sh_peerSeq := x6\<rparr>) = spans a"
  "spans (a\<lparr>sh_held := x7\<rparr>) = spans a" "spans (a\<lparr>sh_next := x8\<rparr>) = spans a" "spans (a\<lparr>sh_seq := x9\<rparr>) = spans a"
  "spans (a\<lparr>sh_acks := x10\<rparr>) = spans a"
  by (simp_all add: spans_def)

text \<open>
  Of the sender \<open>a\<close>: its frames are apart, end where it has got to, are not too long; what it keeps for
  retransmission are whole frames, and what the peer has reported cuts none of them.
\<close>

definition sender_ok :: "shown \<Rightarrow> bool" where
  "sender_ok a \<longleftrightarrow> apart (spans a) \<and> (\<forall>x \<in> spans a. snd x \<le> unat (sh_sent a) \<and> snd x \<le> fst x + maxFramePayload) \<and>
     span_of ` set (sh_segs a) \<subseteq> spans a \<and> ranges_spare (spans a) (sh_ranges a) \<and>
     ends_in {..sh_sent a} {..sh_sent a} (sh_ranges a)"

text \<open>Of an ACK that the receiver \<open>b\<close> wrote: it does not cut a frame of \<open>a\<close>, and does not report what \<open>a\<close> has not sent.\<close>

definition ack_fair :: "shown \<Rightarrow> u64 \<times> u64 \<times> brange list \<Rightarrow> bool" where
  "ack_fair a m = (case m of (sq, cum, rs) \<Rightarrow>
     spares (spans a) (unat cum) \<and> ranges_spare (spans a) rs \<and> cum \<le> sh_sent a \<and>
     (\<forall>r \<in> set rs. valid_range r \<and> cum < br_start r \<and> br_end r \<le> sh_sent a) \<and> length rs \<le> maxAckRanges)"

definition later :: "u64 \<times> u64 \<times> brange list \<Rightarrow> u64 \<times> u64 \<times> brange list \<Rightarrow> bool" where
  "later m m' \<longleftrightarrow> fst m < fst m' \<and> fst (snd m) \<le> fst (snd m')"

text \<open>
  Of the receiver \<open>b\<close> of what \<open>a\<close> sends: it holds whole frames and has delivered whole frames, its ACKs are
  numbered and grow, and what \<open>a\<close> knows is what one of them said.
\<close>

definition receiver_ok :: "shown \<Rightarrow> shown \<Rightarrow> bool" where
  "receiver_ok a b \<longleftrightarrow> sh_next b \<le> sh_sent a \<and> spares (spans a) (unat (sh_next b)) \<and>
     span_of ` sh_held b \<subseteq> spans a \<and>
     (\<forall>m \<in> set (sh_acks b). ack_fair a m \<and> fst m < sh_seq b \<and> fst (snd m) \<le> sh_next b) \<and>
     sorted_wrt later (sh_acks b) \<and>
     (if sh_got a then \<exists>rs. (sh_peerSeq a, sh_cum a, rs) \<in> set (sh_acks b) else sh_cum a = 0)"

definition linked :: "shown \<Rightarrow> shown \<Rightarrow> bool" where
  "linked a b \<longleftrightarrow> sender_ok a \<and> receiver_ok a b"

section \<open>Operations that show nothing new\<close>

lemma shown_small [simp]:
  "shown_of (triggerAck s) = shown_of s" "shown_of (wakeSend s) = shown_of s"
  "shown_of (s\<lparr>st_rerr := x\<rparr>) = shown_of s" "shown_of (s\<lparr>st_paths := ps\<rparr>) = shown_of s"
  "shown_of (s\<lparr>st_ackCh := b\<rparr>) = shown_of s" "shown_of (s\<lparr>st_sendWake := b\<rparr>) = shown_of s"
  "shown_of (s\<lparr>st_finRecv := b\<rparr>) = shown_of s"
  by (simp_all add: shown_of_def triggerAck_def wakeSend_def)

lemma shown_emit: "data_writes es = [] \<Longrightarrow> ack_writes es = [] \<Longrightarrow> shown_of (emit es s) = shown_of s"
  by (simp add: shown_of_def emit_def)

lemma shown_remove_path [simp]: "shown_of (remove_path i s) = shown_of s"
  using orphan_bytes[of i "st_unacked s"] by (simp add: shown_of_def) (simp add: remove_path_def)

lemma shown_shutdown [simp]: "shown_of (shutdown e s) = shown_of s"
  by (simp add: shutdown_def shown_of_def emit_def)

lemma shown_close [simp]: "shown_of (stream_close s) = shown_of s"
  by (simp add: stream_close_def shown_of_def emit_def)

lemma shown_drop_path [simp]: "shown_of (drop_path wr i c b s) = shown_of s"
  by (rule drop_path_rule[where P = "\<lambda>q. shown_of q = shown_of s"]) (simp_all add: shown_emit)

lemma shown_drop_all [simp]: "shown_of (foldl (\<lambda>s i. drop_path wr i c b s) s is) = shown_of s"
  by (induction "is" arbitrary: s) simp_all

lemma shown_write: "stream_write b s = (res, s') \<Longrightarrow> shown_of s' = shown_of s"
proof -
  assume run: "stream_write b s = (res, s')"
  have "\<exists>t b'. shown_of s' = shown_of s \<and> write_stop res t b' s'"
    by (rule write_loop_rule[OF run[unfolded stream_write_def], where P = "\<lambda>_ _ q. shown_of q = shown_of s"])
      (simp_all add: shown_of_def enqueue_def wakeSend_def)
  then show ?thesis by blast
qed

lemma shown_read: "stream_read room s = (res, s') \<Longrightarrow> shown_of s' = shown_of s"
  by (auto simp: stream_read_def shown_of_def triggerAck_def rb_read_def Let_def
      split: if_splits option.splits prod.splits)

lemma shown_ping [simp]: "shown_of (send_ping wr i b t s) = shown_of s"
  by (simp add: send_ping_def Let_def shown_emit)

lemma shown_telemetry [simp]: "shown_of (send_telemetry wr rates s) = shown_of s"
  by (simp add: send_telemetry_def Let_def shown_emit split: option.split)

lemma shown_ctrl [simp]: "shown_of (snd (writeCtrl wr ft body s)) = shown_of s"
  by (rule writeCtrl_rule[where P = "\<lambda>q. shown_of q = shown_of s"]) (simp_all add: shown_emit)

lemma shown_removePath [simp]: "shown_of (snd (removePath wr i s)) = shown_of s"
  by (simp add: removePath_def)

lemma shown_attach: "attachPath now p s = (e, s') \<Longrightarrow> shown_of s' = shown_of s"
  by (auto simp: attachPath_def Let_def wakeSend_def emit_def shown_of_def split: if_splits)

lemma shown_reserve:
  "reserveLocalPathID s = Inr (i, s') \<Longrightarrow> shown_of s' = shown_of s"
  "reserveRemotePathID j s = (b, s') \<Longrightarrow> shown_of s' = shown_of s"
  by (auto simp: reserveLocalPathID_def reserveRemotePathID_def shown_of_def split: if_splits)

lemma soft_fail_bytes:
  "soft_fail_segs rs now ts gs ps = (gs', ps', m) \<Longrightarrow>
   map (\<lambda>g. (ss_off g, ss_data g)) gs' = map (\<lambda>g. (ss_off g, ss_data g)) gs"
proof (induction gs arbitrary: ps gs' ps' m)
  case (Cons g gs)
  obtain g1 ps1 m1 where one: "soft_fail_seg rs now ts g ps = (g1, ps1, m1)" by (metis prod_cases3)
  obtain gs2 m2 where rest: "soft_fail_segs rs now ts gs ps1 = (gs2, ps', m2)" "gs' = g1 # gs2"
    using Cons.prems(1) by (simp add: one split: prod.splits)
  show ?case using Cons.IH[OF rest(1)] soft_fail_seg_same(1,2)[OF one] rest(2) by simp
qed simp

lemma shown_softFail: "checkSoftFail now s = (drops, moved, s') \<Longrightarrow> shown_of s' = shown_of s"
  by (auto simp: checkSoftFail_def shown_of_def soft_fail_bytes split: prod.splits)

lemma shown_windowCap [simp]: "shown_of (updateWindowCap s) = shown_of s"
  by (simp add: updateWindowCap_def set_window_cap_def Let_def shown_of_def triggerAck_def rb_setCap_def)

lemma shown_tick: "shown_of (onTick wr now s) = shown_of s"
proof (cases "st_closed s")
  case False
  let ?ticks = "map (tick_path (0 < st_pendingBytes s \<or> st_unacked s \<noteq> []) now) (st_paths s)"
  obtain drops moved q where sf: "checkSoftFail now (updateWindowCap (s\<lparr>st_paths := map fst ?ticks\<rparr>)) = (drops, moved, q)"
    by (metis prod_cases3)
  have "shown_of q = shown_of s" using shown_softFail[OF sf] by simp
  then show ?thesis using False sf
    by (simp add: onTick_def Let_def shown_emit)
qed (simp add: onTick_def)

section \<open>Sending a frame\<close>

text \<open>The new frame is one that was sent before, as a whole, or lies beyond all of them.\<close>

lemma split_resend_whole:
  assumes "k < length gs" "hs = ss_off (gs ! k)" "n = length (ss_data (gs ! k))"
  shows "map (\<lambda>g. (ss_off g, ss_data g)) (split_resend gs k hs n i now) = map (\<lambda>g. (ss_off g, ss_data g)) gs"
proof -
  have "map f gs = map f (take k gs) @ f (gs ! k) # map f (drop (Suc k) gs)" for f :: "sseg \<Rightarrow> u64 \<times> bytes"
    using id_take_nth_drop[OF assms(1)] by (metis list.simps(9) map_append)
  then show ?thesis using assms(2,3) by (simp add: split_resend_def split_parts_def)
qed

lemma resend_whole:
  assumes inv: "send_inv W s" and ok: "sender_ok (shown_of s)"
    and nr: "next_resend (st_peerRanges s) 0 (st_unacked s) = (gs, Some (k, hs, he))"
    and t: "take_resend k hs he gs = (off, payload)"
  shows "k < length gs" "off = ss_off (gs ! k)" "payload = ss_data (gs ! k)" "(off, payload) \<in> set (sh_segs (shown_of s))"
proof -
  note f = next_resend_facts[OF nr, simplified]
  have k: "k < length gs" "(hs, he) = first_hole (ss_off (gs ! k)) (sseg_end (gs ! k)) (st_peerRanges s)" "hs < he"
    using f by simp_all
  let ?g = "gs ! k"
  have segs: "sh_segs (shown_of s) = map (\<lambda>g. (ss_off g, ss_data g)) gs" using f by (simp add: shown_of_def)
  then have g: "(ss_off ?g, ss_data ?g) \<in> set (sh_segs (shown_of s))" using k(1) by simp
  then have sp: "span_of (ss_off ?g, ss_data ?g) \<in> spans (shown_of s)" using ok by (auto simp: sender_ok_def)
  then have len: "length (ss_data ?g) \<le> maxFramePayload" using ok by (force simp: sender_ok_def span_of_def)
  have v: "length W < 2 ^ 63" "unat (st_sentOff s) \<le> length W" "tiling W (unat (st_cumAcked s)) gs (unat (st_sentOff s))"
    using send_invD(1,2,3)[OF next_resend_inv[OF inv nr]] by simp_all
  note seg = tiling_member[OF v(3) nth_mem[OF k(1)]]
  have e: "unat (sseg_end ?g) = unat (ss_off ?g) + length (ss_data ?g)" using seg v(1) by (intro sseg_end_nat) simp
  have "ranges_spare {(unat (ss_off ?g), unat (sseg_end ?g))} (st_peerRanges s)"
    using ok sp e spares_mono[of "spans (shown_of s)" _ "{(unat (ss_off ?g), unat (sseg_end ?g))}"]
    by (auto simp: sender_ok_def ranges_spare_def span_of_def shown_of_def)
  from first_hole_whole[OF k(2)[symmetric] k(3) this] have h: "hs = ss_off ?g" "he = sseg_end ?g" by simp_all
  note tr = take_resend_facts[OF v(3,2,1) k(1,2,3) t]
  have n: "length payload = length (ss_data ?g)" using tr(2) h e len by simp
  have "payload = take (unat (min he (hs + of_nat maxFramePayload) - hs)) (drop (unat (hs - ss_off ?g)) (ss_data ?g))"
    using t by (auto simp: take_resend_def Let_def)
  then obtain m where m: "payload = take m (ss_data ?g)" by (simp add: h)
  then have "length (ss_data ?g) \<le> m" using n by simp
  then have p: "payload = ss_data ?g" using m by simp
  show "k < length gs" "off = ss_off ?g" "payload = ss_data ?g" using k(1) tr(1) h p by simp_all
  then show "(off, payload) \<in> set (sh_segs (shown_of s))" using g by simp
qed

definition sends :: "shown \<Rightarrow> u64 \<times> bytes \<Rightarrow> shown \<Rightarrow> bool" where
  "sends a f a' \<longleftrightarrow>
     f \<in> set (sh_segs a) \<and> a' = a\<lparr>sh_frames := sh_frames a @ [f]\<rparr> \<or>
     (\<exists>n. fst f = sh_sent a \<and> snd f \<noteq> [] \<and> length (snd f) \<le> maxFramePayload \<and> unat n = unat (sh_sent a) + length (snd f) \<and>
        a' = a\<lparr>sh_segs := sh_segs a @ [f], sh_sent := n, sh_frames := sh_frames a @ [f]\<rparr>)"

lemma shown_emit_frame:
  "shown_of (emit [Eff_Write i (M_Data off ts p)] s) = (shown_of s)\<lparr>sh_frames := sh_frames (shown_of s) @ [(off, p)]\<rparr>"
  by (simp add: shown_of_def emit_def)

lemma shown_trySend_locked:
  assumes inv: "send_inv W s" and ok: "sender_ok (shown_of s)" and run: "trySend_locked now s = (r, q)"
  shows "case r of None \<Rightarrow> shown_of q = shown_of s
    | Some (i, off, payload) \<Rightarrow> sends (shown_of s) (off, payload) (shown_of (emit [Eff_Write i (M_Data off ts payload)] q))"
proof -
  obtain gs hole where nr: "next_resend (st_peerRanges s) 0 (st_unacked s) = (gs, hole)" by fastforce
  let ?s = "s\<lparr>st_unacked := gs\<rparr>"
  have v: "shown_of ?s = shown_of s" using next_resend_facts[OF nr] by (simp add: shown_of_def)
  show ?thesis
  proof (cases "st_closed s \<or> st_werr s \<noteq> None \<or> \<not> st_gotWindow s")
    case True
    then show ?thesis using run by (auto simp: trySend_locked_def)
  next
    case go: False
    show ?thesis
    proof (cases hole)
      case (Some h)
      obtain k hs he where h: "hole = Some (k, hs, he)" using Some by (metis prod_cases3)
      obtain off payload where t: "take_resend k hs he gs = (off, payload)" by fastforce
      note w = resend_whole[OF inv ok nr[unfolded h] t]
      have "shown_of (commit_resend k off payload i now ?s) = shown_of s" for i
        using split_resend_whole[OF w(1,2), of "length payload" i now] w(3) v
        by (simp add: commit_resend_def Let_def shown_of_def)
      then have c: "shown_of (emit [Eff_Write i (M_Data off ts payload)] (commit_resend k off payload i now ?s)) =
          (shown_of s)\<lparr>sh_frames := sh_frames (shown_of s) @ [(off, payload)]\<rparr>" for i
        by (simp add: shown_emit_frame)
      have eq: "trySend_locked now s = (case pickData (st_paths s) (int (length payload)) now of
          None \<Rightarrow> (None, ?s) | Some p \<Rightarrow> (Some (p_id p, off, payload), commit_resend k off payload (p_id p) now ?s))"
        using go nr h t by (simp add: trySend_locked_def Let_def cong: option.case_cong)
      show ?thesis
      proof (cases "pickData (st_paths s) (int (length payload)) now")
        case None
        then show ?thesis using run eq v by auto
      next
        case (Some p)
        then have "r = Some (p_id p, off, payload)" "q = commit_resend k off payload (p_id p) now ?s" using run eq by auto
        then show ?thesis using c w(4) by (simp add: sends_def)
      qed
    next
      case None
      show ?thesis
      proof (cases "st_pendingBytes s = 0 \<or> st_advWindow s \<le> st_sentOff s - st_cumAcked s")
        case True
        then show ?thesis using run go nr None v by (auto simp: trySend_locked_def)
      next
        case room: False
        define payload where "payload = take (fresh_len s) (drop (st_qHead s) (hd (st_sendQ s)))"
        have fl: "fresh_len ?s = fresh_len s" by (simp add: fresh_len_def)
        have eq: "trySend_locked now s = (case pickData (st_paths s) (int (length payload)) now of
            None \<Rightarrow> (None, ?s)
          | Some p \<Rightarrow> (Some (p_id p, st_sentOff s, payload), commit_fresh payload (p_id p) now ?s))"
          using go nr None room unfolding trySend_locked_def payload_def
          by (simp add: Let_def fl cong: option.case_cong)
        show ?thesis
        proof (cases "pickData (st_paths s) (int (length payload)) now")
          case None
          then show ?thesis using run eq v by auto
        next
          case (Some p)
          have res: "r = Some (p_id p, st_sentOff s, payload)" "q = commit_fresh payload (p_id p) now ?s"
            using run eq Some by auto
          have pre: "st_pendingBytes ?s \<noteq> 0" "\<not> st_advWindow ?s \<le> st_sentOff ?s - st_cumAcked ?s"
            "payload = take (fresh_len ?s) (drop (st_qHead ?s) (hd (st_sendQ ?s)))" "p_id p \<in> p_id ` set (st_paths ?s)"
            using room pickData_id[OF Some] by (simp_all add: payload_def fl)
          note c = commit_fresh_inv[OF next_resend_inv[OF inv nr] pre]
          have "shown_of q = (shown_of s)\<lparr>sh_segs := sh_segs (shown_of s) @ [(st_sentOff s, payload)], sh_sent := st_sentOff q\<rparr>"
            using v by (simp add: res(2) commit_fresh_def Let_def shown_of_def)
          moreover have "unat (st_sentOff q) = unat (st_sentOff s) + length payload" using c(4) res(2) by simp
          moreover have "payload \<noteq> []" "length payload \<le> maxFramePayload" using c(2) by (simp_all add: frame_of_def)
          moreover have "sh_sent (shown_of s) = st_sentOff s" by (simp add: shown_of_def)
          ultimately show ?thesis using res(1) by (auto simp: sends_def shown_emit_frame)
        qed
      qed
    qed
  qed
qed

section \<open>The links between the ends\<close>

text \<open>Sending: both the link on which this end sends and the one on which it receives hold on.\<close>

lemma ack_fair_grow:
  assumes "ack_fair a m" "spans a' \<subseteq> insert x (spans a)" "unat (sh_sent a) \<le> fst x" "sh_sent a \<le> sh_sent a'"
  shows "ack_fair a' m"
proof -
  obtain sq cum rs where m: "m = (sq, cum, rs)" by (metis prod_cases3)
  note f = assms(1)[unfolded ack_fair_def m, simplified]
  have s: "spares (spans a') n" if "spares (spans a) n" "n \<le> unat (sh_sent a)" for n
    using that assms(2,3) spares_mono[of "insert x (spans a)"] by simp
  have "spares (spans a') (unat cum)" using s f by (simp add: word_le_nat_alt)
  moreover have "spares (spans a') (unat (br_start r)) \<and> spares (spans a') (unat (br_end r))" if "r \<in> set rs" for r
  proof -
    have "unat (br_start r) \<le> unat (br_end r)" "unat (br_end r) \<le> unat (sh_sent a)"
      using f that by (auto simp: valid_range_def word_less_nat_alt word_le_nat_alt)
    then show ?thesis using s f that by (auto simp: ranges_spare_def)
  qed
  ultimately show ?thesis
    using f assms(4) by (auto simp: ack_fair_def m ranges_spare_def intro: order_trans)
qed

lemma linked_cong:
  assumes "spans a' = spans a" "sh_segs a' = sh_segs a" "sh_sent a' = sh_sent a" "sh_ranges a' = sh_ranges a"
    "sh_got a' = sh_got a" "sh_cum a' = sh_cum a" "sh_peerSeq a' = sh_peerSeq a"
  shows "linked a' b = linked a b"
proof -
  have "ack_fair a' = ack_fair a" unfolding ack_fair_def fun_eq_iff assms(1,3) by simp
  then show ?thesis unfolding linked_def sender_ok_def receiver_ok_def assms by simp
qed

lemma ranges_spare_grow:
  assumes "ranges_spare F rs" "ends_in {..m} {..m} rs" "unat m \<le> fst x"
  shows "ranges_spare (insert x F) rs"
  using assms by (fastforce simp: ranges_spare_def ends_in_def image_subset_iff word_le_nat_alt)

lemma linked_sends:
  assumes "linked a b" "sends a f a'"
  shows "linked a' b"
proof (cases "f \<in> set (sh_segs a) \<and> a' = a\<lparr>sh_frames := sh_frames a @ [f]\<rparr>")
  case True
  then have "span_of f \<in> spans a" using assms(1) by (auto simp: linked_def sender_ok_def)
  then have "spans a' = spans a" using True by auto
  then show ?thesis using assms(1) linked_cong[of a' a b] True by simp
next
  case False
  then obtain n where f: "fst f = sh_sent a" "snd f \<noteq> []" "length (snd f) \<le> maxFramePayload"
    "unat n = unat (sh_sent a) + length (snd f)"
    and a': "a' = a\<lparr>sh_segs := sh_segs a @ [f], sh_sent := n, sh_frames := sh_frames a @ [f]\<rparr>"
    using assms(2) unfolding sends_def by blast
  have s: "sender_ok a" and r: "receiver_ok a b" using assms(1) by (simp_all add: linked_def)
  have x: "fst (span_of f) = unat (sh_sent a)" "snd (span_of f) = unat n" using f by (simp_all add: span_of_def)
  have le: "sh_sent a \<le> n" using f(4) by (simp add: word_le_nat_alt)
  have ends: "snd y \<le> unat (sh_sent a)" if "y \<in> spans a" for y using s that by (simp add: sender_ok_def)
  have sp: "spans a' = insert (span_of f) (spans a)" by (simp add: a' spans_def)
  have "apart (spans a')"
    unfolding sp using s f(2,4) ends x by (intro apart_insert) (simp_all add: sender_ok_def)
  moreover have "ranges_spare (spans a') (sh_ranges a)"
    unfolding sp using s x by (intro ranges_spare_grow[where m = "sh_sent a"]) (simp_all add: sender_ok_def)
  moreover have "ends_in {..n} {..n} (sh_ranges a)"
    using s le by (auto simp: sender_ok_def ends_in_def intro: order_trans)
  moreover have "\<forall>y \<in> spans a'. snd y \<le> unat n \<and> snd y \<le> fst y + maxFramePayload"
    using s f x le ends unfolding sp by (fastforce simp: sender_ok_def word_le_nat_alt)
  moreover have "span_of ` set (sh_segs a') \<subseteq> spans a'" using s unfolding sp by (simp add: a' sender_ok_def subset_insertI2)
  ultimately have s': "sender_ok a'" by (simp add: sender_ok_def a')
  have "sh_next b \<le> n" "unat (sh_next b) \<le> unat (sh_sent a)"
    using r le by (auto simp: receiver_ok_def word_le_nat_alt)
  then have "receiver_ok a' b"
    using r ack_fair_grow[of a _ a' "span_of f"] x le sp
    by (auto simp: receiver_ok_def a')
  then show ?thesis using s' by (simp add: linked_def)
qed

text \<open>What a receiver of whole frames reports.\<close>

lemma ack_of_whole:
  assumes r: "rb_inv r" and s: "sender_ok a" and held: "\<forall>g \<in> set (rb_segs r). span_of (seg_off g, seg_data g) \<in> spans a"
    and nx: "rb_next r \<le> sh_sent a" "spares (spans a) (unat (rb_next r))"
  shows "ack_fair a (sq, rb_next r, rb_ranges r (int maxAckRanges))"
proof -
  have g: "unat (seg_off g) + length (seg_data g) \<le> unat (sh_sent a)" "spares (spans a) (unat (seg_off g))"
    "spares (spans a) (unat (seg_off g) + length (seg_data g))" "rb_next r < seg_off g" if "g \<in> set (rb_segs r)" for g
    using held s r that apartD[of "spans a" "span_of (seg_off g, seg_data g)"]
    by (force simp: sender_ok_def span_of_def rb_inv_def)+
  have fits: "unat (seg_off g) + length (seg_data g) < 2 ^ 64" if "g \<in> set (rb_segs r)" for g
  proof -
    have "unat (sh_sent a) < 2 ^ 64" using unsigned_less[of "sh_sent a"] by simp
    then show ?thesis using g(1)[OF that] by simp
  qed
  then have "rb_fits r" by (simp add: rb_fits_def seg_fits_def)
  note n = all_ranges_normal(1)[OF r this]
  have e: "unat (br_end (seg_range g)) = unat (seg_off g) + length (seg_data g)" if "g \<in> set (rb_segs r)" for g
    using fits[OF that] by (simp add: seg_range_def unat_add_len)
  let ?A = "{x. spares (spans a) (unat x) \<and> rb_next r < x}" and ?B = "{x. spares (spans a) (unat x) \<and> x \<le> sh_sent a}"
  have "ends_in ?A ?B (map seg_range (rb_segs r))"
    using g e by (auto simp: ends_in_def word_le_nat_alt) (simp_all add: seg_range_def)
  then have "ends_in ?A ?B (sort_ranges (map seg_range (rb_segs r)))" by (simp add: ends_in_def sort_ranges_def)
  from merge_ends[OF this] have all: "ends_in ?A ?B (merge_ranges (sort_ranges (map seg_range (rb_segs r))))" .
  have sub: "\<exists>k. rb_ranges r (int maxAckRanges) = take k (merge_ranges (sort_ranges (map seg_range (rb_segs r))))"
    by (auto simp: rb_ranges_def intro: exI[of _ 0])
  then have "set (rb_ranges r (int maxAckRanges)) \<subseteq> set (merge_ranges (sort_ranges (map seg_range (rb_segs r))))"
    using set_take_subset by metis
  moreover have "list_all valid_range (merge_ranges (sort_ranges (map seg_range (rb_segs r))))" using n by (simp add: normal_def)
  ultimately have "br_start x \<in> ?A \<and> br_end x \<in> ?B \<and> valid_range x" if "x \<in> set (rb_ranges r (int maxAckRanges))" for x
    using all that unfolding ends_in_def list_all_iff by blast
  moreover have "length (rb_ranges r (int maxAckRanges)) \<le> maxAckRanges" by (simp add: rb_ranges_def)
  ultimately show ?thesis using nx by (auto simp: ack_fair_def ranges_spare_def)
qed

lemma shown_emit_ack:
  "shown_of (emit [Eff_Write i (ack_msg s)] (s\<lparr>st_freedSinceAck := 0, st_ackSeq := st_ackSeq s + 1\<rparr>)) =
   (shown_of s)\<lparr>sh_seq := sh_seq (shown_of s) + 1,
     sh_acks := sh_acks (shown_of s) @ [(sh_seq (shown_of s), sh_next (shown_of s), rb_ranges (st_rbuf s) (int maxAckRanges))]\<rparr>"
  by (simp add: shown_of_def emit_def ack_msg_def rb_cum_def)

lemma shown_skip_ack:
  "shown_of (s\<lparr>st_freedSinceAck := 0, st_ackSeq := st_ackSeq s + 1\<rparr>) = (shown_of s)\<lparr>sh_seq := sh_seq (shown_of s) + 1\<rparr>"
  by (simp add: shown_of_def)

lemma linked_skip:
  assumes "linked a b" "sh_seq b < sh_seq b + 1"
  shows "linked a (b\<lparr>sh_seq := sh_seq b + 1\<rparr>)"
proof -
  have "x < sh_seq b + 1" if "x < sh_seq b" for x using that assms(2) by (rule less_trans)
  then show ?thesis using assms(1) by (auto simp: linked_def receiver_ok_def)
qed

lemma linked_ack:
  assumes "linked a b" "sh_seq b < sh_seq b + 1" "ack_fair a (sh_seq b, sh_next b, rs)"
  shows "linked a (b\<lparr>sh_seq := sh_seq b + 1, sh_acks := sh_acks b @ [(sh_seq b, sh_next b, rs)]\<rparr>)"
proof -
  have "x < sh_seq b + 1" if "x < sh_seq b" for x using that assms(2) by (rule less_trans)
  then show ?thesis using assms
    by (auto simp: linked_def receiver_ok_def sorted_wrt_append later_def)
qed

text \<open>A whole frame arrives: no panic, and the buffer stays whole.\<close>

definition whole_buf :: "(nat \<times> nat) set \<Rightarrow> u64 \<Rightarrow> rbuf \<Rightarrow> bool" where
  "whole_buf F m r \<longleftrightarrow> spares F (unat (rb_next r)) \<and> rb_next r \<le> m \<and>
     (\<forall>g \<in> set (rb_segs r). span_of (seg_off g, seg_data g) \<in> F \<and> unat (rb_next r) \<le> seg_end g)"

lemma rb_add_whole:
  assumes inv: "rb_inv r" and F: "apart F" "\<forall>x \<in> F. snd x \<le> unat m" and r: "whole_buf F m r" and f: "span_of (off, d) \<in> F"
  shows "\<exists>r'. rb_add r off d = Inr r' \<and> whole_buf F m r' \<and> rb_next r \<le> rb_next r'"
proof -
  have top: "unat m < 2 ^ 64" using unsigned_less[of m] by simp
  have "case_sum (\<lambda>_. False) (\<lambda>r'. rb_inv r' \<and> whole_buf F m r' \<and> rb_next r \<le> rb_next r') (rb_add r off d)"
  proof (rule rb_add_rule[where P = "\<lambda>q. whole_buf F m q \<and> rb_next r \<le> rb_next q", OF inv])
    assume no: "\<not> (d = [] \<or> off + u64_of_len (length d) \<le> rb_next r)"
    have h: "heap_ordered seg_off (length (rb_segs r)) (rb_segs r)" using inv by (simp add: rb_inv_def rb_acct_def)
    have "unat off + length d \<le> unat m" using F(2) f by (force simp: span_of_def)
    then have "unat (off + u64_of_len (length d)) = unat off + length d" using top by (intro unat_add_len) simp
    then have "\<not> unat off + length d \<le> unat (rb_next r)" using no by (simp add: word_le_nat_alt)
    then have "unat (rb_next r) \<le> unat off" using r f by (force simp: whole_buf_def spares_def span_of_def)
    then have "max off (rb_next r) = off" "unat (rb_next r) - unat off = 0" by (auto simp: max_def word_le_nat_alt dest: unsigned_word_eqI)
    then have "set (rb_segs (pushed r off d)) = insert (mk_seg off d) (set (rb_segs r))" "rb_next (pushed r off d) = rb_next r"
      using pushed_set[OF h, of off d] by (simp_all add: pushed_def Let_def)
    then show "whole_buf F m (pushed r off d) \<and> rb_next r \<le> rb_next (pushed r off d)"
      using r f \<open>unat (rb_next r) \<le> unat off\<close> by (auto simp: whole_buf_def seg_end_def)
  next
    fix q s rest
    assume wq: "whole_buf F m q \<and> rb_next r \<le> rb_next q" and q: "seg_off s \<le> rb_next q" "set (rb_segs q) = insert s (set rest)"
      and least: "\<And>t. t \<in> set rest \<Longrightarrow> seg_off s \<le> seg_off t"
    have s: "span_of (seg_off s, seg_data s) \<in> F" "unat (rb_next q) \<le> seg_end s"
      using wq q by (auto simp: whole_buf_def)
    have e: "seg_end s \<le> unat m" using F(2) s(1) by (force simp: span_of_def seg_end_def)
    then have fits: "seg_fits s" using top by (simp add: seg_fits_def seg_end_def)
    have st: "stale q s \<le> length (seg_data s)" using s(2) by (simp add: stale_def seg_end_def)
    note nx = drained_next(1)[OF fits q(1) st, of rest]
    have "seg_end s \<le> seg_end t" if t: "t \<in> set rest" for t
    proof -
      have "span_of (seg_off t, seg_data t) \<in> F" using wq q t by (auto simp: whole_buf_def)
      then show ?thesis
        using apart_eq[OF F(1) s(1), of "span_of (seg_off t, seg_data t)"]
          apartD[OF F(1), of "span_of (seg_off t, seg_data t)"] least[OF t]
        by (auto simp: span_of_def seg_end_def word_le_nat_alt simp flip: length_greater_0_conv)
    qed
    moreover have "spares F (seg_end s)" using apartD[OF F(1) s(1)] by (simp add: span_of_def seg_end_def)
    ultimately have "whole_buf F m (drained q s rest)"
      using wq q nx e by (auto simp: whole_buf_def word_le_nat_alt)
    moreover have "rb_next r \<le> rb_next (drained q s rest)" using wq nx s(2) by (simp add: word_le_nat_alt)
    ultimately show "if stale q s \<le> length (seg_data s)
      then whole_buf F m (drained q s rest) \<and> rb_next r \<le> rb_next (drained q s rest) else False" using st by simp
  qed (use r in \<open>auto simp: whole_buf_def\<close>)
  then show ?thesis by (auto split: sum.splits)
qed

text \<open>An ACK of the other end arrives: at worst its number is too far ahead, and it frees whole frames only.\<close>

lemma free_acked_whole:
  assumes "free_acked cum now gs ps = (gs', ps')"
    and "\<forall>g \<in> set gs. unat (ss_off g) + length (ss_data g) < 2 ^ 64 \<and> spares {span_of (ss_off g, ss_data g)} (unat cum)"
  shows "set gs' \<subseteq> set gs"
  using assms
proof (induction gs arbitrary: ps)
  case (Cons g gs)
  have e: "unat (sseg_end g) = unat (ss_off g) + length (ss_data g)" using Cons.prems(2) by (intro sseg_end_nat) simp
  have "sseg_end g \<le> cum \<or> \<not> ss_off g < cum"
    using Cons.prems(2) e by (auto simp: span_of_def word_le_nat_alt word_less_nat_alt)
  then show ?case using Cons by (auto split: if_splits)
qed simp

lemma linked_ack_valid:
  assumes l: "linked a b" and m: "(sq, cum, rs) \<in> set (sh_acks b)" and new: "\<not> (sh_got a \<and> sq \<le> sh_peerSeq a)"
    and f: "f_cum f = cum" "f_seq f = sq" "f_ranges f = rs"
  shows "sh_cum a \<le> cum" and "validate_ack f (sh_sent a) (sh_cum a) (sh_peerSeq a) (sh_got a) \<in> {None, Some Ack_Seq}"
    and "validate_ack f (sh_sent a) (sh_cum a) (sh_peerSeq a) (sh_got a) = Some Ack_Seq \<Longrightarrow>
      maxAckSeqAdvance < sq - (if sh_got a then sh_peerSeq a else 0)"
proof -
  have fair: "ack_fair a (sq, cum, rs)" using l m by (auto simp: linked_def receiver_ok_def)
  show cum: "sh_cum a \<le> cum"
  proof (cases "sh_got a")
    case True
    then obtain rs' where old: "(sh_peerSeq a, sh_cum a, rs') \<in> set (sh_acks b)" and s: "sorted_wrt later (sh_acks b)"
      using l by (auto simp: linked_def receiver_ok_def)
    obtain i j where ij: "i < length (sh_acks b)" "j < length (sh_acks b)" "sh_acks b ! i = (sh_peerSeq a, sh_cum a, rs')"
      "sh_acks b ! j = (sq, cum, rs)" using old m by (auto simp: in_set_conv_nth)
    have lt: "sh_peerSeq a < sq" using new True by simp
    have "\<not> j < i" "j \<noteq> i" using sorted_wrt_nth_less[OF s, of j i] ij lt by (auto simp: later_def)
    then show ?thesis using sorted_wrt_nth_less[OF s, of i j] ij by (simp add: later_def)
  next
    case False
    then show ?thesis using l by (simp add: linked_def receiver_ok_def)
  qed
  have r: "\<not> list_ex (\<lambda>r. br_start r \<le> f_cum f \<or> sh_sent a < br_end r) (f_ranges f)" "\<not> sh_sent a < f_cum f"
    using fair f by (auto simp: ack_fair_def list_ex_iff)
  have "\<not> f_seq f < (if sh_got a then sh_peerSeq a else 0)" using new f by auto
  then show "validate_ack f (sh_sent a) (sh_cum a) (sh_peerSeq a) (sh_got a) \<in> {None, Some Ack_Seq}"
    "validate_ack f (sh_sent a) (sh_cum a) (sh_peerSeq a) (sh_got a) = Some Ack_Seq \<Longrightarrow>
      maxAckSeqAdvance < sq - (if sh_got a then sh_peerSeq a else 0)"
    using r cum f by (auto simp: validate_ack_def Let_def split: if_splits)
qed

lemma shown_apply_ack:
  assumes inv: "send_inv W s" and "linked (shown_of s) b" and "spares (spans (shown_of s)) (unat (f_cum f))"
    and "st_cumAcked s \<le> f_cum f"
  shows "\<exists>gs. set gs \<subseteq> set (sh_segs (shown_of s)) \<and>
    shown_of (apply_ack now f s) = (shown_of s)\<lparr>sh_segs := gs, sh_cum := f_cum f, sh_ranges := normalize_ranges (f_ranges f),
      sh_got := True, sh_peerSeq := f_seq f\<rparr>"
proof -
  define s1 where "s1 = (let s = s\<lparr>st_peerAckSeq := f_seq f, st_gotPeerAck := True\<rparr> in
    if f_tsPath f \<noteq> 0 \<and> f_tsEcho f \<noteq> 0
    then s\<lparr>st_paths := upd_path (f_tsPath f - 1) (noteRTT (echo_rtt (sendTs s now) (f_tsEcho f)) now (f_tsEcho f)) (st_paths s)\<rparr>
    else s)"
  define s2 where "s2 = (if st_cumAcked s1 < f_cum f then freeAcked now (s1\<lparr>st_cumAcked := f_cum f\<rparr>) else s1)"
  have eq: "apply_ack now f s =
      wakeSend (s2\<lparr>st_advWindow := f_window f, st_gotWindow := True, st_peerRanges := normalize_ranges (f_ranges f)\<rparr>)"
    by (simp add: apply_ack_def s2_def s1_def Let_def)
  have 1: "shown_of s1 = (shown_of s)\<lparr>sh_got := True, sh_peerSeq := f_seq f\<rparr>" "st_unacked s1 = st_unacked s" "st_cumAcked s1 = st_cumAcked s"
    by (simp_all add: s1_def Let_def shown_of_def)
  obtain gs ps where r: "free_acked (f_cum f) now (st_unacked s) (st_paths s1) = (gs, ps)" by fastforce
  have "spares {span_of (ss_off g, ss_data g)} (unat (f_cum f))" if "g \<in> set (st_unacked s)" for g
  proof -
    have "span_of (ss_off g, ss_data g) \<in> spans (shown_of s)" using assms(2) that
      by (auto simp: linked_def sender_ok_def shown_of_def)
    then show ?thesis using assms(3) by (simp add: spares_def)
  qed
  moreover have "unat (ss_off g) + length (ss_data g) < 2 ^ 64" if "g \<in> set (st_unacked s)" for g
    using tiling_member[OF send_invD(3)[OF inv] that] send_invD(1)[OF inv] by simp
  ultimately have sub: "set gs \<subseteq> set (st_unacked s)" by (intro free_acked_whole[OF r]) simp
  have "\<exists>gs. set gs \<subseteq> set (sh_segs (shown_of s)) \<and>
      shown_of s2 = (shown_of s)\<lparr>sh_segs := gs, sh_cum := f_cum f, sh_got := True, sh_peerSeq := f_seq f\<rparr>"
  proof (cases "st_cumAcked s < f_cum f")
    case True
    then have "shown_of s2 = (shown_of s1)\<lparr>sh_segs := map (\<lambda>g. (ss_off g, ss_data g)) gs, sh_cum := f_cum f\<rparr>"
      using r 1 by (simp add: s2_def freeAcked_def shown_of_def)
    then show ?thesis using sub 1(1) by (intro exI[of _ "map (\<lambda>g. (ss_off g, ss_data g)) gs"]) (auto simp: shown_of_def)
  next
    case False
    then have "f_cum f = st_cumAcked s" using assms(4) by simp
    then show ?thesis using False 1 by (intro exI[of _ "sh_segs (shown_of s)"]) (simp add: s2_def, simp add: shown_of_def)
  qed
  then obtain gs' where g: "set gs' \<subseteq> set (sh_segs (shown_of s))"
    "shown_of s2 = (shown_of s)\<lparr>sh_segs := gs', sh_cum := f_cum f, sh_got := True, sh_peerSeq := f_seq f\<rparr>" by blast
  have "shown_of (apply_ack now f s) = (shown_of s2)\<lparr>sh_ranges := normalize_ranges (f_ranges f)\<rparr>"
    by (simp add: eq) (simp add: shown_of_def)
  then show ?thesis using g by (intro exI[of _ gs']) simp
qed

lemma linked_apply:
  assumes l: "linked a b" and m: "(sq, cum, rs) \<in> set (sh_acks b)" and gs: "set gs \<subseteq> set (sh_segs a)"
  shows "linked (a\<lparr>sh_segs := gs, sh_cum := cum, sh_ranges := normalize_ranges rs, sh_got := True, sh_peerSeq := sq\<rparr>) b"
proof -
  have fair: "ack_fair a (sq, cum, rs)" using l m by (auto simp: linked_def receiver_ok_def)
  let ?a = "a\<lparr>sh_segs := gs, sh_cum := cum, sh_ranges := normalize_ranges rs, sh_got := True, sh_peerSeq := sq\<rparr>"
  have "ends_in {..sh_sent a} {..sh_sent a} rs"
    using fair by (force simp: ack_fair_def ends_in_def valid_range_def intro: order_trans less_imp_le)
  then have "ends_in {..sh_sent a} {..sh_sent a} (sort_ranges rs)" by (simp add: ends_in_def sort_ranges_def)
  from merge_ends[OF this] \<open>ends_in _ _ rs\<close> have "ends_in {..sh_sent a} {..sh_sent a} (normalize_ranges rs)"
    by (simp add: normalize_ranges_def)
  moreover have "ranges_spare (spans a) (normalize_ranges rs)"
    using fair by (intro normalize_spares) (simp add: ack_fair_def)
  moreover have "ack_fair ?a = ack_fair a" by (simp add: ack_fair_def fun_eq_iff)
  ultimately show ?thesis using l m gs by (auto simp: linked_def sender_ok_def receiver_ok_def)
qed

section \<open>Two ends\<close>

text \<open>
  What a message is when it arrives; the control messages of \<open>relaypath.go\<close> do not touch the stream here.
\<close>

fun input_of :: "msg \<Rightarrow> input" where
  "input_of (M_Data off ts p) = In_Data off ts p"
| "input_of (M_Ack cum echo pth wnd sq rs) = In_Ack (snd (decoded (W_Ack cum echo pth wnd sq rs)))"
| "input_of (M_Path_Drop i) = In_Path_Drop (Some i)"
| "input_of (M_Ping ts reply) = In_Ping (Some (ts, reply))"
| "input_of (M_Telemetry rates) = In_Telemetry (Some rates)"
| "input_of (M_Ctrl ft body) = In_Other"
| "input_of M_Fin = In_Fin"

text \<open>
  A step of one end: an operation of its own, the arrival of a message on a path, or the end of a path. A message
  may arrive at any time after it was written, and may be overtaken; that it may also arrive twice only adds runs.
\<close>

datatype end_op =
    Own sop
  | Arrives "u64 \<Rightarrow> bool" gotime u64 msg
  | Breaks "u64 \<Rightarrow> bool" gotime u64 frame_err

fun end_step :: "end_op \<Rightarrow> world \<Rightarrow> world run" where
  "end_step (Own x) w = sop_step x w"
| "end_step (Arrives wr now i m) w = sop_step (Do_Recv wr now i (input_of m)) w"
| "end_step (Breaks wr now i e) w = sop_step (Do_Recv wr now i (In_Error e)) w"

fun own_op :: "sop \<Rightarrow> bool" where
  "own_op (Do_Recv wr now i x) = False"
| "own_op x = True"

text \<open>The end \<open>w\<close> acts, \<open>v\<close> is the other one. ACKs are numbered with 64 bits, which do not run out.\<close>

fun end_ok :: "world \<Rightarrow> world \<Rightarrow> end_op \<Rightarrow> bool" where
  "end_ok v w (Own x) \<longleftrightarrow> own_op x \<and> sop_ok (\<lambda>_. 0) w x \<and>
     (case x of Do_Ack wr \<Rightarrow> unat (st_ackSeq (w_s w)) + length (st_paths (w_s w)) + 1 < 2 ^ 64 | _ \<Rightarrow> True)"
| "end_ok v w (Arrives wr now i m) \<longleftrightarrow> Eff_Write i m \<in> set (st_out (w_s v))"
| "end_ok v w (Breaks wr now i e) \<longleftrightarrow> True"

inductive pair_reach :: "world \<times> world \<Rightarrow> world \<times> world \<Rightarrow> bool" for p0 where
  pair_start: "pair_reach p0 p0"
| pair_left: "pair_reach p0 (a, b) \<Longrightarrow> end_ok b a x \<Longrightarrow> end_step x a = Inr a' \<Longrightarrow> pair_reach p0 (a', b)"
| pair_right: "pair_reach p0 (a, b) \<Longrightarrow> end_ok a b x \<Longrightarrow> end_step x b = Inr b' \<Longrightarrow> pair_reach p0 (a, b')"

inductive_cases pair_reachE: "pair_reach p0 p"

section \<open>The invariant of the pair\<close>

abbreviation link :: "world \<Rightarrow> world \<Rightarrow> bool" where
  "link a b \<equiv> linked (shown_of (w_s a)) (shown_of (w_s b))"

definition agrees :: "(nat \<Rightarrow> byte) \<Rightarrow> bytes \<Rightarrow> bool" where
  "agrees c W \<longleftrightarrow> (\<forall>i < length W. c i = W ! i)"

definition pair_inv :: "world \<Rightarrow> world \<Rightarrow> bool" where
  "pair_inv a b \<longleftrightarrow> link a b \<and> link b a \<and>
     (\<forall>c. agrees c (w_written b) \<longrightarrow> world_inv c a) \<and> (\<forall>c. agrees c (w_written a) \<longrightarrow> world_inv c b)"

lemma pair_inv_sym: "pair_inv a b \<Longrightarrow> pair_inv b a"
  by (auto simp: pair_inv_def)

lemma pair_inv_new: "pair_inv (new_world ca ta ia) (new_world cb tb ib)"
  using world_inv_new
  by (auto simp: pair_inv_def linked_def sender_ok_def receiver_ok_def shown_of_def spans_def new_world_def
      newStreamFull_def Let_def apart_def ends_in_def new_rbuf_def)

text \<open>A link as the receiver sees it.\<close>

lemma linked_receiver_cong:
  assumes "sh_held b' = sh_held b" "sh_next b' = sh_next b" "sh_seq b' = sh_seq b" "sh_acks b' = sh_acks b"
  shows "linked a b' = linked a b"
  unfolding linked_def receiver_ok_def assms by simp

lemma sends_receiver: "sends a f a' \<Longrightarrow> linked b a' = linked b a"
  by (rule linked_receiver_cong) (auto simp: sends_def)

lemma both_send_burst:
  "send_inv W s \<Longrightarrow> linked (shown_of s) b \<Longrightarrow> linked b (shown_of s) \<Longrightarrow> send_burst wr ts s = (r, s') \<Longrightarrow>
   linked (shown_of s') b \<and> linked b (shown_of s')"
proof (induction wr ts s rule: send_burst.induct)
  case (2 wr now ts s)
  obtain more q where q: "trySend wr now s = (more, q)" by fastforce
  obtain x q1 where q1: "trySend_locked now s = (x, q1)" by fastforce
  have ok: "sender_ok (shown_of s)" using "2.prems"(2) by (simp add: linked_def)
  note l = shown_trySend_locked[OF "2.prems"(1) ok q1]
  have two: "linked (shown_of q) b \<and> linked b (shown_of q)"
  proof (cases x)
    case None
    then show ?thesis using l q q1 "2.prems"(2,3) by (simp add: trySend_def)
  next
    case (Some f)
    obtain i off p where f: "f = (i, off, p)" by (metis prod_cases3)
    let ?q = "emit [Eff_Write i (M_Data off (sendTs s now) p)] q1"
    have s: "sends (shown_of s) (off, p) (shown_of ?q)" using l Some f by simp
    have "q = ?q \<or> q = drop_path wr i (Some E_Write) True ?q"
      using q q1 Some f by (auto simp: trySend_def Let_def split: if_splits)
    then have "shown_of q = shown_of ?q" by auto
    then show ?thesis using linked_sends[OF "2.prems"(2) s] sends_receiver[OF s] "2.prems"(3) by simp
  qed
  show ?case
  proof (cases more)
    case True
    have "send_inv W q" using trySend_inv[OF "2.prems"(1) q] by simp
    moreover have "send_burst wr ts q = (r, s')" using "2.prems"(4) q True by simp
    ultimately show ?thesis using "2.IH"[of more q] q True two by simp
  next
    case False
    then show ?thesis using "2.prems"(4) q two by simp
  qed
qed auto

lemma drop_path_rbuf [simp]: "st_rbuf (drop_path wr i c b s) = st_rbuf s"
  using quiet_drop_path by (simp add: quiet_def)

lemma drop_path_seq [simp]: "st_ackSeq (drop_path wr i c b s) = st_ackSeq s"
  using shown_drop_path[of wr i c b s] by (simp add: shown_of_def)

lemma seq_grows: "unat (x :: u64) + 1 < 2 ^ 64 \<Longrightarrow> x < x + 1 \<and> unat (x + 1) = unat x + 1"
  using unat_add_no_wrap[of x 1] by (simp add: word_less_nat_alt)

lemma both_send_ack:
  assumes l: "linked a (shown_of s)" "linked (shown_of s) a" and rb: "rb_inv (st_rbuf s)"
    and room: "unat (st_ackSeq s) + length (st_paths s) + 1 < 2 ^ 64"
  shows "linked a (shown_of (send_ack wr s)) \<and> linked (shown_of (send_ack wr s)) a"
proof -
  define Q where "Q q = (linked a (shown_of q) \<and> linked (shown_of q) a \<and> rb_inv (st_rbuf q))" for q
  define P where "P q = (Q q \<and> unat (st_ackSeq q) + length (st_paths q) + 1 < 2 ^ 64)" for q
  let ?bump = "\<lambda>q. q\<lparr>st_freedSinceAck := 0, st_ackSeq := st_ackSeq q + 1\<rparr>"
  have grow: "sh_seq (shown_of q) < sh_seq (shown_of q) + 1" if "P q" for q
    using that seq_grows[of "st_ackSeq q"] by (simp add: P_def shown_of_def)
  have "Q (send_ack wr s)"
  proof (rule send_ack_loop_rule[where P = P])
    show "P s" using l rb room by (simp add: P_def Q_def)
  next
    fix q assume "P q"
    then show "Q q" by (simp add: P_def)
    have "linked (shown_of (?bump q)) a = linked (shown_of q) a"
      by (rule linked_cong) (simp_all add: shown_skip_ack)
    then show "Q (?bump q)"
      using \<open>P q\<close> linked_skip[OF _ grow[OF \<open>P q\<close>]] by (auto simp: P_def Q_def shown_skip_ack)
  next
    fix q i assume p: "P q"
    let ?q = "emit [Eff_Write i (ack_msg q)] (?bump q)"
    have held: "\<forall>g \<in> set (rb_segs (st_rbuf q)). span_of (seg_off g, seg_data g) \<in> spans a"
      and nx: "rb_next (st_rbuf q) \<le> sh_sent a" "spares (spans a) (unat (rb_next (st_rbuf q)))"
      using p by (auto simp: P_def Q_def linked_def receiver_ok_def shown_of_def)
    have "ack_fair a (sh_seq (shown_of q), sh_next (shown_of q), rb_ranges (st_rbuf q) (int maxAckRanges))"
      using ack_of_whole[OF _ _ held nx] p by (simp add: P_def Q_def linked_def shown_of_def)
    then have "linked a (shown_of ?q)"
      using linked_ack[OF _ grow[OF p]] p by (simp add: shown_emit_ack P_def Q_def)
    moreover have "linked (shown_of ?q) a = linked (shown_of q) a"
      by (rule linked_cong) (simp_all add: shown_emit_ack)
    moreover have "st_rbuf ?q = st_rbuf q" by (simp add: emit_def)
    ultimately show "Q ?q" using p by (simp add: P_def Q_def)
  next
    fix q i assume "Q q"
    then show "Q (drop_path wr i (Some E_Write) True q)" by (simp add: Q_def)
  next
    fix q q' i assume p: "P q" and q': "q' = drop_path wr i (Some E_Write) True (emit [Eff_Write i (ack_msg q)] (?bump q))"
      and "Q q'" and len: "length (st_paths q') < length (st_paths q)"
    have "st_ackSeq q' = st_ackSeq q + 1" by (simp add: q') (simp add: emit_def)
    moreover have "unat (st_ackSeq q + 1) = unat (st_ackSeq q) + 1" using p seq_grows[of "st_ackSeq q"] by (simp add: P_def)
    ultimately show "P q'" using \<open>Q q'\<close> p len by (simp add: P_def)
  qed
  then show ?thesis by (simp add: Q_def)
qed

text \<open>Arrivals.\<close>

lemma written_data: "Eff_Write i (M_Data off ts p) \<in> set es \<Longrightarrow> (off, p) \<in> set (data_writes es)"
  by (induction es rule: data_writes.induct) auto

lemma written_ack: "Eff_Write i (M_Ack cum echo pth wnd sq rs) \<in> set es \<Longrightarrow> (sq, cum, rs) \<in> set (ack_writes es)"
  by (induction es rule: ack_writes.induct) auto

lemma shown_recv_other:
  assumes "case x of In_Data off ts d \<Rightarrow> False | In_Ack f \<Rightarrow> False | _ \<Rightarrow> True"
  shows "\<exists>s'. recv wr now i x s = Inr s' \<and> shown_of s' = shown_of s"
  using assms
  by (cases x) (auto simp: recv_def handlePathDrop_def recv_telemetry_def shown_emit split: option.split prod.split)

lemma both_recv_data:
  assumes l: "linked b (shown_of s)" "linked (shown_of s) b" and rb: "rb_inv (st_rbuf s)" and f: "(off, d) \<in> set (sh_frames b)"
  shows "\<exists>s'. recv wr now i (In_Data off ts d) s = Inr s' \<and> linked b (shown_of s') \<and> linked (shown_of s') b"
proof -
  have F: "apart (spans b)" "\<forall>x \<in> spans b. snd x \<le> unat (sh_sent b)" using l(1) by (auto simp: linked_def sender_ok_def)
  have sp: "span_of (off, d) \<in> spans b" using f by (simp add: spans_def)
  have "unat (rb_next (st_rbuf s)) \<le> seg_end g" if "g \<in> set (rb_segs (st_rbuf s))" for g
    using rb that by (force simp: rb_inv_def seg_end_def word_less_nat_alt)
  then have w: "whole_buf (spans b) (sh_sent b) (st_rbuf s)"
    using l(1) by (auto simp: whole_buf_def linked_def receiver_ok_def shown_of_def)
  obtain r where r: "rb_add (st_rbuf s) off d = Inr r" "whole_buf (spans b) (sh_sent b) r" "rb_next (st_rbuf s) \<le> rb_next r"
    using rb_add_whole[OF rb F w sp] by blast
  define s1 where "s1 = s\<lparr>st_rbuf := r, st_lastDataTs := ts, st_lastDataPath := Some i,
      st_paths := upd_path i (\<lambda>p. p\<lparr>p_rxBytes := p_rxBytes p + u64_of_len (length d)\<rparr>) (st_paths s)\<rparr>"
  have eq: "shown_of s1 = (shown_of s)\<lparr>sh_held := (\<lambda>g. (seg_off g, seg_data g)) ` set (rb_segs r), sh_next := rb_next r\<rparr>"
    by (simp add: s1_def shown_of_def)
  have "linked b (shown_of s1)"
    using l(1) r(2,3) unfolding eq
    by (auto simp: linked_def receiver_ok_def whole_buf_def shown_of_def intro: order_trans)
  moreover have "linked (shown_of s1) b = linked (shown_of s) b" unfolding eq by (rule linked_cong) simp_all
  moreover have "\<exists>s'. recv wr now i (In_Data off ts d) s = Inr s' \<and> shown_of s' = shown_of s1"
    using r(1) by (simp add: recv_def recv_data_def Let_def s1_def[symmetric])
  ultimately show ?thesis using l(2) by metis
qed

lemma both_recv_ack:
  assumes l: "linked (shown_of s) b" "linked b (shown_of s)" and inv: "send_inv W s"
    and m: "(sq, cum, rs) \<in> set (sh_acks b)"
    and f: "f = snd (decoded (W_Ack cum echo pth wnd sq rs))"
  shows "linked (shown_of (recv_ack wr now i f s)) b \<and> linked b (shown_of (recv_ack wr now i f s))"
proof (cases "st_gotPeerAck s \<and> f_seq f \<le> st_peerAckSeq s")
  case True
  then show ?thesis using l by (simp add: recv_ack_def)
next
  case new: False
  let ?a = "shown_of s"
  have fair: "ack_fair ?a (sq, cum, rs)" using l(1) m by (auto simp: linked_def receiver_ok_def)
  have ff: "f_cum f = cum" "f_seq f = sq" "f_ranges f = rs" using f fair by (simp_all add: ack_fair_def)
  have sel: "sh_sent ?a = st_sentOff s" "sh_cum ?a = st_cumAcked s" "sh_peerSeq ?a = st_peerAckSeq s" "sh_got ?a = st_gotPeerAck s"
    by (simp_all add: shown_of_def)
  have new': "\<not> (sh_got ?a \<and> sq \<le> sh_peerSeq ?a)" using new ff by (simp add: sel)
  note v = linked_ack_valid[OF l(1) m new' ff]
  show ?thesis
  proof (cases "validate_ack f (st_sentOff s) (st_cumAcked s) (st_peerAckSeq s) (st_gotPeerAck s)")
    case None
    have "spares (spans ?a) (unat (f_cum f))" "st_cumAcked s \<le> f_cum f"
      using fair v(1) by (simp_all add: ff ack_fair_def sel)
    then obtain gs where gs: "set gs \<subseteq> set (sh_segs ?a)"
      "shown_of (apply_ack now f s) = ?a\<lparr>sh_segs := gs, sh_cum := cum, sh_ranges := normalize_ranges rs, sh_got := True, sh_peerSeq := sq\<rparr>"
      using shown_apply_ack[OF inv l(1)] by (metis ff)
    have "linked (shown_of (apply_ack now f s)) b" unfolding gs(2) by (rule linked_apply[OF l(1) m gs(1)])
    moreover have "linked b (shown_of (apply_ack now f s)) = linked b ?a"
      unfolding gs(2) by (rule linked_receiver_cong) simp_all
    moreover have "recv_ack wr now i f s = apply_ack now f s" using new None by (auto simp: recv_ack_def)
    ultimately show ?thesis using l(2) by simp
  next
    case (Some e)
    then show ?thesis using new l by (auto simp: recv_ack_def)
  qed
qed

text \<open>Every step of one end keeps the invariant.\<close>

lemma link_step:
  assumes l: "link w v" "link v w" and inv: "world_inv c w" and ok: "end_ok v w x" and run: "end_step x w = Inr w'"
  shows "link w' v \<and> link v w'"
proof -
  have si: "send_inv (w_written w) (w_s w)" and rb: "rb_inv (st_rbuf (w_s w))" using inv by (simp_all add: world_inv_def)
  have same: ?thesis if "shown_of (w_s w') = shown_of (w_s w)" using l that by simp
  show ?thesis
  proof (cases x)
    case (Own y)
    show ?thesis
    proof (cases y)
      case (Do_Send wr ts)
      obtain r s' where r: "send_pass wr ts (w_s w) = (r, s')" by fastforce
      have "send_inv (w_written w) ((w_s w)\<lparr>st_sendWake := False\<rparr>)"
        using si send_inv_view[of "(w_s w)\<lparr>st_sendWake := False\<rparr>" "w_s w"] by (simp add: send_view_def)
      from both_send_burst[OF this _ _ r[unfolded send_pass_def]] show ?thesis
        using l r run Own Do_Send by auto
    next
      case (Do_Ack wr)
      have "linked (shown_of (w_s v)) (shown_of (ack_pass wr (w_s w))) \<and> linked (shown_of (ack_pass wr (w_s w))) (shown_of (w_s v))"
        unfolding ack_pass_def using l rb ok Own Do_Ack by (intro both_send_ack) simp_all
      then show ?thesis using run Own Do_Ack by auto
    qed (use run Own same ok in \<open>auto simp: shown_tick shown_write shown_read shown_attach shown_reserve split: prod.splits option.splits sum.splits bool.splits\<close>)
  next
    case (Arrives wr now i m)
    then have m: "Eff_Write i m \<in> set (st_out (w_s v))" using ok by simp
    show ?thesis
    proof (cases m)
      case (M_Data off ts p)
      have "(off, p) \<in> set (sh_frames (shown_of (w_s v)))" using written_data m M_Data by (auto simp: shown_of_def)
      from both_recv_data[OF l(2) l(1) rb this, of wr now i ts] show ?thesis
        using run Arrives M_Data by auto
    next
      case (M_Ack cum echo pth wnd sq rs)
      have "(sq, cum, rs) \<in> set (sh_acks (shown_of (w_s v)))" using written_ack m M_Ack by (auto simp: shown_of_def)
      from both_recv_ack[OF l si this refl, of wr now i echo pth wnd] show ?thesis
        using run Arrives M_Ack by (auto simp: recv_def)
    qed (use run Arrives same shown_recv_other[of "input_of m" wr now i "w_s w"] in \<open>auto split: sum.splits\<close>)
  next
    case (Breaks wr now i e)
    then show ?thesis using run same shown_recv_other[of "In_Error e" wr now i "w_s w"] by auto
  qed
qed

lemma frame_of_agrees:
  assumes "frame_of W off p" "length W < 2 ^ 63" "agrees c W"
  shows "frame_agrees c off p"
proof -
  have p: "unat off + length p \<le> length W" "take (length p) (drop (unat off) W) = p" using assms(1) by (simp_all add: frame_of_def)
  have "p = window_of c (unat off) (unat off + length p)"
  proof (rule nth_equalityI)
    fix i assume i: "i < length p"
    have "p ! i = take (length p) (drop (unat off) W) ! i" using p(2) by simp
    also have "\<dots> = c (unat off + i)" using i p(1) assms(3) by (simp add: agrees_def)
    finally show "p ! i = window_of c (unat off) (unat off + length p) ! i" using i by (simp add: window_of_def)
  qed simp
  then show ?thesis using p(1) assms(2) by (simp add: frame_agrees_def)
qed

lemma agrees_prefix: "agrees c (W @ V) \<Longrightarrow> agrees c W"
  by (auto simp: agrees_def nth_append)

lemma agrees_exists: "\<exists>c. agrees c W"
  by (auto simp: agrees_def intro: exI[of _ "\<lambda>i. W ! i"])

lemma sop_ok_own: "own_op x \<Longrightarrow> sop_ok c w x = sop_ok c' w x"
  by (cases x) simp_all

lemma written_grows: "sop_step x w = Inr w' \<Longrightarrow> \<exists>V. w_written w' = w_written w @ V"
  by (cases x) (auto split: prod.splits sum.splits option.splits bool.splits)

lemma end_step_sop:
  assumes inv: "pair_inv w v" and ok: "end_ok v w x" and run: "end_step x w = Inr w'" and c: "agrees c (w_written v)"
  shows "\<exists>y. sop_ok c w y \<and> sop_step y w = Inr w'"
proof (cases x)
  case (Own y)
  then show ?thesis using ok run sop_ok_own[of y c w "\<lambda>_. 0"] by auto
next
  case (Arrives wr now i m)
  then have m: "Eff_Write i m \<in> set (st_out (w_s v))" using ok by simp
  obtain c' where "world_inv c' v" using inv agrees_exists[of "w_written w"] by (auto simp: pair_inv_def)
  then have v: "send_inv (w_written v) (w_s v)" "frames_ok (w_written v) (st_out (w_s v))" by (simp_all add: world_inv_def)
  have "sop_ok c w (Do_Recv wr now i (input_of m))"
  proof (cases m)
    case (M_Data off ts p)
    then have "frame_of (w_written v) off p" using v(2) written_data[of i off ts p] m by (auto simp: frames_ok_def list_all_iff)
    then show ?thesis using frame_of_agrees[OF _ send_invD(1)[OF v(1)] c] M_Data by simp
  next
    case (M_Ack cum echo pth wnd sq rs)
    then have "ack_fair (shown_of (w_s w)) (sq, cum, rs)"
      using inv written_ack[of i cum echo pth wnd sq rs] m
      by (auto simp: pair_inv_def linked_def receiver_ok_def shown_of_def)
    then show ?thesis using M_Ack by (auto simp: ack_fair_def list_all_iff dest: in_set_takeD)
  qed simp_all
  moreover have "sop_step (Do_Recv wr now i (input_of m)) w = Inr w'" using run Arrives by simp
  ultimately show ?thesis by blast
next
  case (Breaks wr now i e)
  have "sop_ok c w (Do_Recv wr now i (In_Error e))" "sop_step (Do_Recv wr now i (In_Error e)) w = Inr w'" using run Breaks by simp_all
  then show ?thesis by blast
qed

lemma pair_inv_step:
  assumes inv: "pair_inv w v" and ok: "end_ok v w x" and run: "end_step x w = Inr w'"
  shows "pair_inv w' v"
proof -
  obtain c0 where c0: "agrees c0 (w_written v)" using agrees_exists by blast
  then have "world_inv c0 w" using inv by (simp add: pair_inv_def)
  from link_step[OF _ _ this ok run] have l: "link w' v \<and> link v w'" using inv by (simp add: pair_inv_def)
  have "world_inv c w'" if c: "agrees c (w_written v)" for c
    using end_step_sop[OF inv ok run c] world_inv_step inv c by (auto simp: pair_inv_def)
  moreover have "agrees c (w_written w)" if "agrees c (w_written w')" for c
    using end_step_sop[OF inv ok run c0] written_grows that agrees_prefix by metis
  ultimately show ?thesis using l inv by (simp add: pair_inv_def)
qed

lemma pair_reach_inv:
  "pair_reach p0 p \<Longrightarrow> pair_inv (fst p0) (snd p0) \<Longrightarrow> pair_inv (fst p) (snd p)"
proof (induction rule: pair_reach.induct)
  case (pair_right a b x b')
  then show ?case using pair_inv_step[of b a x b'] pair_inv_sym by auto
qed (auto intro: pair_inv_step)

lemma pair_reach_new: "pair_reach (new_world ca ta ia, new_world cb tb ib) (a, b) \<Longrightarrow> pair_inv a b"
  using pair_reach_inv[of _ "(a, b)"] pair_inv_new by simp

text \<open>The two ends are alike.\<close>

lemma pair_reach_swap: "pair_reach p0 p \<Longrightarrow> pair_reach (prod.swap p0) (prod.swap p)"
  by (induction rule: pair_reach.induct) (auto intro: pair_reach.intros)

section \<open>What the ends guarantee each other\<close>

lemma pair_delivers:
  assumes "pair_inv a b"
  shows "prefix (w_read b) (w_written a)"
    and "prefix (take (unat (st_cumAcked (w_s a))) (w_written a)) (w_read b @ concat (map seg_data (rb_ready (st_rbuf (w_s b)))))"
proof -
  let ?r = "st_rbuf (w_s b)" and ?W = "w_written a"
  obtain c where c: "agrees c ?W" using agrees_exists by blast
  have d: "w_read b @ concat (map seg_data (rb_ready ?r)) = window_of c 0 (unat (rb_next ?r))"
    using assms c by (auto simp: pair_inv_def world_inv_def delivered_def)
  obtain c' where "world_inv c' a" using assms agrees_exists[of "w_written b"] by (auto simp: pair_inv_def)
  then have s: "unat (st_sentOff (w_s a)) \<le> length ?W" by (simp add: world_inv_def send_inv_def)
  have l: "rb_next ?r \<le> st_sentOff (w_s a)" "st_cumAcked (w_s a) \<le> rb_next ?r"
    using assms by (auto simp: pair_inv_def linked_def receiver_ok_def shown_of_def split: if_splits)
  then have n: "unat (rb_next ?r) \<le> length ?W" using s by (simp add: word_le_nat_alt)
  have "window_of c 0 (unat (rb_next ?r)) = take (unat (rb_next ?r)) ?W"
    using c n by (auto simp: window_of_def agrees_def intro!: nth_equalityI)
  then have eq: "w_read b @ concat (map seg_data (rb_ready ?r)) = take (unat (rb_next ?r)) ?W" using d by simp
  then show "prefix (w_read b) ?W" by (metis append_assoc append_take_drop_id prefixI)
  have "take (unat (st_cumAcked (w_s a))) ?W = take (unat (st_cumAcked (w_s a))) (take (unat (rb_next ?r)) ?W)"
    using l(2) by (simp add: word_le_nat_alt min_absorb1)
  then show "prefix (take (unat (st_cumAcked (w_s a))) ?W) (w_read b @ concat (map seg_data (rb_ready ?r)))"
    unfolding eq by (metis take_is_prefix)
qed

lemma one_frame:
  assumes "pair_inv a b" "(off, p) \<in> set (data_writes (st_out (w_s a)))" "(off', p') \<in> set (data_writes (st_out (w_s a)))"
  shows "(off', p') = (off, p) \<or> unat off + length p \<le> unat off' \<or> unat off' + length p' \<le> unat off"
proof -
  obtain c where "world_inv c a" using assms(1) agrees_exists[of "w_written b"] by (auto simp: pair_inv_def)
  then have "frame_of (w_written a) off p" "frame_of (w_written a) off' p'"
    using assms(2,3) by (auto simp: world_inv_def frames_ok_def list_all_iff)
  then have bytes: "off' = off \<Longrightarrow> length p' = length p \<Longrightarrow> p' = p" by (metis frame_of_def)
  have "apart (spans (shown_of (w_s a)))" using assms(1) by (simp add: pair_inv_def linked_def sender_ok_def)
  moreover have "span_of (off, p) \<in> spans (shown_of (w_s a))" "span_of (off', p') \<in> spans (shown_of (w_s a))"
    using assms(2,3) by (simp_all add: spans_def shown_of_def)
  ultimately have "span_of (off, p) = span_of (off', p') \<or> snd (span_of (off, p)) \<le> fst (span_of (off', p')) \<or>
      snd (span_of (off', p')) \<le> fst (span_of (off, p))"
    using apart_eq by blast
  then have "span_of (off, p) = span_of (off', p') \<or> unat off + length p \<le> unat off' \<or> unat off' + length p' \<le> unat off"
    by (simp add: span_of_def)
  then consider (same) "span_of (off, p) = span_of (off', p')"
    | (other) "unat off + length p \<le> unat off' \<or> unat off' + length p' \<le> unat off" by blast
  then show ?thesis
  proof cases
    case same
    then have "unat off' = unat off" "length p' = length p" by (simp_all add: span_of_def)
    moreover from this(1) have "off' = off" by (rule unsigned_word_eqI)
    ultimately show ?thesis using bytes by blast
  next
    case other
    then show ?thesis by blast
  qed
qed

text \<open>
  C1: two ends that run this code, over paths that deliver what was written on them in any order, or break: what
  either application reads is a prefix of what the other has written, and what an end takes for acknowledged,
  and drops, the other end has read or holds ready to be read.
\<close>

theorem ends_deliver_exactly:
  assumes "pair_reach (new_world ca ta ia, new_world cb tb ib) (a, b)"
  shows "prefix (w_read b) (w_written a) \<and> prefix (w_read a) (w_written b) \<and>
    prefix (take (unat (st_cumAcked (w_s a))) (w_written a)) (w_read b @ concat (map seg_data (rb_ready (st_rbuf (w_s b))))) \<and>
    prefix (take (unat (st_cumAcked (w_s b))) (w_written b)) (w_read a @ concat (map seg_data (rb_ready (st_rbuf (w_s a)))))"
  using pair_delivers[OF pair_reach_new[OF assms]] pair_delivers[OF pair_inv_sym[OF pair_reach_new[OF assms]]] by blast


section \<open>Witnesses\<close>

text \<open>
  A run of the pair: the initiator writes three bytes, the responder opens its window, the bytes travel and are read.
\<close>

definition demo_b0 :: world where "demo_b0 = new_world demo_config (At 0) False"

definition demo_b1 :: world where
  "demo_b1 = demo_b0\<lparr>w_s := (w_s demo_b0)\<lparr>st_ackSeq := 1, st_out := [Eff_Write 0 (M_Ack 0 0 0 100 0 [])]\<rparr>\<rparr>"

definition demo_a2 :: world where
  "demo_a2 = demo_w1\<lparr>w_s := (w_s demo_w1)\<lparr>st_gotPeerAck := True, st_advWindow := 100, st_gotWindow := True\<rparr>\<rparr>"

definition demo_a3 :: world where
  "demo_a3 = demo_a2\<lparr>w_s := (w_s demo_a2)\<lparr>st_sendWake := False, st_sendQ := [], st_pendingBytes := 0, st_sentOff := 3,
     st_unacked := [\<lparr>ss_off = 0, ss_data = [7, 8, 9], ss_path = Some 0, ss_sentAt = At 6000, ss_sacked = False\<rparr>],
     st_paths := [(new_path 0 True (At 0))\<lparr>p_inflight := 3\<rparr>],
     st_out := [Eff_Write 0 (M_Data 0 6 [7, 8, 9])]\<rparr>\<rparr>"

definition demo_b2 :: world where
  "demo_b2 = demo_b1\<lparr>w_s := (w_s demo_b1)\<lparr>st_rbuf := (new_rbuf 100)\<lparr>rb_next := 3, rb_ready := [mk_seg 0 [7, 8, 9]], rb_size := 3, rb_readyBytes := 3\<rparr>,
     st_lastDataTs := 6, st_lastDataPath := Some 0, st_ackCh := True,
     st_paths := [(new_path 0 False (At 0))\<lparr>p_rxBytes := 3\<rparr>]\<rparr>\<rparr>"

definition demo_b3 :: world where
  "demo_b3 = demo_b2\<lparr>w_s := (w_s demo_b2)\<lparr>st_rbuf := (new_rbuf 100)\<lparr>rb_next := 3\<rparr>, st_freedSinceAck := 3\<rparr>, w_read := [7, 8, 9]\<rparr>"

lemmas demo_pair_simps = demo_world_simps demo_b0_def demo_b1_def demo_a2_def demo_a3_def demo_b2_def demo_b3_def

lemma pickAck_single: "pickAck [p] = Some p"
  by (simp add: pickAck_def pickAck_step_def)

lemma demo_pair1: "end_step (Own (Do_Ack (\<lambda>_. True))) demo_b0 = Inr demo_b1"
  by (simp add: demo_pair_simps ack_pass_def send_ack.simps pickAck_single ack_msg_def rb_cum_def rb_window_def rb_ranges_def new_rbuf_def)

lemma demo_pair2: "end_step (Arrives (\<lambda>_. True) (At 5000) 0 (M_Ack 0 0 0 100 0 [])) demo_w1 = Inr demo_a2"
  by (simp add: demo_pair_simps recv_def recv_ack_def validate_ack_def empty_frame_def apply_ack_def normalize_ranges_def maxAckSeqAdvance_def)

lemma demo_pair3: "end_step (Own (Do_Send (\<lambda>_. True) [At 6000, At 6000])) demo_a2 = Inr demo_a3"
  by (simp add: demo_pair_simps send_pass_def trySend_def trySend_locked_def pickData_single minInflightCap_def maxFramePayload_def
     fresh_len_def commit_fresh_def upd_path_def sendTs_def microsecond_def quot_def min_duration_def max_duration_def u64_of_len_def sgn_if)

lemma demo_pair4: "end_step (Arrives (\<lambda>_. True) (At 7000) 0 (M_Data 0 6 [7, 8, 9])) demo_b1 = Inr demo_b2"
  by (simp add: demo_pair_simps recv_def recv_data_def rb_eval upd_path_def rb_sizeBytes_def)

lemma demo_pair5: "end_step (Own (Do_Read 10)) demo_b2 = Inr demo_b3"
  by (simp add: demo_pair_simps stream_read_def rb_eval rb_avail_def rb_window_def quot_def)

lemma demo_pair_reach:
  "pair_reach (new_world demo_config (At 0) True, new_world demo_config (At 0) False) (demo_a3, demo_b3)"
proof -
  let ?r = "pair_reach (new_world demo_config (At 0) True, new_world demo_config (At 0) False)"
  have "?r (demo_w0, demo_b0)" unfolding demo_w0_def demo_b0_def by (rule pair_start)
  then have "?r (demo_w1, demo_b0)"
    by (rule pair_left[OF _ _ demo_step1[folded end_step.simps]]) (simp add: demo_w0_def new_world_def)
  then have "?r (demo_w1, demo_b1)" by (rule pair_right[OF _ _ demo_pair1]) (simp add: demo_pair_simps)
  then have "?r (demo_a2, demo_b1)" by (rule pair_left[OF _ _ demo_pair2]) (simp add: demo_pair_simps)
  then have "?r (demo_a3, demo_b1)" by (rule pair_left[OF _ _ demo_pair3]) simp
  then have "?r (demo_a3, demo_b2)" by (rule pair_right[OF _ _ demo_pair4]) (simp add: demo_pair_simps)
  then show "?r (demo_a3, demo_b3)" by (rule pair_right[OF _ _ demo_pair5]) simp
qed

theorem ends_deliver_exactly_witness: "w_read demo_b3 = [7, 8, 9] \<and> prefix [7, 8, 9] (w_written demo_a3)"
proof -
  have "w_read demo_b3 = [7, 8, 9]" by (simp add: demo_b3_def)
  then show ?thesis using ends_deliver_exactly[OF demo_pair_reach] by metis
qed


end
