(* ===== verification/Stream_Wait.thy ===== *)
theory Stream_Wait
  imports Stream_Pair
begin

text \<open>
  Calls of \<open>Read\<close> and \<open>Write\<close> that wait: the channels \<open>rChange\<close> and \<open>wChange\<close>, the deadlines and \<open>wait\<close> of
  \<open>src/stream.go\<close>, with any number of concurrent calls and of calls that set deadlines, interleaved with the
  operations of the stream at every point where the code gives up the lock. A call that waits is woken whenever
  it could go on, and a timeout is never early.
\<close>

section \<open>Channels, deadlines, calls\<close>

text \<open>
  \<open>broadcastLocked\<close> closes a channel and puts a new one in its place; a channel is named by the number of
  broadcasts before it was made, and is closed when there has been a later one. \<open>done\<close> is closed once.
  Deadlines are in nanoseconds of the Unix clock, 0 for none; instants are read as such.
\<close>

datatype call_err = Err_Stream serr | Err_Timeout

datatype outcome = Got bytes | Put int | Failed int call_err

datatype work = Reading nat | Writing int bytes

text \<open>
  Where a call is: before it takes the lock, after it gave up the lock with the channel it took, in the \<open>select\<close>
  with its timer, or back. \<open>saw\<close> is what \<open>sendBufCap\<close> was when a \<open>Write\<close> found no room.
\<close>

datatype phase = At_Top | Took nat int | Selecting nat int "int option" | Back outcome

record call =
  cl_work :: work
  cl_phase :: phase

text \<open>What a call of \<open>SetDeadline\<close> and its like still has to do: two stores, then the broadcasts under the lock.\<close>

datatype set_act = Store_R int | Store_W int | Cast bool bool

record conn =
  cn_w :: world
  cn_rGen :: nat
  cn_wGen :: nat
  cn_done :: bool
  cn_rDeadline :: int
  cn_wDeadline :: int
  cn_setters :: "set_act list list"
  cn_calls :: "call list"

definition new_conn :: "stream_config \<Rightarrow> gotime \<Rightarrow> bool \<Rightarrow> conn" where
  "new_conn c now ini = \<lparr>cn_w = new_world c now ini, cn_rGen = 0, cn_wGen = 0, cn_done = False, cn_rDeadline = 0,
     cn_wDeadline = 0, cn_setters = [], cn_calls = []\<rparr>"

definition deadlineNano :: "gotime \<Rightarrow> int" where
  "deadlineNano t = (case t of Zero_Time \<Rightarrow> 0 | At n \<Rightarrow> wrap64 n)"

definition SetDeadline :: "gotime \<Rightarrow> set_act list" where
  "SetDeadline t = [Store_R (deadlineNano t), Store_W (deadlineNano t), Cast True True]"

definition SetReadDeadline :: "gotime \<Rightarrow> set_act list" where
  "SetReadDeadline t = [Store_R (deadlineNano t), Cast True False]"

definition SetWriteDeadline :: "gotime \<Rightarrow> set_act list" where
  "SetWriteDeadline t = [Store_W (deadlineNano t), Cast False True]"

definition broadcast :: "bool \<Rightarrow> bool \<Rightarrow> conn \<Rightarrow> conn" where
  "broadcast r w k = k\<lparr>cn_rGen := cn_rGen k + (if r then 1 else 0), cn_wGen := cn_wGen k + (if w then 1 else 0)\<rparr>"

fun do_act :: "set_act \<Rightarrow> conn \<Rightarrow> conn" where
  "do_act (Store_R d) k = k\<lparr>cn_rDeadline := d\<rparr>"
| "do_act (Store_W d) k = k\<lparr>cn_wDeadline := d\<rparr>"
| "do_act (Cast r w) k = broadcast r w k"

fun gen_of :: "work \<Rightarrow> conn \<Rightarrow> nat" where
  "gen_of (Reading n) k = cn_rGen k"
| "gen_of (Writing t b) k = cn_wGen k"

fun deadline_of :: "work \<Rightarrow> conn \<Rightarrow> int" where
  "deadline_of (Reading n) k = cn_rDeadline k"
| "deadline_of (Writing t b) k = cn_wDeadline k"

section \<open>One pass of \<open>Read\<close> and of \<open>Write\<close> under the lock\<close>

definition write_once :: "int \<Rightarrow> bytes \<Rightarrow> stream \<Rightarrow> write_result \<times> stream" where
  "write_once tot b s =
     (case st_werr s of
        Some e \<Rightarrow> (Write_Err tot e, s)
      | None \<Rightarrow>
          if st_closed s then (Write_Err tot E_Closed, s)
          else if 0 < send_room s then
            let n = min (nat (send_room s)) (length b) in (Write_Done (int n), enqueue (take n b) s)
          else (Write_Blocked tot b, s))"

fun enter :: "call \<Rightarrow> conn \<Rightarrow> call \<times> world" where
  "enter cl k =
     (case cl_work cl of
        Reading room \<Rightarrow>
          (let (res, s) = stream_read room (w_s (cn_w k)) in
           case res of
             Read_Bytes b \<Rightarrow> (cl\<lparr>cl_phase := Back (Got b)\<rparr>, (cn_w k)\<lparr>w_s := s, w_read := w_read (cn_w k) @ b\<rparr>)
           | Read_Err e \<Rightarrow> (cl\<lparr>cl_phase := Back (Failed 0 (Err_Stream e))\<rparr>, cn_w k)
           | Read_Blocked \<Rightarrow> (cl\<lparr>cl_phase := Took (cn_rGen k) 0\<rparr>, cn_w k))
      | Writing tot b \<Rightarrow>
          if b = [] then (cl\<lparr>cl_phase := Back (Put tot)\<rparr>, cn_w k)
          else (let (res, s) = write_once tot b (w_s (cn_w k)) in
           case res of
             Write_Done n \<Rightarrow> (\<lparr>cl_work = Writing (tot + n) (drop (nat n) b), cl_phase = At_Top\<rparr>,
               (cn_w k)\<lparr>w_s := s, w_written := w_written (cn_w k) @ take (nat n) b\<rparr>)
           | Write_Err t e \<Rightarrow> (cl\<lparr>cl_phase := Back (Failed t (Err_Stream e))\<rparr>, cn_w k)
           | Write_Blocked t r \<Rightarrow> (cl\<lparr>cl_phase := Took (cn_wGen k) (cf_sendBufCap (st_cfg (w_s (cn_w k))))\<rparr>, cn_w k)))"

text \<open>How many bytes a \<open>Write\<close> that gives up reports; a \<open>Read\<close> reports none.\<close>

fun so_far :: "work \<Rightarrow> int" where
  "so_far (Reading n) = 0"
| "so_far (Writing t b) = t"

text \<open>The head of \<open>wait\<close>, and its \<open>select\<close>: the channel or \<open>done\<close>, or the timer and the deadline read again.\<close>

definition arm :: "int \<Rightarrow> conn \<Rightarrow> call \<Rightarrow> call" where
  "arm now k cl =
     (case cl_phase cl of
        Took g saw \<Rightarrow>
          (let d = deadline_of (cl_work cl) k in
           if 0 < d then
             if d - now \<le> 0 then cl\<lparr>cl_phase := Back (Failed (so_far (cl_work cl)) Err_Timeout)\<rparr>
             else cl\<lparr>cl_phase := Selecting g saw (Some d)\<rparr>
           else cl\<lparr>cl_phase := Selecting g saw None\<rparr>)
      | _ \<Rightarrow> cl)"

definition can_wake :: "conn \<Rightarrow> call \<Rightarrow> bool" where
  "can_wake k cl = (case cl_phase cl of Selecting g saw due \<Rightarrow> g < gen_of (cl_work cl) k \<or> cn_done k | _ \<Rightarrow> False)"

definition can_fire :: "int \<Rightarrow> call \<Rightarrow> bool" where
  "can_fire now cl = (case cl_phase cl of Selecting g saw (Some due) \<Rightarrow> due \<le> now | _ \<Rightarrow> False)"

definition fire :: "int \<Rightarrow> conn \<Rightarrow> call \<Rightarrow> call" where
  "fire now k cl =
     (let nd = deadline_of (cl_work cl) k in
      if nd = 0 \<or> now < nd then cl\<lparr>cl_phase := At_Top\<rparr>
      else cl\<lparr>cl_phase := Back (Failed (so_far (cl_work cl)) Err_Timeout)\<rparr>)"

section \<open>Steps\<close>

text \<open>
  Which operations of the stream broadcast: an arriving DATA frame or FIN wakes the readers, an ACK that is applied
  the writers; \<open>Close\<close> and \<open>shutdown\<close> close \<open>done\<close> and wake both, in a step of its own (\<open>Finish\<close>).
\<close>

fun wakes_readers :: "sop \<Rightarrow> bool" where
  "wakes_readers (Do_Recv wr now i x) = (case x of In_Data off ts d \<Rightarrow> True | In_Fin \<Rightarrow> True | _ \<Rightarrow> False)"
| "wakes_readers x = False"

definition ack_applies :: "frame \<Rightarrow> stream \<Rightarrow> bool" where
  "ack_applies f s \<longleftrightarrow> \<not> (st_gotPeerAck s \<and> f_seq f \<le> st_peerAckSeq s) \<and>
     validate_ack f (st_sentOff s) (st_cumAcked s) (st_peerAckSeq s) (st_gotPeerAck s) = None"

fun wakes_writers :: "sop \<Rightarrow> stream \<Rightarrow> bool" where
  "wakes_writers (Do_Recv wr now i x) s = (case x of In_Ack f \<Rightarrow> ack_applies f s | _ \<Rightarrow> False)"
| "wakes_writers x s = False"

datatype conn_op =
    Start work
  | Enter nat
  | Arm nat int
  | Wake nat
  | Fire nat int
  | Set "set_act list"
  | Set_Next nat
  | Run sop
  | Finish

fun is_call_op :: "sop \<Rightarrow> bool" where
  "is_call_op (Do_Write b) = True"
| "is_call_op (Do_Read n) = True"
| "is_call_op x = False"

definition set_call :: "nat \<Rightarrow> call \<Rightarrow> conn \<Rightarrow> conn" where
  "set_call i cl k = k\<lparr>cn_calls := (cn_calls k)[i := cl]\<rparr>"

text \<open>One step, or \<open>None\<close> where the step is not enabled (or the code panics).\<close>

fun conn_step :: "conn_op \<Rightarrow> conn \<Rightarrow> conn option" where
  "conn_step (Start a) k = Some (k\<lparr>cn_calls := cn_calls k @ [\<lparr>cl_work = a, cl_phase = At_Top\<rparr>]\<rparr>)"
| "conn_step (Enter i) k =
     (if i < length (cn_calls k) \<and> cl_phase (cn_calls k ! i) = At_Top
      then let (cl, w) = enter (cn_calls k ! i) k in Some (set_call i cl (k\<lparr>cn_w := w\<rparr>))
      else None)"
| "conn_step (Arm i now) k =
     (if i < length (cn_calls k) \<and> (case cl_phase (cn_calls k ! i) of Took g saw \<Rightarrow> True | _ \<Rightarrow> False)
      then Some (set_call i (arm now k (cn_calls k ! i)) k) else None)"
| "conn_step (Wake i) k =
     (if i < length (cn_calls k) \<and> can_wake k (cn_calls k ! i)
      then Some (set_call i ((cn_calls k ! i)\<lparr>cl_phase := At_Top\<rparr>) k) else None)"
| "conn_step (Fire i now) k =
     (if i < length (cn_calls k) \<and> can_fire now (cn_calls k ! i)
      then Some (set_call i (fire now k (cn_calls k ! i)) k) else None)"
| "conn_step (Set as) k = Some (k\<lparr>cn_setters := cn_setters k @ [as]\<rparr>)"
| "conn_step (Set_Next j) k =
     (if j < length (cn_setters k) \<and> cn_setters k ! j \<noteq> []
      then Some (do_act (hd (cn_setters k ! j)) (k\<lparr>cn_setters := (cn_setters k)[j := tl (cn_setters k ! j)]\<rparr>))
      else None)"
| "conn_step (Run x) k =
     (if is_call_op x then None
      else case sop_step x (cn_w k) of
        Inl e \<Rightarrow> None
      | Inr w \<Rightarrow> Some (broadcast (wakes_readers x) (wakes_writers x (w_s (cn_w k))) (k\<lparr>cn_w := w\<rparr>)))"
| "conn_step Finish k =
     (if st_once (w_s (cn_w k)) \<and> \<not> cn_done k then Some (broadcast True True (k\<lparr>cn_done := True\<rparr>)) else None)"

text \<open>What the environment owes: the same as to a stream, and deadlines are set by the three methods.\<close>

fun conn_ok :: "(nat \<Rightarrow> byte) \<Rightarrow> conn \<Rightarrow> conn_op \<Rightarrow> bool" where
  "conn_ok c k (Start a) \<longleftrightarrow> so_far a = 0"
| "conn_ok c k (Enter i) \<longleftrightarrow>
     (case cl_work (cn_calls k ! i) of Reading n \<Rightarrow> True | Writing t b \<Rightarrow> length (w_written (cn_w k)) + length b < 2 ^ 63)"
| "conn_ok c k (Set as) \<longleftrightarrow> (\<exists>t. as = SetDeadline t \<or> as = SetReadDeadline t \<or> as = SetWriteDeadline t)"
| "conn_ok c k (Run x) \<longleftrightarrow> sop_ok c (cn_w k) x"
| "conn_ok c k _ \<longleftrightarrow> True"

inductive conn_reach :: "(nat \<Rightarrow> byte) \<Rightarrow> conn \<Rightarrow> conn \<Rightarrow> bool" for c k0 where
  conn_start: "conn_reach c k0 k0"
| conn_next: "conn_reach c k0 k \<Longrightarrow> conn_ok c k x \<Longrightarrow> conn_step x k = Some k' \<Longrightarrow> conn_reach c k0 k'"

section \<open>What an operation of the stream leaves to those who wait\<close>

text \<open>Errors and the end of the stream come together.\<close>

definition ends_or_same :: "stream \<Rightarrow> stream \<Rightarrow> bool" where
  "ends_or_same s s' \<longleftrightarrow> st_once s' \<or>
     st_once s' = st_once s \<and> st_rerr s' = st_rerr s \<and> st_werr s' = st_werr s \<and> st_closed s' = st_closed s"

lemma eos_refl [simp]: "ends_or_same s s"
  by (simp add: ends_or_same_def)

lemma eos_same:
  "st_once s' = st_once s \<Longrightarrow> st_rerr s' = st_rerr s \<Longrightarrow> st_werr s' = st_werr s \<Longrightarrow> st_closed s' = st_closed s \<Longrightarrow>
   ends_or_same s s'"
  by (simp add: ends_or_same_def)

lemma eos_trans: "ends_or_same a b \<Longrightarrow> ends_or_same b d \<Longrightarrow> (st_once b \<longrightarrow> st_once d) \<Longrightarrow> ends_or_same a d"
  by (auto simp: ends_or_same_def)

lemma eos_evolves: "ends_or_same a b \<Longrightarrow> ends_or_same b d \<Longrightarrow> evolves b d \<Longrightarrow> ends_or_same a d"
  by (rule eos_trans) (auto simp: evolves_def)

lemma eos_emit [simp]: "ends_or_same s (emit es s)" "ends_or_same s (wakeSend s)" "ends_or_same s (triggerAck s)"
  by (simp_all add: ends_or_same_def emit_def wakeSend_def triggerAck_def)

lemma eos_shutdown: "st_once (shutdown e s)"
  by (simp add: shutdown_def emit_def)

lemma eos_drop_path: "ends_or_same s (drop_path wr i c b s)"
proof (rule drop_path_end_rule[where P = "\<lambda>q. ends_or_same s q"])
  show "ends_or_same s (remove_path i q)" if "ends_or_same s q" for q i
    using that by (simp add: ends_or_same_def remove_path_def)
  show "ends_or_same s (emit es q)" "ends_or_same s (wakeSend q)" "ends_or_same s (triggerAck q)" if "ends_or_same s q" for q es
    using that by (simp_all add: ends_or_same_def emit_def wakeSend_def triggerAck_def)
qed (simp_all add: ends_or_same_def eos_shutdown)

lemma eos_drop: "ends_or_same s q \<Longrightarrow> ends_or_same s (drop_path wr i c b q)"
  by (rule eos_evolves[OF _ eos_drop_path evolves_drop_path])

lemma eos_then_emit: "ends_or_same s q \<Longrightarrow> ends_or_same s (emit es q)"
  by (rule eos_evolves[OF _ eos_emit(1) evolves_small(1)])

lemma eos_drop_all: "ends_or_same s q \<Longrightarrow> ends_or_same s (foldl (\<lambda>s i. drop_path wr i c b s) q is)"
  by (induction "is" arbitrary: q) (simp_all add: eos_drop)

lemma eos_send_ack: "ends_or_same s (send_ack wr s)"
proof (rule send_ack_rule[where P = "ends_or_same s"])
  fix q i assume q: "ends_or_same s q"
  then show b: "ends_or_same s (q\<lparr>st_freedSinceAck := 0, st_ackSeq := st_ackSeq q + 1\<rparr>)" by (simp add: ends_or_same_def)
  show "ends_or_same s (emit [Eff_Write i (ack_msg q)] (q\<lparr>st_freedSinceAck := 0, st_ackSeq := st_ackSeq q + 1\<rparr>))"
    by (rule eos_then_emit[OF b])
  show "ends_or_same s (drop_path wr i (Some E_Write) True q)" by (rule eos_drop[OF q])
qed simp

lemma eos_writeCtrl: "ends_or_same s (snd (writeCtrl wr ft body s))"
  by (rule writeCtrl_rule[where P = "ends_or_same s"]) (auto intro: eos_then_emit eos_drop)

lemma eos_trySend: "trySend wr now s = (b, s') \<Longrightarrow> ends_or_same s s'"
proof -
  assume run: "trySend wr now s = (b, s')"
  obtain x q where q: "trySend_locked now s = (x, q)" by fastforce
  have e: "ends_or_same s q"
    using q by (intro eos_same) (auto simp: trySend_locked_def Let_def commit_resend_def commit_fresh_def
        split: if_splits option.splits prod.splits)
  then show ?thesis using run q eos_drop[OF eos_then_emit] eos_then_emit
    by (auto simp: trySend_def Let_def split: option.splits prod.splits if_splits)
qed

lemma eos_send_burst: "send_burst wr ts s = (b, s') \<Longrightarrow> ends_or_same s s' \<and> evolves s s'"
proof (induction wr ts s rule: send_burst.induct)
  case (2 wr now ts s)
  obtain more q where q: "trySend wr now s = (more, q)" by fastforce
  note one = eos_trySend[OF q] evolves_trySend[OF q]
  show ?case
  proof (cases more)
    case True
    then have "send_burst wr ts q = (b, s')" using "2.prems" q by simp
    then have "ends_or_same q s' \<and> evolves q s'" using "2.IH"[of more q] q True by simp
    then show ?thesis using one eos_evolves evolves_trans by blast
  next
    case False
    then show ?thesis using "2.prems" q one by simp
  qed
qed simp

lemma eos_tick: "ends_or_same s (onTick wr now s)"
proof (cases "st_closed s")
  case False
  let ?ticks = "map (tick_path (0 < st_pendingBytes s \<or> st_unacked s \<noteq> []) now) (st_paths s)"
  obtain drops moved q where sf: "checkSoftFail now (updateWindowCap (s\<lparr>st_paths := map fst ?ticks\<rparr>)) = (drops, moved, q)"
    by (metis prod_cases3)
  have w: "ends_or_same s (updateWindowCap (s\<lparr>st_paths := ps\<rparr>))" for ps
    by (rule eos_same) (simp_all add: updateWindowCap_def set_window_cap_def Let_def triggerAck_def)
  have "ends_or_same s q"
    using w[of "map fst ?ticks"] sf by (auto simp: checkSoftFail_def ends_or_same_def split: prod.splits)
  note q = this
  define es where "es = map Eff_Degraded (concat (map (\<lambda>(p, r, d, g). d) ?ticks))
      @ (if concat (map (\<lambda>(p, r, d, g). r) ?ticks) = [] then [] else [Eff_Go_Telemetry (concat (map (\<lambda>(p, r, d, g). r) ?ticks))])
      @ map (\<lambda>i. Eff_Go_Ping i False (sendTs q now)) (concat (map (\<lambda>(p, r, d, g). g) ?ticks))"
  define s4 where "s4 = foldl (\<lambda>s i. drop_path wr i (Some E_Path_RTO) True s) (emit es q) drops"
  define s5 where "s5 = (if moved then wakeSend s4 else s4)"
  have eq: "onTick wr now s = (if cf_policy (st_cfg s5) then emit [Eff_Go_Policy] s5 else s5)"
    using False sf unfolding onTick_def s5_def s4_def es_def by (simp add: Let_def)
  have "ends_or_same s s4" unfolding s4_def by (intro eos_drop_all eos_then_emit q)
  then have "ends_or_same s s5" by (simp add: s5_def ends_or_same_def wakeSend_def)
  then show ?thesis unfolding eq using eos_then_emit by simp
qed (simp add: onTick_def)

lemma eos_recv: "recv wr now i x s = Inr s' \<Longrightarrow> ends_or_same s s'"
proof (cases x)
  case (In_Data off ts d)
  assume run: "recv wr now i x s = Inr s'"
  then obtain r where r: "rb_add (st_rbuf s) off d = Inr r" using In_Data by (auto simp: recv_def recv_data_def split: sum.splits)
  then show ?thesis using run In_Data
    by (auto simp: recv_def recv_data_def Let_def ends_or_same_def eos_shutdown triggerAck_def split: if_splits)
next
  case (In_Ack f)
  assume run: "recv wr now i x s = Inr s'"
  have "ends_or_same s (apply_ack now f s)"
    by (rule eos_same) (simp_all add: apply_ack_def Let_def wakeSend_def freeAcked_def split: prod.split)
  then show ?thesis using run In_Ack eos_drop_path by (auto simp: recv_def recv_ack_def split: option.splits)
next
  case In_Fin
  assume run: "recv wr now i x s = Inr s'"
  have "ends_or_same s (s\<lparr>st_finRecv := True\<rparr>)" by (simp add: ends_or_same_def)
  from eos_drop[OF this] show ?thesis using run In_Fin by (auto simp: recv_def)
next
  case (In_Path_Drop b)
  assume "recv wr now i x s = Inr s'"
  then show ?thesis using In_Path_Drop eos_drop_path by (auto simp: recv_def handlePathDrop_def split: option.splits if_splits)
next
  case (In_Error e)
  assume "recv wr now i x s = Inr s'"
  then show ?thesis using In_Error eos_drop_path by (auto simp: recv_def split: if_splits)
qed (auto simp: recv_def recv_telemetry_def ends_or_same_def eos_shutdown emit_def wakeSend_def split: option.splits if_splits)

lemma eos_run:
  assumes "\<not> is_call_op x" "sop_step x w = Inr w'"
  shows "ends_or_same (w_s w) (w_s w')"
proof (cases x)
  case (Do_Send wr ts)
  have "ends_or_same (w_s w) ((w_s w)\<lparr>st_sendWake := False\<rparr>)" by (simp add: ends_or_same_def)
  then have "ends_or_same (w_s w) (snd (send_pass wr ts (w_s w)))"
    using eos_send_burst[of wr ts "(w_s w)\<lparr>st_sendWake := False\<rparr>"] eos_evolves
    by (metis prod.collapse send_pass_def)
  then show ?thesis using assms Do_Send by auto
next
  case (Do_Ack wr)
  have "ends_or_same (w_s w) ((w_s w)\<lparr>st_ackCh := False\<rparr>)" by (simp add: ends_or_same_def)
  from eos_evolves[OF this eos_send_ack evolves_send_ack] show ?thesis using assms Do_Ack by (auto simp: ack_pass_def)
next
  case (Do_Attach now p)
  then show ?thesis using assms
    by (auto simp: attachPath_def Let_def ends_or_same_def wakeSend_def emit_def split: prod.splits option.splits if_splits)
next
  case (Do_Remove wr i)
  then show ?thesis using assms eos_drop_path by (auto simp: removePath_def)
next
  case (Do_Ping wr i b t)
  then show ?thesis using assms eos_drop[OF eos_emit(1)] by (auto simp: send_ping_def Let_def)
next
  case (Do_Telemetry wr rates)
  then show ?thesis using assms eos_drop[OF eos_emit(1)] by (auto simp: send_telemetry_def Let_def split: option.split)
next
  case Do_Close
  then have "w_s w' = stream_close (w_s w)" using assms by auto
  then show ?thesis by (simp add: stream_close_def ends_or_same_def emit_def)
next
  case (Do_Tick wr now)
  then show ?thesis using assms eos_tick by auto
next
  case (Do_Recv wr now i y)
  then show ?thesis using assms eos_recv by (auto split: sum.splits)
next
  case (Do_Ctrl wr ft body)
  then show ?thesis using assms eos_writeCtrl by auto
next
  case Do_Reserve_Local
  then show ?thesis using assms by (auto simp: reserveLocalPathID_def ends_or_same_def split: if_splits)
next
  case (Do_Reserve_Remote i)
  then show ?thesis using assms by (auto simp: reserveRemotePathID_def ends_or_same_def split: if_splits)
qed (use assms(1) in simp_all)

text \<open>Only a DATA frame adds to what can be read, and only an ACK that is applied makes room to write.\<close>

lemma avail_run:
  assumes inv: "world_inv c w" and ok: "sop_ok c w x" and x: "\<not> is_call_op x" "\<not> wakes_readers x"
    and run: "sop_step x w = Inr w'"
  shows "rb_avail (st_rbuf (w_s w')) = rb_avail (st_rbuf (w_s w))"
proof -
  have si: "send_inv (w_written w) (w_s w)" using inv by (simp add: world_inv_def)
  have quiet: ?thesis if "quiet_cap (w_s w) (w_s w')"
    using that by (auto simp: quiet_cap_def rb_setCap_def rb_avail_def)
  note quiet' = quiet[OF quiet_cap_quiet]
  show ?thesis
  proof (cases x)
    case (Do_Send wr ts)
    then show ?thesis using run send_pass_inv[OF si, of wr ts] by (cases "send_pass wr ts (w_s w)") auto
  next
    case (Do_Ack wr)
    then show ?thesis using run send_ack_pass_inv[OF si] by (intro quiet') auto
  next
    case (Do_Tick wr now)
    then show ?thesis using run onTick_inv[OF si] by (intro quiet) auto
  next
    case (Do_Recv wr now i y)
    then obtain s' where s': "recv wr now i y (w_s w) = Inr s'" "w' = w\<lparr>w_s := s'\<rparr>" using run by (auto split: sum.splits)
    have "input_ok y" using ok Do_Recv by (cases y) simp_all
    from recv_inv(3)[OF si this s'(1)] show ?thesis using x Do_Recv s'(2) by (cases y) simp_all
  next
    case (Do_Attach now p)
    then show ?thesis using run
      by (auto simp: attachPath_def Let_def wakeSend_def emit_def split: prod.splits option.splits if_splits)
  next
    case (Do_Remove wr i)
    then show ?thesis using run removePath_inv[OF si, of wr i] by (cases "removePath wr i (w_s w)") (auto simp: quiet_def)
  next
    case (Do_Ping wr i b t)
    then show ?thesis using run ping_inv[OF si] by (intro quiet') auto
  next
    case (Do_Telemetry wr rates)
    then show ?thesis using run telemetry_inv[OF si] by (intro quiet') auto
  next
    case (Do_Ctrl wr ft body)
    then show ?thesis using run writeCtrl_inv[OF si] by (intro quiet') auto
  next
    case Do_Close
    then show ?thesis using run quiet_close by (intro quiet') auto
  next
    case Do_Reserve_Local
    then show ?thesis using run by (auto simp: reserveLocalPathID_def split: if_splits)
  next
    case (Do_Reserve_Remote i)
    then show ?thesis using run by (auto simp: reserveRemotePathID_def split: if_splits)
  qed (use x(1) in simp_all)
qed

lemma shown_cum: "shown_of s' = shown_of s \<Longrightarrow> st_cumAcked s' = st_cumAcked s"
proof -
  assume "shown_of s' = shown_of s"
  then have "sh_cum (shown_of s') = sh_cum (shown_of s)" by simp
  then show ?thesis by (simp add: shown_of_def)
qed

lemma cum_burst: "send_burst wr ts s = (b, s') \<Longrightarrow> st_cumAcked s' = st_cumAcked s"
proof (induction wr ts s rule: send_burst.induct)
  case (2 wr now ts s)
  obtain more q where q: "trySend wr now s = (more, q)" by fastforce
  obtain x q1 where q1: "trySend_locked now s = (x, q1)" by fastforce
  have "st_cumAcked q1 = st_cumAcked s"
    using q1 by (auto simp: trySend_locked_def Let_def commit_resend_def commit_fresh_def split: if_splits option.splits prod.splits)
  moreover have "st_cumAcked (drop_path wr i c n r) = st_cumAcked r" for i c n r by (rule shown_cum) simp
  moreover have "st_cumAcked (emit es r) = st_cumAcked r" for es r by (simp add: emit_def)
  ultimately have "st_cumAcked q = st_cumAcked s"
    using q q1 by (auto simp: trySend_def Let_def split: option.splits prod.splits if_splits)
  then show ?case using "2.IH"[of more q] "2.prems" q by (cases more) simp_all
qed simp

lemma cum_run:
  assumes x: "\<not> is_call_op x" "\<not> wakes_writers x (w_s w)" and run: "sop_step x w = Inr w'"
  shows "st_cumAcked (w_s w') = st_cumAcked (w_s w)" and "w_written w' = w_written w"
proof -
  show "w_written w' = w_written w" using x(1) run by (cases x) (auto split: prod.splits sum.splits option.splits bool.splits)
  note same = shown_cum[of "w_s w'" "w_s w"]
  show "st_cumAcked (w_s w') = st_cumAcked (w_s w)"
  proof (cases x)
    case (Do_Send wr ts)
    then show ?thesis using run cum_burst[of wr ts "(w_s w)\<lparr>st_sendWake := False\<rparr>"]
      by (cases "send_pass wr ts (w_s w)") (auto simp: send_pass_def)
  next
    case (Do_Ack wr)
    have "st_cumAcked (send_ack wr s) = st_cumAcked s" for s
      by (rule send_ack_rule[where P = "\<lambda>q. st_cumAcked q = st_cumAcked s"]) (simp_all add: emit_def shown_cum[OF shown_drop_path])
    then show ?thesis using run Do_Ack by (auto simp: ack_pass_def)
  next
    case (Do_Recv wr now i y)
    then obtain s' where s': "recv wr now i y (w_s w) = Inr s'" "w' = w\<lparr>w_s := s'\<rparr>" using run by (auto split: sum.splits)
    show ?thesis
    proof (cases y)
      case (In_Data off ts d)
      then show ?thesis using s'
        by (auto simp: recv_def recv_data_def Let_def triggerAck_def shutdown_def emit_def split: sum.splits if_splits)
    next
      case (In_Ack f)
      then have "s' = w_s w \<or> (\<exists>e. s' = drop_path wr i e True (w_s w))"
        using s'(1) x(2) Do_Recv by (auto simp: recv_def recv_ack_def ack_applies_def split: option.splits if_splits)
      then have "st_cumAcked s' = st_cumAcked (w_s w)" using shown_cum[OF shown_drop_path] by auto
      then show ?thesis using s'(2) by simp
    qed (use s' shown_recv_other[of y wr now i "w_s w"] in \<open>auto dest: shown_cum\<close>)
  next
    case (Do_Tick wr now)
    then show ?thesis using run shown_tick by (intro same) auto
  next
    case (Do_Attach now p)
    then show ?thesis using run shown_attach by (intro same) (auto split: prod.splits option.splits)
  next
    case (Do_Remove wr i)
    then show ?thesis using run by (intro same) auto
  next
    case (Do_Ping wr i b t)
    then show ?thesis using run by (intro same) auto
  next
    case (Do_Telemetry wr rates)
    then show ?thesis using run by (intro same) auto
  next
    case (Do_Ctrl wr ft body)
    then show ?thesis using run by (intro same) auto
  next
    case Do_Close
    then show ?thesis using run by (intro same) auto
  next
    case Do_Reserve_Local
    then show ?thesis using run by (auto simp: reserveLocalPathID_def split: if_splits)
  next
    case (Do_Reserve_Remote i)
    then show ?thesis using run by (auto simp: reserveRemotePathID_def split: if_splits)
  qed (use x(1) in simp_all)
qed

lemma i64_small:
  assumes "unat (x :: u64) < 2 ^ 63"
  shows "i64_of_u64 x = int (unat x)"
proof -
  have "int (unat x) < int (2 ^ 63)" using assms by (simp only: of_nat_less_iff)
  then have "int (unat x) < 2 ^ 63" by (simp only: of_nat_power of_nat_numeral)
  moreover have "- (2 ^ 63) \<le> int (unat x)" by (rule order_trans[of _ 0]) simp_all
  ultimately have "signed_take_bit 63 (int (unat x)) = int (unat x)" by (intro signed_take_bit_int_eq_self)
  then show ?thesis unfolding i64_of_u64_def sint_uint uint_nat by simp
qed

lemma outstanding_eq:
  assumes "send_inv W s"
  shows "outstanding s = int (length W) - int (unat (st_cumAcked s))"
proof -
  note v = send_invD[OF assms]
  have "unat (st_cumAcked s) \<le> unat (st_sentOff s)" using tiling_mono[OF v(3)] .
  then have d: "unat (st_sentOff s - st_cumAcked s) = unat (st_sentOff s) - unat (st_cumAcked s)"
    by (simp add: unat_diff_le word_le_nat_alt)
  then have "unat (st_sentOff s - st_cumAcked s) < 2 ^ 63" using v(1,2) by simp
  then have "i64_of_u64 (st_sentOff s - st_cumAcked s) = int (unat (st_sentOff s - st_cumAcked s))"
    by (rule i64_small)
  moreover have "length (queued s) = length W - unat (st_sentOff s)" using arg_cong[OF v(4), of length] by simp
  ultimately show ?thesis using v(2,5) d \<open>unat (st_cumAcked s) \<le> _\<close> by (simp add: outstanding_def)
qed

section \<open>The invariant of those who wait\<close>

text \<open>
  A call that waits on a channel that is still the current one, on a stream that has not ended, has nothing to do:
  a \<open>Read\<close> would find neither bytes nor an error, a \<open>Write\<close> as many bytes outstanding as it saw room for.
\<close>

definition stuck :: "work \<Rightarrow> int \<Rightarrow> stream \<Rightarrow> bool" where
  "stuck a saw s \<longleftrightarrow> \<not> st_closed s \<and>
     (case a of
        Reading room \<Rightarrow> 0 < room \<and> rb_avail (st_rbuf s) \<le> 0 \<and> st_rerr s = None
      | Writing t b \<Rightarrow> b \<noteq> [] \<and> saw \<le> outstanding s \<and> st_werr s = None)"

text \<open>A call that sets a deadline still owes the broadcast for what it has stored.\<close>

definition owes :: "work \<Rightarrow> set_act list \<Rightarrow> bool" where
  "owes a as \<longleftrightarrow> (\<exists>r w. Cast r w \<in> set as \<and> (case a of Reading n \<Rightarrow> r | Writing t b \<Rightarrow> w))"

fun pays :: "set_act list \<Rightarrow> bool" where
  "pays [] = True"
| "pays (Store_R d # as) \<longleftrightarrow> (\<exists>w. Cast True w \<in> set as) \<and> pays as"
| "pays (Store_W d # as) \<longleftrightarrow> (\<exists>r. Cast r True \<in> set as) \<and> pays as"
| "pays (Cast r w # as) \<longleftrightarrow> pays as"

definition armed :: "int \<Rightarrow> int option" where
  "armed d = (if 0 < d then Some d else None)"

definition call_inv :: "conn \<Rightarrow> call \<Rightarrow> bool" where
  "call_inv k cl \<longleftrightarrow>
     (case cl_phase cl of
        Took g saw \<Rightarrow> g \<le> gen_of (cl_work cl) k \<and>
          (g = gen_of (cl_work cl) k \<longrightarrow> \<not> st_once (w_s (cn_w k)) \<longrightarrow> stuck (cl_work cl) saw (w_s (cn_w k)))
      | Selecting g saw due \<Rightarrow> g \<le> gen_of (cl_work cl) k \<and>
          (g = gen_of (cl_work cl) k \<longrightarrow>
             (\<not> st_once (w_s (cn_w k)) \<longrightarrow> stuck (cl_work cl) saw (w_s (cn_w k))) \<and>
             (due = armed (deadline_of (cl_work cl) k) \<or> list_ex (owes (cl_work cl)) (cn_setters k)))
      | _ \<Rightarrow> True)"

definition conn_inv :: "conn \<Rightarrow> bool" where
  "conn_inv k \<longleftrightarrow> list_all (call_inv k) (cn_calls k) \<and> list_all pays (cn_setters k) \<and>
     (cn_done k \<longrightarrow> st_once (w_s (cn_w k)))"

text \<open>A step is harmless to the calls when channels only get newer, and those that stay the same lose nothing.\<close>

lemma call_inv_mono:
  assumes "call_inv k cl" and "\<And>a. gen_of a k \<le> gen_of a k'"
    and "\<And>a saw. gen_of a k' = gen_of a k \<Longrightarrow> \<not> st_once (w_s (cn_w k')) \<Longrightarrow>
      \<not> st_once (w_s (cn_w k)) \<and> (stuck a saw (w_s (cn_w k)) \<longrightarrow> stuck a saw (w_s (cn_w k')))"
    and "\<And>a. gen_of a k' = gen_of a k \<Longrightarrow> deadline_of a k' = deadline_of a k \<or> list_ex (owes a) (cn_setters k')"
    and "\<And>a. gen_of a k' = gen_of a k \<Longrightarrow> list_ex (owes a) (cn_setters k) \<Longrightarrow> list_ex (owes a) (cn_setters k')"
  shows "call_inv k' cl"
proof -
  let ?a = "cl_work cl"
  have g: "g = gen_of ?a k \<and> gen_of ?a k' = gen_of ?a k" if "g \<le> gen_of ?a k" "g = gen_of ?a k'" for g
    using that assms(2)[of ?a] by simp
  show ?thesis
  proof (cases "cl_phase cl")
    case (Took g saw)
    then show ?thesis using assms(1) g assms(2)[of ?a] assms(3)[of ?a saw] by (auto simp: call_inv_def)
  next
    case (Selecting g saw due)
    then show ?thesis using assms(1) g assms(2)[of ?a] assms(3)[of ?a saw] assms(4,5)[of ?a]
      by (fastforce simp: call_inv_def)
  qed (simp_all add: call_inv_def)
qed

lemma gen_simps [simp]:
  "gen_of a (set_call i cl k) = gen_of a k" "deadline_of a (set_call i cl k) = deadline_of a k"
  "gen_of a (k\<lparr>cn_w := w\<rparr>) = gen_of a k" "deadline_of a (k\<lparr>cn_w := w\<rparr>) = deadline_of a k"
  "gen_of a (k\<lparr>cn_setters := ss\<rparr>) = gen_of a k" "deadline_of a (k\<lparr>cn_setters := ss\<rparr>) = deadline_of a k"
  "gen_of a (k\<lparr>cn_calls := cs\<rparr>) = gen_of a k" "deadline_of a (k\<lparr>cn_calls := cs\<rparr>) = deadline_of a k"
  "gen_of a (k\<lparr>cn_done := dn\<rparr>) = gen_of a k" "deadline_of a (k\<lparr>cn_done := dn\<rparr>) = deadline_of a k"
  "deadline_of a (broadcast r v k) = deadline_of a k" "gen_of a k \<le> gen_of a (broadcast r v k)"
  by (cases a; simp add: set_call_def broadcast_def)+

lemma list_all_update: "list_all P xs \<Longrightarrow> P x \<Longrightarrow> list_all P (xs[i := x])"
  by (auto simp: list_all_iff dest: set_update_subset_insert[THEN subsetD])

lemma call_inv_set_call [simp]: "call_inv (set_call i cl k) = call_inv k" "call_inv (k\<lparr>cn_calls := cs\<rparr>) = call_inv k"
  by (auto simp: call_inv_def fun_eq_iff set_call_def split: phase.split)

lemma conn_inv_set_call: "conn_inv k \<Longrightarrow> call_inv k cl \<Longrightarrow> conn_inv (set_call i cl k)"
  by (auto simp: conn_inv_def list_all_update) (auto simp: set_call_def list_all_update)

lemma conn_inv_world:
  assumes inv: "conn_inv k" and once: "st_once (w_s w) = st_once (w_s (cn_w k))"
    and stuck: "\<And>a saw. stuck a saw (w_s (cn_w k)) \<Longrightarrow> stuck a saw (w_s w)"
  shows "conn_inv (k\<lparr>cn_w := w\<rparr>)"
proof -
  have "call_inv (k\<lparr>cn_w := w\<rparr>) cl" if "call_inv k cl" for cl
    by (rule call_inv_mono[OF that]) (use once stuck in simp_all)
  then show ?thesis using inv once by (auto simp: conn_inv_def list_all_iff)
qed

lemma read_stuck:
  assumes "stream_read room s = (Read_Bytes b, s')" and "stuck a saw s"
  shows "stuck a saw s'"
proof -
  have "s' = s \<or> 0 < rb_avail (st_rbuf s)" using assms(1) by (auto simp: stream_read_def split: if_splits option.splits)
  moreover have "st_werr s' = st_werr s \<and> st_closed s' = st_closed s \<and> outstanding s' = outstanding s"
    using assms(1) by (auto simp: stream_read_def Let_def triggerAck_def outstanding_def split: if_splits option.splits prod.splits)
  ultimately show ?thesis using assms(2) by (cases a) (auto simp: stuck_def)
qed

lemma read_once_flag: "stream_read room s = (res, s') \<Longrightarrow> st_once s' = st_once s"
  by (auto simp: stream_read_def Let_def triggerAck_def split: if_splits option.splits prod.splits)

lemma enqueue_stuck: "stuck a saw s \<Longrightarrow> stuck a saw (enqueue d s)"
  by (cases a) (auto simp: stuck_def outstanding_def enqueue_def wakeSend_def)

lemma conn_inv_enter:
  assumes inv: "conn_inv k" and e: "enter cl k = (cl', w)"
  shows "conn_inv (set_call i cl' (k\<lparr>cn_w := w\<rparr>))"
proof (cases "cl_work cl")
  case (Reading room)
  obtain res s where r: "stream_read room (w_s (cn_w k)) = (res, s)" by fastforce
  show ?thesis
  proof (cases res)
    case (Read_Bytes b)
    then have "conn_inv (k\<lparr>cn_w := w\<rparr>)"
      using e Reading r read_stuck[of room "w_s (cn_w k)" b s] read_once_flag[OF r] by (intro conn_inv_world[OF inv]) auto
    then show ?thesis using e Reading r Read_Bytes by (intro conn_inv_set_call) (auto simp: call_inv_def)
  next
    case (Read_Err x)
    then show ?thesis using inv e Reading r by (intro conn_inv_set_call) (auto simp: call_inv_def)
  next
    case Read_Blocked
    then have "stuck (Reading room) 0 (w_s (cn_w k))"
      using r by (auto simp: stream_read_def stuck_def Let_def split: if_splits option.splits prod.splits)
    then show ?thesis using inv e Reading r Read_Blocked by (intro conn_inv_set_call) (auto simp: call_inv_def)
  qed
next
  case (Writing tot b)
  show ?thesis
  proof (cases "b = []")
    case True
    then show ?thesis using inv e Writing by (intro conn_inv_set_call) (auto simp: call_inv_def)
  next
    case False
    obtain res s where r: "write_once tot b (w_s (cn_w k)) = (res, s)" by fastforce
    show ?thesis
    proof (cases res)
      case (Write_Done n)
      then have "\<exists>d. s = enqueue d (w_s (cn_w k))" using r by (auto simp: write_once_def Let_def split: option.splits if_splits)
      then have "conn_inv (k\<lparr>cn_w := w\<rparr>)"
        using e Writing False r Write_Done enqueue_stuck
        by (intro conn_inv_world[OF inv]) (auto simp: enqueue_def wakeSend_def)
      then show ?thesis using e Writing False r Write_Done by (intro conn_inv_set_call) (auto simp: call_inv_def)
    next
      case (Write_Err t x)
      then show ?thesis using inv e Writing False r by (intro conn_inv_set_call) (auto simp: call_inv_def)
    next
      case (Write_Blocked t q)
      then have "stuck (Writing tot b) (cf_sendBufCap (st_cfg (w_s (cn_w k)))) (w_s (cn_w k))"
        using r False by (auto simp: write_once_def stuck_def Let_def send_room_def outstanding_def split: option.splits if_splits)
      then show ?thesis using inv e Writing False r Write_Blocked by (intro conn_inv_set_call) (auto simp: call_inv_def)
    qed
  qed
qed

lemma owes_tl:
  "owes a (x # as) \<Longrightarrow> (case x of Cast r w \<Rightarrow> \<not> (case a of Reading n \<Rightarrow> r | Writing t b \<Rightarrow> w) | _ \<Rightarrow> True) \<Longrightarrow> owes a as"
  by (cases x; cases a) (auto simp: owes_def)

lemma list_ex_update:
  assumes "list_ex P xs" and "P (xs ! j) \<Longrightarrow> P y" and "j < length xs"
  shows "list_ex P (xs[j := y])"
proof -
  obtain i where i: "i < length xs" "P (xs ! i)" using assms(1) by (auto simp: list_ex_length)
  then have "P (xs[j := y] ! i)" using assms(2,3) by (cases "i = j") auto
  then show ?thesis using i(1) by (auto simp: list_ex_length)
qed

lemma conn_inv_set_next:
  assumes inv: "conn_inv k" and j: "j < length (cn_setters k)" "cn_setters k ! j = x # as"
  shows "conn_inv (do_act x (k\<lparr>cn_setters := (cn_setters k)[j := as]\<rparr>))"
proof -
  let ?k = "k\<lparr>cn_setters := (cn_setters k)[j := as]\<rparr>"
  have p: "pays (x # as)" using inv j by (metis conn_inv_def list_all_length)
  have pays: "list_all pays ((cn_setters k)[j := as])"
    using inv p by (intro list_all_update) (simp_all add: conn_inv_def, cases x, simp_all)
  have new: "list_ex (owes a) ((cn_setters k)[j := as])" if "owes a as" for a
    using that j(1) by (auto simp: list_ex_length intro!: exI[of _ j])
  have old: "list_ex (owes a) ((cn_setters k)[j := as])"
    if "list_ex (owes a) (cn_setters k)" "case x of Cast r w \<Rightarrow> \<not> (case a of Reading n \<Rightarrow> r | Writing t b \<Rightarrow> w) | _ \<Rightarrow> True" for a
    using that(1) owes_tl[of a x as] that(2) j by (intro list_ex_update) simp_all
  have same: "cn_calls (do_act x ?k) = cn_calls k" "cn_w (do_act x ?k) = cn_w k" "cn_done (do_act x ?k) = cn_done k"
    "cn_setters (do_act x ?k) = (cn_setters k)[j := as]" by (cases x; simp add: broadcast_def)+
  have "call_inv (do_act x ?k) cl" if c: "call_inv k cl" for cl
  proof (rule call_inv_mono[OF c])
    fix a
    show "gen_of a k \<le> gen_of a (do_act x ?k)" by (cases x; cases a) (auto simp: broadcast_def)
    assume g: "gen_of a (do_act x ?k) = gen_of a k"
    then have x: "case x of Cast r w \<Rightarrow> \<not> (case a of Reading n \<Rightarrow> r | Writing t b \<Rightarrow> w) | _ \<Rightarrow> True"
      by (cases x; cases a) (auto simp: broadcast_def split: if_splits)
    show "list_ex (owes a) (cn_setters k) \<Longrightarrow> list_ex (owes a) (cn_setters (do_act x ?k))" using old x same by simp
    show "deadline_of a (do_act x ?k) = deadline_of a k \<or> list_ex (owes a) (cn_setters (do_act x ?k))"
    proof -
      have "owes a as \<or> deadline_of a (do_act x ?k) = deadline_of a k"
        using p by (cases x; cases a) (auto simp: owes_def)
      then show ?thesis using new same by auto
    qed
  qed (simp add: same)
  then show ?thesis using inv pays by (auto simp: conn_inv_def same list_all_iff)
qed

lemma conn_inv_run:
  assumes inv: "conn_inv k" and w: "world_inv c (cn_w k)" and ok: "sop_ok c (cn_w k) x" and x: "\<not> is_call_op x"
    and run: "sop_step x (cn_w k) = Inr w'"
  shows "conn_inv (broadcast (wakes_readers x) (wakes_writers x (w_s (cn_w k))) (k\<lparr>cn_w := w'\<rparr>))"
proof -
  let ?r = "wakes_readers x" and ?w = "wakes_writers x (w_s (cn_w k))"
  let ?k = "broadcast ?r ?w (k\<lparr>cn_w := w'\<rparr>)"
  have sel: "cn_w ?k = w'" "cn_setters ?k = cn_setters k" "cn_calls ?k = cn_calls k" "cn_done ?k = cn_done k"
    by (simp_all add: broadcast_def)
  have once: "st_once (w_s (cn_w k)) \<Longrightarrow> st_once (w_s w')"
    using eos_run[OF x run] by (auto simp: ends_or_same_def)
  note e = eos_run[OF x run]
  have "call_inv ?k cl" if c: "call_inv k cl" for cl
  proof (rule call_inv_mono[OF c])
    fix a saw
    show "gen_of a k \<le> gen_of a ?k" by (cases a) (simp_all add: broadcast_def)
    assume g: "gen_of a ?k = gen_of a k"
    show "list_ex (owes a) (cn_setters k) \<Longrightarrow> list_ex (owes a) (cn_setters ?k)" by (simp add: sel)
    show "deadline_of a ?k = deadline_of a k \<or> list_ex (owes a) (cn_setters ?k)" by simp
    assume n: "\<not> st_once (w_s (cn_w ?k))"
    have f: "st_rerr (w_s w') = st_rerr (w_s (cn_w k))" "st_werr (w_s w') = st_werr (w_s (cn_w k))"
      "st_closed (w_s w') = st_closed (w_s (cn_w k))"
      using e n by (simp_all add: ends_or_same_def sel)
    have "stuck a saw (w_s w')" if s: "stuck a saw (w_s (cn_w k))"
    proof (cases a)
      case (Reading room)
      then have "\<not> ?r" using g by (auto simp: broadcast_def)
      from avail_run[OF w ok x this run] show ?thesis using s f Reading by (simp add: stuck_def)
    next
      case (Writing t b)
      then have "\<not> ?w" using g by (auto simp: broadcast_def)
      note cw = cum_run[OF x this run]
      have "world_inv c w'" by (rule world_inv_step[OF w ok run])
      then have "outstanding (w_s w') = outstanding (w_s (cn_w k))"
        using outstanding_eq[of "w_written w'" "w_s w'"] outstanding_eq[of "w_written (cn_w k)" "w_s (cn_w k)"] w cw
        by (simp add: world_inv_def)
      then show ?thesis using s f Writing by (simp add: stuck_def)
    qed
    then show "\<not> st_once (w_s (cn_w k)) \<and> (stuck a saw (w_s (cn_w k)) \<longrightarrow> stuck a saw (w_s (cn_w ?k)))"
      using n once by (auto simp: sel)
  qed
  then show ?thesis using inv once by (auto simp: conn_inv_def sel list_all_iff)
qed

lemma conn_inv_finish:
  assumes "conn_inv k" "st_once (w_s (cn_w k))"
  shows "conn_inv (broadcast True True (k\<lparr>cn_done := True\<rparr>))"
proof -
  let ?k = "broadcast True True (k\<lparr>cn_done := True\<rparr>)"
  have "gen_of a ?k = Suc (gen_of a k)" for a by (cases a) (simp_all add: broadcast_def)
  then have "call_inv ?k cl" if "call_inv k cl" for cl by (intro call_inv_mono[OF that]) simp_all
  then show ?thesis using assms by (auto simp: conn_inv_def list_all_iff broadcast_def)
qed

section \<open>Runs\<close>

lemma write_once_world:
  assumes "write_once tot b (w_s w) = (Write_Done n, s)" "b \<noteq> []"
  shows "sop_step (Do_Write (take (nat n) b)) w = Inr (w\<lparr>w_s := s, w_written := w_written w @ take (nat n) b\<rparr>)"
proof -
  define m where "m = min (nat (send_room (w_s w))) (length b)"
  have p: "st_werr (w_s w) = None" "\<not> st_closed (w_s w)" "0 < send_room (w_s w)" "n = int m" "s = enqueue (take m b) (w_s w)"
    using assms(1) by (auto simp: write_once_def Let_def m_def split: option.splits if_splits)
  have m: "0 < m" "m \<le> length b" "min (nat (send_room (w_s w))) m = m" using p(3) assms(2) by (auto simp: m_def)
  have "take m b \<noteq> []" "length (take m b) = m" using m(1,2) by auto
  then have "write_loop 0 (take m b) (w_s w) = (Write_Done (int m), s)"
    using p(1-3) m(3) write_loop.simps[of "int m" "[]"] unfolding p(5) send_room_def
    by (subst write_loop.simps) (simp add: Let_def enqueue_def)
  then show ?thesis using p(4) m(2) by (simp add: stream_write_def)
qed

lemma enter_world:
  assumes "enter cl k = (cl', w)" and "reach c w0 (cn_w k)"
    and "case cl_work cl of Reading n \<Rightarrow> True | Writing t b \<Rightarrow> length (w_written (cn_w k)) + length b < 2 ^ 63"
  shows "reach c w0 w"
proof (cases "cl_work cl")
  case (Reading room)
  obtain res s where r: "stream_read room (w_s (cn_w k)) = (res, s)" by fastforce
  have "w = cn_w k \<or> sop_step (Do_Read room) (cn_w k) = Inr w"
    using assms(1) r Reading by (cases res) auto
  then show ?thesis using reach_step[OF assms(2), of "Do_Read room" w] assms(2) by auto
next
  case (Writing tot b)
  have "w = cn_w k \<or> (\<exists>n. sop_step (Do_Write (take (nat n) b)) (cn_w k) = Inr w)"
    using assms(1) Writing write_once_world[of tot b "cn_w k"]
    by (cases "b = []"; cases "fst (write_once tot b (w_s (cn_w k)))") (auto simp del: sop_step.simps split: prod.splits)
  moreover have "sop_ok c (cn_w k) (Do_Write (take m b))" for m using assms(3) Writing by simp
  ultimately show ?thesis using reach_step[OF assms(2)] assms(2) by blast
qed

lemma conn_reach_inv:
  assumes "conn_reach c (new_conn cf t ini) k"
  shows "reach c (new_world cf t ini) (cn_w k) \<and> conn_inv k"
  using assms
proof (induction rule: conn_reach.induct)
  case conn_start
  then show ?case by (simp add: new_conn_def conn_inv_def reach_start)
next
  case (conn_next k x k')
  have r: "reach c (new_world cf t ini) (cn_w k)" and inv: "conn_inv k" using conn_next.IH by simp_all
  have w: "world_inv c (cn_w k)" using reach_inv[OF r world_inv_new] .
  show ?case
  proof (cases x)
    case (Start a)
    then have "k' = k\<lparr>cn_calls := cn_calls k @ [\<lparr>cl_work = a, cl_phase = At_Top\<rparr>]\<rparr>" using conn_next.hyps(3) by simp
    moreover have "call_inv k \<lparr>cl_work = a, cl_phase = At_Top\<rparr>" by (simp add: call_inv_def)
    ultimately show ?thesis using r inv by (simp add: conn_inv_def)
  next
    case (Enter i)
    then obtain cl w where e: "enter (cn_calls k ! i) k = (cl, w)" "k' = set_call i cl (k\<lparr>cn_w := w\<rparr>)"
      using conn_next.hyps(3) by (auto simp: Let_def split: if_splits prod.splits)
    have "reach c (new_world cf t ini) w" using enter_world[OF e(1) r] conn_next.hyps(2) Enter by simp
    then show ?thesis using conn_inv_enter[OF inv e(1)] e(2) by (simp add: set_call_def)
  next
    case (Arm i now)
    then obtain g saw where p: "i < length (cn_calls k)" "cl_phase (cn_calls k ! i) = Took g saw"
      "k' = set_call i (arm now k (cn_calls k ! i)) k"
      using conn_next.hyps(3) by (auto split: if_splits phase.splits)
    have "call_inv k (cn_calls k ! i)" using inv p(1) by (simp add: conn_inv_def list_all_length)
    then have "call_inv k (arm now k (cn_calls k ! i))" using p(2) by (auto simp: arm_def call_inv_def Let_def armed_def)
    then show ?thesis using r conn_inv_set_call[OF inv] p(3) by (simp add: set_call_def)
  next
    case (Wake i)
    then show ?thesis using conn_next.hyps(3) r conn_inv_set_call[OF inv, of "(cn_calls k ! i)\<lparr>cl_phase := At_Top\<rparr>" i]
      by (auto simp: call_inv_def set_call_def split: if_splits)
  next
    case (Fire i now)
    have "call_inv k (fire now k (cn_calls k ! i))" by (simp add: call_inv_def fire_def Let_def)
    then show ?thesis using Fire conn_next.hyps(3) r conn_inv_set_call[OF inv] by (auto simp: set_call_def split: if_splits)
  next
    case (Set as)
    then have k': "k' = k\<lparr>cn_setters := cn_setters k @ [as]\<rparr>" using conn_next.hyps(3) by simp
    have "pays as" using conn_next.hyps(2) Set by (auto simp: SetDeadline_def SetReadDeadline_def SetWriteDeadline_def)
    moreover have "call_inv k' cl" if "call_inv k cl" for cl by (rule call_inv_mono[OF that]) (simp_all add: k')
    ultimately show ?thesis using r inv by (auto simp: conn_inv_def k' list_all_iff)
  next
    case (Set_Next j)
    then have j: "j < length (cn_setters k)" "cn_setters k ! j = hd (cn_setters k ! j) # tl (cn_setters k ! j)"
      "k' = do_act (hd (cn_setters k ! j)) (k\<lparr>cn_setters := (cn_setters k)[j := tl (cn_setters k ! j)]\<rparr>)"
      using conn_next.hyps(3) by (auto split: if_splits)
    have "cn_w (do_act a q) = cn_w q" for a q by (cases a) (simp_all add: broadcast_def)
    then show ?thesis using r conn_inv_set_next[OF inv j(1,2)] j(3) by simp
  next
    case (Run y)
    then obtain w' where y: "\<not> is_call_op y" "sop_step y (cn_w k) = Inr w'"
      "k' = broadcast (wakes_readers y) (wakes_writers y (w_s (cn_w k))) (k\<lparr>cn_w := w'\<rparr>)"
      using conn_next.hyps(3) by (auto split: if_splits sum.splits)
    have ok: "sop_ok c (cn_w k) y" using conn_next.hyps(2) Run by simp
    show ?thesis using conn_inv_run[OF inv w ok y(1,2)] reach_step[OF r ok y(2)] y(3) by (simp add: broadcast_def)
  next
    case Finish
    then show ?thesis using conn_next.hyps(3) conn_inv_finish[OF inv] r by (auto simp: broadcast_def split: if_splits)
  qed
qed

end
