(* ===== verification/Stream_Wait_Props.thy ===== *)
theory Stream_Wait_Props
  imports Stream_Wait
begin

text \<open>
  What the invariant of \<open>Stream_Wait\<close> gives to the callers of \<open>Read\<close> and \<open>Write\<close>: no lost wake-up, no missed and no
  early timeout; and two limits of the code, a send buffer that grows without waking anyone and deadlines at or
  before the Unix epoch.
\<close>

section \<open>No lost wake-up, no missed deadline\<close>

definition waits :: "call \<Rightarrow> bool" where
  "waits cl \<longleftrightarrow> (case cl_phase cl of Took g saw \<Rightarrow> True | Selecting g saw due \<Rightarrow> True | _ \<Rightarrow> False)"

text \<open>Whether the call, were it to look at the stream now, would do something rather than wait again.\<close>

definition could_go :: "call \<Rightarrow> conn \<Rightarrow> bool" where
  "could_go cl k \<longleftrightarrow> \<not> waits (fst (enter cl k))"

lemma waits_phase [simp]:
  "waits (cl\<lparr>cl_phase := Back r\<rparr>) = False" "waits (cl\<lparr>cl_phase := Took g saw\<rparr>) = True"
  "waits \<lparr>cl_work = a, cl_phase = At_Top\<rparr> = False"
  by (simp_all add: waits_def)

lemma enter_phase: "waits (fst (enter (cl\<lparr>cl_phase := p\<rparr>) k)) = waits (fst (enter cl k))"
proof (cases "cl_work cl")
  case (Reading room)
  obtain res s where "stream_read room (w_s (cn_w k)) = (res, s)" by fastforce
  then show ?thesis using Reading by (cases res) simp_all
next
  case (Writing tot b)
  obtain res s where "write_once tot b (w_s (cn_w k)) = (res, s)" by fastforce
  then show ?thesis using Writing by (cases "b = []"; cases res) simp_all
qed

lemma enter_set_call [simp]: "enter cl (set_call i x k) = enter cl k"
proof -
  have "cn_w (set_call i x k) = cn_w k" "cn_rGen (set_call i x k) = cn_rGen k" "cn_wGen (set_call i x k) = cn_wGen k"
    by (simp_all add: set_call_def)
  note same = this
  show ?thesis unfolding enter.simps same ..
qed

lemma stuck_waits:
  assumes "stuck (cl_work cl) saw (w_s (cn_w k))"
    and "case cl_work cl of Reading n \<Rightarrow> True | Writing t b \<Rightarrow> cf_sendBufCap (st_cfg (w_s (cn_w k))) \<le> saw"
  shows "\<not> could_go cl k"
proof (cases "cl_work cl")
  case (Reading room)
  then have "stream_read room (w_s (cn_w k)) = (Read_Blocked, w_s (cn_w k))"
    using assms(1) by (simp add: stuck_def stream_read_def)
  then show ?thesis using Reading by (simp add: could_go_def)
next
  case (Writing tot b)
  then have "write_once tot b (w_s (cn_w k)) = (Write_Blocked tot b, w_s (cn_w k))" "b \<noteq> []"
    using assms by (simp_all add: stuck_def write_once_def send_room_def outstanding_def)
  then show ?thesis using Writing by (simp add: could_go_def)
qed

lemma call_inv_of: "conn_inv k \<Longrightarrow> i < length (cn_calls k) \<Longrightarrow> call_inv k (cn_calls k ! i)"
  by (simp add: conn_inv_def list_all_length)

lemma woken_when_it_could_go:
  assumes "conn_inv k" and i: "i < length (cn_calls k)" and ph: "cl_phase (cn_calls k ! i) = Selecting g saw due"
    and "st_once (w_s (cn_w k)) \<longrightarrow> cn_done k" and go: "could_go (cn_calls k ! i) k"
    and "case cl_work (cn_calls k ! i) of Reading n \<Rightarrow> True | Writing t b \<Rightarrow> cf_sendBufCap (st_cfg (w_s (cn_w k))) \<le> saw"
  shows "can_wake k (cn_calls k ! i)"
proof (rule ccontr)
  assume n: "\<not> can_wake k (cn_calls k ! i)"
  then have "g = gen_of (cl_work (cn_calls k ! i)) k" "\<not> st_once (w_s (cn_w k))"
    using call_inv_of[OF assms(1) i] ph assms(4) by (auto simp: can_wake_def call_inv_def)
  then have "stuck (cl_work (cn_calls k ! i)) saw (w_s (cn_w k))" using call_inv_of[OF assms(1) i] ph by (simp add: call_inv_def)
  then show False using stuck_waits assms(6) go by blast
qed

lemma wake_then_enter:
  assumes i: "i < length (cn_calls k)" and w: "can_wake k (cn_calls k ! i)" and go: "could_go (cn_calls k ! i) k"
  shows "\<exists>k1 k2. conn_step (Wake i) k = Some k1 \<and> conn_step (Enter i) k1 = Some k2 \<and> \<not> waits (cn_calls k2 ! i)"
proof -
  let ?cl = "(cn_calls k ! i)\<lparr>cl_phase := At_Top\<rparr>"
  let ?k = "set_call i ?cl k"
  obtain cl v where e: "enter ?cl k = (cl, v)" by fastforce
  have k: "cn_calls ?k ! i = ?cl" "i < length (cn_calls ?k)" using i by (simp_all add: set_call_def)
  have "\<not> waits cl" using go enter_phase[of At_Top "cn_calls k ! i" k] e by (simp add: could_go_def)
  moreover have "conn_step (Wake i) k = Some ?k" using i w by simp
  moreover have "conn_step (Enter i) ?k = Some (set_call i cl (?k\<lparr>cn_w := v\<rparr>))"
    unfolding conn_step.simps k(1) enter_set_call e using k(2) by simp
  moreover have "cn_calls (set_call i cl (?k\<lparr>cn_w := v\<rparr>)) ! i = cl" using i by (simp add: set_call_def)
  ultimately show ?thesis by metis
qed


text \<open>
  C11: no deadline is missed. When the deadline of a waiting call has passed, and every call that set one has done its
  broadcasts, the waiting call is woken to look again, or its timer has fired and it returns a timeout with what it
  has done so far.
\<close>

theorem deadline_ends_the_wait:
  assumes "conn_reach c (new_conn cf t ini) k"
    and "i < length (cn_calls k)" and "cl_phase (cn_calls k ! i) = Selecting g saw due"
    and "\<not> list_ex (owes (cl_work (cn_calls k ! i))) (cn_setters k)"
    and "0 < deadline_of (cl_work (cn_calls k ! i)) k" and "deadline_of (cl_work (cn_calls k ! i)) k \<le> now"
  shows "(\<exists>k'. conn_step (Wake i) k = Some k') \<or>
    (\<exists>k'. conn_step (Fire i now) k = Some k' \<and>
       cl_phase (cn_calls k' ! i) = Back (Failed (so_far (cl_work (cn_calls k ! i))) Err_Timeout))"
proof (cases "can_wake k (cn_calls k ! i)")
  case False
  have inv: "call_inv k (cn_calls k ! i)" using call_inv_of conn_reach_inv[OF assms(1)] assms(2) by blast
  then have "g = gen_of (cl_work (cn_calls k ! i)) k" using False assms(3) by (simp add: can_wake_def call_inv_def)
  then have "due = Some (deadline_of (cl_work (cn_calls k ! i)) k)" using inv assms(3-5) by (simp add: call_inv_def armed_def)
  then have "can_fire now (cn_calls k ! i)" using assms(3,6) by (simp add: can_fire_def)
  then show ?thesis using assms(2,5,6) by (simp add: fire_def set_call_def Let_def)
qed (use assms(2) in simp)

text \<open>A timeout is never early, and it is the caller's own deadline that has passed.\<close>

lemma back_set_call:
  assumes "cl_phase (cn_calls k ! i) \<noteq> p" "cl_phase (cn_calls (set_call j cl k) ! i) = p" "i < length (cn_calls k)"
  shows "j = i \<and> cl_phase cl = p"
  using assms by (cases "j = i") (auto simp: set_call_def)

lemma timeouts_in_time:
  assumes s: "conn_step x k = Some k'" and i: "i < length (cn_calls k)"
    and b: "cl_phase (cn_calls k ! i) \<noteq> Back (Failed n Err_Timeout)" "cl_phase (cn_calls k' ! i) = Back (Failed n Err_Timeout)"
  shows "\<exists>now. (x = Arm i now \<or> x = Fire i now) \<and> deadline_of (cl_work (cn_calls k ! i)) k \<noteq> 0 \<and>
    deadline_of (cl_work (cn_calls k ! i)) k \<le> now \<and> n = so_far (cl_work (cn_calls k ! i))"
proof (cases x)
  case (Enter j)
  obtain cl w where e: "enter (cn_calls k ! j) k = (cl, w)" by fastforce
  then have k: "k' = set_call j cl (k\<lparr>cn_w := w\<rparr>)" "j < length (cn_calls k)" "cl_phase (cn_calls k ! j) = At_Top"
    using s Enter by (auto split: if_splits)
  have "cl_phase cl \<noteq> Back (Failed n Err_Timeout)"
  proof (cases "cl_work (cn_calls k ! j)")
    case (Reading room)
    obtain res q where "stream_read room (w_s (cn_w k)) = (res, q)" by fastforce
    then show ?thesis using e Reading by (cases res) auto
  next
    case (Writing tot d)
    obtain res q where "write_once tot d (w_s (cn_w k)) = (res, q)" by fastforce
    then show ?thesis using e Writing by (cases "d = []"; cases res) auto
  qed
  then show ?thesis using back_set_call[of "k\<lparr>cn_w := w\<rparr>" i _ j cl] b i k by simp
next
  case (Arm j now)
  then have k: "k' = set_call j (arm now k (cn_calls k ! j)) k" using s by (auto split: if_splits)
  then show ?thesis using Arm b i back_set_call[OF b(1) _ i, of j "arm now k (cn_calls k ! j)"]
    by (auto simp: arm_def Let_def split: phase.splits if_splits)
next
  case (Wake j)
  then have "k' = set_call j ((cn_calls k ! j)\<lparr>cl_phase := At_Top\<rparr>) k" using s by (auto split: if_splits)
  then show ?thesis using b(2) back_set_call[OF b(1) _ i, of j "(cn_calls k ! j)\<lparr>cl_phase := At_Top\<rparr>"] by simp
next
  case (Fire j now)
  then have k: "k' = set_call j (fire now k (cn_calls k ! j)) k" using s by (auto split: if_splits)
  then show ?thesis using Fire b i back_set_call[OF b(1) _ i, of j "fire now k (cn_calls k ! j)"]
    by (auto simp: fire_def Let_def split: if_splits)
next
  case (Set_Next j)
  have "cn_calls (do_act a q) = cn_calls q" for a q by (cases a) (simp_all add: broadcast_def)
  then show ?thesis using Set_Next s b by (auto split: if_splits)
qed (use s b i in \<open>auto simp: broadcast_def nth_append split: if_splits sum.splits\<close>)

section \<open>Two limits\<close>

text \<open>
  A tick wakes nobody, even when it makes the send buffer larger and so makes room for a \<open>Write\<close> that waits; that
  call goes on at the next ACK. And an instant at or before the Unix epoch is no deadline at all, where
  \<open>net.Conn\<close> would have it expired.
\<close>

lemma tick_wakes_nobody: "conn_step (Run (Do_Tick wr now)) k = Some k' \<Longrightarrow> can_wake k' cl = can_wake k cl"
  by (cases "cl_work cl") (auto simp: can_wake_def broadcast_def split: phase.split)

lemma epoch_is_no_deadline:
  assumes "- (2 ^ 63) \<le> n" "n \<le> 0"
  shows "armed (deadlineNano (At n)) = None"
proof -
  have "wrap64 n = n" using assms by (intro wrap64_id) (simp add: int64_range_def)
  then show ?thesis using assms by (simp add: deadlineNano_def armed_def)
qed

definition grow_config :: stream_config where
  "grow_config = \<lparr>cf_minBuf = 2, cf_maxBuf = 4000, cf_sendBufCap = 4, cf_telemetryInterval = 1, cf_policy = False\<rparr>"

definition fast_path :: path where
  "fast_path = (new_path 2 True (At 0))\<lparr>p_rxRate := 1024, p_srtt := 1000000000\<rparr>"

lemma fast_rate: "fl64 1024 = 1024" "seconds 1000000000 = 1" "int64_of_float 1024 = 1024" "fl64 0 = 0"
  by code_simp+

lemmas conn_eval = new_conn_def new_world_def newStreamFull_def norm_config_def Let_def windowCap_def new_path_def wakeSend_def
  triggerAck_def emit_def set_call_def broadcast_def arm_def

text \<open>A \<open>Write\<close> of five bytes into a buffer of four, on an initiator that is given a second, faster path.\<close>

definition grow_k0 :: conn where
  "grow_k0 = new_conn grow_config (At 0) True"

definition grow_w1 :: world where
  "grow_w1 = (cn_w grow_k0)\<lparr>w_s := (w_s (cn_w grow_k0))\<lparr>st_sendQ := [[1, 2, 3, 4]], st_pendingBytes := 4, st_sendWake := True\<rparr>,
     w_written := [1, 2, 3, 4]\<rparr>"

definition grow_w2 :: world where
  "grow_w2 = grow_w1\<lparr>w_s := (w_s grow_w1)\<lparr>st_nextPathID := 4, st_paths := [new_path 0 True (At 0), fast_path],
     st_out := [Eff_Added 2, Eff_Go_Recv 2, Eff_Go_Ping 2 False 0]\<rparr>, w_granted := []\<rparr>"

definition grow_w3 :: world where
  "grow_w3 = grow_w2\<lparr>w_s := (w_s grow_w2)\<lparr>st_rbuf := new_rbuf 1024, st_cfg := grow_config\<lparr>cf_sendBufCap := 2048\<rparr>,
     st_paths := [(new_path 0 True (At 0))\<lparr>p_rxMarkT := At 0\<rparr>, fast_path\<lparr>p_rxMarkT := At 0\<rparr>]\<rparr>\<rparr>"

lemmas grow_simps = grow_k0_def grow_w1_def grow_w2_def grow_w3_def grow_config_def fast_path_def conn_eval

lemma grow_write: "write_once 0 [1, 2, 3, 4, 5] (w_s (cn_w grow_k0)) = (Write_Done 4, w_s grow_w1)"
  "write_once 4 [5] (w_s grow_w1) = (Write_Blocked 4 [5], w_s grow_w1)"
  by (simp_all add: grow_simps write_once_def send_room_def i64_of_u64_def enqueue_def)

definition grow_k :: "world \<Rightarrow> phase \<Rightarrow> conn" where
  "grow_k w ph = grow_k0\<lparr>cn_w := w, cn_calls := [\<lparr>cl_work = Writing 4 [5], cl_phase = ph\<rparr>]\<rparr>"

lemma grow_sel:
  "cn_w (grow_k w ph) = w" "cn_calls (grow_k w ph) = [\<lparr>cl_work = Writing 4 [5], cl_phase = ph\<rparr>]" "cn_wGen (grow_k w ph) = 0"
  "cn_wDeadline (grow_k w ph) = 0" "cn_done (grow_k w ph) = False" "(grow_k w ph)\<lparr>cn_w := w'\<rparr> = grow_k w' ph"
  "set_call 0 \<lparr>cl_work = Writing 4 [5], cl_phase = ph'\<rparr> (grow_k w ph) = grow_k w ph'" "broadcast False False (grow_k w ph) = grow_k w ph"
  by (simp_all add: grow_k_def grow_k0_def new_conn_def set_call_def broadcast_def)

lemma grow_cap: "cf_sendBufCap (st_cfg (w_s grow_w1)) = 4"
  by (simp add: grow_simps)

lemma grow_call:
  "conn_step (Enter 0) (grow_k0\<lparr>cn_calls := [\<lparr>cl_work = Writing 0 [1, 2, 3, 4, 5], cl_phase = At_Top\<rparr>]\<rparr>) = Some (grow_k grow_w1 At_Top)"
  "conn_step (Enter 0) (grow_k grow_w1 At_Top) = Some (grow_k grow_w1 (Took 0 4))"
  "conn_step (Arm 0 1) (grow_k grow_w1 (Took 0 4)) = Some (grow_k grow_w1 (Selecting 0 4 None))"
  subgoal by (simp add: grow_write set_call_def) (simp add: grow_k_def grow_simps)
  subgoal by (simp add: grow_sel grow_write grow_cap)
  by (simp add: grow_sel arm_def)

lemma grow_attach:
  "conn_step (Run Do_Reserve_Local) (grow_k grow_w1 ph) = Some (grow_k (grow_w1\<lparr>w_s := (w_s grow_w1)\<lparr>st_nextPathID := 4\<rparr>, w_granted := [2]\<rparr>) ph)"
  "conn_step (Run (Do_Attach (At 1) fast_path)) (grow_k (grow_w1\<lparr>w_s := (w_s grow_w1)\<lparr>st_nextPathID := 4\<rparr>, w_granted := [2]\<rparr>) ph) =
     Some (grow_k grow_w2 ph)"
  subgoal by (simp add: grow_sel reserveLocalPathID_def) (simp add: grow_simps grow_k_def)
  by (simp add: grow_sel) (simp add: grow_simps grow_k_def attachPath_def sendTs_def is_zero_time_def max_duration_def min_duration_def microsecond_def quot_def)

lemma tick_fast: "tick_path n (At 2) fast_path = (fast_path\<lparr>p_rxMarkT := At 0\<rparr>, [], [], [])"
  "tick_path n (At 2) (new_path 0 True (At 0)) = ((new_path 0 True (At 0))\<lparr>p_rxMarkT := At 0\<rparr>, [], [], [])"
proof -
  have "tick_rx (At 2) fast_path = (fast_path\<lparr>p_rxMarkT := At 0\<rparr>, [])"
    "tick_rx (At 2) (new_path 0 True (At 0)) = ((new_path 0 True (At 0))\<lparr>p_rxMarkT := At 0\<rparr>, [])"
    by (simp_all add: tick_rx_def fast_path_def new_path_def rxSampleMinBytes_def rxSampleMaxWindow_def second_def Let_def
        max_duration_def min_duration_def is_zero_time_def)
  then show "tick_path n (At 2) fast_path = (fast_path\<lparr>p_rxMarkT := At 0\<rparr>, [], [], [])"
    "tick_path n (At 2) (new_path 0 True (At 0)) = ((new_path 0 True (At 0))\<lparr>p_rxMarkT := At 0\<rparr>, [], [], [])"
    by (simp_all add: tick_path_def) (simp_all add: fast_path_def new_path_def probe_stale_def)
qed

lemma fast_target:
  assumes "st_paths s = [(new_path 0 True (At 0))\<lparr>p_rxMarkT := At 0\<rparr>, fast_path\<lparr>p_rxMarkT := At 0\<rparr>]" and "st_cfg s = grow_config"
  shows "target_cap s = 1024"
  using assms by (simp add: target_cap_def fast_path_def grow_config_def new_path_def fast_rate Let_def)

lemma fast_tick:
  assumes "st_paths s = [new_path 0 True (At 0), fast_path]" "st_cfg s = grow_config" "\<not> st_closed s" "st_unacked s = []"
    "st_rbuf s = new_rbuf 2"
  shows "onTick wr (At 2) s = s\<lparr>st_rbuf := new_rbuf 1024, st_cfg := grow_config\<lparr>cf_sendBufCap := 2048\<rparr>,
    st_paths := [(new_path 0 True (At 0))\<lparr>p_rxMarkT := At 0\<rparr>, fast_path\<lparr>p_rxMarkT := At 0\<rparr>]\<rparr>"
  using assms
  apply (simp add: onTick_def tick_fast updateWindowCap_def fast_target Let_def)
  apply (simp add: grow_config_def set_window_cap_def rb_setCap_def rb_window_def new_rbuf_def Let_def checkSoftFail_def emit_def quot_def)
  by (simp add: new_path_def fast_path_def rto_expired_def)

lemma grow_w2_sel: "st_paths (w_s grow_w2) = [new_path 0 True (At 0), fast_path]" "st_cfg (w_s grow_w2) = grow_config"
  "\<not> st_closed (w_s grow_w2)" "st_unacked (w_s grow_w2) = []" "st_rbuf (w_s grow_w2) = new_rbuf 2"
  by (simp_all add: grow_simps)

lemma grow_tick: "conn_step (Run (Do_Tick (\<lambda>_. True) (At 2))) (grow_k grow_w2 ph) = Some (grow_k grow_w3 ph)"
  by (simp add: grow_sel fast_tick[OF grow_w2_sel] grow_w3_def)

text \<open>The run: a state that can come about, in which a \<open>Write\<close> could go on and nothing wakes it.\<close>

lemma growth_run: "conn_reach c (new_conn grow_config (At 0) True) (grow_k grow_w3 (Selecting 0 4 None))"
proof -
  let ?r = "conn_reach c grow_k0"
  let ?w = "grow_w1\<lparr>w_s := (w_s grow_w1)\<lparr>st_nextPathID := 4\<rparr>, w_granted := [2]\<rparr>"
  have "?r grow_k0" by (rule conn_start)
  then have "?r (grow_k0\<lparr>cn_calls := [\<lparr>cl_work = Writing 0 [1, 2, 3, 4, 5], cl_phase = At_Top\<rparr>]\<rparr>)"
    by (rule conn_next[where x = "Start (Writing 0 [1, 2, 3, 4, 5])"]) (simp_all add: grow_k0_def new_conn_def)
  then have "?r (grow_k grow_w1 At_Top)" by (rule conn_next[OF _ _ grow_call(1)]) (simp add: grow_k0_def new_conn_def new_world_def)
  then have "?r (grow_k grow_w1 (Took 0 4))" by (rule conn_next[OF _ _ grow_call(2)]) (simp add: grow_sel grow_w1_def)
  then have "?r (grow_k grow_w1 (Selecting 0 4 None))" by (rule conn_next[OF _ _ grow_call(3)]) simp
  then have "?r (grow_k ?w (Selecting 0 4 None))" by (rule conn_next[OF _ _ grow_attach(1)]) (simp add: grow_sel grow_simps)
  then have "?r (grow_k grow_w2 (Selecting 0 4 None))"
    by (rule conn_next[OF _ _ grow_attach(2)]) (simp add: grow_sel fast_path_def new_path_def)
  then have "?r (grow_k grow_w3 (Selecting 0 4 None))" by (rule conn_next[OF _ _ grow_tick]) simp
  then show ?thesis by (simp add: grow_k0_def)
qed

lemma growth_leaves_a_write_waiting:
  "\<exists>k. conn_reach c (new_conn grow_config (At 0) True) k \<and> cl_phase (cn_calls k ! 0) = Selecting 0 4 None \<and>
     could_go (cn_calls k ! 0) k \<and> \<not> can_wake k (cn_calls k ! 0)"
proof -
  have "write_once 4 [5] (w_s grow_w3) = (Write_Done 1, enqueue [5] (w_s grow_w3))"
    by (simp add: grow_simps write_once_def send_room_def i64_of_u64_def)
  then have "could_go \<lparr>cl_work = Writing 4 [5], cl_phase = Selecting 0 4 None\<rparr> (grow_k grow_w3 (Selecting 0 4 None))"
    by (simp add: could_go_def grow_sel)
  then show ?thesis using growth_run[of c]
    by (intro exI[of _ "grow_k grow_w3 (Selecting 0 4 None)"]) (simp add: grow_sel can_wake_def)
qed

section \<open>Witnesses\<close>

text \<open>A \<open>Read\<close> that waits, and the frame that wakes it; a \<open>Read\<close> with a deadline, which passes.\<close>

definition wait_k :: "world \<Rightarrow> nat \<Rightarrow> int \<Rightarrow> set_act list list \<Rightarrow> phase \<Rightarrow> conn" where
  "wait_k w g d ss ph = (new_conn demo_config (At 0) True)\<lparr>cn_w := w, cn_rGen := g, cn_rDeadline := d, cn_setters := ss,
     cn_calls := [\<lparr>cl_work = Reading 10, cl_phase = ph\<rparr>]\<rparr>"

definition wait_w :: world where
  "wait_w = demo_w0\<lparr>w_s := (w_s demo_w0)\<lparr>
     st_rbuf := (new_rbuf 100)\<lparr>rb_next := 2, rb_ready := [mk_seg 0 [0, 1]], rb_size := 2, rb_readyBytes := 2\<rparr>,
     st_lastDataTs := 5, st_lastDataPath := Some 0, st_ackCh := True,
     st_paths := [(new_path 0 True (At 0))\<lparr>p_rxBytes := 2\<rparr>]\<rparr>\<rparr>"

lemma wait_sel:
  "cn_w (wait_k w g d ss ph) = w" "cn_calls (wait_k w g d ss ph) = [\<lparr>cl_work = Reading 10, cl_phase = ph\<rparr>]"
  "cn_rGen (wait_k w g d ss ph) = g" "cn_rDeadline (wait_k w g d ss ph) = d" "cn_done (wait_k w g d ss ph) = False"
  "cn_setters (wait_k w g d ss ph) = ss"
  "(wait_k w g d ss ph)\<lparr>cn_w := w'\<rparr> = wait_k w' g d ss ph" "(wait_k w g d ss ph)\<lparr>cn_setters := ss'\<rparr> = wait_k w g d ss' ph"
  "(wait_k w g d ss ph)\<lparr>cn_rDeadline := d'\<rparr> = wait_k w g d' ss ph"
  "set_call 0 \<lparr>cl_work = Reading 10, cl_phase = ph'\<rparr> (wait_k w g d ss ph) = wait_k w g d ss ph'"
  "broadcast True False (wait_k w g d ss ph) = wait_k w (Suc g) d ss ph"
  by (simp_all add: wait_k_def new_conn_def set_call_def broadcast_def)

lemma wait_blocks: "stream_read 10 (w_s demo_w0) = (Read_Blocked, w_s demo_w0)"
  by (simp add: demo_world_simps stream_read_def rb_avail_def new_rbuf_def)

lemma wait_start: "conn_reach c (new_conn demo_config (At 0) True) (wait_k demo_w0 0 0 [] At_Top)"
  by (rule conn_next[where x = "Start (Reading 10)", OF conn_start])
    (simp_all add: wait_k_def new_conn_def demo_w0_def)

lemma wait_enter: "conn_step (Enter 0) (wait_k demo_w0 g d ss At_Top) = Some (wait_k demo_w0 g d ss (Took g 0))"
  by (simp add: wait_sel wait_blocks)

lemma wait_arrival:
  "conn_step (Run (Do_Recv (\<lambda>_. True) (At 7000) 0 (In_Data 0 5 [0, 1]))) (wait_k demo_w0 g d ss ph) = Some (wait_k wait_w (Suc g) d ss ph)"
proof -
  have "sop_step (Do_Recv (\<lambda>_. True) (At 7000) 0 (In_Data 0 5 [0, 1])) demo_w0 = Inr wait_w"
    by (simp add: demo_world_simps wait_w_def recv_def recv_data_def rb_eval upd_path_def rb_sizeBytes_def)
  then show ?thesis by (simp add: wait_sel del: sop_step.simps)
qed


theorem deadline_ends_the_wait_witness:
  "\<exists>k'. conn_step (Fire 0 60) (wait_k demo_w0 1 50 [[]] (Selecting 1 0 (Some 50))) = Some k' \<and>
     cl_phase (cn_calls k' ! 0) = Back (Failed 0 Err_Timeout)"
proof -
  let ?r = "conn_reach demo_content (new_conn demo_config (At 0) True)"
  have "?r (wait_k demo_w0 0 0 [SetReadDeadline (At 50)] At_Top)"
    by (rule conn_next[where x = "Set (SetReadDeadline (At 50))", OF wait_start]) (auto simp: wait_sel)
  then have "?r (wait_k demo_w0 0 50 [[Cast True False]] At_Top)"
    by (rule conn_next[where x = "Set_Next 0"]) (simp_all add: wait_sel SetReadDeadline_def deadlineNano_def int64_range_def)
  then have "?r (wait_k demo_w0 1 50 [[]] At_Top)"
    by (rule conn_next[where x = "Set_Next 0"]) (simp_all add: wait_sel)
  then have "?r (wait_k demo_w0 1 50 [[]] (Took 1 0))" by (rule conn_next[OF _ _ wait_enter]) (simp add: wait_sel)
  then have r: "?r (wait_k demo_w0 1 50 [[]] (Selecting 1 0 (Some 50)))"
    by (rule conn_next[where x = "Arm 0 10"]) (simp_all add: wait_sel arm_def)
  show ?thesis using deadline_ends_the_wait[OF r, of 0 1 0 "Some 50" 60] by (simp add: wait_sel can_wake_def owes_def)
qed

end
