(* ===== verification/Stream_Limits.thy ===== *)
theory Stream_Limits
  imports Stream_Wait_Props
begin

text \<open>
  Where the capacity of the receive buffer, which follows the arrival rate (\<open>updateWindowCapLocked\<close> of
  \<open>src/stream.go\<close>), is at odds with what the rest of the code expects of it: a capacity that shrinks ends an honest
  stream, and the send buffer follows the wrong end's capacity.
\<close>

section \<open>An honest stream that is ended\<close>

text \<open>
  The initiator of \<open>grow_k0\<close> after its tick: a fast path has made its capacity 1024. Nine bytes arrive out of order,
  far within the window; the fast path goes, the next tick lets the capacity fall to the minimum; then the first byte
  arrives.
\<close>

definition shrink_w1 :: world where
  "shrink_w1 = grow_w3\<lparr>w_s := (w_s grow_w3)\<lparr>
     st_rbuf := (new_rbuf 1024)\<lparr>rb_segs := [mk_seg 1 [1, 2, 3, 4, 5, 6, 7, 8, 9]], rb_size := 9\<rparr>,
     st_lastDataTs := 5, st_lastDataPath := Some 0, st_ackCh := True,
     st_paths := [(new_path 0 True (At 0))\<lparr>p_rxMarkT := At 0, p_rxBytes := 9\<rparr>, fast_path\<lparr>p_rxMarkT := At 0\<rparr>]\<rparr>\<rparr>"

definition shrink_w2 :: world where
  "shrink_w2 = shrink_w1\<lparr>w_s := (w_s shrink_w1)\<lparr>
     st_paths := [(new_path 0 True (At 0))\<lparr>p_rxMarkT := At 0, p_rxBytes := 9\<rparr>],
     st_out := st_out (w_s shrink_w1) @ [Eff_Close 2, Eff_Removed 2 None]\<rparr>\<rparr>"

definition shrink_w3 :: world where
  "shrink_w3 = shrink_w2\<lparr>w_s := (w_s shrink_w2)\<lparr>
     st_rbuf := rb_setCap (st_rbuf (w_s shrink_w2)) 2, st_cfg := grow_config,
     st_paths := [(new_path 0 True (At 0))\<lparr>p_rxMarkT := At 0, p_rxBytes := 9, p_lastPingAt := At 4\<rparr>],
     st_out := st_out (w_s shrink_w2) @ [Eff_Go_Ping 0 False 0]\<rparr>\<rparr>"

lemmas shrink_simps = grow_simps shrink_w1_def shrink_w2_def shrink_w3_def

lemma shrink_step1:
  "sop_step (Do_Recv (\<lambda>_. True) (At 3) 0 (In_Data 1 5 [1, 2, 3, 4, 5, 6, 7, 8, 9])) grow_w3 = Inr shrink_w1"
  by (simp add: shrink_simps recv_def recv_data_def rb_eval upd_path_def rb_sizeBytes_def)

lemma shrink_step2: "sop_step (Do_Recv (\<lambda>_. True) (At 4) 0 (In_Path_Drop (Some 2))) shrink_w1 = Inr shrink_w2"
  by (simp add: shrink_simps recv_def handlePathDrop_def drop_path.simps finish_drop_def remove_path_def lookup_def orphan_def orphan_count_def)

definition slow_path :: path where
  "slow_path = (new_path 0 True (At 0))\<lparr>p_rxMarkT := At 0, p_rxBytes := 9\<rparr>"

lemma tick_slow: "tick_path n (At 4) slow_path = (slow_path\<lparr>p_lastPingAt := At 4\<rparr>, [], [], [0])"
proof -
  have "tick_rx (At 4) slow_path = (slow_path, [])"
    by (simp add: tick_rx_def slow_path_def new_path_def rxSampleMinBytes_def rxSampleMaxWindow_def second_def Let_def
        max_duration_def min_duration_def is_zero_time_def)
  then show ?thesis
    by (simp add: tick_path_def)
      (simp add: slow_path_def new_path_def probe_stale_def pingMinInterval_def millisecond_def max_duration_def)
qed

lemma slow_target:
  assumes "st_paths s = [slow_path\<lparr>p_lastPingAt := At 4\<rparr>]" and "st_cfg s = grow_config\<lparr>cf_sendBufCap := b\<rparr>"
  shows "target_cap s = 2"
proof -
  have "int64_of_float 0 = 0" "seconds 0 = 0" by code_simp+
  then show ?thesis using assms by (simp add: target_cap_def slow_path_def grow_config_def new_path_def fast_rate Let_def)
qed

lemma shrink_w2_sel: "st_paths (w_s shrink_w2) = [slow_path]" "st_cfg (w_s shrink_w2) = grow_config\<lparr>cf_sendBufCap := 2048\<rparr>"
  "\<not> st_closed (w_s shrink_w2)" "st_unacked (w_s shrink_w2) = []"
  by (simp_all add: shrink_simps slow_path_def)

lemma shrink_tick:
  assumes "st_paths s = [slow_path]" "st_cfg s = grow_config\<lparr>cf_sendBufCap := 2048\<rparr>" "\<not> st_closed s" "st_unacked s = []"
    "rb_cap (st_rbuf s) = 1024" "0 < rb_window (st_rbuf s)" "sendTs s (At 4) = 0"
  shows "onTick wr (At 4) s = s\<lparr>st_rbuf := rb_setCap (st_rbuf s) 2, st_cfg := grow_config,
     st_paths := [slow_path\<lparr>p_lastPingAt := At 4\<rparr>], st_out := st_out s @ [Eff_Go_Ping 0 False 0]\<rparr>"
  using assms
  apply (simp add: onTick_def tick_slow updateWindowCap_def slow_target Let_def)
  apply (simp add: grow_config_def set_window_cap_def Let_def checkSoftFail_def emit_def quot_def sendTs_def)
  by (simp add: slow_path_def new_path_def rto_expired_def)

lemma shrink_step3: "sop_step (Do_Tick (\<lambda>_. True) (At 4)) shrink_w2 = Inr shrink_w3"
proof -
  have "rb_cap (st_rbuf (w_s shrink_w2)) = 1024" "0 < rb_window (st_rbuf (w_s shrink_w2))" "sendTs (w_s shrink_w2) (At 4) = 0"
    by (simp_all add: shrink_simps new_rbuf_def rb_window_def sendTs_def max_duration_def min_duration_def microsecond_def quot_def)
  then show ?thesis by (simp add: shrink_tick[OF shrink_w2_sel]) (simp add: shrink_w3_def slow_path_def)
qed

lemma shrink_overflow:
  "\<exists>s. recv (\<lambda>_. True) (At 5) 0 (In_Data 0 6 [0]) (w_s shrink_w3) = Inr s \<and> st_werr s = Some E_Overflow"
  by (simp add: shrink_simps recv_def recv_data_def rb_eval upd_path_def rb_sizeBytes_def shutdown_def rb_setCap_def)

lemma grow_reach: "reach c (new_world grow_config (At 0) True) grow_w3"
proof -
  obtain k where k: "conn_reach c (new_conn grow_config (At 0) True) k" "cn_w k = grow_w3"
    using growth_run grow_sel(1) by blast
  show ?thesis using conn_reach_inv[OF k(1)] k(2) by simp
qed

text \<open>
  The stream has announced a window of 1024 bytes from offset 0; the peer has sent ten, from 0 to 9, of its one byte
  stream; and the last frame to arrive, the one that fills the gap, ends the stream as if the peer had overrun it.
\<close>

lemma honest_stream_is_ended:
  "\<exists>w0 w1 s. reach demo_content (new_world grow_config (At 0) True) w0 \<and>
     rb_cum (st_rbuf (w_s w0)) = 0 \<and> rb_window (st_rbuf (w_s w0)) = 1024 \<and>
     reach demo_content w0 w1 \<and> frame_agrees demo_content 0 [0] \<and>
     recv (\<lambda>_. True) (At 5) 0 (In_Data 0 6 [0]) (w_s w1) = Inr s \<and> st_werr s = Some E_Overflow"
proof -
  have f: "frame_agrees demo_content 1 [1, 2, 3, 4, 5, 6, 7, 8, 9]" "frame_agrees demo_content 0 [0]"
    by (simp_all add: frame_agrees_def window_of_def demo_content_def upt_rec)
  have "reach demo_content grow_w3 shrink_w1" by (rule reach_step[OF reach_start _ shrink_step1]) (simp add: f)
  then have "reach demo_content grow_w3 shrink_w2" by (rule reach_step[OF _ _ shrink_step2]) simp
  then have "reach demo_content grow_w3 shrink_w3" by (rule reach_step[OF _ _ shrink_step3]) simp
  moreover have "rb_cum (st_rbuf (w_s grow_w3)) = 0" "rb_window (st_rbuf (w_s grow_w3)) = 1024"
    by (simp_all add: grow_w3_def rb_cum_def rb_window_def new_rbuf_def)
  ultimately show ?thesis using grow_reach f(2) shrink_overflow by blast
qed

section \<open>The send buffer follows the wrong window\<close>

text \<open>
  \<open>sendBufCap\<close> is kept at twice the capacity for receiving. An end that only sends never raises it, however large the
  window its peer announces.
\<close>

lemma sender_only_keeps_the_least_buffer:
  assumes "list_all (\<lambda>p. p_rxRate p = 0) (st_paths s)" and "cf_minBuf (st_cfg s) \<le> cf_maxBuf (st_cfg s)" "0 < cf_minBuf (st_cfg s)"
  shows "cf_sendBufCap (st_cfg (updateWindowCap s)) \<in> {cf_sendBufCap (st_cfg s), 2 * cf_minBuf (st_cfg s)}"
proof -
  have "fl64 0 = 0" "int64_of_float 0 = 0" by code_simp+
  note zero = this
  have "list_all (\<lambda>p. p_rxRate p = 0) ps \<Longrightarrow> foldl (\<lambda>a p. fl64 (a + p_rxRate p)) 0 ps = 0" for ps
    by (induction ps) (simp_all add: zero)
  from this[OF assms(1)] have "target_cap s = cf_minBuf (st_cfg s)"
    unfolding target_cap_def Let_def using assms(2,3) zero by simp
  then show ?thesis by (simp add: updateWindowCap_def set_window_cap_def triggerAck_def Let_def)
qed

lemma peer_window_is_ignored:
  "cf_sendBufCap (st_cfg (updateWindowCap (s\<lparr>st_advWindow := w\<rparr>))) = cf_sendBufCap (st_cfg (updateWindowCap s))"
  by (simp add: updateWindowCap_def target_cap_def set_window_cap_def triggerAck_def Let_def)

end
