(* ===== verification/Go_Strings.thy ===== *)
theory Go_Strings
  imports Go_Prelude "HOL-Library.Char_ord" "HOL-Library.List_Lexorder" "HOL-Library.AList"
begin

text \<open>
  Go strings are byte sequences: \<^typ>\<open>string\<close>, whose characters are the 256 byte values. This theory
  holds what the code uses of \<open>unicode/utf8\<close>, \<open>strings\<close> and \<open>net/http.Header\<close>: decoding of runes as
  \<open>range\<close> and \<open>utf8.DecodeRune\<close> do it, tokens of RFC 7230, case folding against an ASCII word, trimming,
  splitting, and the canonical form of header names. A header map is an association list with distinct
  keys; the order of its entries carries no meaning.
\<close>

text \<open>\<open>peer.ID\<close> of libp2p is a string.\<close>

type_synonym peer_id = string

section \<open>Bytes and runes\<close>

definition code_of :: "char \<Rightarrow> nat" where "code_of c = of_char c"

definition between :: "nat \<Rightarrow> nat \<Rightarrow> nat \<Rightarrow> bool" where
  "between a x b \<longleftrightarrow> a \<le> x \<and> x \<le> b"

definition rune_error :: nat where "rune_error = 0xFFFD"

text \<open>\<open>utf8.DecodeRuneInString\<close>: the rune and its width; width 1 with \<open>RuneError\<close> on a bad byte.\<close>

definition decode_codes :: "nat list \<Rightarrow> nat \<times> nat" where
  "decode_codes bs =
     (case bs of
        [] \<Rightarrow> (rune_error, 0)
      | a # r \<Rightarrow>
          if a < 0x80 then (a, 1)
          else if between 0xC2 a 0xDF then
            (case r of
               b # _ \<Rightarrow> if between 0x80 b 0xBF then ((a - 0xC0) * 64 + (b - 0x80), 2) else (rune_error, 1)
             | _ \<Rightarrow> (rune_error, 1))
          else if between 0xE0 a 0xEF then
            (case r of
               b # c # _ \<Rightarrow>
                 if between (if a = 0xE0 then 0xA0 else 0x80) b (if a = 0xED then 0x9F else 0xBF) \<and> between 0x80 c 0xBF
                 then ((a - 0xE0) * 4096 + (b - 0x80) * 64 + (c - 0x80), 3) else (rune_error, 1)
             | _ \<Rightarrow> (rune_error, 1))
          else if between 0xF0 a 0xF4 then
            (case r of
               b # c # d # _ \<Rightarrow>
                 if between (if a = 0xF0 then 0x90 else 0x80) b (if a = 0xF4 then 0x8F else 0xBF) \<and>
                    between 0x80 c 0xBF \<and> between 0x80 d 0xBF
                 then ((a - 0xF0) * 262144 + (b - 0x80) * 4096 + (c - 0x80) * 64 + (d - 0x80), 4)
                 else (rune_error, 1)
             | _ \<Rightarrow> (rune_error, 1))
          else (rune_error, 1))"

definition decode_rune :: "string \<Rightarrow> nat \<times> nat" where
  "decode_rune s = decode_codes (map code_of (take 4 s))"

lemma decode_codes_cases:
  assumes "bs \<noteq> []" and "decode_codes bs = (r, n)"
  shows "(n = 1 \<and> r = hd bs \<and> hd bs < 0x80) \<or>
         (0x80 \<le> r \<and> 1 \<le> n \<and> n \<le> length bs \<and> list_all (\<lambda>b. 0x80 \<le> b) (take n bs))"
  using assms
  by (auto simp: decode_codes_def between_def rune_error_def take_Cons split: list.splits if_splits)

lemma decode_rune_cases:
  assumes "s \<noteq> []" and "decode_rune s = (r, n)"
  shows "(n = 1 \<and> r = code_of (hd s) \<and> code_of (hd s) < 0x80) \<or>
         (0x80 \<le> r \<and> 1 \<le> n \<and> n \<le> length s \<and> list_all (\<lambda>c. 0x80 \<le> code_of c) (take n s))"
proof -
  have ne: "map code_of (take 4 s) \<noteq> []" using assms(1) by simp
  have hd: "hd (map code_of (take 4 s)) = code_of (hd s)" using assms(1) by (cases s) auto
  show ?thesis
    using decode_codes_cases[OF ne assms(2)[unfolded decode_rune_def]]
    by (auto simp: hd list_all_iff take_map min_def split: if_splits)
qed

lemma decode_rune_size: "s \<noteq> [] \<Longrightarrow> 1 \<le> snd (decode_rune s)"
  using decode_rune_cases[of s "fst (decode_rune s)" "snd (decode_rune s)"] by auto

lemma decode_rune_shrinks: "s \<noteq> [] \<Longrightarrow> length s - snd (decode_rune s) < length s"
  using decode_rune_size[of s] by (cases s) auto

text \<open>The runes a \<open>range\<close> over the string visits.\<close>

function runes :: "string \<Rightarrow> nat list" where
  "runes s = (if s = [] then [] else fst (decode_rune s) # runes (drop (snd (decode_rune s)) s))"
  by pat_completeness auto
termination
  by (relation "measure length") (auto simp: decode_rune_shrinks)

declare runes.simps [simp del]

text \<open>\<open>utf8.ValidString\<close>: no rune is a decoding error, which has width 1.\<close>

function valid_utf8 :: "string \<Rightarrow> bool" where
  "valid_utf8 s =
     (if s = [] then True
      else if decode_rune s = (rune_error, 1) then False
      else valid_utf8 (drop (snd (decode_rune s)) s))"
  by pat_completeness auto
termination
  by (relation "measure length") (auto simp: decode_rune_shrinks)

declare valid_utf8.simps [simp del]

text \<open>\<open>strings.ToValidUTF8\<close>: every run of bad bytes becomes one replacement.\<close>

function to_valid_utf8 :: "string \<Rightarrow> bool \<Rightarrow> string \<Rightarrow> string" where
  "to_valid_utf8 repl invalid s =
     (if s = [] then []
      else if decode_rune s = (rune_error, 1)
      then (if invalid then [] else repl) @ to_valid_utf8 repl True (drop 1 s)
      else take (snd (decode_rune s)) s @ to_valid_utf8 repl False (drop (snd (decode_rune s)) s))"
  by pat_completeness auto
termination
  by (relation "measure (\<lambda>(repl, invalid, s). length s)") (auto simp: decode_rune_shrinks)

declare to_valid_utf8.simps [simp del]

definition ToValidUTF8 :: "string \<Rightarrow> string \<Rightarrow> string" where
  "ToValidUTF8 s repl = to_valid_utf8 repl False s"

text \<open>A predicate on ASCII runes sees exactly the ASCII bytes.\<close>

lemma runes_ascii:
  assumes "\<And>r. P r \<Longrightarrow> r < 0x80"
  shows "list_ex P (runes s) \<longleftrightarrow> list_ex (\<lambda>c. P (code_of c)) s"
proof (induction s rule: runes.induct)
  case (1 s)
  show ?case
  proof (cases "s = []")
    case True
    then show ?thesis by (simp add: runes.simps)
  next
    case False
    obtain r n where rn: "decode_rune s = (r, n)" by fastforce
    have split: "list_ex (\<lambda>c. P (code_of c)) s \<longleftrightarrow>
        list_ex (\<lambda>c. P (code_of c)) (take n s) \<or> list_ex (\<lambda>c. P (code_of c)) (drop n s)"
      by (metis append_take_drop_id list_ex_append)
    have "P r \<longleftrightarrow> list_ex (\<lambda>c. P (code_of c)) (take n s)"
      using decode_rune_cases[OF False rn]
    proof
      assume "n = 1 \<and> r = code_of (hd s) \<and> code_of (hd s) < 0x80"
      then show ?thesis using False by (cases s) auto
    next
      assume h: "0x80 \<le> r \<and> 1 \<le> n \<and> n \<le> length s \<and> list_all (\<lambda>c. 0x80 \<le> code_of c) (take n s)"
      then have "\<not> P r" using assms[of r] by fastforce
      moreover have "\<not> P (code_of c)" if "c \<in> set (take n s)" for c
        using h that assms[of "code_of c"] by (fastforce simp: list_all_iff)
      ultimately show ?thesis by (auto simp: list_ex_iff)
    qed
    then show ?thesis using 1[OF False] rn split by (simp add: runes.simps[of s] False)
  qed
qed

text \<open>\<open>utf8.RuneStart\<close>.\<close>

definition rune_start :: "char \<Rightarrow> bool" where
  "rune_start c \<longleftrightarrow> \<not> between 0x80 (code_of c) 0xBF"

section \<open>Tokens\<close>

definition is_lower :: "char \<Rightarrow> bool" where "is_lower c \<longleftrightarrow> between 97 (code_of c) 122"
definition is_upper :: "char \<Rightarrow> bool" where "is_upper c \<longleftrightarrow> between 65 (code_of c) 90"
definition is_digit :: "char \<Rightarrow> bool" where "is_digit c \<longleftrightarrow> between 48 (code_of c) 57"

definition token_char :: "char \<Rightarrow> bool" where
  "token_char c \<longleftrightarrow> is_digit c \<or> is_upper c \<or> is_lower c \<or>
     c \<in> set (CHR 0x27 # CHR 0x60 # ''!#$%&*+-.^_|~'')"

definition to_upper :: "char \<Rightarrow> char" where
  "to_upper c = (if is_lower c then char_of (code_of c - 32) else c)"

definition to_lower :: "char \<Rightarrow> char" where
  "to_lower c = (if is_upper c then char_of (code_of c + 32) else c)"

text \<open>
  \<open>strings.EqualFold\<close> against an ASCII word: letters match in either case, and the simple case folding of
  Unicode adds U+017F to the orbit of \<open>s\<close> and U+212A to that of \<open>k\<close>.
\<close>

fun equal_fold :: "string \<Rightarrow> string \<Rightarrow> bool" where
  "equal_fold s [] = (s = [])"
| "equal_fold s (t # ts) =
     ((\<exists>c \<in> set (take 1 s). to_lower c = to_lower t) \<and> equal_fold (drop 1 s) ts
      \<or> to_lower t = CHR ''s'' \<and> take 2 s = [CHR 0xC5, CHR 0xBF] \<and> equal_fold (drop 2 s) ts
      \<or> to_lower t = CHR ''k'' \<and> take 3 s = [CHR 0xE2, CHR 0x84, CHR 0xAA] \<and> equal_fold (drop 3 s) ts)"

section \<open>Decimal numbers\<close>

text \<open>\<open>strconv\<close> and the verb \<open>%d\<close> of \<open>fmt\<close> on non-negative numbers.\<close>

function decimal :: "nat \<Rightarrow> string" where
  "decimal n = (if n < 10 then [char_of (48 + n)] else decimal (n div 10) @ [char_of (48 + n mod 10)])"
  by pat_completeness auto
termination by (relation "measure id") auto

declare decimal.simps [simp del]

section \<open>Splitting and trimming\<close>

fun split_on :: "char \<Rightarrow> string \<Rightarrow> string list" where
  "split_on d [] = [[]]"
| "split_on d (c # s) =
     (if c = d then [] # split_on d s
      else case split_on d s of [] \<Rightarrow> [[c]] | w # ws \<Rightarrow> (c # w) # ws)"

text \<open>\<open>unicode.IsSpace\<close>.\<close>

definition is_space_rune :: "nat \<Rightarrow> bool" where
  "is_space_rune r \<longleftrightarrow> r \<in> set [9, 10, 11, 12, 13, 32, 0x85, 0xA0, 0x1680, 0x2028, 0x2029, 0x202F, 0x205F, 0x3000]
     \<or> between 0x2000 r 0x200A"

function trim_left :: "string \<Rightarrow> string" where
  "trim_left s =
     (if s \<noteq> [] \<and> is_space_rune (fst (decode_rune s)) then trim_left (drop (snd (decode_rune s)) s) else s)"
  by pat_completeness auto
termination
  by (relation "measure length") (auto simp: decode_rune_shrinks)

declare trim_left.simps [simp del]

text \<open>\<open>utf8.DecodeLastRuneInString\<close>: back from the last but one byte to a start byte, four bytes at most.\<close>

definition last_start :: "string \<Rightarrow> nat" where
  "last_start s =
     (case find (\<lambda>k. rune_start (s ! (length s - k))) [2 ..< Suc (min 4 (length s))] of
        Some k \<Rightarrow> length s - k
      | None \<Rightarrow> length s - 5)"

definition decode_last :: "string \<Rightarrow> nat \<times> nat" where
  "decode_last s =
     (if s = [] then (rune_error, 0)
      else if code_of (last s) < 0x80 then (code_of (last s), 1)
      else let i = last_start s; (r, n) = decode_rune (drop i s) in
        if i + n \<noteq> length s \<or> n = 0 then (rune_error, 1) else (r, n))"

function trim_right :: "string \<Rightarrow> string" where
  "trim_right s =
     (if s \<noteq> [] \<and> is_space_rune (fst (decode_last s)) then trim_right (take (length s - snd (decode_last s)) s) else s)"
  by pat_completeness auto
termination
proof (relation "measure length")
  fix s :: string
  assume "s \<noteq> [] \<and> is_space_rune (fst (decode_last s))"
  moreover from this have "0 < snd (decode_last s)"
    by (auto simp: decode_last_def Let_def split: prod.splits)
  ultimately show "(take (length s - snd (decode_last s)) s, s) \<in> measure length" by auto
qed simp

declare trim_right.simps [simp del]

definition trim_space :: "string \<Rightarrow> string" where
  "trim_space s = trim_right (trim_left s)"

section \<open>Header maps\<close>

type_synonym header = "(string \<times> string list) list"

text \<open>\<open>textproto.CanonicalMIMEHeaderKey\<close>.\<close>

fun canon_from :: "bool \<Rightarrow> string \<Rightarrow> string" where
  "canon_from up [] = []"
| "canon_from up (c # s) = (if up then to_upper c else to_lower c) # canon_from (c = CHR ''-'') s"

definition canon_key :: "string \<Rightarrow> string" where
  "canon_key s = (if list_all token_char s then canon_from True s else s)"

fun raw_add :: "string \<Rightarrow> string \<Rightarrow> header \<Rightarrow> header" where
  "raw_add k v [] = [(k, [v])]"
| "raw_add k v ((k', vs) # h) = (if k = k' then (k', vs @ [v]) # h else (k', vs) # raw_add k v h)"

definition hdr_add :: "string \<Rightarrow> string \<Rightarrow> header \<Rightarrow> header" where
  "hdr_add k v h = raw_add (canon_key k) v h"

definition hdr_get :: "string \<Rightarrow> header \<Rightarrow> string" where
  "hdr_get k h = (case map_of h (canon_key k) of Some (v # _) \<Rightarrow> v | _ \<Rightarrow> [])"

definition hdr_del :: "string \<Rightarrow> header \<Rightarrow> header" where
  "hdr_del k h = AList.delete (canon_key k) h"

definition hdr_values :: "string \<Rightarrow> header \<Rightarrow> string list" where
  "hdr_values k h = (case map_of h k of Some vs \<Rightarrow> vs | None \<Rightarrow> [])"

definition wf_header :: "header \<Rightarrow> bool" where
  "wf_header h \<longleftrightarrow> distinct (map fst h) \<and> (\<forall>(k, vs) \<in> set h. canon_key k = k \<and> vs \<noteq> [])"

end
