(* ===== verification/Tunnel_Wire.thy ===== *)
theory Tunnel_Wire
  imports Frame Go_Strings
begin

text \<open>
  The line protocol of the HTTP/WebSocket tunnels, \<open>src/internal/tunnelwire/tunnelwire.go\<close>: frame types and
  their limits, the frame codec of a \<open>Session\<close>, the control messages and their validation, the conversion
  between header pairs and header maps, and the closing of a stream once its bytes are acknowledged. The
  JSON form of a control message is an argument; what a writer does with a buffer is the list of its outcomes.
\<close>

section \<open>Frame types and limits\<close>

type_synonym ftype = u64

definition FrameOpen :: ftype where "FrameOpen = 1"
definition FrameResult :: ftype where "FrameResult = 2"
definition FrameData :: ftype where "FrameData = 3"
definition FrameEnd :: ftype where "FrameEnd = 4"
definition FrameAbort :: ftype where "FrameAbort = 5"
definition FrameWSMessage :: ftype where "FrameWSMessage = 6"
definition FrameWSClose :: ftype where "FrameWSClose = 7"
definition FrameWSPing :: ftype where "FrameWSPing = 8"
definition FrameWSPong :: ftype where "FrameWSPong = 9"

lemmas ftypes = FrameOpen_def FrameResult_def FrameData_def FrameEnd_def FrameAbort_def
  FrameWSMessage_def FrameWSClose_def FrameWSPing_def FrameWSPong_def

definition ftype_String :: "ftype \<Rightarrow> string" where
  "ftype_String t =
     (if t = FrameOpen then ''OPEN'' else if t = FrameResult then ''RESULT'' else if t = FrameData then ''DATA''
      else if t = FrameEnd then ''END'' else if t = FrameAbort then ''ABORT''
      else if t = FrameWSMessage then ''WS_MESSAGE'' else if t = FrameWSClose then ''WS_CLOSE''
      else if t = FrameWSPing then ''WS_PING'' else if t = FrameWSPong then ''WS_PONG''
      else ''UNKNOWN('' @ decimal (unat t) @ '')'')"

definition Magic :: bytes where "Magic = [0x4E, 0x54, 0x55, 0x4E, 0x01]"

definition MaxJSONPayload :: nat where "MaxJSONPayload = 65536"
definition MaxDataPayload :: nat where "MaxDataPayload = 65536"
definition MaxWSMessage :: nat where "MaxWSMessage = 4194304"
definition MaxTargetLen :: nat where "MaxTargetLen = 8192"

text \<open>\<open>maxPayload\<close>; \<open>None\<close> is the code's \<open>-1\<close> for an unknown type.\<close>

definition maxPayload :: "ftype \<Rightarrow> nat option" where
  "maxPayload t =
     (if t \<in> set [FrameOpen, FrameResult, FrameAbort, FrameWSClose] then Some MaxJSONPayload
      else if t = FrameData then Some MaxDataPayload
      else if t = FrameEnd then Some 0
      else if t \<in> set [FrameWSMessage, FrameWSPing, FrameWSPong] then Some MaxWSMessage
      else None)"

lemma maxPayload_small: "maxPayload t = Some lim \<Longrightarrow> lim \<le> 4194304"
  by (auto simp: maxPayload_def MaxJSONPayload_def MaxDataPayload_def MaxWSMessage_def split: if_splits)

section \<open>The frame codec\<close>

datatype wire_err = Wire_Read frame_err | Wire_Unknown ftype | Wire_Too_Long ftype u64 | Wire_Marshal

definition AppendFrame :: "bytes \<Rightarrow> ftype \<Rightarrow> bytes \<Rightarrow> bytes" where
  "AppendFrame dst ft payload = dst @ put_uvarint ft @ put_uvarint (u64_of_len (length payload)) @ payload"

definition ReadFrame :: "io_err \<Rightarrow> bytes \<Rightarrow> wire_err + (ftype \<times> bytes) \<times> bytes" where
  "ReadFrame fin bs =
     (case read_uvarint fin bs of
        Inl e \<Rightarrow> Inl (Wire_Read e)
      | Inr (tv, bs) \<Rightarrow>
          (case maxPayload tv of
             None \<Rightarrow> Inl (Wire_Unknown tv)
           | Some lim \<Rightarrow>
               (case read_uvarint fin bs of
                  Inl e \<Rightarrow> Inl (Wire_Read e)
                | Inr (n, bs) \<Rightarrow>
                    if of_nat lim < n then Inl (Wire_Too_Long tv n)
                    else (case read_full fin (unat n) bs of
                            Inl e \<Rightarrow> Inl (Wire_Read e)
                          | Inr (payload, bs) \<Rightarrow> Inr ((tv, payload), bs)))))"

text \<open>\<open>writeRaw\<close>: each call of the writer takes some bytes and may fail; the bytes that went out.\<close>

fun writeRaw :: "(nat \<times> bool) list \<Rightarrow> bytes \<Rightarrow> bytes \<times> bool" where
  "writeRaw [] buf = ([], buf = [])"
| "writeRaw ((n, ok) # rs) buf =
     (if buf = [] then ([], True)
      else if ok then (let (out, r) = writeRaw rs (drop n buf) in (take n buf @ out, r))
      else (take n buf, False))"

text \<open>What \<open>WriteFrame\<close>, \<open>WriteJSON\<close>, \<open>WriteData\<close> and \<open>WriteWSMessage\<close> hand to \<open>writeRaw\<close>.\<close>

definition WriteFrame :: "ftype \<Rightarrow> bytes \<Rightarrow> wire_err + bytes" where
  "WriteFrame ft payload =
     (case maxPayload ft of
        None \<Rightarrow> Inl (Wire_Unknown ft)
      | Some lim \<Rightarrow>
          if lim < length payload then Inl (Wire_Too_Long ft (u64_of_len (length payload)))
          else Inr (AppendFrame [] ft payload))"

definition WriteJSON :: "ftype \<Rightarrow> bytes option \<Rightarrow> wire_err + bytes" where
  "WriteJSON ft js =
     (case js of
        None \<Rightarrow> Inl Wire_Marshal
      | Some b \<Rightarrow>
          if MaxJSONPayload < length b then Inl (Wire_Too_Long ft (u64_of_len (length b)))
          else WriteFrame ft b)"

function data_frames :: "bytes \<Rightarrow> bytes \<Rightarrow> bytes" where
  "data_frames buf p =
     (if p = [] then buf
      else let n = min (length p) MaxDataPayload in
        data_frames (AppendFrame buf FrameData (take n p)) (drop n p))"
  by pat_completeness auto
termination
  by (relation "measure (\<lambda>(buf, p). length p)") (auto simp: MaxDataPayload_def)

declare data_frames.simps [simp del]

definition WriteData :: "bytes \<Rightarrow> bytes" where
  "WriteData p = (if p = [] then [] else data_frames [] p)"

definition WriteEnd :: "wire_err + bytes" where
  "WriteEnd = WriteFrame FrameEnd []"

definition WriteWSMessage :: "byte \<Rightarrow> bytes \<Rightarrow> wire_err + bytes" where
  "WriteWSMessage opcode msg =
     (if MaxWSMessage < length msg + 1 then Inl (Wire_Too_Long FrameWSMessage (u64_of_len (length msg + 1)))
      else WriteFrame FrameWSMessage (opcode # msg))"

section \<open>Control messages\<close>

type_synonym kind = string

definition KindHTTP :: kind where "KindHTTP = ''http''"
definition KindWS :: kind where "KindWS = ''ws''"

definition WSOpcodeText :: nat where "WSOpcodeText = 1"
definition WSOpcodeBinary :: nat where "WSOpcodeBinary = 2"

type_synonym header_pair = "string \<times> string"

record open_msg =
  om_v :: int
  om_kind :: kind
  om_target :: string
  om_method :: string
  om_host :: string
  om_headers :: "header_pair list"
  om_protocols :: "string list"

record result_msg =
  rm_kind :: kind
  rm_status :: int
  rm_statusText :: string
  rm_protocol :: string
  rm_headers :: "header_pair list"
  rm_error :: string

record abort_msg =
  am_code :: string
  am_message :: string

record close_msg =
  cm_code :: int
  cm_reason :: string

subsection \<open>Validation of an OPEN\<close>

datatype open_err =
    Open_Nil | Open_Version | Open_Kind | Open_Target_Empty | Open_Target_Long | Open_Ctrl | Open_Method
  | Open_Header_Name | Open_Header_Value | Open_Protocol

definition isHTTPToken :: "string \<Rightarrow> bool" where
  "isHTTPToken s \<longleftrightarrow> s \<noteq> [] \<and> list_all token_char s"

definition hasCtrl :: "string \<Rightarrow> bool" where
  "hasCtrl s \<longleftrightarrow> list_ex (\<lambda>r. r < 0x20 \<or> r = 0x7F) (runes s)"

definition hasBadHeaderValue :: "string \<Rightarrow> bool" where
  "hasBadHeaderValue s \<longleftrightarrow> list_ex (\<lambda>c. c \<in> set [CHR 0x00, CHR 0x0D, CHR 0x0A]) s"

fun check_headers :: "header_pair list \<Rightarrow> open_err option" where
  "check_headers [] = None"
| "check_headers ((name, v) # hs) =
     (if \<not> isHTTPToken name then Some Open_Header_Name
      else if hasBadHeaderValue v then Some Open_Header_Value
      else check_headers hs)"

definition ValidateOpen :: "open_msg option \<Rightarrow> open_err option" where
  "ValidateOpen om =
     (case om of
        None \<Rightarrow> Some Open_Nil
      | Some m \<Rightarrow>
          if om_v m \<noteq> 1 then Some Open_Version
          else if om_kind m \<noteq> KindHTTP \<and> om_kind m \<noteq> KindWS then Some Open_Kind
          else if om_target m = [] then Some Open_Target_Empty
          else if MaxTargetLen < length (om_target m) then Some Open_Target_Long
          else if hasCtrl (om_target m) \<or> hasCtrl (om_host m) then Some Open_Ctrl
          else if om_method m \<noteq> [] \<and> \<not> isHTTPToken (om_method m) then Some Open_Method
          else case check_headers (om_headers m) of
            Some e \<Rightarrow> Some e
          | None \<Rightarrow> if list_ex (\<lambda>p. \<not> isHTTPToken p) (om_protocols m) then Some Open_Protocol else None)"

subsection \<open>Close codes\<close>

datatype close_err = Close_Nil | Close_Code | Close_Reason_UTF8 | Close_Reason_Long

definition MaxWSCloseReasonBytes :: nat where "MaxWSCloseReasonBytes = 123"

definition validReceivedWSCloseCode :: "int \<Rightarrow> bool" where
  "validReceivedWSCloseCode c \<longleftrightarrow>
     (1000 \<le> c \<and> c \<le> 1014 \<and> c \<noteq> 1004 \<and> c \<noteq> 1005 \<and> c \<noteq> 1006) \<or> (3000 \<le> c \<and> c \<le> 4999)"

definition validateWSCloseReason :: "string \<Rightarrow> close_err option" where
  "validateWSCloseReason reason =
     (if \<not> valid_utf8 reason then Some Close_Reason_UTF8
      else if MaxWSCloseReasonBytes < length reason then Some Close_Reason_Long
      else None)"

definition ValidateWSClose :: "close_msg option \<Rightarrow> close_err option" where
  "ValidateWSClose cm =
     (case cm of
        None \<Rightarrow> Some Close_Nil
      | Some m \<Rightarrow>
          if \<not> validReceivedWSCloseCode (cm_code m) then Some Close_Code
          else validateWSCloseReason (cm_reason m))"

definition ValidateWSCloseSend :: "close_msg option \<Rightarrow> close_err option" where
  "ValidateWSCloseSend cm =
     (case cm of
        None \<Rightarrow> Some Close_Nil
      | Some m \<Rightarrow>
          if cm_code m \<noteq> 1000 \<and> (cm_code m < 3000 \<or> 4999 < cm_code m) then Some Close_Code
          else validateWSCloseReason (cm_reason m))"

section \<open>Header pairs and header maps\<close>

definition HeadersToPairs :: "header \<Rightarrow> header_pair list" where
  "HeadersToPairs h = concat (map (\<lambda>k. map (Pair k) (hdr_values k h)) (sort (map fst h)))"

definition PairsToHeaders :: "header_pair list \<Rightarrow> header" where
  "PairsToHeaders ps = foldl (\<lambda>h (k, v). hdr_add k v h) [] ps"

definition hopByHopHeaders :: "string list" where
  "hopByHopHeaders =
     [''Connection'', ''Keep-Alive'', ''Proxy-Authenticate'', ''Proxy-Authorization'', ''TE'', ''Trailer'',
      ''Transfer-Encoding'', ''Upgrade'']"

text \<open>The names the values of \<open>Connection\<close> list.\<close>

definition nominated :: "header \<Rightarrow> string list" where
  "nominated h =
     filter (\<lambda>n. n \<noteq> []) (map trim_space (concat (map (split_on CHR '','') (hdr_values ''Connection'' h))))"

definition StripHopByHop :: "header \<Rightarrow> header" where
  "StripHopByHop h =
     (let h1 = foldl (\<lambda>h n. hdr_del n h) h (nominated h) in foldl (\<lambda>h k. hdr_del k h) h1 hopByHopHeaders)"

definition host_name :: "string \<Rightarrow> bool" where
  "host_name n \<longleftrightarrow> equal_fold n ''Host''"

fun extract_host :: "header_pair list \<Rightarrow> string \<Rightarrow> header_pair list \<Rightarrow> string \<times> header_pair list" where
  "extract_host [] host rest = (host, rest)"
| "extract_host (p # ps) host rest =
     (if host = [] \<and> host_name (fst p) then extract_host ps (snd p) rest
      else extract_host ps host (rest @ [p]))"

definition ExtractHost :: "header_pair list \<Rightarrow> string \<Rightarrow> string \<times> header_pair list" where
  "ExtractHost ps host = (if host \<noteq> [] then (host, ps) else extract_host ps host [])"

section \<open>Closing once everything is acknowledged\<close>

text \<open>
  \<open>GracefulClose\<close>: the polls up to the close, each with what the probe reports (sent, acked, pending) and
  the clock read after it; the result is how many polls were waited out.
\<close>

definition flushed :: "u64 \<times> u64 \<times> int \<Rightarrow> bool" where
  "flushed p = (case p of (sent, acked, pending) \<Rightarrow> pending = 0 \<and> sent \<le> acked)"

fun flush_polls :: "int \<Rightarrow> ((u64 \<times> u64 \<times> int) \<times> int) list \<Rightarrow> nat" where
  "flush_polls deadline [] = 0"
| "flush_polls deadline ((p, now) # ps) =
     (if flushed p then 0 else if deadline \<le> now then 0 else Suc (flush_polls deadline ps))"

definition GracefulClose :: "bool \<Rightarrow> int \<Rightarrow> int \<Rightarrow> ((u64 \<times> u64 \<times> int) \<times> int) list \<Rightarrow> nat" where
  "GracefulClose probe timeout now0 polls =
     (if probe \<and> 0 < timeout then flush_polls (now0 + timeout) polls else 0)"

section \<open>Reading back what was written\<close>

lemma AppendFrame_append: "AppendFrame dst ft p = dst @ AppendFrame [] ft p"
  by (simp add: AppendFrame_def)

lemma ReadFrame_AppendFrame:
  assumes "maxPayload ft = Some lim" and "length p \<le> lim"
  shows "ReadFrame fin (AppendFrame [] ft p @ rest) = Inr ((ft, p), rest)"
proof -
  have "unat (u64_of_len (length p)) = length p \<and> \<not> of_nat lim < u64_of_len (length p)"
    using assms(2) maxPayload_small[OF assms(1)] by (intro len_u64_le) simp_all
  then show ?thesis using assms(1) by (simp add: AppendFrame_def ReadFrame_def)
qed

text \<open>A read that succeeds does not depend on what follows.\<close>

lemma read_uvarint_from_extend:
  "read_uvarint_from fin i x bs = Inr (v, rest) \<Longrightarrow> read_uvarint_from fin' i x (bs @ zs) = Inr (v, rest @ zs)"
proof (induction fin i x bs rule: read_uvarint_from.induct)
  case (1 fin i x bs)
  note r = "1.prems"[unfolded read_uvarint_from.simps[of fin i x bs]]
  then obtain b bs' where i: "\<not> 10 \<le> i" and bs: "bs = b # bs'"
    by (auto split: if_splits list.splits)
  show ?case
  proof (cases "b < 0x80")
    case True
    then show ?thesis using r i unfolding bs
      by (subst read_uvarint_from.simps) (simp split: if_splits)
  next
    case False
    then show ?thesis using "1.IH"[OF i bs False] r i unfolding bs
      by (subst read_uvarint_from.simps) simp
  qed
qed

lemma read_uvarint_extend:
  "read_uvarint fin bs = Inr (v, rest) \<Longrightarrow> read_uvarint fin' (bs @ zs) = Inr (v, rest @ zs)"
  unfolding read_uvarint_def by (rule read_uvarint_from_extend)

lemma ReadFrame_Inr:
  "ReadFrame fin bs = Inr ((ft, p), rest) \<longleftrightarrow>
   (\<exists>lim n b1 b2. read_uvarint fin bs = Inr (ft, b1) \<and> maxPayload ft = Some lim \<and> read_uvarint fin b1 = Inr (n, b2)
      \<and> \<not> of_nat lim < n \<and> unat n \<le> length b2 \<and> p = take (unat n) b2 \<and> rest = drop (unat n) b2)"
  by (auto simp: ReadFrame_def read_full_def split: sum.splits option.splits prod.splits if_splits)

lemma ReadFrame_extend:
  assumes "ReadFrame fin bs = Inr (f, rest)"
  shows "ReadFrame fin' (bs @ zs) = Inr (f, rest @ zs)"
proof -
  obtain ft p where f: "f = (ft, p)" by (cases f)
  obtain lim n b1 b2 where
    r: "read_uvarint fin bs = Inr (ft, b1)" "maxPayload ft = Some lim" "read_uvarint fin b1 = Inr (n, b2)"
      "\<not> of_nat lim < n" "unat n \<le> length b2" "p = take (unat n) b2" "rest = drop (unat n) b2"
    using assms unfolding f ReadFrame_Inr by blast
  have "read_uvarint fin' (bs @ zs) = Inr (ft, b1 @ zs)" "read_uvarint fin' (b1 @ zs) = Inr (n, b2 @ zs)"
    using r(1,3) by (auto intro: read_uvarint_extend)
  then show ?thesis unfolding f ReadFrame_Inr using r by fastforce
qed

lemma read_uvarint_shrinks: "read_uvarint fin bs = Inr (v, rest) \<Longrightarrow> length rest < length bs"
  by (drule read_uvarint_used) auto

lemma ReadFrame_InrE:
  assumes "ReadFrame fin bs = Inr ((ft, p), rest)"
  obtains lim n b1 b2 where "read_uvarint fin bs = Inr (ft, b1)" and "maxPayload ft = Some lim"
    and "read_uvarint fin b1 = Inr (n, b2)" and "\<not> of_nat lim < n" and "unat n \<le> length b2"
    and "p = take (unat n) b2" and "rest = drop (unat n) b2"
  using assms[unfolded ReadFrame_Inr] by blast

lemma ReadFrame_shrinks:
  assumes "ReadFrame fin bs = Inr (f, rest)"
  shows "length rest < length bs"
proof -
  obtain ft p where f: "f = (ft, p)" by (cases f)
  from assms[unfolded f] show ?thesis
    by (rule ReadFrame_InrE) (auto dest!: read_uvarint_shrinks)
qed

lemma ReadFrame_limits:
  assumes "ReadFrame fin bs = Inr ((ft, p), rest)"
  shows "\<exists>lim. maxPayload ft = Some lim \<and> length p \<le> lim"
  using assms
proof (rule ReadFrame_InrE)
  fix lim and n :: u64 and b1 b2 :: bytes
  assume r: "maxPayload ft = Some lim" "\<not> of_nat lim < n" "unat n \<le> length b2" "p = take (unat n) b2"
  have "lim < 2 ^ 64" using maxPayload_small[OF r(1)] by simp
  then have "unat n \<le> lim" by (rule small_count[OF r(2)])
  then show ?thesis using r by auto
qed

text \<open>The frames a peer takes from its end of the stream, and the error after them.\<close>

function read_session :: "io_err \<Rightarrow> bytes \<Rightarrow> (ftype \<times> bytes) list \<times> wire_err" where
  "read_session fin bs =
     (case ReadFrame fin bs of
        Inl e \<Rightarrow> ([], e)
      | Inr (f, rest) \<Rightarrow> let (fs, e) = read_session fin rest in (f # fs, e))"
  by pat_completeness auto
termination
  by (relation "measure (\<lambda>(fin, bs). length bs)") (auto dest: ReadFrame_shrinks)

declare read_session.simps [simp del]

lemma read_session_cons:
  "ReadFrame fin bs = Inr (f, rest) \<Longrightarrow> fst (read_session fin bs) = f # fst (read_session fin rest)"
  by (subst read_session.simps) (simp add: case_prod_beta Let_def)

lemma read_session_stop: "ReadFrame fin bs = Inl e \<Longrightarrow> read_session fin bs = ([], e)"
  by (subst read_session.simps) simp

definition frame_fits :: "ftype \<times> bytes \<Rightarrow> bool" where
  "frame_fits f \<longleftrightarrow> (case maxPayload (fst f) of None \<Rightarrow> False | Some lim \<Rightarrow> length (snd f) \<le> lim)"

definition enc :: "(ftype \<times> bytes) list \<Rightarrow> bytes" where
  "enc fs = concat (map (\<lambda>(ft, p). AppendFrame [] ft p) fs)"

lemma enc_simps [simp]:
  "enc [] = []" "enc (f # fs) = AppendFrame [] (fst f) (snd f) @ enc fs" "enc (fs @ gs) = enc fs @ enc gs"
  by (simp_all add: enc_def case_prod_beta)

lemma read_session_limits: "list_all frame_fits (fst (read_session fin bs))"
proof (induction fin bs rule: read_session.induct)
  case (1 fin bs)
  show ?case
  proof (cases "ReadFrame fin bs")
    case (Inl e)
    then show ?thesis by (simp add: read_session_stop)
  next
    case (Inr fr)
    obtain ft p rest where fr: "fr = ((ft, p), rest)" by (metis prod.exhaust)
    show ?thesis
      using "1.IH"[OF Inr fr[symmetric]] ReadFrame_limits[OF Inr[unfolded fr]] read_session_cons[OF Inr[unfolded fr]]
      by (auto simp: frame_fits_def)
  qed
qed

text \<open>Cut anywhere, a well-formed stream yields a prefix of its frames.\<close>

lemma read_session_cut:
  "list_all frame_fits fs \<Longrightarrow> \<exists>n. fst (read_session fin (take k (enc fs))) = take n fs \<and> (length (enc fs) \<le> k \<longrightarrow> n = length fs)"
proof (induction fs arbitrary: k)
  case Nil
  show ?case
  proof (cases "ReadFrame fin []")
    case (Inr fr)
    then show ?thesis using ReadFrame_shrinks[of fin "[]" "fst fr" "snd fr"] by simp
  qed (simp add: read_session_stop)
next
  case (Cons f fs)
  obtain ft p where f: "f = (ft, p)" by (cases f)
  let ?e = "AppendFrame [] ft p"
  obtain lim where lim: "maxPayload ft = Some lim" "length p \<le> lim"
    using Cons.prems by (auto simp: frame_fits_def f split: option.splits)
  have whole: "ReadFrame fin (?e @ rest) = Inr ((ft, p), rest)" for rest
    by (rule ReadFrame_AppendFrame[OF lim])
  show ?case
  proof (cases "length ?e \<le> k")
    case True
    then have "take k (enc (f # fs)) = ?e @ take (k - length ?e) (enc fs)" by (simp add: f)
    then have r: "fst (read_session fin (take k (enc (f # fs)))) = (ft, p) # fst (read_session fin (take (k - length ?e) (enc fs)))"
      using read_session_cons[OF whole] by simp
    obtain n where n: "fst (read_session fin (take (k - length ?e) (enc fs))) = take n fs"
      "length (enc fs) \<le> k - length ?e \<longrightarrow> n = length fs"
      using Cons.IH[of "k - length ?e"] Cons.prems by auto
    show ?thesis using n r True by (intro exI[of _ "Suc n"]) (auto simp: f)
  next
    case False
    then have cut: "take k (enc (f # fs)) = take k ?e" by (simp add: f)
    have "ReadFrame fin (take k ?e) \<noteq> Inr (x, rest)" for x rest
    proof
      assume "ReadFrame fin (take k ?e) = Inr (x, rest)"
      from ReadFrame_extend[OF this, of fin "drop k ?e"] have "rest @ drop k ?e = []"
        using whole[of "[]"] by simp
      then show False using False by simp
    qed
    then obtain e where "ReadFrame fin (take k ?e) = Inl e"
      by (metis old.sum.exhaust prod.exhaust)
    then show ?thesis using False unfolding cut
      by (intro exI[of _ 0]) (simp add: read_session_stop f)
  qed
qed

text \<open>A writer that fails has written a prefix.\<close>

lemma writeRaw_prefix: "\<exists>k. fst (writeRaw rs buf) = take k buf"
proof (induction rs arbitrary: buf)
  case Nil
  show ?case by (auto intro: exI[of _ 0])
next
  case (Cons r rs)
  obtain n ok where r: "r = (n, ok)" by (cases r)
  obtain k where "fst (writeRaw rs (drop n buf)) = take k (drop n buf)" using Cons.IH by blast
  then have "fst (writeRaw ((n, True) # rs) buf) = take (n + k) buf"
    by (auto simp: case_prod_beta Let_def take_add)
  then show ?case by (cases ok) (auto simp: r intro: exI[of _ n] exI[of _ "n + k"])
qed

lemma writeRaw_done: "snd (writeRaw rs buf) \<Longrightarrow> fst (writeRaw rs buf) = buf"
proof (induction rs arbitrary: buf)
  case (Cons r rs)
  then show ?case
    by (cases r) (auto simp: case_prod_beta Let_def split: if_splits)
qed simp

section \<open>A session from one end to the other\<close>

text \<open>The calls a writer makes, the bytes they produce and the frames these stand for.\<close>

datatype wcall = WC_Frame ftype bytes | WC_JSON ftype "bytes option" | WC_Data bytes | WC_End | WC_Message byte bytes

fun wcall_bytes :: "wcall \<Rightarrow> wire_err + bytes" where
  "wcall_bytes (WC_Frame ft p) = WriteFrame ft p"
| "wcall_bytes (WC_JSON ft js) = WriteJSON ft js"
| "wcall_bytes (WC_Data p) = Inr (WriteData p)"
| "wcall_bytes WC_End = WriteEnd"
| "wcall_bytes (WC_Message op msg) = WriteWSMessage op msg"

function chunks :: "bytes \<Rightarrow> bytes list" where
  "chunks p = (if p = [] then [] else take MaxDataPayload p # chunks (drop MaxDataPayload p))"
  by pat_completeness auto
termination by (relation "measure length") (auto simp: MaxDataPayload_def)

declare chunks.simps [simp del]

fun wcall_frames :: "wcall \<Rightarrow> (ftype \<times> bytes) list" where
  "wcall_frames (WC_Frame ft p) = [(ft, p)]"
| "wcall_frames (WC_JSON ft js) = (case js of None \<Rightarrow> [] | Some b \<Rightarrow> [(ft, b)])"
| "wcall_frames (WC_Data p) = map (Pair FrameData) (chunks p)"
| "wcall_frames WC_End = [(FrameEnd, [])]"
| "wcall_frames (WC_Message op msg) = [(FrameWSMessage, op # msg)]"

lemma chunks_nil: "chunks [] = []"
  by (subst chunks.simps) simp

lemma chunks_concat: "concat (chunks p) = p"
  by (induction p rule: chunks.induct) (subst chunks.simps, simp)

lemma chunks_fit: "c \<in> set (chunks p) \<Longrightarrow> c \<noteq> [] \<and> length c \<le> MaxDataPayload"
proof (induction p rule: chunks.induct)
  case (1 p)
  then show ?case by (subst (asm) chunks.simps) (auto simp: MaxDataPayload_def split: if_splits)
qed

lemma data_frames_chunks: "data_frames buf p = buf @ enc (map (Pair FrameData) (chunks p))"
proof (induction buf p rule: data_frames.induct)
  case (1 buf p)
  have t: "take (min (length p) MaxDataPayload) p = take MaxDataPayload p"
    "drop (min (length p) MaxDataPayload) p = drop MaxDataPayload p"
    by (auto simp: min_def)
  show ?case
  proof (cases "p = []")
    case True
    then show ?thesis by (simp add: data_frames.simps chunks.simps)
  next
    case False
    then show ?thesis
      using "1.IH"[OF False refl] AppendFrame_append[of buf FrameData "take MaxDataPayload p"]
      by (simp add: data_frames.simps[of buf p] chunks.simps[of p] t)
  qed
qed

lemma WriteFrame_Inr: "WriteFrame ft p = Inr b \<longleftrightarrow> frame_fits (ft, p) \<and> b = AppendFrame [] ft p"
  by (auto simp: WriteFrame_def frame_fits_def split: option.splits)

lemma wcall_bytes_enc:
  "wcall_bytes w = Inr b \<Longrightarrow> b = enc (wcall_frames w) \<and> list_all frame_fits (wcall_frames w)"
proof (cases w)
  case (WC_Data p)
  assume "wcall_bytes w = Inr b"
  then have "b = enc (map (Pair FrameData) (chunks p))"
    using WC_Data data_frames_chunks[of "[]" p] chunks_nil by (auto simp: WriteData_def split: if_splits)
  moreover have "frame_fits (FrameData, c)" if "c \<in> set (chunks p)" for c
    using chunks_fit[OF that] by (simp add: frame_fits_def maxPayload_def ftypes)
  ultimately show ?thesis using WC_Data by (auto simp: list_all_iff)
qed (auto simp: WriteJSON_def WriteEnd_def WriteWSMessage_def WriteFrame_Inr split: option.splits if_splits)

lemma wcalls_enc:
  "map wcall_bytes ws = map Inr bss \<Longrightarrow>
   concat bss = enc (concat (map wcall_frames ws)) \<and> list_all frame_fits (concat (map wcall_frames ws))"
proof (induction ws arbitrary: bss)
  case (Cons w ws)
  then obtain b bs where b: "bss = b # bs" "wcall_bytes w = Inr b" "map wcall_bytes ws = map Inr bs"
    by (cases bss) auto
  then show ?case using Cons.IH[OF b(3)] wcall_bytes_enc[OF b(2)] by simp
qed simp

text \<open>
  C19: what a tunnel session writes is what its peer reads. For any sequence of accepted writes (frames, JSON
  messages, bodies, WebSocket messages) and a connection that is cut after any number \<open>k\<close> of bytes, the peer
  reads a prefix of the frames written, whole frames only and in order, and all of them when nothing is cut;
  every frame is within the limit of its type, and the DATA frames of a body add up to the body.
\<close>

theorem tunnel_session_round_trip:
  assumes "map wcall_bytes ws = map Inr bss"
  shows "\<exists>n. fst (read_session fin (take k (concat bss))) = take n (concat (map wcall_frames ws)) \<and>
           (length (concat bss) \<le> k \<longrightarrow> n = length (concat (map wcall_frames ws))) \<and>
           list_all frame_fits (concat (map wcall_frames ws)) \<and>
           (\<forall>p. concat (map snd (wcall_frames (WC_Data p))) = p)"
  using read_session_cut[of "concat (map wcall_frames ws)" fin k] wcalls_enc[OF assms]
  by (auto simp: chunks_concat o_def)

lemma tunnel_session_round_trip_witness:
  "\<exists>n. fst (read_session Io_EOF (take 4 (concat [[3, 2, 7, 8], [4, 0]]))) =
      take n (concat (map wcall_frames [WC_Data [7, 8], WC_End]))"
proof -
  have "map wcall_bytes [WC_Data [7, 8], WC_End] = map Inr [[3, 2, 7, 8], [4, 0]]"
    by (simp add: WriteData_def data_frames.simps AppendFrame_def WriteEnd_def WriteFrame_def maxPayload_def
        ftypes MaxDataPayload_def put_uvarint.simps u64_of_len_def)
  from tunnel_session_round_trip[OF this, of Io_EOF 4] show ?thesis by blast
qed

lemma frame_fits_cases:
  "frame_fits (ft, p) \<Longrightarrow>
   ft = FrameOpen \<and> length p \<le> 65536 \<or> ft = FrameResult \<and> length p \<le> 65536 \<or>
   ft = FrameAbort \<and> length p \<le> 65536 \<or> ft = FrameWSClose \<and> length p \<le> 65536 \<or>
   ft = FrameData \<and> length p \<le> 65536 \<or> ft = FrameEnd \<and> p = [] \<or> ft = FrameWSMessage \<and> length p \<le> 4194304 \<or>
   ft = FrameWSPing \<and> length p \<le> 4194304 \<or> ft = FrameWSPong \<and> length p \<le> 4194304"
  by (simp add: frame_fits_def maxPayload_def MaxJSONPayload_def MaxDataPayload_def MaxWSMessage_def
      split: if_splits) blast+

text \<open>
  Whatever bytes arrive, the reader of a session returns only frames of a known type within the limit of
  that type, an END without payload, and a frame it accepts does not depend on the bytes that follow it.
\<close>

theorem tunnel_reader_bounds:
  "list_all (\<lambda>(ft, p). ft \<in> {1, 2, 3, 4, 5, 6, 7, 8, 9} \<and> length p \<le> 4194304 \<and> (ft = FrameEnd \<longrightarrow> p = []) \<and>
      (ft \<in> {FrameOpen, FrameResult, FrameData, FrameAbort, FrameWSClose} \<longrightarrow> length p \<le> 65536))
    (fst (read_session fin bs)) \<and>
   (\<forall>f rest. ReadFrame fin bs = Inr (f, rest) \<longrightarrow> (\<forall>zs. ReadFrame fin (bs @ zs) = Inr (f, rest @ zs)))"
proof -
  have "ft \<in> {1, 2, 3, 4, 5, 6, 7, 8, 9} \<and> length p \<le> 4194304 \<and> (ft = FrameEnd \<longrightarrow> p = []) \<and>
      (ft \<in> {FrameOpen, FrameResult, FrameData, FrameAbort, FrameWSClose} \<longrightarrow> length p \<le> 65536)"
    if "frame_fits (ft, p)" for ft p
    using frame_fits_cases[OF that] by (elim disjE conjE; simp add: ftypes)
  then show ?thesis
    using read_session_limits[of fin bs] ReadFrame_extend by (auto simp: list_all_iff)
qed

lemma tunnel_reader_bounds_witness:
  "list_all (\<lambda>(ft, p). ft \<in> {1, 2, 3, 4, 5, 6, 7, 8, 9} \<and> length p \<le> 4194304 \<and> (ft = FrameEnd \<longrightarrow> p = []) \<and>
      (ft \<in> {FrameOpen, FrameResult, FrameData, FrameAbort, FrameWSClose} \<longrightarrow> length p \<le> 65536))
    (fst (read_session Io_EOF [4, 0, 200])) \<and>
   ReadFrame Io_EOF ([4, 0] @ [200]) = Inr ((4, []), [200])"
proof -
  have r: "ReadFrame Io_EOF [4, 0] = Inr ((4, []), [])"
    by (simp add: ReadFrame_def read_uvarint_def read_uvarint_from.simps maxPayload_def ftypes read_full_def)
  show ?thesis
    using tunnel_reader_bounds[of Io_EOF "[4, 0, 200]"] tunnel_reader_bounds[of Io_EOF "[4, 0]"] r by force
qed

end
