(* ===== verification/Tunnel_Headers.thy ===== *)
theory Tunnel_Headers
  imports Tunnel_Wire
begin

text \<open>
  What the header functions of \<open>src/internal/tunnelwire/tunnelwire.go\<close> promise: canonical names, the round trip
  between pairs and maps, the removal of hop-by-hop fields, and the headers that the HTTP proxy of
  \<open>src/tunnel/http.go\<close> sends for an accepted OPEN.
\<close>

section \<open>Canonical names\<close>

lemma code_char_of: "n < 256 \<Longrightarrow> code_of (char_of n) = n"
  by (simp add: code_of_def)

lemma char_of_code_of [simp]: "char_of (code_of c) = c"
  by (simp add: code_of_def)

lemma code_less: "code_of c < 256"
  using range_nat_of_char by (auto simp: code_of_def set_eq_iff)

lemma case_codes:
  "code_of (to_upper c) = (if is_lower c then code_of c - 32 else code_of c)"
  "code_of (to_lower c) = (if is_upper c then code_of c + 32 else code_of c)"
  using code_less[of c] by (auto simp: to_upper_def to_lower_def is_upper_def is_lower_def between_def code_char_of)

lemma case_idem [simp]:
  "to_upper (to_upper c) = to_upper c" "to_lower (to_lower c) = to_lower c"
  using case_codes[of c]
  by (auto simp: to_upper_def [of "to_upper c"] to_lower_def [of "to_lower c"] is_upper_def is_lower_def between_def)

lemma token_case: "token_char c \<Longrightarrow> token_char (to_upper c) \<and> token_char (to_lower c)"
  using case_codes[of c] by (auto simp: token_char_def is_upper_def is_lower_def between_def to_upper_def to_lower_def
      split: if_splits)

lemma dash_case [simp]: "(to_upper c = CHR ''-'') = (c = CHR ''-'')" "(to_lower c = CHR ''-'') = (c = CHR ''-'')"
proof -
  have d: "(x = CHR ''-'') = (code_of x = 45)" for x
  proof -
    have "code_of CHR ''-'' = 45" by (simp add: code_of_def)
    then show ?thesis by (metis char_of_code_of)
  qed
  show "(to_upper c = CHR ''-'') = (c = CHR ''-'')" "(to_lower c = CHR ''-'') = (c = CHR ''-'')"
    unfolding d case_codes by (auto simp: is_upper_def is_lower_def between_def)
qed

lemma canon_from_idem: "canon_from up (canon_from up s) = canon_from up s"
  by (induction s arbitrary: up) auto

lemma canon_from_token: "list_all token_char s \<Longrightarrow> list_all token_char (canon_from up s)"
  by (induction s arbitrary: up) (auto simp: token_case)

lemma canon_key_idem [simp]: "canon_key (canon_key s) = canon_key s"
  by (simp add: canon_key_def canon_from_idem canon_from_token)

lemma canon_from_length [simp]: "length (canon_from up s) = length s"
  by (induction s arbitrary: up) auto

lemma canon_key_token: "isHTTPToken s \<Longrightarrow> isHTTPToken (canon_key s)"
  by (cases s) (auto simp: isHTTPToken_def canon_key_def token_case canon_from_token)

section \<open>Pairs and maps\<close>

definition values_of :: "string \<Rightarrow> header_pair list \<Rightarrow> string list" where
  "values_of k ps = map snd (filter (\<lambda>p. canon_key (fst p) = k) ps)"

lemma values_of_simps [simp]:
  "values_of k [] = []"
  "values_of k ((n, v) # ps) = (if canon_key n = k then v # values_of k ps else values_of k ps)"
  "values_of k (ps @ qs) = values_of k ps @ values_of k qs"
  by (simp_all add: values_of_def)

lemma map_of_raw_add:
  "map_of (raw_add k v h) = (map_of h)(k \<mapsto> (case map_of h k of None \<Rightarrow> [v] | Some vs \<Rightarrow> vs @ [v]))"
  by (induction h) (auto simp: fun_eq_iff)

lemma raw_add_keys: "set (map fst (raw_add k v h)) = insert k (set (map fst h))"
proof (induction h)
  case (Cons e h)
  then show ?case by (cases e) auto
qed simp

lemma raw_add_distinct: "distinct (map fst h) \<Longrightarrow> distinct (map fst (raw_add k v h))"
proof (induction h)
  case (Cons e h)
  then show ?case using raw_add_keys[of k v h] by (cases e) auto
qed simp

lemma PairsToHeaders_snoc: "PairsToHeaders (ps @ [(n, v)]) = hdr_add n v (PairsToHeaders ps)"
  by (simp add: PairsToHeaders_def)

lemma PairsToHeaders_nil [simp]: "PairsToHeaders [] = []"
  by (simp add: PairsToHeaders_def)

lemma map_of_PairsToHeaders:
  "map_of (PairsToHeaders ps) k = (if values_of k ps = [] then None else Some (values_of k ps))"
proof (induction ps rule: rev_induct)
  case (snoc p ps)
  then show ?case
    by (cases p) (auto simp: PairsToHeaders_snoc hdr_add_def map_of_raw_add)
qed simp

lemma PairsToHeaders_distinct: "distinct (map fst (PairsToHeaders ps))"
proof (induction ps rule: rev_induct)
  case (snoc p ps)
  then show ?case by (cases p) (simp add: PairsToHeaders_snoc hdr_add_def raw_add_distinct)
qed simp

text \<open>The entries of a map with distinct keys, read off its lookups.\<close>

lemma PairsToHeaders_entry:
  "(k, vs) \<in> set (PairsToHeaders ps) \<longleftrightarrow> values_of k ps = vs \<and> vs \<noteq> []"
  using map_of_PairsToHeaders[of ps k] map_of_eq_Some_iff[OF PairsToHeaders_distinct, of ps k vs]
  by (auto split: if_splits)

lemma values_of_name: "v \<in> set (values_of k ps) \<Longrightarrow> \<exists>n. (n, v) \<in> set ps \<and> canon_key n = k"
  by (auto simp: values_of_def)

lemma PairsToHeaders_wf: "wf_header (PairsToHeaders ps)"
proof -
  have "canon_key k = k \<and> vs \<noteq> []" if "(k, vs) \<in> set (PairsToHeaders ps)" for k vs
  proof -
    have v: "values_of k ps = vs" "vs \<noteq> []" using that PairsToHeaders_entry by auto
    then have "hd vs \<in> set (values_of k ps)" by simp
    then show ?thesis using v values_of_name by fastforce
  qed
  then show ?thesis using PairsToHeaders_distinct by (auto simp: wf_header_def)
qed

lemma values_of_blocks:
  "distinct ks \<Longrightarrow> \<forall>n \<in> set ks. canon_key n = n \<Longrightarrow>
   values_of k (concat (map (\<lambda>n. map (Pair n) (f n)) ks)) = (if k \<in> set ks then f k else [])"
proof (induction ks)
  case (Cons n ks)
  have "values_of k (map (Pair n) vs) = (if n = k then vs else [])" for vs
    using Cons.prems by (induction vs) auto
  then show ?case using Cons by auto
qed simp

lemma sorted_const: "sorted (map (fst \<circ> Pair a) xs)"
  by (induction xs) auto

text \<open>
  A header map survives the conversion to pairs and back, whatever the iteration order of the map: the
  map rebuilt from the pairs has the same values in the same order under every name, and the pairs are sorted
  by name.
\<close>

theorem header_pairs_round_trip:
  assumes "wf_header h"
  shows "map_of (PairsToHeaders (HeadersToPairs h)) = map_of h \<and> sorted (map fst (HeadersToPairs h)) \<and>
         wf_header (PairsToHeaders (HeadersToPairs h))"
proof -
  let ?ks = "sort (map fst h)"
  have d: "distinct (map fst h)" "\<forall>n \<in> set (map fst h). canon_key n = n" "\<forall>(n, vs) \<in> set h. vs \<noteq> []"
    using assms by (auto simp: wf_header_def)
  have vals: "values_of k (HeadersToPairs h) = (if k \<in> fst ` set h then hdr_values k h else [])" for k
    unfolding HeadersToPairs_def using d values_of_blocks[of ?ks k "\<lambda>n. hdr_values n h"] by simp
  have "map_of (PairsToHeaders (HeadersToPairs h)) k = map_of h k" for k
  proof (cases "map_of h k")
    case None
    then have "k \<notin> fst ` set h" by (simp add: map_of_eq_None_iff)
    then show ?thesis using None by (simp add: map_of_PairsToHeaders vals)
  next
    case (Some vs)
    have kv: "(k, vs) \<in> set h" using Some by (rule map_of_SomeD)
    then have "vs \<noteq> []" "k \<in> fst ` set h" using d(3) by force+
    then show ?thesis using Some by (simp add: map_of_PairsToHeaders vals hdr_values_def)
  qed
  moreover have "sorted (map fst (concat (map (\<lambda>n. map (Pair n) (f n)) ks)))" if "sorted ks" for f :: "string \<Rightarrow> string list" and ks
    using that sorted_const by (induction ks) (auto simp: sorted_append)
  then have "sorted (map fst (HeadersToPairs h))" by (simp add: HeadersToPairs_def)
  ultimately show ?thesis using PairsToHeaders_wf by (simp add: fun_eq_iff)
qed

lemma header_pairs_round_trip_witness:
  "map_of (PairsToHeaders (HeadersToPairs [(''X'', [''1'', ''2'']), (''A'', [''3''])])) ''X'' = Some [''1'', ''2'']"
proof -
  have "wf_header [(''X'', [''1'', ''2'']), (''A'', [''3''])]"
    by (simp add: wf_header_def canon_key_def to_upper_def is_lower_def between_def code_of_def)
  from header_pairs_round_trip[OF this] show ?thesis by simp
qed

section \<open>Hop-by-hop fields\<close>

lemma map_of_del: "map_of (hdr_del n h) = (map_of h)(canon_key n := None)"
  by (simp add: hdr_del_def delete_conv')

lemma map_of_dels:
  "map_of (foldl (\<lambda>h n. hdr_del n h) h ns) k = (if k \<in> canon_key ` set ns then None else map_of h k)"
  by (induction ns arbitrary: h) (auto simp: map_of_del)

lemma dels_distinct: "distinct (map fst h) \<Longrightarrow> distinct (map fst (foldl (\<lambda>h n. hdr_del n h) h ns))"
  by (induction ns arbitrary: h) (simp_all add: hdr_del_def distinct_delete)

definition hop_names :: "header \<Rightarrow> string set" where
  "hop_names h = canon_key ` (set (nominated h) \<union> set hopByHopHeaders)"

lemma map_of_Strip: "map_of (StripHopByHop h) k = (if k \<in> hop_names h then None else map_of h k)"
  by (auto simp: StripHopByHop_def Let_def map_of_dels hop_names_def)

lemma Strip_distinct: "distinct (map fst h) \<Longrightarrow> distinct (map fst (StripHopByHop h))"
  by (simp add: StripHopByHop_def Let_def dels_distinct)

lemma Strip_entry:
  "distinct (map fst h) \<Longrightarrow>
   (k, vs) \<in> set (StripHopByHop h) \<longleftrightarrow> k \<notin> hop_names h \<and> (k, vs) \<in> set h"
  using map_of_Strip[of h k] map_of_eq_Some_iff[of h k vs] map_of_eq_Some_iff[OF Strip_distinct, of h k vs]
  by (auto split: if_splits dest: map_of_SomeD)

section \<open>An accepted OPEN\<close>

definition line_safe :: "string \<Rightarrow> bool" where
  "line_safe s \<longleftrightarrow> CHR 0x00 \<notin> set s \<and> CHR 0x0D \<notin> set s \<and> CHR 0x0A \<notin> set s"

lemma hasBadHeaderValue_line_safe: "hasBadHeaderValue s \<longleftrightarrow> \<not> line_safe s"
  by (auto simp: hasBadHeaderValue_def line_safe_def list_ex_iff)

lemma hasCtrl_bytes: "hasCtrl s \<longleftrightarrow> (\<exists>c \<in> set s. code_of c < 0x20 \<or> code_of c = 0x7F)"
  unfolding hasCtrl_def by (subst runes_ascii) (auto simp: list_ex_iff)

lemma hasCtrl_line_safe: "\<not> hasCtrl s \<Longrightarrow> line_safe s"
  by (auto simp: hasCtrl_bytes line_safe_def code_of_def)

lemma check_headers_None:
  "check_headers hs = None \<longleftrightarrow> (\<forall>(n, v) \<in> set hs. isHTTPToken n \<and> line_safe v)"
  by (induction hs rule: check_headers.induct) (auto simp: hasBadHeaderValue_line_safe)

lemma ValidateOpen_None:
  "ValidateOpen (Some m) = None \<longleftrightarrow>
     om_v m = 1 \<and> om_kind m \<in> {KindHTTP, KindWS} \<and> om_target m \<noteq> [] \<and> length (om_target m) \<le> MaxTargetLen \<and>
     \<not> hasCtrl (om_target m) \<and> \<not> hasCtrl (om_host m) \<and> (om_method m = [] \<or> isHTTPToken (om_method m)) \<and>
     (\<forall>(n, v) \<in> set (om_headers m). isHTTPToken n \<and> line_safe v) \<and> (\<forall>p \<in> set (om_protocols m). isHTTPToken p)"
  by (auto simp: ValidateOpen_def check_headers_None[symmetric] list_ex_iff split: option.splits)

lemma extract_host_subset:
  assumes "extract_host ps host rest = (h, r)" and "line_safe host"
    and "\<forall>(n, v) \<in> set ps \<union> set rest. isHTTPToken n \<and> line_safe v"
  shows "line_safe h \<and> (\<forall>(n, v) \<in> set r. isHTTPToken n \<and> line_safe v)"
  using assms
proof (induction ps host rest rule: extract_host.induct)
  case (2 p ps host rest)
  then show ?case by (cases p) (auto split: if_splits)
qed auto

lemma ExtractHost_safe:
  assumes "ExtractHost ps host = (h, r)" and "line_safe host" and "\<forall>(n, v) \<in> set ps. isHTTPToken n \<and> line_safe v"
  shows "line_safe h \<and> (\<forall>(n, v) \<in> set r. isHTTPToken n \<and> line_safe v)"
  using assms extract_host_subset[of ps host "[]" h r] by (auto simp: ExtractHost_def split: if_splits)


definition demo_open :: open_msg where
  "demo_open = \<lparr>om_v = 1, om_kind = KindHTTP, om_target = ''/a'', om_method = ''GET'', om_host = ''h'',
     om_headers = [(''x-y'', ''1'')], om_protocols = []\<rparr>"

lemmas char_eval = code_of_def between_def is_digit_def is_upper_def is_lower_def token_char_def

lemma demo_open_ok: "ValidateOpen (Some demo_open) = None"
  by (simp add: ValidateOpen_None demo_open_def KindHTTP_def MaxTargetLen_def hasCtrl_bytes line_safe_def
      isHTTPToken_def char_eval)


text \<open>A second \<open>Host\<close> field stays in the header set.\<close>

lemma extract_host_keeps_second:
  "ExtractHost [(''Host'', ''a''), (''Host'', ''b'')] [] = (''a'', [(''Host'', ''b'')])"
  by (simp add: ExtractHost_def host_name_def to_lower_def char_eval)

end
