(* ===== verification/Tunnel_Reader.thy ===== *)
theory Tunnel_Reader
  imports Tunnel_Headers "HOL-Library.Sublist"
begin

text \<open>
  Both bodies of an HTTP tunnel session, the request's on the server and the response's on the client, are byte
  readers over the frames that come in. The frames, the results of a read, and the contract both keep: the bytes
  read are those of the leading DATA frames, then comes one final result and stays.
\<close>

section \<open>Frames that come in\<close>

datatype in_frame = IF_Frame ftype bytes | IF_Err wire_err

text \<open>What the pump hands over: the frames of the session up to the error that ends it.\<close>

definition pump_frames :: "io_err \<Rightarrow> bytes \<Rightarrow> in_frame list" where
  "pump_frames fin bs = (let (fs, e) = read_session fin bs in map (\<lambda>(t, p). IF_Frame t p) fs @ [IF_Err e])"

text \<open>The bytes of the leading DATA frames and the frame or error after them.\<close>

fun lead :: "in_frame list \<Rightarrow> bytes \<times> in_frame option" where
  "lead [] = ([], None)"
| "lead (IF_Err e # xs) = ([], Some (IF_Err e))"
| "lead (IF_Frame t p # xs) = (if t = FrameData then (p @ fst (lead xs), snd (lead xs)) else ([], Some (IF_Frame t p)))"

lemma lead_data: "lead (map (\<lambda>p. IF_Frame FrameData p) ps @ xs) = (concat ps @ fst (lead xs), snd (lead xs))"
  by (induction ps) simp_all

lemma pump_frames_enc:
  assumes "list_all frame_fits fs"
  shows "\<exists>e. pump_frames fin (enc fs) = map (\<lambda>(t, p). IF_Frame t p) fs @ [IF_Err e]"
proof -
  have "fst (read_session fin (enc fs)) = fs"
    using read_session_cut[OF assms, of fin "length (enc fs)"] by auto
  then show ?thesis by (auto simp: pump_frames_def split: prod.split)
qed

section \<open>Readers\<close>

datatype 'e read_result = BR_Bytes bytes | BR_EOF | BR_Err 'e | BR_Blocked

fun result_bytes :: "'e read_result \<Rightarrow> bytes" where
  "result_bytes (BR_Bytes p) = p"
| "result_bytes r = []"

text \<open>A read that says nothing about the end, one that waits, one that is the end.\<close>

fun result_says :: "'e read_result option \<Rightarrow> bool \<Rightarrow> 'e read_result \<Rightarrow> bool" where
  "result_says e done (BR_Bytes p) \<longleftrightarrow> True"
| "result_says e done BR_Blocked \<longleftrightarrow> e = None \<and> done"
| "result_says e done r \<longleftrightarrow> e = Some r \<and> done"

fun is_bytes :: "'e read_result \<Rightarrow> bool" where
  "is_bytes (BR_Bytes p) \<longleftrightarrow> True"
| "is_bytes r \<longleftrightarrow> False"

fun read_all :: "(nat \<Rightarrow> 's \<Rightarrow> ('e read_result \<times> 's) run) \<Rightarrow> nat list \<Rightarrow> 's \<Rightarrow> ('e read_result list \<times> 's) run" where
  "read_all rd [] s = Inr ([], s)"
| "read_all rd (room # rooms) s =
     (case rd room s of
        Inl e \<Rightarrow> Inl e
      | Inr (r, s) \<Rightarrow> (case read_all rd rooms s of Inl e \<Rightarrow> Inl e | Inr (rs, s) \<Rightarrow> Inr (r # rs, s)))"

text \<open>What a reader of a whole body gets.\<close>

definition gets_whole :: "nat list \<Rightarrow> bytes \<Rightarrow> 'e read_result list \<Rightarrow> bool" where
  "gets_whole rooms bs rs \<longleftrightarrow> prefix (concat (map result_bytes rs)) bs \<and>
     list_all (result_says (Some BR_EOF) (concat (map result_bytes rs) = bs)) rs \<and>
     (list_all (\<lambda>room. 0 < room) rooms \<and> length bs < length rooms \<longrightarrow> last rs = BR_EOF)"

text \<open>\<open>rest\<close> is what a state will still give, \<open>ending\<close> the result after that, \<open>None\<close> when it waits.\<close>

locale byte_reader =
  fixes rd :: "nat \<Rightarrow> 's \<Rightarrow> ('e read_result \<times> 's) run"
    and rest :: "'s \<Rightarrow> bytes"
    and fin :: "'s \<Rightarrow> 'e read_result option"
  assumes rest_step: "rd room s = Inr (r, s') \<Longrightarrow> result_bytes r @ rest s' = rest s"
    and fin_step: "rd room s = Inr (r, s') \<Longrightarrow> fin s' = fin s"
    and says_step: "rd room s = Inr (r, s') \<Longrightarrow> result_says (fin s) (rest s = []) r"
    and progress: "rd room s = Inr (r, s') \<Longrightarrow> is_bytes r \<Longrightarrow> 0 < room \<Longrightarrow> result_bytes r \<noteq> []"
begin

lemma step_blockless: "rd room s = Inr (r, s') \<Longrightarrow> \<not> is_bytes r \<Longrightarrow> rest s = [] \<and> rest s' = []"
  using says_step[of room s r s'] rest_step[of room s r s'] by (cases r) auto

lemma read_all_rest: "read_all rd rooms s = Inr (rs, s') \<Longrightarrow> concat (map result_bytes rs) @ rest s' = rest s \<and> fin s' = fin s \<and> length rs = length rooms"
proof (induction rooms arbitrary: s rs)
  case (Cons room rooms)
  obtain r t qs where r: "rd room s = Inr (r, t)" "read_all rd rooms t = Inr (qs, s')" "rs = r # qs"
    using Cons.prems by (auto split: sum.splits)
  show ?case using rest_step[OF r(1)] fin_step[OF r(1)] Cons.IH[OF r(2)] r(3) by simp
qed simp

lemma read_all_says:
  "read_all rd rooms s = Inr (rs, s') \<Longrightarrow> r \<in> set rs \<Longrightarrow> result_says (fin s) (concat (map result_bytes rs) = rest s) r"
proof (induction rooms arbitrary: s rs)
  case (Cons room rooms)
  obtain q t qs where q: "rd room s = Inr (q, t)" "read_all rd rooms t = Inr (qs, s')" "rs = q # qs"
    using Cons.prems(1) by (auto split: sum.splits)
  have all: "concat (map result_bytes rs) @ rest s' = rest s" using read_all_rest[OF Cons.prems(1)] by simp
  show ?case
  proof (cases "r \<in> set qs")
    case True
    have "result_says (fin t) (concat (map result_bytes qs) = rest t) r" by (rule Cons.IH[OF q(2) True])
    then show ?thesis using fin_step[OF q(1)] rest_step[OF q(1)] q(3) by (cases r) auto
  next
    case False
    then have "r = q" using Cons.prems(2) q(3) by auto
    then show ?thesis using says_step[OF q(1)] all by (cases r) auto
  qed
qed simp

lemma read_all_ends:
  "read_all rd rooms s = Inr (rs, s') \<Longrightarrow> list_all (\<lambda>room. 0 < room) rooms \<Longrightarrow> length (rest s) < length rooms \<Longrightarrow> \<not> is_bytes (last rs)"
proof (induction rooms arbitrary: s rs)
  case (Cons room rooms)
  obtain q t qs where q: "rd room s = Inr (q, t)" "read_all rd rooms t = Inr (qs, s')" "rs = q # qs"
    using Cons.prems(1) by (auto split: sum.splits)
  have len: "length qs = length rooms" using read_all_rest[OF q(2)] by simp
  have "length (result_bytes q) + length (rest t) = length (rest s)" using rest_step[OF q(1)] by (metis length_append)
  moreover have "is_bytes q \<Longrightarrow> 0 < length (result_bytes q)" using progress[OF q(1)] Cons.prems(2) by simp
  moreover have "\<not> is_bytes q \<Longrightarrow> length (rest t) = 0" using step_blockless[OF q(1)] by simp
  ultimately have small: "qs \<noteq> [] \<Longrightarrow> length (rest t) < length rooms"
    using Cons.prems(3) len by (cases "is_bytes q"; cases rooms) (simp_all del: length_greater_0_conv)
  have "qs = [] \<Longrightarrow> \<not> is_bytes q"
    using progress[OF q(1)] Cons.prems len rest_step[OF q(1)] by auto
  then show ?case using small Cons.IH[OF q(2)] Cons.prems(2) q(3) by auto
qed simp

text \<open>The contract: a prefix, then the end, then nothing else, and the end comes.\<close>

lemma read_all_contract:
  assumes "read_all rd rooms s = Inr (rs, s')"
  shows "prefix (concat (map result_bytes rs)) (rest s) \<and>
    list_all (result_says (fin s) (concat (map result_bytes rs) = rest s)) rs \<and>
    (list_all (\<lambda>room. 0 < room) rooms \<and> length (rest s) < length rooms \<longrightarrow> \<not> is_bytes (last rs))"
  using read_all_rest[OF assms] read_all_says[OF assms] read_all_ends[OF assms]
  by (auto simp: list_all_iff intro: prefixI[OF sym])

lemma whole:
  assumes "read_all rd rooms s = Inr (rs, s')" and "fin s = Some BR_EOF"
  shows "gets_whole rooms (rest s) rs"
proof -
  have says: "list_all (result_says (Some BR_EOF) (concat (map result_bytes rs) = rest s)) rs"
    using read_all_contract[OF assms(1)] assms(2) by simp
  have "last rs = BR_EOF" if "\<not> is_bytes (last rs)" "rs \<noteq> []"
  proof -
    have "result_says (Some BR_EOF) (concat (map result_bytes rs) = rest s) (last rs)"
      using says that(2) by (simp add: list_all_iff)
    then show ?thesis using that(1) by (cases "last rs") simp_all
  qed
  moreover have "rs = [] \<Longrightarrow> rooms = []" using read_all_rest[OF assms(1)] by simp
  ultimately show ?thesis using says read_all_contract[OF assms(1)] unfolding gets_whole_def by (cases "rs = []") simp_all
qed

end

end
