(* ===== verification/Tunnel_Http.thy ===== *)
theory Tunnel_Http
  imports Tunnel_Reader
begin

text \<open>
  The server side of an HTTP tunnel session, \<open>src/tunnel/http.go\<close>: the request body read from DATA frames, the
  response writer that turns a handler's calls into RESULT and DATA frames, the dispatch on the target and the
  proxy with its policy. The bytes of a session are whole frames; the JSON codec, URL parsing, the handler and the
  round tripper are parameters. A write has an outcome: all of its frames went out, or the connection failed after
  some of them.
\<close>

section \<open>Pieces of the standard library\<close>

definition StatusText :: "int \<Rightarrow> string" where
  "StatusText c = (case map_of
    [(100, ''Continue''), (101, ''Switching Protocols''), (102, ''Processing''), (103, ''Early Hints''),
     (200, ''OK''), (201, ''Created''), (202, ''Accepted''), (203, ''Non-Authoritative Information''),
     (204, ''No Content''), (205, ''Reset Content''), (206, ''Partial Content''), (207, ''Multi-Status''),
     (208, ''Already Reported''), (226, ''IM Used''), (300, ''Multiple Choices''), (301, ''Moved Permanently''),
     (302, ''Found''), (303, ''See Other''), (304, ''Not Modified''), (305, ''Use Proxy''),
     (307, ''Temporary Redirect''), (308, ''Permanent Redirect''), (400, ''Bad Request''), (401, ''Unauthorized''),
     (402, ''Payment Required''), (403, ''Forbidden''), (404, ''Not Found''), (405, ''Method Not Allowed''),
     (406, ''Not Acceptable''), (407, ''Proxy Authentication Required''), (408, ''Request Timeout''),
     (409, ''Conflict''), (410, ''Gone''), (411, ''Length Required''), (412, ''Precondition Failed''),
     (413, ''Request Entity Too Large''), (414, ''Request URI Too Long''), (415, ''Unsupported Media Type''),
     (416, ''Requested Range Not Satisfiable''), (417, ''Expectation Failed''), (418, ''I'm a teapot''),
     (421, ''Misdirected Request''), (422, ''Unprocessable Entity''), (423, ''Locked''),
     (424, ''Failed Dependency''), (425, ''Too Early''), (426, ''Upgrade Required''),
     (428, ''Precondition Required''), (429, ''Too Many Requests''), (431, ''Request Header Fields Too Large''),
     (451, ''Unavailable For Legal Reasons''), (500, ''Internal Server Error''), (501, ''Not Implemented''),
     (502, ''Bad Gateway''), (503, ''Service Unavailable''), (504, ''Gateway Timeout''),
     (505, ''HTTP Version Not Supported''), (506, ''Variant Also Negotiates''), (507, ''Insufficient Storage''),
     (508, ''Loop Detected''), (510, ''Not Extended''), (511, ''Network Authentication Required'')] c
   of Some s \<Rightarrow> s | None \<Rightarrow> [])"

text \<open>\<open>strconv.ParseInt(s, 10, 64)\<close>.\<close>

definition digits_value :: "string \<Rightarrow> int option" where
  "digits_value s = (if s = [] \<or> \<not> list_all is_digit s then None
     else Some (foldl (\<lambda>n c. 10 * n + int (code_of c - 48)) 0 s))"

definition ParseInt64 :: "string \<Rightarrow> int option" where
  "ParseInt64 s =
     (let neg = (s \<noteq> [] \<and> hd s = CHR ''-'');
          ds = (if s \<noteq> [] \<and> (hd s = CHR ''-'' \<or> hd s = CHR ''+'') then tl s else s) in
      case digits_value ds of
        None \<Rightarrow> None
      | Some n \<Rightarrow>
          let v = (if neg then - n else n) in
          if v < - (2 ^ 63) \<or> 2 ^ 63 - 1 < v then None else Some v)"

record url =
  ur_scheme :: string
  ur_host :: string
  ur_path :: string
  ur_rawPath :: string
  ur_rawQuery :: string
  ur_forceQuery :: bool
  ur_fragment :: string

definition IsAbs :: "url \<Rightarrow> bool" where "IsAbs u \<longleftrightarrow> ur_scheme u \<noteq> []"

section \<open>Frames on the way out\<close>

type_synonym wframe = "ftype \<times> bytes"

text \<open>The frames of one call and its outcome: \<open>None\<close>, or the number of frames after which the connection failed.\<close>

definition send_frames :: "nat option \<Rightarrow> wframe list \<Rightarrow> wframe list \<Rightarrow> bool \<times> wframe list" where
  "send_frames fail fs out = (case fail of None \<Rightarrow> (True, out @ fs) | Some k \<Rightarrow> (False, out @ take k fs))"

definition send_json :: "nat option \<Rightarrow> ftype \<Rightarrow> bytes \<Rightarrow> wframe list \<Rightarrow> bool \<times> wframe list" where
  "send_json fail ft js out =
     (case WriteJSON ft (Some js) of Inl e \<Rightarrow> (False, out) | Inr b \<Rightarrow> send_frames fail [(ft, js)] out)"

section \<open>The response writer\<close>

record http_writer =
  hw_method :: string
  hw_header :: header
  hw_status :: int
  hw_wrote :: bool
  hw_broken :: bool
  hw_out :: "wframe list"

definition newHTTPResultWriter :: "string \<Rightarrow> http_writer" where
  "newHTTPResultWriter m = \<lparr>hw_method = m, hw_header = [], hw_status = 0, hw_wrote = False, hw_broken = False, hw_out = []\<rparr>"

definition http_result :: "int \<Rightarrow> header \<Rightarrow> string \<Rightarrow> result_msg" where
  "http_result status hdr err =
     \<lparr>rm_kind = KindHTTP, rm_status = status, rm_statusText = StatusText status, rm_protocol = [],
      rm_headers = HeadersToPairs hdr, rm_error = err\<rparr>"

type_synonym result_enc = "result_msg \<Rightarrow> bytes"

definition WriteHeader :: "result_enc \<Rightarrow> int \<Rightarrow> nat option \<Rightarrow> http_writer \<Rightarrow> http_writer" where
  "WriteHeader js status fail w =
     (if hw_wrote w then w
      else if 100 \<le> status \<and> status < 200 \<and> status \<noteq> 101 then w
      else
        let (ok, out) = send_json fail FrameResult (js (http_result status (hw_header w) [])) (hw_out w) in
        w\<lparr>hw_wrote := True, hw_status := status, hw_broken := (hw_broken w \<or> \<not> ok), hw_out := out\<rparr>)"

definition ensure_header :: "result_enc \<Rightarrow> nat option \<Rightarrow> http_writer \<Rightarrow> http_writer" where
  "ensure_header js fail w = (if hw_wrote w then w else WriteHeader js 200 fail w)"

definition bodyless :: "http_writer \<Rightarrow> bool" where
  "bodyless w \<longleftrightarrow> hw_method w = ''HEAD'' \<or> (100 \<le> hw_status w \<and> hw_status w < 200) \<or> hw_status w = 204 \<or> hw_status w = 304"

text \<open>\<open>Write\<close>: the number of bytes it reports, \<open>None\<close> for an error.\<close>

definition hw_write :: "result_enc \<Rightarrow> bytes \<Rightarrow> nat option \<Rightarrow> nat option \<Rightarrow> http_writer \<Rightarrow> nat option \<times> http_writer" where
  "hw_write js p fail1 fail2 w =
     (let w = ensure_header js fail1 w in
      if hw_broken w then (None, w)
      else if bodyless w then (Some (length p), w)
      else
        let (ok, out) = send_frames fail2 (map (Pair FrameData) (chunks p)) (hw_out w) in
        if ok then (Some (length p), w\<lparr>hw_out := out\<rparr>)
        else (None, w\<lparr>hw_out := out, hw_broken := True\<rparr>))"

definition hw_flush :: "result_enc \<Rightarrow> nat option \<Rightarrow> http_writer \<Rightarrow> http_writer" where
  "hw_flush js fail w = ensure_header js fail w"

definition panic500 :: "result_enc \<Rightarrow> bytes \<Rightarrow> nat option \<Rightarrow> http_writer \<Rightarrow> http_writer" where
  "panic500 js abort fail w =
     (if \<not> hw_wrote w then WriteHeader js 500 fail w
      else w\<lparr>hw_broken := True, hw_out := snd (send_json fail FrameAbort abort (hw_out w))\<rparr>)"

definition hw_finish :: "result_enc \<Rightarrow> nat option \<Rightarrow> nat option \<Rightarrow> http_writer \<Rightarrow> http_writer" where
  "hw_finish js fail1 fail2 w =
     (let w = ensure_header js fail1 w in w\<lparr>hw_out := snd (send_frames fail2 [(FrameEnd, [])] (hw_out w))\<rparr>)"

text \<open>What a handler does with the writer, and the session around it: the calls, a panic with its ABORT, the end.\<close>

datatype h_op = H_Header header | H_WriteHeader int "nat option" | H_Write bytes "nat option" "nat option" | H_Flush "nat option"

fun h_step :: "result_enc \<Rightarrow> h_op \<Rightarrow> http_writer \<Rightarrow> http_writer" where
  "h_step js (H_Header h) w = w\<lparr>hw_header := h\<rparr>"
| "h_step js (H_WriteHeader c fail) w = WriteHeader js c fail w"
| "h_step js (H_Write p f1 f2) w = snd (hw_write js p f1 f2 w)"
| "h_step js (H_Flush fail) w = hw_flush js fail w"

definition serve_handler ::
  "result_enc \<Rightarrow> string \<Rightarrow> h_op list \<Rightarrow> (bytes \<times> nat option) option \<Rightarrow> nat option \<Rightarrow> nat option \<Rightarrow> http_writer" where
  "serve_handler js m ops panic f1 f2 =
     (let w = fold (h_step js) ops (newHTTPResultWriter m);
          w = (case panic of None \<Rightarrow> w | Some (abort, fail) \<Rightarrow> panic500 js abort fail w) in
      hw_finish js f1 f2 w)"

section \<open>The request body\<close>

datatype body_err = BE_Read wire_err | BE_Abort string string | BE_Protocol ftype

record http_body =
  hb_pending :: bytes
  hb_ended :: bool
  hb_err :: "body_err option"

definition newHTTPBody :: http_body where
  "newHTTPBody = \<lparr>hb_pending = [], hb_ended = False, hb_err = None\<rparr>"

type_synonym body_result = "body_err read_result"

text \<open>\<open>Read\<close> on what the pump has delivered; it blocks when that is used up.\<close>

definition body_take :: "nat \<Rightarrow> http_body \<Rightarrow> body_result \<times> http_body" where
  "body_take room b = (BR_Bytes (take room (hb_pending b)), b\<lparr>hb_pending := drop room (hb_pending b)\<rparr>)"

fun body_pull :: "(bytes \<Rightarrow> abort_msg option) \<Rightarrow> nat \<Rightarrow> in_frame list \<Rightarrow> http_body \<Rightarrow> (body_result \<times> in_frame list \<times> http_body) run" where
  "body_pull da room [] b = Inr (BR_Blocked, [], b)"
| "body_pull da room (IF_Err e # xs) b = Inr (BR_Err (BE_Read e), xs, b\<lparr>hb_err := Some (BE_Read e)\<rparr>)"
| "body_pull da room (IF_Frame t p # xs) b =
     (if t = FrameData then
        (if p = [] then body_pull da room xs (b\<lparr>hb_pending := []\<rparr>)
         else let (r, b) = body_take room (b\<lparr>hb_pending := p\<rparr>) in Inr (r, xs, b))
      else if t = FrameEnd then Inr (BR_EOF, xs, b\<lparr>hb_ended := True\<rparr>)
      else if t = FrameAbort then
        (case da p of
           None \<Rightarrow> Inl Nil_Deref
         | Some a \<Rightarrow> Inr (BR_Err (BE_Abort (am_code a) (am_message a)), xs, b\<lparr>hb_err := Some (BE_Abort (am_code a) (am_message a))\<rparr>))
      else Inr (BR_Err (BE_Protocol t), xs, b\<lparr>hb_err := Some (BE_Protocol t)\<rparr>))"

definition body_read :: "(bytes \<Rightarrow> abort_msg option) \<Rightarrow> nat \<Rightarrow> in_frame list \<Rightarrow> http_body \<Rightarrow> (body_result \<times> in_frame list \<times> http_body) run" where
  "body_read da room xs b =
     (if hb_pending b \<noteq> [] then (let (r, b) = body_take room b in Inr (r, xs, b))
      else case hb_err b of
        Some e \<Rightarrow> Inr (BR_Err e, xs, b)
      | None \<Rightarrow> if hb_ended b then Inr (BR_EOF, xs, b) else body_pull da room xs b)"

section \<open>Dispatch\<close>

definition local_path :: "string \<Rightarrow> bool" where
  "local_path t \<longleftrightarrow> take 1 t = ''/'' \<and> take 2 t \<noteq> ''//''"

datatype target = T_Local | T_Url url | T_Bad

definition splitTarget :: "(string \<Rightarrow> url option) \<Rightarrow> string \<Rightarrow> target" where
  "splitTarget parse t =
     (if local_path t then T_Local
      else case parse t of
        None \<Rightarrow> T_Bad
      | Some u \<Rightarrow> if \<not> IsAbs u \<or> ur_host u = [] then T_Bad else T_Url u)"

definition contentLengthOf :: "header \<Rightarrow> int" where
  "contentLengthOf h =
     (let v = hdr_get ''Content-Length'' h in
      if v = [] then -1
      else case ParseInt64 (trim_space v) of None \<Rightarrow> -1 | Some n \<Rightarrow> if n < 0 then -1 else n)"

definition default_method :: "string \<Rightarrow> string" where
  "default_method m = (if m = [] then ''GET'' else m)"

text \<open>The request a local handler gets; the one a proxy sends.\<close>

record local_request =
  lr_method :: string
  lr_path :: string
  lr_rawPath :: string
  lr_rawQuery :: string
  lr_forceQuery :: bool
  lr_uri :: string
  lr_host :: string
  lr_header :: header
  lr_contentLength :: int

record proxy_request =
  px_method :: string
  px_url :: url
  px_host :: string
  px_header :: header
  px_contentLength :: int

datatype http_fate = HF_Refused int | HF_Local local_request | HF_Proxy proxy_request

type_synonym target_filter = "peer_id \<Rightarrow> kind \<Rightarrow> url \<Rightarrow> bool"

definition serveHTTPLocal :: "bool \<Rightarrow> (string \<Rightarrow> url option) \<Rightarrow> open_msg \<Rightarrow> http_fate" where
  "serveHTTPLocal has_handler parse_uri om =
     (if \<not> has_handler then HF_Refused 404
      else case parse_uri (om_target om) of
        None \<Rightarrow> HF_Refused 400
      | Some u \<Rightarrow>
          if ur_path u = [] \<or> IsAbs u then HF_Refused 400
          else
            let (host, rest) = ExtractHost (om_headers om) (om_host om); hdr = PairsToHeaders rest in
            HF_Local \<lparr>lr_method = default_method (om_method om), lr_path = ur_path u, lr_rawPath = ur_rawPath u,
              lr_rawQuery = ur_rawQuery u, lr_forceQuery = ur_forceQuery u, lr_uri = om_target om, lr_host = host,
              lr_header = hdr, lr_contentLength = contentLengthOf hdr\<rparr>)"

text \<open>
  The proxy up to the round trip: no configuration (\<open>None\<close>), a configuration without a filter (\<open>Some None\<close>), or
  one with it; \<open>new_request\<close> is the check of \<open>http.NewRequestWithContext\<close>. An empty \<open>px_host\<close> leaves the host of the URL.
\<close>

definition proxy_outgoing :: "(string \<Rightarrow> url \<Rightarrow> bool) \<Rightarrow> string \<Rightarrow> url \<Rightarrow> open_msg \<Rightarrow> http_fate" where
  "proxy_outgoing new_request m u om =
     (if \<not> new_request m u then HF_Refused 400
      else
        let (host, rest) = ExtractHost (om_headers om) (om_host om);
            hdr = StripHopByHop (PairsToHeaders rest) in
        HF_Proxy \<lparr>px_method = m, px_url = u, px_host = host, px_header = hdr,
          px_contentLength = (if 0 \<le> contentLengthOf hdr then contentLengthOf hdr else 0)\<rparr>)"

definition serveHTTPProxy :: "target_filter option option \<Rightarrow> (string \<Rightarrow> url \<Rightarrow> bool) \<Rightarrow> peer_id \<Rightarrow> url \<Rightarrow> open_msg \<Rightarrow> http_fate" where
  "serveHTTPProxy cfg new_request p u om =
     (case cfg of
        None \<Rightarrow> HF_Refused 404
      | Some allow \<Rightarrow>
          if ur_scheme u \<noteq> ''http'' \<and> ur_scheme u \<noteq> ''https'' then HF_Refused 400
          else if (case allow of None \<Rightarrow> True | Some f \<Rightarrow> \<not> f p KindHTTP u) then HF_Refused 403
          else proxy_outgoing new_request (default_method (om_method om)) u om)"

definition serveHTTP ::
  "bool \<Rightarrow> target_filter option option \<Rightarrow> (string \<Rightarrow> url option) \<Rightarrow> (string \<Rightarrow> url option) \<Rightarrow> (string \<Rightarrow> url \<Rightarrow> bool) \<Rightarrow>
   peer_id \<Rightarrow> open_msg \<Rightarrow> http_fate" where
  "serveHTTP has_handler cfg parse parse_uri new_request p om =
     (case splitTarget parse (om_target om) of
        T_Bad \<Rightarrow> HF_Refused 400
      | T_Local \<Rightarrow> serveHTTPLocal has_handler parse_uri om
      | T_Url u \<Rightarrow> serveHTTPProxy cfg new_request p u om)"

definition refuseHTTP :: "result_enc \<Rightarrow> int \<Rightarrow> string \<Rightarrow> nat option \<Rightarrow> nat option \<Rightarrow> wframe list \<Rightarrow> wframe list" where
  "refuseHTTP js status msg f1 f2 out =
     snd (send_frames f2 [(FrameEnd, [])] (snd (send_json f1 FrameResult (js (http_result status [] msg)) out)))"

section \<open>The answer of a proxied request\<close>

text \<open>\<open>streamBody\<close>: what each \<open>Read\<close> of the response gives, with the outcome of the write; an ABORT on a failed read.\<close>

datatype up_err = Up_EOF | Up_Fail "nat option"

fun streamBody :: "bytes \<Rightarrow> (bytes \<times> up_err option \<times> nat option) list \<Rightarrow> wframe list \<Rightarrow> bool \<times> wframe list" where
  "streamBody abort [] out = (True, out)"
| "streamBody abort ((p, e, fail) # rs) out =
     (let (ok, out) = (if p = [] then (True, out) else send_frames fail [(FrameData, p)] out) in
      if \<not> ok then (False, out)
      else case e of
        None \<Rightarrow> streamBody abort rs out
      | Some Up_EOF \<Rightarrow> (True, out)
      | Some (Up_Fail fail') \<Rightarrow> (False, snd (send_json fail' FrameAbort abort out)))"

datatype round_trip = RT_Error bool | RT_Response int header "(bytes \<times> up_err option \<times> nat option) list"

text \<open>\<open>RT_Error True\<close> is an error that stems from a protocol violation in the request body.\<close>

definition proxy_answer ::
  "result_enc \<Rightarrow> bytes \<Rightarrow> string \<Rightarrow> round_trip \<Rightarrow> nat option \<Rightarrow> nat option \<Rightarrow> wframe list" where
  "proxy_answer js abort msg rt f1 f2 =
     (case rt of
        RT_Error True \<Rightarrow> snd (send_json f1 FrameAbort abort [])
      | RT_Error False \<Rightarrow> refuseHTTP js 502 msg f1 f2 []
      | RT_Response status hdr reads \<Rightarrow>
          let (ok, out) = send_json f1 FrameResult (js (http_result status (StripHopByHop hdr) [])) [];
              (ok, out) = (if ok then streamBody abort reads out else (False, out)) in
          if ok then snd (send_frames f2 [(FrameEnd, [])] out) else out)"

section \<open>What a handler's calls amount to\<close>

definition informational :: "int \<Rightarrow> bool" where
  "informational c \<longleftrightarrow> 100 \<le> c \<and> c < 200 \<and> c \<noteq> 101"

text \<open>The status and the header of the RESULT, and the bytes written, as a handler would expect them.\<close>

fun final_result :: "header \<Rightarrow> h_op list \<Rightarrow> int \<times> header" where
  "final_result h [] = (200, h)"
| "final_result h (H_Header h' # ops) = final_result h' ops"
| "final_result h (H_WriteHeader c f # ops) = (if informational c then final_result h ops else (c, h))"
| "final_result h (H_Write p f1 f2 # ops) = (200, h)"
| "final_result h (H_Flush f # ops) = (200, h)"

fun written :: "h_op list \<Rightarrow> bytes list" where
  "written [] = []"
| "written (H_Write p f1 f2 # ops) = p # written ops"
| "written (x # ops) = written ops"

fun healthy :: "h_op \<Rightarrow> bool" where
  "healthy (H_Header h) \<longleftrightarrow> True"
| "healthy (H_WriteHeader c f) \<longleftrightarrow> f = None"
| "healthy (H_Write p f1 f2) \<longleftrightarrow> f1 = None \<and> f2 = None"
| "healthy (H_Flush f) \<longleftrightarrow> f = None"

definition no_body :: "string \<Rightarrow> int \<Rightarrow> bool" where
  "no_body m c \<longleftrightarrow> m = ''HEAD'' \<or> (100 \<le> c \<and> c < 200) \<or> c = 204 \<or> c = 304"

definition body_frames :: "string \<Rightarrow> int \<Rightarrow> bytes list \<Rightarrow> wframe list" where
  "body_frames m c ps = (if no_body m c then [] else map (Pair FrameData) (concat (map chunks ps)))"

lemma send_json_ok:
  "length js \<le> MaxJSONPayload \<Longrightarrow> ft \<in> {FrameResult, FrameAbort} \<Longrightarrow> send_json None ft js out = (True, out @ [(ft, js)])"
  by (auto simp: send_json_def WriteJSON_def WriteFrame_def maxPayload_def send_frames_def ftypes)

lemma WriteHeader_first:
  assumes "\<not> hw_wrote w" and "\<not> informational c" and "length (js (http_result c (hw_header w) [])) \<le> MaxJSONPayload"
  shows "WriteHeader js c None w = w\<lparr>hw_wrote := True, hw_status := c,
    hw_out := hw_out w @ [(FrameResult, js (http_result c (hw_header w) []))]\<rparr>"
  using assms(1,2) send_json_ok[OF assms(3), of FrameResult "hw_out w"]
  by (auto simp: WriteHeader_def informational_def Let_def)

text \<open>After the RESULT, on a connection that works.\<close>

lemma fold_after_header:
  assumes "list_all healthy ops" and "hw_wrote w" and "\<not> hw_broken w"
  shows "\<exists>h. fold (h_step js) ops w = w\<lparr>hw_header := h, hw_out := hw_out w @ body_frames (hw_method w) (hw_status w) (written ops)\<rparr>"
  using assms
proof (induction ops arbitrary: w)
  case Nil
  show ?case by (rule exI[of _ "hw_header w"]) (simp add: body_frames_def)
next
  case (Cons x ops)
  define w1 where "w1 = h_step js x w"
  obtain h1 ps where w1: "w1 = w\<lparr>hw_header := h1, hw_out := hw_out w @ body_frames (hw_method w) (hw_status w) ps\<rparr>"
    and ps: "written (x # ops) = ps @ written ops"
  proof (cases x)
    case (H_Header h)
    then show ?thesis using that[of "[]" h] Cons.prems by (simp add: w1_def body_frames_def)
  next
    case (H_WriteHeader c f)
    then show ?thesis using that[of "[]" "hw_header w"] Cons.prems by (simp add: w1_def body_frames_def WriteHeader_def)
  next
    case (H_Write p f1 f2)
    then show ?thesis using that[of "[p]" "hw_header w"] Cons.prems
      by (simp add: w1_def body_frames_def hw_write_def ensure_header_def bodyless_def no_body_def send_frames_def Let_def)
  next
    case (H_Flush f)
    then show ?thesis using that[of "[]" "hw_header w"] Cons.prems
      by (simp add: w1_def body_frames_def hw_flush_def ensure_header_def)
  qed
  obtain h where "fold (h_step js) ops w1 = w1\<lparr>hw_header := h, hw_out := hw_out w1 @ body_frames (hw_method w1) (hw_status w1) (written ops)\<rparr>"
    using Cons.IH[of w1] Cons.prems w1 by auto
  then show ?case unfolding w1_def[symmetric] ps by (auto simp: w1_def[symmetric] w1 body_frames_def)
qed

lemma fold_from_start:
  assumes "list_all healthy ops" and "\<not> hw_wrote w" and "\<not> hw_broken w"
    and "final_result (hw_header w) ops = (c, h)" and "length (js (http_result c h [])) \<le> MaxJSONPayload"
  defines "w' \<equiv> ensure_header js None (fold (h_step js) ops w)"
  shows "hw_out w' = hw_out w @ (FrameResult, js (http_result c h [])) # body_frames (hw_method w) c (written ops) \<and>
    hw_status w' = c \<and> hw_wrote w'"
  using assms(1-4) unfolding w'_def
proof (induction ops arbitrary: w)
  case Nil
  then show ?case using WriteHeader_first[of w 200 js] assms(5)
    by (simp add: ensure_header_def informational_def body_frames_def)
next
  case (Cons x ops)
  have go: "hw_out (ensure_header js None (fold (h_step js) ops v)) = hw_out v @ body_frames (hw_method v) (hw_status v) (written ops) \<and>
      hw_status (ensure_header js None (fold (h_step js) ops v)) = hw_status v \<and> hw_wrote (ensure_header js None (fold (h_step js) ops v))"
    if "hw_wrote v" "\<not> hw_broken v" for v
    using fold_after_header[of ops v js] Cons.prems(1) that by (auto simp: ensure_header_def)
  show ?case
  proof (cases x)
    case (H_Header h')
    then show ?thesis using Cons.IH[of "w\<lparr>hw_header := h'\<rparr>"] Cons.prems by simp
  next
    case (H_WriteHeader d f)
    show ?thesis
    proof (cases "informational d")
      case True
      then have "WriteHeader js d f w = w" by (simp add: WriteHeader_def informational_def)
      then show ?thesis using Cons.IH[of w] Cons.prems H_WriteHeader True by simp
    next
      case False
      then have d: "d = c" "h = hw_header w" "f = None" using Cons.prems H_WriteHeader by auto
      then show ?thesis
        using go[of "WriteHeader js d None w"] WriteHeader_first[of w d js] False assms(5) Cons.prems H_WriteHeader by simp
    qed
  next
    case (H_Write p f1 f2)
    then have d: "c = 200" "h = hw_header w" "f1 = None" "f2 = None" using Cons.prems by auto
    let ?v = "WriteHeader js 200 None w"
    have v: "?v = w\<lparr>hw_wrote := True, hw_status := 200, hw_out := hw_out w @ [(FrameResult, js (http_result 200 h []))]\<rparr>"
      using WriteHeader_first[of w 200 js] Cons.prems assms(5) d by (simp add: informational_def)
    have "h_step js x w = ?v\<lparr>hw_out := hw_out ?v @ body_frames (hw_method w) 200 [p]\<rparr>"
      using Cons.prems(2,3) v d
      by (simp add: H_Write hw_write_def ensure_header_def bodyless_def no_body_def body_frames_def send_frames_def Let_def)
    then show ?thesis using go[of "h_step js x w"] v d Cons.prems H_Write by (simp add: body_frames_def)
  next
    case (H_Flush f)
    then have d: "c = 200" "h = hw_header w" "f = None" using Cons.prems by auto
    have "h_step js x w = w\<lparr>hw_wrote := True, hw_status := 200, hw_out := hw_out w @ [(FrameResult, js (http_result 200 h []))]\<rparr>"
      using WriteHeader_first[of w 200 js] Cons.prems assms(5) d
      by (simp add: H_Flush informational_def hw_flush_def ensure_header_def)
    then show ?thesis using go[of "h_step js x w"] d Cons.prems H_Flush by simp
  qed
qed

text \<open>
  What a local handler says is what goes out. On a connection that works, whatever sequence of calls the
  handler makes, the session carries one RESULT first, with the status of the first \<open>WriteHeader\<close> that is not
  informational, or 200 when the handler writes, flushes or returns before one, and with the headers set by then;
  then every byte written, in order and cut into DATA frames, or none for a HEAD request and for a status
  without a body; and END last.
\<close>

theorem http_response_delivered:
  assumes "list_all healthy ops" and "final_result [] ops = (c, h)" and "length (js (http_result c h [])) \<le> MaxJSONPayload"
  shows "hw_out (serve_handler js m ops None None None) =
    (FrameResult, js (http_result c h [])) # body_frames m c (written ops) @ [(FrameEnd, [])]"
  using fold_from_start[of ops "newHTTPResultWriter m" c h js] assms
  by (simp add: serve_handler_def hw_finish_def newHTTPResultWriter_def send_frames_def Let_def)

end
