(* ===== verification/Tunnel_Http_Props.thy ===== *)
theory Tunnel_Http_Props
  imports Tunnel_Http
begin

text \<open>
  An HTTP tunnel session when things go wrong: what the peer can see of a response whose writes fail or whose
  handler panics, what a handler reads of a request body, and what the proxy lets through.
\<close>

section \<open>The shape of a response\<close>

text \<open>\<open>ps\<close> are the buffers written so far.\<close>

definition response_inv :: "result_enc \<Rightarrow> bytes list \<Rightarrow> http_writer \<Rightarrow> bool" where
  "response_inv js ps w \<longleftrightarrow> (\<exists>res ds. hw_out w = res @ map (Pair FrameData) ds \<and> prefix (concat ds) (concat ps) \<and>
     (case res of [] \<Rightarrow> ds = [] | f # fs \<Rightarrow> fs = [] \<and> (\<exists>h. f = (FrameResult, js (http_result (hw_status w) h [])))) \<and>
     (if hw_wrote w then hw_broken w \<or> (res \<noteq> [] \<and> (bodyless w \<or> concat ds = concat ps)) else res = [] \<and> ps = [] \<and> \<not> hw_broken w))"

lemma response_invI:
  assumes "hw_out w = res @ map (Pair FrameData) ds" and "prefix (concat ds) (concat ps)"
    and "res = [] \<and> ds = [] \<or> (\<exists>h. res = [(FrameResult, js (http_result (hw_status w) h []))])"
    and "if hw_wrote w then hw_broken w \<or> (res \<noteq> [] \<and> (bodyless w \<or> concat ds = concat ps)) else res = [] \<and> ps = [] \<and> \<not> hw_broken w"
  shows "response_inv js ps w"
  unfolding response_inv_def using assms by (intro exI[of _ res] exI[of _ ds]) auto

lemma response_invE:
  assumes "response_inv js ps w"
  obtains res ds where "hw_out w = res @ map (Pair FrameData) ds" and "prefix (concat ds) (concat ps)"
    and "res = [] \<and> ds = [] \<or> (\<exists>h. res = [(FrameResult, js (http_result (hw_status w) h []))])"
    and "if hw_wrote w then hw_broken w \<or> (res \<noteq> [] \<and> (bodyless w \<or> concat ds = concat ps)) else res = [] \<and> ps = [] \<and> \<not> hw_broken w"
proof -
  obtain res ds where d: "hw_out w = res @ map (Pair FrameData) ds" "prefix (concat ds) (concat ps)"
    "case res of [] \<Rightarrow> ds = [] | f # fs \<Rightarrow> fs = [] \<and> (\<exists>h. f = (FrameResult, js (http_result (hw_status w) h [])))"
    "if hw_wrote w then hw_broken w \<or> (res \<noteq> [] \<and> (bodyless w \<or> concat ds = concat ps)) else res = [] \<and> ps = [] \<and> \<not> hw_broken w"
    using assms unfolding response_inv_def by blast
  have "res = [] \<and> ds = [] \<or> (\<exists>h. res = [(FrameResult, js (http_result (hw_status w) h []))])"
    using d(3) by (cases res) auto
  then show ?thesis using d that by blast
qed

lemma send_json_cases:
  "send_json fail ft js out = (ok, out') \<Longrightarrow> out' = out \<and> \<not> ok \<or> out' = out @ [(ft, js)]"
  by (cases fail) (auto simp: send_json_def send_frames_def take_Cons' split: sum.splits if_splits)

lemma WriteHeader_inv:
  assumes "response_inv js ps w"
  shows "response_inv js ps (WriteHeader js c fail w)" and "hw_method (WriteHeader js c fail w) = hw_method w"
proof -
  show "hw_method (WriteHeader js c fail w) = hw_method w" by (simp add: WriteHeader_def Let_def split: prod.split)
  show "response_inv js ps (WriteHeader js c fail w)"
  proof (cases "hw_wrote w \<or> informational c")
    case True
    then have "WriteHeader js c fail w = w" by (auto simp: WriteHeader_def informational_def)
    then show ?thesis using assms by simp
  next
    case False
    obtain ok out where s: "send_json fail FrameResult (js (http_result c (hw_header w) [])) (hw_out w) = (ok, out)" by fastforce
    have eq: "WriteHeader js c fail w = w\<lparr>hw_wrote := True, hw_status := c, hw_broken := (hw_broken w \<or> \<not> ok), hw_out := out\<rparr>"
      using False s by (auto simp: WriteHeader_def informational_def)
    have e: "hw_out w = []" "ps = []" "\<not> hw_broken w" using False by (auto intro: response_invE[OF assms])
    show ?thesis
      using send_json_cases[OF s] unfolding eq
    proof (elim disjE conjE)
      assume "out = hw_out w" "\<not> ok"
      then show "response_inv js ps (w\<lparr>hw_wrote := True, hw_status := c, hw_broken := (hw_broken w \<or> \<not> ok), hw_out := out\<rparr>)"
        using e by (intro response_invI[of _ "[]" "[]"]) simp_all
    next
      assume "out = hw_out w @ [(FrameResult, js (http_result c (hw_header w) []))]"
      then show "response_inv js ps (w\<lparr>hw_wrote := True, hw_status := c, hw_broken := (hw_broken w \<or> \<not> ok), hw_out := out\<rparr>)"
        using e by (intro response_invI[of _ "[(FrameResult, js (http_result c (hw_header w) []))]" "[]"]) auto
    qed
  qed
qed

lemma ensure_header_inv:
  assumes "response_inv js ps w"
  shows "response_inv js ps (ensure_header js fail w)" and "hw_wrote (ensure_header js fail w)"
proof -
  show "response_inv js ps (ensure_header js fail w)"
    using assms WriteHeader_inv(1)[OF assms, of 200 fail] by (simp add: ensure_header_def)
  show "hw_wrote (ensure_header js fail w)"
    by (simp add: ensure_header_def WriteHeader_def Let_def split: prod.split)
qed

lemma concat_take_chunks: "prefix (concat (take k (chunks p))) p"
proof -
  have "p = concat (take k (chunks p)) @ concat (drop k (chunks p))"
    using chunks_concat[of p] concat_append[of "take k (chunks p)" "drop k (chunks p)"] by simp
  then show ?thesis by (metis prefixI)
qed

lemma hw_write_inv:
  assumes "response_inv js ps w" and "hw_write js p f1 f2 w = (r, w')"
  shows "response_inv js (ps @ [p]) w'"
proof -
  define v where "v = ensure_header js f1 w"
  have v: "response_inv js ps v" "hw_wrote v" using ensure_header_inv[OF assms(1)] by (simp_all add: v_def)
  obtain res ds where d: "hw_out v = res @ map (Pair FrameData) ds" "prefix (concat ds) (concat ps)"
    "res = [] \<and> ds = [] \<or> (\<exists>h. res = [(FrameResult, js (http_result (hw_status v) h []))])"
    "hw_broken v \<or> (res \<noteq> [] \<and> (bodyless v \<or> concat ds = concat ps))"
    by (rule response_invE[OF v(1)]) (simp add: v(2))
  have longer: "prefix (concat ds) (concat (ps @ [p]))" using d(2) by (simp add: prefix_def) fastforce
  consider "w' = v" "hw_broken v \<or> bodyless v"
    | "\<not> hw_broken v" "\<not> bodyless v" "f2 = None" "w' = v\<lparr>hw_out := hw_out v @ map (Pair FrameData) (chunks p)\<rparr>"
    | k where "\<not> hw_broken v" "\<not> bodyless v" "w' = v\<lparr>hw_out := hw_out v @ take k (map (Pair FrameData) (chunks p)), hw_broken := True\<rparr>"
    using assms(2) by (cases f2) (auto simp: hw_write_def Let_def v_def[symmetric] send_frames_def split: if_splits)
  then show ?thesis
  proof cases
    case 1
    then show ?thesis using d longer v(2) by (intro response_invI[of _ res ds]) auto
  next
    case 2
    have "concat (ds @ chunks p) = concat (ps @ [p])" using d(4) 2 chunks_concat by simp
    then show ?thesis using d 2 v(2) by (intro response_invI[of _ res "ds @ chunks p"]) auto
  next
    case (3 k)
    have "concat ds = concat ps" using d(4) 3 by simp
    then have "prefix (concat (ds @ take k (chunks p))) (concat (ps @ [p]))" using concat_take_chunks[of k p] by simp
    then show ?thesis using d 3 v(2) by (intro response_invI[of _ res "ds @ take k (chunks p)"]) (auto simp: take_map)
  qed
qed

lemma fold_inv: "response_inv js ps w \<Longrightarrow> response_inv js (ps @ written ops) (fold (h_step js) ops w)"
proof (induction ops arbitrary: ps w)
  case (Cons x ops)
  show ?case
  proof (cases x)
    case (H_Header h)
    have "response_inv js ps (w\<lparr>hw_header := h\<rparr>)"
      using Cons.prems by (cases w) (simp only: response_inv_def bodyless_def http_writer.simps)
    then show ?thesis using Cons.IH H_Header by simp
  next
    case (H_WriteHeader c f)
    then show ?thesis using Cons.IH[OF WriteHeader_inv(1)[OF Cons.prems]] by simp
  next
    case (H_Write p f1 f2)
    obtain r w' where r: "hw_write js p f1 f2 w = (r, w')" by fastforce
    then show ?thesis using Cons.IH[OF hw_write_inv[OF Cons.prems r]] H_Write by simp
  next
    case (H_Flush f)
    then show ?thesis using Cons.IH[OF ensure_header_inv(1)[OF Cons.prems]] by (simp add: hw_flush_def)
  qed
qed simp

text \<open>
  Whatever the handler does and wherever the connection fails, what goes out is at most one RESULT, then DATA
  frames with a prefix of the bytes the handler wrote and only after a RESULT, then at most one ABORT and only
  when the handler panicked, and at most one END; so a peer never takes part of a response for another.
\<close>

theorem http_response_shape:
  "\<exists>res ds ab fin. hw_out (serve_handler js m ops panic f1 f2) = res @ map (Pair FrameData) ds @ ab @ fin \<and>
     (case res of [] \<Rightarrow> ds = [] | f # fs \<Rightarrow> fs = [] \<and> (\<exists>c h. f = (FrameResult, js (http_result c h [])))) \<and>
     prefix (concat ds) (concat (written ops)) \<and>
     (case panic of None \<Rightarrow> ab = [] | Some (a, f) \<Rightarrow> ab \<in> set [[], [(FrameAbort, a)]]) \<and>
     fin \<in> set [[], [(FrameEnd, [])]]"
proof -
  define w where "w = fold (h_step js) ops (newHTTPResultWriter m)"
  have "response_inv js [] (newHTTPResultWriter m)"
    by (intro response_invI[of _ "[]" "[]"]) (simp_all add: newHTTPResultWriter_def)
  then have w: "response_inv js (written ops) w" using fold_inv[of js "[]"] by (simp add: w_def)
  define w1 where "w1 = (case panic of None \<Rightarrow> w | Some (abort, fail) \<Rightarrow> panic500 js abort fail w)"
  define w2 where "w2 = ensure_header js f1 w1"
  have fin: "\<exists>fin \<in> set [[], [(FrameEnd, [])]]. hw_out (serve_handler js m ops panic f1 f2) = hw_out w2 @ fin"
    by (cases f2) (auto simp: serve_handler_def hw_finish_def Let_def w_def[symmetric] w1_def[symmetric] w2_def[symmetric] send_frames_def take_Cons')
  have "\<exists>v ab. response_inv js (written ops) v \<and> hw_out w2 = hw_out v @ ab \<and>
      (case panic of None \<Rightarrow> ab = [] | Some (a, f) \<Rightarrow> ab \<in> set [[], [(FrameAbort, a)]])"
  proof (cases "panic \<noteq> None \<and> hw_wrote w")
    case False
    have "response_inv js (written ops) w1"
      using False w WriteHeader_inv(1)[OF w] by (auto simp: w1_def panic500_def split: option.split)
    then have "response_inv js (written ops) w2" by (simp add: w2_def ensure_header_inv)
    then show ?thesis by (intro exI[of _ w2] exI[of _ "[]"]) (auto split: option.split)
  next
    case True
    then obtain a f where a: "panic = Some (a, f)" by auto
    then have w2: "w2 = w\<lparr>hw_broken := True, hw_out := snd (send_json f FrameAbort a (hw_out w))\<rparr>"
      using True by (simp add: w2_def w1_def panic500_def ensure_header_def)
    obtain ok out where "send_json f FrameAbort a (hw_out w) = (ok, out)" by fastforce
    then show ?thesis using send_json_cases[of f FrameAbort a "hw_out w"] w a by (intro exI[of _ w]) (auto simp: w2)
  qed
  then obtain v ab where v: "response_inv js (written ops) v" "hw_out w2 = hw_out v @ ab"
    "case panic of None \<Rightarrow> ab = [] | Some (a, f) \<Rightarrow> ab \<in> set [[], [(FrameAbort, a)]]" by blast
  obtain res ds where d: "hw_out v = res @ map (Pair FrameData) ds" "prefix (concat ds) (concat (written ops))"
    "res = [] \<and> ds = [] \<or> (\<exists>h. res = [(FrameResult, js (http_result (hw_status v) h []))])"
    by (rule response_invE[OF v(1)])
  obtain e where e: "e \<in> set [[], [(FrameEnd, [])]]" "hw_out (serve_handler js m ops panic f1 f2) = hw_out w2 @ e"
    using fin by blast
  have r: "case res of [] \<Rightarrow> ds = [] | f # fs \<Rightarrow> fs = [] \<and> (\<exists>c h. f = (FrameResult, js (http_result c h [])))"
    using d(3) by (elim disjE exE conjE) auto
  show ?thesis
    by (rule exI[of _ res], rule exI[of _ ds], rule exI[of _ ab], rule exI[of _ e], intro conjI)
      (use e(2) v(2) d(1) in simp, rule r, rule d(2), rule v(3), rule e(1))
qed

text \<open>A RESULT whose JSON is too long is not sent, and the session ends with a bare END.\<close>

lemma long_result_is_lost:
  assumes "MaxJSONPayload < length (js (http_result c h []))" and "\<not> informational c"
  shows "hw_out (serve_handler js m [H_Header h, H_WriteHeader c None] None None None) = [(FrameEnd, [])]"
  using assms
  by (auto simp: serve_handler_def hw_finish_def ensure_header_def WriteHeader_def informational_def newHTTPResultWriter_def send_json_def
      WriteJSON_def send_frames_def Let_def)

text \<open>A handler that announces a type, an interim 103, then writes to a HEAD request and to a GET.\<close>

definition demo_ops :: "h_op list" where
  "demo_ops = [H_Header [(''Server'', [''x''])], H_WriteHeader 103 None, H_WriteHeader 404 None, H_Write [1, 2] None None, H_Flush None]"

definition short_json :: result_enc where "short_json r = [0x7B, 0x7D]"

lemma http_response_delivered_witness:
  "hw_out (serve_handler short_json ''GET'' demo_ops None None None) =
     [(FrameResult, [0x7B, 0x7D]), (FrameData, [1, 2]), (FrameEnd, [])] \<and>
   hw_out (serve_handler short_json ''HEAD'' demo_ops None None None) = [(FrameResult, [0x7B, 0x7D]), (FrameEnd, [])]"
proof -
  have h: "list_all healthy demo_ops" "final_result [] demo_ops = (404, [(''Server'', [''x''])])" "concat (map written [demo_ops]) = [[1, 2]]"
    by (simp_all add: demo_ops_def informational_def)
  have "chunks [1, 2] = [[1, 2]]" by (subst chunks.simps) (simp add: MaxDataPayload_def chunks_nil)
  then show ?thesis
    using http_response_delivered[OF h(1,2), of short_json "''GET''"] http_response_delivered[OF h(1,2), of short_json "''HEAD''"] h(3)
    by (simp add: short_json_def MaxJSONPayload_def body_frames_def no_body_def)
qed

section \<open>The request body\<close>

text \<open>What the frame or the error after the payloads means to the reader.\<close>

fun ending :: "(bytes \<Rightarrow> abort_msg option) \<Rightarrow> in_frame \<Rightarrow> body_result" where
  "ending da (IF_Err e) = BR_Err (BE_Read e)"
| "ending da (IF_Frame t p) =
     (if t = FrameEnd then BR_EOF
      else if t = FrameAbort then (case da p of None \<Rightarrow> BR_Blocked | Some a \<Rightarrow> BR_Err (BE_Abort (am_code a) (am_message a)))
      else BR_Err (BE_Protocol t))"

text \<open>What a body will still give: bytes, and how it ends once they are used up.\<close>

definition body_rest :: "in_frame list \<Rightarrow> http_body \<Rightarrow> bytes" where
  "body_rest xs b = hb_pending b @ (if hb_ended b \<or> hb_err b \<noteq> None then [] else fst (lead xs))"

definition body_ending :: "(bytes \<Rightarrow> abort_msg option) \<Rightarrow> in_frame list \<Rightarrow> http_body \<Rightarrow> body_result option" where
  "body_ending da xs b =
     (case hb_err b of Some e \<Rightarrow> Some (BR_Err e)
      | None \<Rightarrow> if hb_ended b then Some BR_EOF else map_option (ending da) (snd (lead xs)))"

lemma body_pull_step:
  assumes "body_pull da room xs b = Inr (r, ys, b')" and "hb_pending b = []" and "\<not> hb_ended b" and "hb_err b = None"
  shows "result_bytes r @ body_rest ys b' = fst (lead xs) \<and> body_ending da ys b' = map_option (ending da) (snd (lead xs)) \<and>
    (case r of BR_Bytes p \<Rightarrow> 0 < room \<longrightarrow> p \<noteq> [] | _ \<Rightarrow> fst (lead xs) = [] \<and> (r = BR_Blocked \<or> map_option (ending da) (snd (lead xs)) = Some r)) \<and>
    (r = BR_Blocked \<longrightarrow> snd (lead xs) = None)"
  using assms
proof (induction da room xs b rule: body_pull.induct)
  case (3 da room t p xs b)
  show ?case
  proof (cases "t = FrameData \<and> p = []")
    case True
    then have eq: "lead (IF_Frame t p # xs) = lead xs" "body_pull da room xs (b\<lparr>hb_pending := []\<rparr>) = Inr (r, ys, b')"
      using 3(2) by (simp_all add: ftypes)
    show ?thesis unfolding eq(1) by (rule "3.IH"[OF _ _ eq(2)]) (use True 3 in simp_all)
  next
    case False
    then show ?thesis using 3(2-)
      by (auto simp: body_rest_def body_ending_def body_take_def ftypes Let_def split: if_splits option.splits)
  qed
qed (auto simp: body_rest_def body_ending_def)

lemma body_read_step:
  assumes "body_read da room xs b = Inr (r, ys, b')"
  shows "result_bytes r @ body_rest ys b' = body_rest xs b" and "body_ending da ys b' = body_ending da xs b"
    and "case r of BR_Bytes p \<Rightarrow> 0 < room \<longrightarrow> p \<noteq> [] | _ \<Rightarrow> body_rest xs b = []"
    and "case r of BR_Bytes p \<Rightarrow> True | BR_Blocked \<Rightarrow> body_ending da xs b = None | _ \<Rightarrow> body_ending da xs b = Some r"
proof -
  have "result_bytes r @ body_rest ys b' = body_rest xs b \<and> body_ending da ys b' = body_ending da xs b \<and>
    (case r of BR_Bytes p \<Rightarrow> 0 < room \<longrightarrow> p \<noteq> [] | _ \<Rightarrow> body_rest xs b = []) \<and>
    (case r of BR_Bytes p \<Rightarrow> True | BR_Blocked \<Rightarrow> body_ending da xs b = None | _ \<Rightarrow> body_ending da xs b = Some r)"
  proof (cases "hb_pending b = [] \<and> \<not> hb_ended b \<and> hb_err b = None")
    case True
    then have "body_pull da room xs b = Inr (r, ys, b')" using assms by (simp add: body_read_def)
    from body_pull_step[OF this] True show ?thesis
      by (auto simp: body_rest_def body_ending_def split: read_result.splits)
  next
    case False
    then show ?thesis using assms
      by (auto simp: body_read_def body_take_def body_rest_def body_ending_def split: if_splits option.splits)
  qed
  then show "result_bytes r @ body_rest ys b' = body_rest xs b" and "body_ending da ys b' = body_ending da xs b"
    and "case r of BR_Bytes p \<Rightarrow> 0 < room \<longrightarrow> p \<noteq> [] | _ \<Rightarrow> body_rest xs b = []"
    and "case r of BR_Bytes p \<Rightarrow> True | BR_Blocked \<Rightarrow> body_ending da xs b = None | _ \<Rightarrow> body_ending da xs b = Some r"
    by blast+
qed

definition body_rd :: "(bytes \<Rightarrow> abort_msg option) \<Rightarrow> nat \<Rightarrow> in_frame list \<times> http_body \<Rightarrow> (body_result \<times> in_frame list \<times> http_body) run" where
  "body_rd da room s = body_read da room (fst s) (snd s)"

interpretation request_body: byte_reader "body_rd da" "\<lambda>s. body_rest (fst s) (snd s)" "\<lambda>s. body_ending da (fst s) (snd s)" for da
proof
  fix room s r s'
  assume "body_rd da room s = Inr (r, s')"
  then have step: "body_read da room (fst s) (snd s) = Inr (r, fst s', snd s')" by (simp add: body_rd_def)
  note facts = body_read_step[OF step]
  show "result_bytes r @ body_rest (fst s') (snd s') = body_rest (fst s) (snd s)"
    and "body_ending da (fst s') (snd s') = body_ending da (fst s) (snd s)" by (fact facts)+
  show "result_says (body_ending da (fst s) (snd s)) (body_rest (fst s) (snd s) = []) r" using facts(3,4) by (cases r) auto
  show "is_bytes r \<Longrightarrow> 0 < room \<Longrightarrow> result_bytes r \<noteq> []" using facts(3) by (cases r) auto
qed


definition demo_frames :: "in_frame list" where
  "demo_frames = [IF_Frame FrameData [1, 2, 3], IF_Frame FrameData [4], IF_Frame FrameEnd []]"

lemma demo_reads:
  "read_all (body_rd (\<lambda>p. None)) [2, 9, 9, 9, 9] (demo_frames, newHTTPBody) =
     Inr ([BR_Bytes [1, 2], BR_Bytes [3], BR_Bytes [4], BR_EOF, BR_EOF], [], \<lparr>hb_pending = [], hb_ended = True, hb_err = None\<rparr>)"
  by (simp add: demo_frames_def body_rd_def body_read_def body_take_def newHTTPBody_def ftypes)


text \<open>An ABORT whose payload does not decode panics; under a proxy this is a goroutine of the transport, and nothing recovers it.\<close>

lemma request_abort_panics:
  "da p = None \<Longrightarrow> body_read da room [IF_Frame FrameAbort p] newHTTPBody = Inl Nil_Deref"
  by (simp add: body_read_def newHTTPBody_def ftypes)

end
