(* ===== verification/Tunnel_WS.thy ===== *)
theory Tunnel_WS
  imports Tunnel_Headers
begin

text \<open>
  The WebSocket endpoint of \<open>src/tunnelws.go\<close>: the state of a \<open>TunnelWSConn\<close> and its calls. A call takes
  what the session delivers while it runs, a list of frames and read errors; the JSON codec of control
  payloads is given by the decoders \<open>dc\<close> and \<open>da\<close> (\<open>None\<close> when a payload does not decode). What the
  connection writes is appended to its trace.
\<close>

section \<open>State\<close>

datatype ws_err =
    WE_Pending | WE_Not_Pending | WE_Answered | WE_Net_Closed | WE_Read wire_err | WE_Write | WE_Protocol
  | WE_Bad_Close | WE_Invalid_Close close_err | WE_Peer_Close int string | WE_Peer_Abort string string
  | WE_Opcode | WE_Bad_Protocol | WE_Not_Offered | WE_Status | WE_Too_Long

datatype ws_out =
    Out_Frame ftype bytes | Out_Close int string | Out_Abort string | Out_Result int string | Out_Conn_Close

text \<open>What the session delivers: a frame, with the outcome of the pong it may call for, or a read error.\<close>

datatype ws_in = WIn_Frame ftype bytes bool | WIn_Err wire_err

record wsconn =
  ws_offered :: "string list option"
  ws_pending :: bool
  ws_responded :: bool
  ws_protocol :: string
  ws_term :: "ws_err option"
  ws_closeSent :: bool
  ws_closed :: bool
  ws_once :: bool
  ws_out :: "ws_out list"

definition newTunnelWSConn :: "string list option \<Rightarrow> bool \<Rightarrow> wsconn" where
  "newTunnelWSConn offered pending =
     \<lparr>ws_offered = offered, ws_pending = pending, ws_responded = False, ws_protocol = [], ws_term = None,
      ws_closeSent = False, ws_closed = False, ws_once = False, ws_out = []\<rparr>"

definition NewTunnelWSConn :: "string list option \<Rightarrow> wsconn" where
  "NewTunnelWSConn offered = newTunnelWSConn offered (offered \<noteq> None)"

definition put :: "ws_out \<Rightarrow> wsconn \<Rightarrow> wsconn" where
  "put x c = c\<lparr>ws_out := ws_out c @ [x]\<rparr>"

definition validWSProtocol :: "string \<Rightarrow> bool" where
  "validWSProtocol s \<longleftrightarrow> s \<noteq> [] \<and> list_all token_char s"

definition pendingErr :: "wsconn \<Rightarrow> ws_err option" where
  "pendingErr c = (if ws_pending c \<and> \<not> ws_responded c then Some WE_Pending else None)"

section \<open>Answering the handshake\<close>

definition ws_accept :: "string \<Rightarrow> bool \<Rightarrow> wsconn \<Rightarrow> ws_err option \<times> wsconn" where
  "ws_accept protocol ok c =
     (if \<not> ws_pending c then (Some WE_Not_Pending, c)
      else if ws_responded c then (Some WE_Answered, c)
      else if ws_closed c then (Some WE_Net_Closed, c)
      else if protocol \<noteq> [] \<and> \<not> validWSProtocol protocol then (Some WE_Bad_Protocol, c)
      else if protocol \<noteq> [] \<and> (case ws_offered c of None \<Rightarrow> True | Some ps \<Rightarrow> protocol \<notin> set ps)
        then (Some WE_Not_Offered, c)
      else if \<not> ok then (Some WE_Write, c)
      else (None, put (Out_Result 101 protocol) (c\<lparr>ws_responded := True, ws_protocol := protocol\<rparr>)))"

section \<open>Reading\<close>

datatype ws_result = WS_Message nat bytes | WS_Error ws_err | WS_Blocked

definition setTerm :: "ws_err \<Rightarrow> wsconn \<Rightarrow> ws_result \<times> wsconn" where
  "setTerm e c =
     (case ws_term c of
        Some e' \<Rightarrow> (WS_Error e', c)
      | None \<Rightarrow> (WS_Error e, c\<lparr>ws_term := Some e\<rparr>))"

definition sendAbort :: "string \<Rightarrow> wsconn \<Rightarrow> wsconn" where
  "sendAbort code c = put (Out_Abort code) c"

definition recv_close :: "(bytes \<Rightarrow> close_msg option) \<Rightarrow> bytes \<Rightarrow> wsconn \<Rightarrow> ws_result \<times> wsconn" where
  "recv_close dc p c =
     (case dc p of
        None \<Rightarrow> setTerm WE_Bad_Close (sendAbort ''protocol_error'' c)
      | Some cm \<Rightarrow>
          (case ValidateWSClose (Some cm) of
             Some e \<Rightarrow> setTerm (WE_Invalid_Close e) (sendAbort ''protocol_error'' c)
           | None \<Rightarrow>
               let c = (if ws_closeSent c then c
                        else put (Out_Close (cm_code cm) (cm_reason cm)) (c\<lparr>ws_closeSent := True\<rparr>)) in
               setTerm (WE_Peer_Close (cm_code cm) (cm_reason cm)) c))"

fun read_frames_ws ::
  "(bytes \<Rightarrow> close_msg option) \<Rightarrow> (bytes \<Rightarrow> abort_msg option) \<Rightarrow> ws_in list \<Rightarrow> wsconn \<Rightarrow>
   (ws_result \<times> ws_in list \<times> wsconn) run" where
  "read_frames_ws dc da [] c = Inr (WS_Blocked, [], c)"
| "read_frames_ws dc da (WIn_Err e # xs) c = (let (r, c) = setTerm (WE_Read e) c in Inr (r, xs, c))"
| "read_frames_ws dc da (WIn_Frame t p pong_ok # xs) c =
     (if t = FrameWSMessage then
        (if length p < 1 \<or> (unat (hd p) \<noteq> WSOpcodeText \<and> unat (hd p) \<noteq> WSOpcodeBinary)
         then let (r, c) = setTerm WE_Protocol (sendAbort ''protocol_error'' c) in Inr (r, xs, c)
         else Inr (WS_Message (unat (hd p)) (tl p), xs, c))
      else if t = FrameWSPing then
        (if pong_ok then read_frames_ws dc da xs (put (Out_Frame FrameWSPong p) c)
         else let (r, c) = setTerm WE_Write c in Inr (r, xs, c))
      else if t = FrameWSPong then read_frames_ws dc da xs c
      else if t = FrameWSClose then let (r, c) = recv_close dc p c in Inr (r, xs, c)
      else if t = FrameAbort then
        (case da p of
           None \<Rightarrow> Inl Nil_Deref
         | Some a \<Rightarrow> let (r, c) = setTerm (WE_Peer_Abort (am_code a) (am_message a)) c in Inr (r, xs, c))
      else let (r, c) = setTerm WE_Protocol (sendAbort ''protocol_error'' c) in Inr (r, xs, c))"

definition read_message ::
  "(bytes \<Rightarrow> close_msg option) \<Rightarrow> (bytes \<Rightarrow> abort_msg option) \<Rightarrow> ws_in list \<Rightarrow> wsconn \<Rightarrow>
   (ws_result \<times> ws_in list \<times> wsconn) run" where
  "read_message dc da xs c =
     (case pendingErr c of
        Some e \<Rightarrow> Inr (WS_Error e, xs, c)
      | None \<Rightarrow>
          (case ws_term c of
             Some e \<Rightarrow> Inr (WS_Error e, xs, c)
           | None \<Rightarrow> read_frames_ws dc da xs c))"

section \<open>Writing\<close>

definition ws_write :: "int \<Rightarrow> bytes \<Rightarrow> wsconn \<Rightarrow> ws_err option \<times> wsconn" where
  "ws_write opcode data c =
     (if opcode \<noteq> int WSOpcodeText \<and> opcode \<noteq> int WSOpcodeBinary then (Some WE_Opcode, c)
      else case pendingErr c of
        Some e \<Rightarrow> (Some e, c)
      | None \<Rightarrow>
          if ws_closed c then (Some WE_Net_Closed, c)
          else if MaxWSMessage < length data + 1 then (Some WE_Too_Long, c)
          else (None, put (Out_Frame FrameWSMessage (word_of_int opcode # data)) c))"

definition ws_control :: "ftype \<Rightarrow> bytes \<Rightarrow> wsconn \<Rightarrow> ws_err option \<times> wsconn" where
  "ws_control t data c =
     (case pendingErr c of
        Some e \<Rightarrow> (Some e, c)
      | None \<Rightarrow>
          if ws_closed c then (Some WE_Net_Closed, c)
          else if MaxWSMessage < length data then (Some WE_Too_Long, c)
          else (None, put (Out_Frame t data) c))"

definition ws_ping :: "bytes \<Rightarrow> wsconn \<Rightarrow> ws_err option \<times> wsconn" where
  "ws_ping data c = ws_control FrameWSPing data c"

definition ws_pong :: "bytes \<Rightarrow> wsconn \<Rightarrow> ws_err option \<times> wsconn" where
  "ws_pong data c = ws_control FrameWSPong data c"

section \<open>Closing\<close>

text \<open>
  \<open>Close\<close> after its own WS_CLOSE: messages are read and dropped until an error; when the session delivers
  nothing more, the read deadline does.
\<close>

definition deadline_err :: ws_in where
  "deadline_err = WIn_Err (Wire_Read (Err_Io Io_Other))"

lemma read_frames_ws_message:
  "read_frames_ws dc da xs c = Inr (WS_Message t m, xs', c') \<Longrightarrow> length xs' < length xs"
proof (induction dc da xs c rule: read_frames_ws.induct)
  case (3 dc da t p ok xs c)
  have "length xs' < length xs \<Longrightarrow> length xs' < Suc (length xs)" by simp
  then show ?case using 3
    by (auto simp: setTerm_def recv_close_def Let_def split: if_splits option.splits)
qed (auto simp: setTerm_def split: option.splits)

lemma read_message_shorter:
  "read_message dc da xs c = Inr (WS_Message t m, xs', c') \<Longrightarrow> length xs' < length xs"
  using read_frames_ws_message by (auto simp: read_message_def split: option.splits)

function drain_close ::
  "(bytes \<Rightarrow> close_msg option) \<Rightarrow> (bytes \<Rightarrow> abort_msg option) \<Rightarrow> ws_in list \<Rightarrow> wsconn \<Rightarrow> wsconn run" where
  "drain_close dc da xs c =
     (case read_message dc da xs c of
        Inl p \<Rightarrow> Inl p
      | Inr (WS_Message t m, xs', c') \<Rightarrow> drain_close dc da xs' c'
      | Inr (WS_Error e, xs', c') \<Rightarrow> Inr c'
      | Inr (WS_Blocked, xs', c') \<Rightarrow> Inr (snd (setTerm (WE_Read (Wire_Read (Err_Io Io_Other))) c')))"
  by pat_completeness auto
termination
  using read_message_shorter
  by (relation "measure (\<lambda>(dc, da, xs, c). length xs)") auto

declare drain_close.simps [simp del]

definition ws_close ::
  "(bytes \<Rightarrow> close_msg option) \<Rightarrow> (bytes \<Rightarrow> abort_msg option) \<Rightarrow> ws_in list \<Rightarrow> int \<Rightarrow> string \<Rightarrow> wsconn \<Rightarrow>
   (close_err option \<times> wsconn) run" where
  "ws_close dc da xs cde reason c =
     (case ValidateWSCloseSend (Some \<lparr>cm_code = cde, cm_reason = reason\<rparr>) of
        Some e \<Rightarrow> Inr (Some e, c)
      | None \<Rightarrow>
          if ws_once c then Inr (None, c)
          else
            let unanswered = (ws_pending c \<and> \<not> ws_responded c);
                c = c\<lparr>ws_once := True, ws_closed := True, ws_responded := True\<rparr> in
            if unanswered then Inr (None, put Out_Conn_Close (put (Out_Result 500 []) c))
            else if ws_closeSent c then Inr (None, put Out_Conn_Close c)
            else (case drain_close dc da xs (put (Out_Close cde reason) (c\<lparr>ws_closeSent := True\<rparr>)) of
                    Inl p \<Rightarrow> Inl p
                  | Inr c \<Rightarrow> Inr (None, put Out_Conn_Close c)))"

definition ws_reject ::
  "(bytes \<Rightarrow> close_msg option) \<Rightarrow> (bytes \<Rightarrow> abort_msg option) \<Rightarrow> ws_in list \<Rightarrow> int \<Rightarrow> wsconn \<Rightarrow>
   (ws_err option \<times> wsconn) run" where
  "ws_reject dc da xs status c =
     (if status < 100 \<or> 599 < status \<or> status = 101 then Inr (Some WE_Status, c)
      else if \<not> ws_pending c \<or> ws_responded c \<or> ws_closed c then Inr (None, c)
      else case ws_close dc da xs 1000 [] (put (Out_Result status []) (c\<lparr>ws_responded := True\<rparr>)) of
        Inl p \<Rightarrow> Inl p
      | Inr (e, c) \<Rightarrow> Inr (map_option WE_Invalid_Close e, c))"

definition ws_abort :: "string \<Rightarrow> wsconn \<Rightarrow> wsconn" where
  "ws_abort cde c =
     (if ws_once c then c
      else put Out_Conn_Close (put (Out_Abort cde) (c\<lparr>ws_once := True, ws_closed := True\<rparr>)))"

section \<open>Runs of a connection\<close>

datatype ws_op =
    WOp_Accept string bool | WOp_Reject int "ws_in list" | WOp_Read "ws_in list" | WOp_Write int bytes
  | WOp_Ping bytes | WOp_Pong bytes | WOp_Close int string "ws_in list" | WOp_Abort string

fun ws_step ::
  "(bytes \<Rightarrow> close_msg option) \<Rightarrow> (bytes \<Rightarrow> abort_msg option) \<Rightarrow> ws_op \<Rightarrow> wsconn \<Rightarrow> wsconn run" where
  "ws_step dc da (WOp_Accept protocol ok) c = Inr (snd (ws_accept protocol ok c))"
| "ws_step dc da (WOp_Reject status xs) c = map_sum id snd (ws_reject dc da xs status c)"
| "ws_step dc da (WOp_Read xs) c = map_sum id (\<lambda>(r, xs, c). c) (read_message dc da xs c)"
| "ws_step dc da (WOp_Write opcode data) c = Inr (snd (ws_write opcode data c))"
| "ws_step dc da (WOp_Ping data) c = Inr (snd (ws_ping data c))"
| "ws_step dc da (WOp_Pong data) c = Inr (snd (ws_pong data c))"
| "ws_step dc da (WOp_Close cde reason xs) c = map_sum id snd (ws_close dc da xs cde reason c)"
| "ws_step dc da (WOp_Abort cde) c = Inr (ws_abort cde c)"

inductive ws_reach ::
  "(bytes \<Rightarrow> close_msg option) \<Rightarrow> (bytes \<Rightarrow> abort_msg option) \<Rightarrow> wsconn \<Rightarrow> wsconn \<Rightarrow> bool" for dc da c0 where
  ws_start: "ws_reach dc da c0 c0"
| ws_next: "ws_reach dc da c0 c \<Longrightarrow> ws_step dc da op c = Inr c' \<Longrightarrow> ws_reach dc da c0 c'"

inductive_cases ws_reach_cases: "ws_reach dc da c0 c"

section \<open>The invariant of a connection\<close>

definition is_result :: "ws_out \<Rightarrow> bool" where "is_result x \<longleftrightarrow> (case x of Out_Result _ _ \<Rightarrow> True | _ \<Rightarrow> False)"
definition is_close :: "ws_out \<Rightarrow> bool" where "is_close x \<longleftrightarrow> (case x of Out_Close _ _ \<Rightarrow> True | _ \<Rightarrow> False)"
definition is_abort :: "ws_out \<Rightarrow> bool" where "is_abort x \<longleftrightarrow> (case x of Out_Abort _ \<Rightarrow> True | _ \<Rightarrow> False)"

definition occurs :: "('a \<Rightarrow> bool) \<Rightarrow> 'a list \<Rightarrow> nat" where
  "occurs P xs = length (filter P xs)"

lemma occurs_simps [simp]:
  "occurs P [] = 0" "occurs P (x # xs) = (if P x then 1 else 0) + occurs P xs"
  "occurs P (xs @ ys) = occurs P xs + occurs P ys"
  by (simp_all add: occurs_def)

lemma out_kinds [simp]:
  "is_result (Out_Result s p)" "\<not> is_result (Out_Frame t b)" "\<not> is_result (Out_Close k r)"
  "\<not> is_result (Out_Abort a)" "\<not> is_result Out_Conn_Close"
  "is_close (Out_Close k r)" "\<not> is_close (Out_Frame t b)" "\<not> is_close (Out_Result s p)"
  "\<not> is_close (Out_Abort a)" "\<not> is_close Out_Conn_Close"
  "is_abort (Out_Abort a)" "\<not> is_abort (Out_Frame t b)" "\<not> is_abort (Out_Result s p)"
  "\<not> is_abort (Out_Close k r)" "\<not> is_abort Out_Conn_Close"
  by (simp_all add: is_result_def is_close_def is_abort_def)

lemma put_sel [simp]:
  "ws_out (put x c) = ws_out c @ [x]" "ws_pending (put x c) = ws_pending c" "ws_responded (put x c) = ws_responded c"
  "ws_closeSent (put x c) = ws_closeSent c" "ws_closed (put x c) = ws_closed c" "ws_once (put x c) = ws_once c"
  "ws_offered (put x c) = ws_offered c" "ws_term (put x c) = ws_term c" "ws_protocol (put x c) = ws_protocol c"
  by (simp_all add: put_def)

text \<open>
  One RESULT, first, once the handshake is answered; one WS_CLOSE; one close of the stream; before the answer
  nothing but an ABORT that ends the connection; the protocol that was accepted is one that was offered.
\<close>

definition answered :: "wsconn \<Rightarrow> bool" where "answered c \<longleftrightarrow> ws_pending c \<and> ws_responded c"
definition ready :: "wsconn \<Rightarrow> bool" where "ready c \<longleftrightarrow> \<not> (ws_pending c \<and> \<not> ws_responded c)"

definition offer_ok :: "wsconn \<Rightarrow> bool" where
  "offer_ok c \<longleftrightarrow>
     (\<forall>p. Out_Result 101 p \<in> set (ws_out c) \<longrightarrow> p = [] \<or> (\<exists>ps. ws_offered c = Some ps \<and> p \<in> set ps))"

definition ws_inv :: "wsconn \<Rightarrow> bool" where
  "ws_inv c \<longleftrightarrow>
     occurs is_result (ws_out c) = of_bool (answered c) \<and>
     occurs is_close (ws_out c) = of_bool (ws_closeSent c) \<and>
     occurs (\<lambda>x. x = Out_Conn_Close) (ws_out c) = of_bool (ws_once c) \<and>
     (\<not> ready c \<longrightarrow> ws_out c = [] \<or> ws_once c \<and> is_abort (hd (ws_out c))) \<and>
     (answered c \<longrightarrow> ws_out c \<noteq> [] \<and> is_result (hd (ws_out c))) \<and>
     offer_ok c \<and> ws_once c = ws_closed c"

text \<open>What reading and writing add: frames, aborts and at most the one WS_CLOSE.\<close>

definition static_of where
  "static_of c = (ws_offered c, ws_pending c, ws_responded c, ws_protocol c, ws_closed c, ws_once c)"

definition adds :: "wsconn \<Rightarrow> wsconn \<Rightarrow> bool" where
  "adds c c' \<longleftrightarrow> static_of c' = static_of c \<and>
     (\<exists>ys. ws_out c' = ws_out c @ ys \<and> list_all (\<lambda>y. \<not> is_result y \<and> y \<noteq> Out_Conn_Close) ys \<and>
           of_bool (ws_closeSent c) + occurs is_close ys = (of_bool (ws_closeSent c') :: nat))"

lemma adds_refl [simp]: "adds c c"
  by (simp add: adds_def)

lemma adds_trans: "adds a b \<Longrightarrow> adds b c \<Longrightarrow> adds a c"
  unfolding adds_def
proof (elim conjE exE)
  fix ys zs
  assume "ws_out b = ws_out a @ ys" "ws_out c = ws_out b @ zs"
    "list_all (\<lambda>y. \<not> is_result y \<and> y \<noteq> Out_Conn_Close) ys" "list_all (\<lambda>y. \<not> is_result y \<and> y \<noteq> Out_Conn_Close) zs"
    "of_bool (ws_closeSent a) + occurs is_close ys = (of_bool (ws_closeSent b) :: nat)"
    "of_bool (ws_closeSent b) + occurs is_close zs = (of_bool (ws_closeSent c) :: nat)"
    "static_of b = static_of a" "static_of c = static_of b"
  then show "static_of c = static_of a \<and> (\<exists>ys. ws_out c = ws_out a @ ys \<and>
      list_all (\<lambda>y. \<not> is_result y \<and> y \<noteq> Out_Conn_Close) ys \<and>
      of_bool (ws_closeSent a) + occurs is_close ys = (of_bool (ws_closeSent c) :: nat))"
    by (intro conjI exI[of _ "ys @ zs"]) auto
qed

lemma adds_put: "\<not> is_result x \<Longrightarrow> \<not> is_close x \<Longrightarrow> x \<noteq> Out_Conn_Close \<Longrightarrow> adds c (put x c)"
  by (simp add: adds_def static_of_def)

lemma adds_close: "\<not> ws_closeSent c \<Longrightarrow> adds c (put (Out_Close k r) (c\<lparr>ws_closeSent := True\<rparr>))"
  by (simp add: adds_def static_of_def)

lemma adds_term [simp]: "adds c (c\<lparr>ws_term := t\<rparr>)"
  by (simp add: adds_def static_of_def)

lemma adds_setTerm: "adds c (snd (setTerm e c))"
  by (simp add: setTerm_def split: option.splits)

lemma occurs_none: "list_all (\<lambda>y. \<not> P y) ys \<Longrightarrow> occurs P ys = 0"
  by (simp add: occurs_def list_all_iff filter_empty_conv)

lemma ws_inv_adds:
  assumes inv: "ws_inv c" and r: "ready c" and a: "adds c c'"
  shows "ws_inv c' \<and> ready c' \<and> ws_once c' = ws_once c"
proof -
  obtain ys where ys: "ws_out c' = ws_out c @ ys" "list_all (\<lambda>y. \<not> is_result y \<and> y \<noteq> Out_Conn_Close) ys"
    "of_bool (ws_closeSent c) + occurs is_close ys = (of_bool (ws_closeSent c') :: nat)"
    and st: "ws_offered c' = ws_offered c" "ws_pending c' = ws_pending c" "ws_responded c' = ws_responded c"
      "ws_closed c' = ws_closed c" "ws_once c' = ws_once c"
    using a by (auto simp: adds_def static_of_def)
  have ans: "answered c' = answered c" "ready c' = ready c" by (simp_all add: answered_def ready_def st)
  have "occurs is_result ys = 0" "occurs (\<lambda>x. x = Out_Conn_Close) ys = 0" "\<forall>p. Out_Result 101 p \<notin> set ys"
    using ys(2) by (auto intro: occurs_none simp: list_all_iff)
  then show ?thesis using inv r ys st ans
    by (simp add: ws_inv_def offer_ok_def)
qed

lemma recv_close_adds: "adds c (snd (recv_close dc p c))"
  unfolding recv_close_def sendAbort_def
  by (auto simp: Let_def split: option.splits intro: adds_setTerm adds_trans[OF adds_put adds_setTerm]
      adds_trans[OF adds_close adds_setTerm])

lemma setTerm_pair: "setTerm e c = (r, c') \<Longrightarrow> adds c c'"
  using adds_setTerm[of c e] by simp

lemma read_frames_ws_adds: "read_frames_ws dc da xs c = Inr (r, xs', c') \<Longrightarrow> adds c c'"
proof (induction dc da xs c rule: read_frames_ws.induct)
  case (3 dc da t p ok xs c)
  let ?a = "put (Out_Abort ''protocol_error'') c"
  have stop: "adds c (snd (setTerm e c))" "adds c (snd (setTerm e ?a))" for e
    by (auto intro: adds_trans[OF adds_put adds_setTerm] adds_setTerm)
  have pong: "adds (put (Out_Frame FrameWSPong p) c) c' \<Longrightarrow> adds c c'"
    by (rule adds_trans[OF adds_put]) simp_all
  show ?case
    using "3.prems" "3.IH" stop pong recv_close_adds[of c dc p]
    by (auto simp: sendAbort_def case_prod_beta Let_def split: if_splits option.splits)
qed (auto simp: case_prod_beta Let_def adds_setTerm)

lemma read_message_adds: "read_message dc da xs c = Inr (r, xs', c') \<Longrightarrow> adds c c'"
  using read_frames_ws_adds by (auto simp: read_message_def split: option.splits)

lemma drain_close_adds: "drain_close dc da xs c = Inr c' \<Longrightarrow> adds c c'"
proof (induction dc da xs c rule: drain_close.induct)
  case (1 dc da xs c)
  note d = "1.prems"[unfolded drain_close.simps[of dc da xs c]]
  then obtain r xs1 c1 where r: "read_message dc da xs c = Inr (r, xs1, c1)"
    by (auto split: sum.splits prod.splits)
  have a: "adds c c1" by (rule read_message_adds[OF r])
  show ?case
  proof (cases r)
    case (WS_Message t m)
    then have "adds c1 c'" using "1.IH" r d by simp
    then show ?thesis using a by (rule adds_trans[rotated])
  next
    case (WS_Error e)
    then show ?thesis using a r d by simp
  next
    case WS_Blocked
    then have "c' = snd (setTerm (WE_Read (Wire_Read (Err_Io Io_Other))) c1)" using r d by simp
    then show ?thesis using adds_trans[OF a adds_setTerm] by simp
  qed
qed

lemma drain_after_close:
  "\<not> ws_closeSent c \<Longrightarrow> drain_close dc da xs (put (Out_Close k r) (c\<lparr>ws_closeSent := True\<rparr>)) = Inr c' \<Longrightarrow> adds c c'"
  by (rule adds_trans[OF adds_close drain_close_adds])

lemma ws_inv_start: "ws_inv (NewTunnelWSConn offered)"
  by (simp add: ws_inv_def NewTunnelWSConn_def newTunnelWSConn_def answered_def offer_ok_def)

lemma ws_inv_write: "ws_inv c \<Longrightarrow> pendingErr c = None \<Longrightarrow> \<not> is_result x \<Longrightarrow> \<not> is_close x \<Longrightarrow> x \<noteq> Out_Conn_Close
    \<Longrightarrow> ws_inv (put x c)"
  using ws_inv_adds[of c "put x c"] adds_put[of x c] by (simp add: pendingErr_def ready_def split: if_splits)

text \<open>The end of a connection whose handshake is answered.\<close>

lemma ws_inv_finish:
  assumes inv: "ws_inv c" and r: "ready c" and o: "\<not> ws_once c"
    and a: "adds (c\<lparr>ws_once := True, ws_closed := True, ws_responded := True\<rparr>) c'"
  shows "ws_inv (put Out_Conn_Close c')"
proof -
  obtain ys where ys: "ws_out c' = ws_out c @ ys" "list_all (\<lambda>y. \<not> is_result y \<and> y \<noteq> Out_Conn_Close) ys"
    "of_bool (ws_closeSent c) + occurs is_close ys = (of_bool (ws_closeSent c') :: nat)"
    and st: "ws_offered c' = ws_offered c" "ws_pending c' = ws_pending c" "ws_responded c'" "ws_closed c'" "ws_once c'"
    using a by (auto simp: adds_def static_of_def)
  have ans: "answered c' = answered c" "ready c'" using r by (auto simp: answered_def ready_def st)
  have "occurs is_result ys = 0" "occurs (\<lambda>x. x = Out_Conn_Close) ys = 0" "\<forall>p. Out_Result 101 p \<notin> set ys"
    using ys(2) by (auto intro: occurs_none simp: list_all_iff)
  moreover have "answered (put Out_Conn_Close c') = answered c" "ready (put Out_Conn_Close c')"
    using ans by (simp_all add: answered_def ready_def)
  ultimately show ?thesis using inv o ys st
    by (simp add: ws_inv_def offer_ok_def)
qed

lemma ws_close_inv:
  assumes "ws_inv c" and "ws_close dc da xs cde reason c = Inr (e, c')"
  shows "ws_inv c'"
proof (cases "ws_once c \<or> ValidateWSCloseSend (Some \<lparr>cm_code = cde, cm_reason = reason\<rparr>) \<noteq> None")
  case True
  then show ?thesis using assms by (auto simp: ws_close_def split: option.splits)
next
  case False
  let ?c = "c\<lparr>ws_once := True, ws_closed := True, ws_responded := True\<rparr>"
  have go: "\<not> ws_once c" "ValidateWSCloseSend (Some \<lparr>cm_code = cde, cm_reason = reason\<rparr>) = None" using False by auto
  show ?thesis
  proof (cases "ready c")
    case True
    then have "\<not> (ws_pending c \<and> \<not> ws_responded c)" by (simp add: ready_def)
    then have "\<exists>c1. adds ?c c1 \<and> c' = put Out_Conn_Close c1"
      using assms(2) go drain_after_close[of ?c dc da xs cde reason]
      by (auto simp: ws_close_def Let_def split: if_splits sum.splits intro: exI[of _ ?c])
    then show ?thesis using ws_inv_finish[OF assms(1) True go(1)] by auto
  next
    case False
    then have un: "ws_pending c \<and> \<not> ws_responded c" by (simp add: ready_def)
    have nil: "ws_out c = []" using assms(1) False go(1) by (auto simp: ws_inv_def)
    have "c' = put Out_Conn_Close (put (Out_Result 500 []) ?c)"
      using assms(2) go un by (simp add: ws_close_def Let_def)
    moreover have "\<not> ws_closeSent c" using assms(1) nil by (auto simp: ws_inv_def)
    ultimately show ?thesis using nil un by (simp add: ws_inv_def answered_def ready_def offer_ok_def)
  qed
qed

lemma ws_inv_answer:
  assumes "ws_inv c" and "ws_pending c" and "\<not> ws_responded c" and "\<not> ws_closed c"
    and "st = 101 \<longrightarrow> p = [] \<or> (\<exists>ps. ws_offered c = Some ps \<and> p \<in> set ps)"
  shows "ws_inv (put (Out_Result st p) (c\<lparr>ws_responded := True, ws_protocol := q\<rparr>))"
proof -
  have o: "\<not> ws_once c" using assms by (simp add: ws_inv_def)
  then have nil: "ws_out c = []" using assms by (auto simp: ws_inv_def ready_def)
  moreover have "\<not> ws_closeSent c" using assms(1) nil by (auto simp: ws_inv_def)
  ultimately show ?thesis using assms o by (auto simp: ws_inv_def answered_def ready_def offer_ok_def)
qed

lemma ws_accept_inv: "ws_inv c \<Longrightarrow> ws_inv (snd (ws_accept protocol ok c))"
  using ws_inv_answer[of c 101 protocol protocol] by (auto simp: ws_accept_def split: option.splits)

lemma ws_reject_inv:
  assumes "ws_inv c" and "ws_reject dc da xs status c = Inr (e, c')"
  shows "ws_inv c'"
proof (cases "status < 100 \<or> 599 < status \<or> status = 101 \<or> \<not> ws_pending c \<or> ws_responded c \<or> ws_closed c")
  case True
  then show ?thesis using assms by (auto simp: ws_reject_def split: if_splits)
next
  case False
  let ?c = "put (Out_Result status []) (c\<lparr>ws_responded := True\<rparr>)"
  have "ws_inv ?c" using ws_inv_answer[of c status "[]" "ws_protocol c"] assms(1) False by auto
  moreover obtain e1 where "ws_close dc da xs 1000 [] ?c = Inr (e1, c')"
    using assms(2) False by (auto simp: ws_reject_def split: sum.splits)
  ultimately show ?thesis by (rule ws_close_inv)
qed

lemma ws_abort_inv: "ws_inv c \<Longrightarrow> ws_inv (ws_abort cde c)"
  by (cases "ws_out c") (auto simp: ws_abort_def ws_inv_def answered_def ready_def offer_ok_def)

lemma ws_step_inv:
  assumes "ws_inv c" and "ws_step dc da op c = Inr c'"
  shows "ws_inv c'"
proof (cases op)
  case (WOp_Accept protocol ok)
  then show ?thesis using assms ws_accept_inv by auto
next
  case (WOp_Reject status xs)
  then obtain e where "ws_reject dc da xs status c = Inr (e, c')"
    using assms(2) by (cases "ws_reject dc da xs status c") auto
  then show ?thesis by (rule ws_reject_inv[OF assms(1)])
next
  case (WOp_Read xs)
  then obtain r xs' where r: "read_message dc da xs c = Inr (r, xs', c')"
    using assms(2) by (cases "read_message dc da xs c") auto
  show ?thesis
  proof (cases "ready c")
    case True
    then show ?thesis using ws_inv_adds[OF assms(1) True read_message_adds[OF r]] by simp
  next
    case False
    then show ?thesis using r assms(1) by (auto simp: read_message_def pendingErr_def ready_def)
  qed
next
  case (WOp_Write opcode data)
  then show ?thesis using assms ws_inv_write[of c] by (auto simp: ws_write_def split: if_splits option.splits)
next
  case (WOp_Ping data)
  then show ?thesis using assms ws_inv_write[of c] by (auto simp: ws_ping_def ws_control_def split: if_splits option.splits)
next
  case (WOp_Pong data)
  then show ?thesis using assms ws_inv_write[of c] by (auto simp: ws_pong_def ws_control_def split: if_splits option.splits)
next
  case (WOp_Close cde reason xs)
  then obtain e where "ws_close dc da xs cde reason c = Inr (e, c')"
    using assms(2) by (cases "ws_close dc da xs cde reason c") auto
  then show ?thesis by (rule ws_close_inv[OF assms(1)])
next
  case (WOp_Abort cde)
  then show ?thesis using assms ws_abort_inv by auto
qed

lemma ws_reach_inv: "ws_reach dc da c0 c \<Longrightarrow> ws_inv c0 \<Longrightarrow> ws_inv c"
  by (induction rule: ws_reach.induct) (auto intro: ws_step_inv)


section \<open>The answers of a connection\<close>

text \<open>The offer and the role never change, an answer is never withdrawn, and a terminal error stays.\<close>

definition sticky :: "wsconn \<Rightarrow> wsconn \<Rightarrow> bool" where
  "sticky c c' \<longleftrightarrow> ws_offered c' = ws_offered c \<and> ws_pending c' = ws_pending c \<and> (ws_responded c \<longrightarrow> ws_responded c') \<and>
     (\<forall>e. ws_term c = Some e \<and> ready c \<longrightarrow> ws_term c' = Some e)"

lemma sticky_refl [simp]: "sticky c c"
  by (simp add: sticky_def)

lemma sticky_trans: "sticky a b \<Longrightarrow> sticky b c \<Longrightarrow> sticky a c"
  by (auto simp: sticky_def ready_def)

lemma read_message_term:
  "ready c \<Longrightarrow> ws_term c = Some e \<Longrightarrow> read_message dc da xs c = Inr (WS_Error e, xs, c)"
  by (auto simp: read_message_def pendingErr_def ready_def)

lemma read_message_sticky: "read_message dc da xs c = Inr (r, xs', c') \<Longrightarrow> sticky c c'"
  using read_message_adds[of dc da xs c r xs' c'] read_message_term[of c _ dc da xs]
  by (auto simp: sticky_def adds_def static_of_def)

lemma drain_close_sticky:
  assumes "drain_close dc da xs c = Inr c'" and "ready c"
  shows "sticky c c'"
proof -
  have "ws_term c' = Some e" if "ws_term c = Some e" for e
    using assms(1) read_message_term[OF assms(2) that, of dc da xs] that
    by (subst (asm) drain_close.simps) simp
  then show ?thesis using drain_close_adds[OF assms(1)] by (auto simp: sticky_def adds_def static_of_def)
qed

lemma ws_close_sticky:
  assumes "ws_close dc da xs cde reason c = Inr (e, c')"
  shows "sticky c c'"
proof -
  let ?c = "c\<lparr>ws_once := True, ws_closed := True, ws_responded := True\<rparr>"
  let ?d = "put (Out_Close cde reason) (?c\<lparr>ws_closeSent := True\<rparr>)"
  have s: "sticky c ?c" "sticky c ?d" "ready ?d" by (auto simp: sticky_def ready_def)
  have "sticky c c1 \<Longrightarrow> sticky c (put x c1)" for x c1 by (auto simp: sticky_def)
  then show ?thesis
    using assms s sticky_trans[OF s(2) drain_close_sticky[OF _ s(3), of dc da xs]]
    by (auto simp: ws_close_def Let_def split: if_splits sum.splits option.splits)
qed

lemma ws_step_sticky: "ws_step dc da op c = Inr c' \<Longrightarrow> sticky c c'"
proof (cases op)
  case (WOp_Reject status xs)
  assume st: "ws_step dc da op c = Inr c'"
  have a: "sticky c (put (Out_Result status []) (c\<lparr>ws_responded := True\<rparr>))" by (auto simp: sticky_def ready_def)
  show ?thesis
    using st WOp_Reject sticky_trans[OF a ws_close_sticky]
    by (auto simp: ws_reject_def map_sum_def split: if_splits sum.splits prod.splits)
qed (auto simp: sticky_def ws_accept_def ws_write_def ws_ping_def ws_pong_def ws_control_def ws_abort_def ready_def
    map_sum_def dest: read_message_sticky ws_close_sticky split: if_splits sum.splits prod.splits option.splits)

lemma ws_reach_sticky: "ws_reach dc da c0 c \<Longrightarrow> sticky c0 c"
  by (induction rule: ws_reach.induct) (auto intro: sticky_trans ws_step_sticky)


definition no_close :: "bytes \<Rightarrow> close_msg option" where "no_close p = None"
definition no_abort :: "bytes \<Rightarrow> abort_msg option" where "no_abort p = None"

lemma demo_ws_run:
  "ws_reach no_close no_abort (NewTunnelWSConn (Some [''a'']))
     ((newTunnelWSConn (Some [''a'']) True)\<lparr>ws_responded := True, ws_protocol := ''a'', ws_out := [Out_Result 101 ''a'']\<rparr>)"
proof (rule ws_next[where op = "WOp_Accept ''a'' True"], rule ws_start)
  show "ws_step no_close no_abort (WOp_Accept ''a'' True) (NewTunnelWSConn (Some [''a''])) =
      Inr ((newTunnelWSConn (Some [''a'']) True)\<lparr>ws_responded := True, ws_protocol := ''a'', ws_out := [Out_Result 101 ''a'']\<rparr>)"
    by (simp add: NewTunnelWSConn_def newTunnelWSConn_def ws_accept_def validWSProtocol_def put_def char_eval)
qed


lemma read_frames_ws_term:
  "read_frames_ws dc da xs c = Inr (WS_Error e, xs', c') \<Longrightarrow> ws_term c = None \<Longrightarrow> ws_term c' = Some e"
proof (induction dc da xs c rule: read_frames_ws.induct)
  case (3 dc da t p ok xs c)
  then show ?case
    by (auto simp: setTerm_def recv_close_def sendAbort_def Let_def split: if_splits option.splits)
qed (auto simp: setTerm_def)

text \<open>
  The end of reading is final. Once \<open>ReadMessage\<close> has returned an error on an answered session, it
  returns the same error ever after, takes nothing from the stream and writes nothing.
\<close>

theorem tunnel_ws_error_final:
  assumes "read_message dc da xs c = Inr (WS_Error e, xs', c')" and "ready c" and "ws_reach dc' da' c' c2"
  shows "read_message dc2 da2 ys c2 = Inr (WS_Error e, ys, c2)"
proof -
  have t: "ws_term c' = Some e"
    using assms(1,2) read_frames_ws_term
    by (auto simp: read_message_def pendingErr_def ready_def split: option.splits if_splits)
  have r: "ready c'" using ws_inv_adds read_message_adds[OF assms(1)] assms(2)
    by (auto simp: adds_def static_of_def ready_def)
  have "ws_term c2 = Some e" "ready c2"
    using ws_reach_sticky[OF assms(3)] t r by (auto simp: sticky_def ready_def)
  then show ?thesis by (intro read_message_term)
qed

lemma tunnel_ws_error_final_witness:
  "read_message no_close no_abort [] (snd (setTerm WE_Protocol (put (Out_Abort ''protocol_error'') (newTunnelWSConn None False))))
     = Inr (WS_Error WE_Protocol, [], snd (setTerm WE_Protocol (put (Out_Abort ''protocol_error'') (newTunnelWSConn None False))))"
proof (rule tunnel_ws_error_final)
  show "read_message no_close no_abort [WIn_Frame FrameData [] True] (newTunnelWSConn None False) =
      Inr (WS_Error WE_Protocol, [], snd (setTerm WE_Protocol (put (Out_Abort ''protocol_error'') (newTunnelWSConn None False))))"
    by (simp add: read_message_def pendingErr_def newTunnelWSConn_def ftypes setTerm_def sendAbort_def put_def)
  show "ready (newTunnelWSConn None False)" by (simp add: ready_def newTunnelWSConn_def)
qed (rule ws_start)

lemma read_frames_ws_panic:
  "read_frames_ws dc da xs c = Inl e \<Longrightarrow> \<exists>p ok. WIn_Frame FrameAbort p ok \<in> set xs \<and> da p = None"
proof (induction dc da xs c rule: read_frames_ws.induct)
  case (3 dc da t p ok xs c)
  then show ?case
    by (auto simp: case_prod_beta Let_def split: if_splits option.splits)
qed (auto simp: case_prod_beta Let_def)

text \<open>
  The only way a peer can make reading panic is an ABORT whose payload does not decode, and every such
  ABORT does: the error of the decoder is dropped and the missing message is dereferenced.
\<close>

theorem tunnel_abort_panics:
  "(read_message dc da xs c = Inl e \<longrightarrow> (\<exists>p ok. WIn_Frame FrameAbort p ok \<in> set xs \<and> da p = None)) \<and>
   (ready c \<and> ws_term c = None \<and> da p = None \<longrightarrow>
      read_message dc da (WIn_Frame FrameAbort p ok # xs) c = Inl Nil_Deref)"
  using read_frames_ws_panic
  by (auto simp: read_message_def pendingErr_def ready_def ftypes split: option.splits if_splits)

lemma tunnel_abort_panics_witness:
  "read_message no_close no_abort [WIn_Frame FrameAbort [] True] (newTunnelWSConn None False) = Inl Nil_Deref"
  using tunnel_abort_panics[of no_close no_abort "[]" "newTunnelWSConn None False" Nil_Deref "[]" True]
  by (simp add: ready_def newTunnelWSConn_def no_abort_def)

end
