(* ===== verification/Tunnel_Server.thy ===== *)
theory Tunnel_Server
  imports Tunnel_Http_Props Tunnel_WS
begin

text \<open>
  The tunnel server, \<open>src/tunnel/server.go\<close> and the dispatch of \<open>src/tunnel/ws.go\<close>: its options, the sniffing of
  the magic, the race between the magic and the upstream, the first frame of a session and what is served for it.
  Accepting and dialling are parameters; the race is a machine stepped by the events of its channels, in any order.
\<close>

section \<open>Addresses\<close>

fun index_of :: "char \<Rightarrow> string \<Rightarrow> nat option" where
  "index_of c [] = None"
| "index_of c (x # xs) = (if x = c then Some 0 else map_option Suc (index_of c xs))"

definition last_index :: "char \<Rightarrow> string \<Rightarrow> nat option" where
  "last_index c s = map_option (\<lambda>i. length s - 1 - i) (index_of c (rev s))"

text \<open>\<open>net.SplitHostPort\<close>, its errors being one.\<close>

definition split_plain :: "string \<Rightarrow> nat \<Rightarrow> (string \<times> string) option" where
  "split_plain s i =
     (let host = take i s in
      if CHR '':'' \<in> set host \<or> CHR ''['' \<in> set s \<or> CHR '']'' \<in> set s then None
      else Some (host, drop (i + 1) s))"

definition split_bracket :: "string \<Rightarrow> nat \<Rightarrow> (string \<times> string) option" where
  "split_bracket s i =
     (case index_of CHR '']'' s of
        None \<Rightarrow> None
      | Some e \<Rightarrow>
          if e + 1 \<noteq> i then None
          else if CHR ''['' \<in> set (drop 1 s) \<or> CHR '']'' \<in> set (drop (e + 1) s) then None
          else Some (take (e - 1) (drop 1 s), drop (i + 1) s))"

definition SplitHostPort :: "string \<Rightarrow> (string \<times> string) option" where
  "SplitHostPort s =
     (case last_index CHR '':'' s of
        None \<Rightarrow> None
      | Some i \<Rightarrow> if s \<noteq> [] \<and> hd s = CHR ''['' then split_bracket s i else split_plain s i)"

datatype upstream_err = Up_Not_Host_Port | Up_No_Host | Up_Bad_Port

definition checkUpstream :: "string \<Rightarrow> upstream_err option" where
  "checkUpstream addr =
     (case SplitHostPort addr of
        None \<Rightarrow> Some Up_Not_Host_Port
      | Some (host, port) \<Rightarrow>
          if host = [] then Some Up_No_Host
          else case ParseInt64 port of
            None \<Rightarrow> Some Up_Bad_Port
          | Some p \<Rightarrow> if p < 1 \<or> 65535 < p then Some Up_Bad_Port else None)"

section \<open>Options\<close>

type_synonym proxy_config = "target_filter option"

record server_config =
  sc_upstream :: string
  sc_httpHandler :: bool
  sc_httpProxy :: "proxy_config option"
  sc_wsHandler :: bool
  sc_wsProxy :: "proxy_config option"
  sc_openTimeout :: int
  sc_closeWait :: int

datatype server_option =
    WithUpstream string | WithTunnelHTTPHandler bool | WithTunnelHTTPProxy proxy_config | WithTunnelWSHandler bool
  | WithTunnelWSProxy proxy_config | WithTunnelOpenTimeout int | WithTunnelCloseWait int

fun applyServerOption :: "server_option \<Rightarrow> server_config \<Rightarrow> server_config" where
  "applyServerOption (WithUpstream a) c = c\<lparr>sc_upstream := a\<rparr>"
| "applyServerOption (WithTunnelHTTPHandler b) c = c\<lparr>sc_httpHandler := b\<rparr>"
| "applyServerOption (WithTunnelHTTPProxy p) c = c\<lparr>sc_httpProxy := Some p\<rparr>"
| "applyServerOption (WithTunnelWSHandler b) c = c\<lparr>sc_wsHandler := b\<rparr>"
| "applyServerOption (WithTunnelWSProxy p) c = c\<lparr>sc_wsProxy := Some p\<rparr>"
| "applyServerOption (WithTunnelOpenTimeout d) c = c\<lparr>sc_openTimeout := d\<rparr>"
| "applyServerOption (WithTunnelCloseWait d) c = c\<lparr>sc_closeWait := d\<rparr>"

definition defaultOpenTimeout :: int where "defaultOpenTimeout = 10000000000"
definition defaultCloseWait :: int where "defaultCloseWait = 3000000000"

definition openTimeoutOrDefault :: "server_config \<Rightarrow> int" where
  "openTimeoutOrDefault c = (if sc_openTimeout c \<le> 0 then defaultOpenTimeout else sc_openTimeout c)"

definition closeWaitOrDefault :: "server_config \<Rightarrow> int" where
  "closeWaitOrDefault c = (if sc_closeWait c \<le> 0 then defaultCloseWait else sc_closeWait c)"

definition hasTunnel :: "server_config \<Rightarrow> bool" where
  "hasTunnel c \<longleftrightarrow> sc_httpHandler c \<or> sc_httpProxy c \<noteq> None \<or> sc_wsHandler c \<or> sc_wsProxy c \<noteq> None"

datatype server_err = SE_No_Accepter | SE_Upstream upstream_err | SE_Nothing_To_Serve

definition NewServer :: "bool \<Rightarrow> server_option option list \<Rightarrow> server_err + server_config" where
  "NewServer accepter opts =
     (if \<not> accepter then Inl SE_No_Accepter
      else
        let c = fold (\<lambda>opt c. case opt of None \<Rightarrow> c | Some x \<Rightarrow> applyServerOption x c) opts
              \<lparr>sc_upstream = [], sc_httpHandler = False, sc_httpProxy = None, sc_wsHandler = False, sc_wsProxy = None,
               sc_openTimeout = 0, sc_closeWait = 0\<rparr> in
        if sc_upstream c \<noteq> [] then (case checkUpstream (sc_upstream c) of Some e \<Rightarrow> Inl (SE_Upstream e) | None \<Rightarrow> Inr c)
        else if \<not> hasTunnel c then Inl SE_Nothing_To_Serve
        else Inr c)"

section \<open>Sniffing\<close>

text \<open>
  \<open>sniffMagic\<close> on the bytes that come in before the deadline or the end: what it says and the bytes that stay in the
  buffer; \<open>Peek\<close> leaves them there and only the magic as a whole is discarded.
\<close>

fun sniff_from :: "nat \<Rightarrow> nat \<Rightarrow> bytes \<Rightarrow> bool" where
  "sniff_from 0 i bs = True"
| "sniff_from (Suc n) i bs = (if length bs < i + 1 \<or> bs ! i \<noteq> Magic ! i then False else sniff_from n (i + 1) bs)"

definition sniffMagic :: "bytes \<Rightarrow> bool \<times> bytes" where
  "sniffMagic bs = (if sniff_from (length Magic) 0 bs then (True, drop (length Magic) bs) else (False, bs))"

lemma sniff_from_prefix:
  "i + n = length Magic \<Longrightarrow> sniff_from n i bs \<longleftrightarrow> take n (drop i bs) = drop i Magic"
proof (induction n arbitrary: i)
  case (Suc n)
  have m: "drop i Magic = Magic ! i # drop (Suc i) Magic" using Suc.prems by (simp add: Cons_nth_drop_Suc)
  show ?case
  proof (cases "length bs < i + 1")
    case True
    then show ?thesis using m by simp
  next
    case False
    then have "drop i bs = bs ! i # drop (Suc i) bs" by (simp add: Cons_nth_drop_Suc)
    then show ?thesis using Suc.IH[of "Suc i"] Suc.prems False m by simp
  qed
qed simp

lemma sniffMagic_spec: "sniffMagic bs = (if take (length Magic) bs = Magic then (True, drop (length Magic) bs) else (False, bs))"
  using sniff_from_prefix[of 0 "length Magic" bs] by (simp add: sniffMagic_def)

section \<open>The race with the upstream\<close>

text \<open>
  The channels of \<open>serveWithUpstream\<close> and the timer of the grace period. \<open>Ev_Head\<close> carries the first block of the
  upstream and whether its read ended the upstream.
\<close>

datatype race_event = Ev_Sniff bool | Ev_Dial bool | Ev_Head bytes bool | Ev_Grace

datatype race_state =
    RS_Start
  | RS_Sniffed                \<comment> \<open>not a tunnel, waiting for the dial\<close>
  | RS_Sniffed_Dialed         \<comment> \<open>not a tunnel, waiting for the first block, its read cut short\<close>
  | RS_Dial_Failed
  | RS_Dialed
  | RS_Head bytes bool
  | RS_Kicked "(bytes \<times> bool) option"  \<comment> \<open>\<open>toRaw\<close> waits for the sniffing it has interrupted\<close>
  | RS_Tunnel
  | RS_Raw bool "(bytes \<times> bool) option"  \<comment> \<open>raw, with the upstream if it is reachable; whether the magic was taken\<close>

fun race_step :: "race_event \<Rightarrow> race_state \<Rightarrow> race_state option" where
  "race_step (Ev_Sniff True) RS_Start = Some RS_Tunnel"
| "race_step (Ev_Sniff False) RS_Start = Some RS_Sniffed"
| "race_step (Ev_Dial True) RS_Start = Some RS_Dialed"
| "race_step (Ev_Dial False) RS_Start = Some RS_Dial_Failed"
| "race_step (Ev_Dial True) RS_Sniffed = Some RS_Sniffed_Dialed"
| "race_step (Ev_Dial False) RS_Sniffed = Some (RS_Raw False None)"
| "race_step (Ev_Head h e) RS_Sniffed_Dialed = Some (RS_Raw False (Some (h, e)))"
| "race_step (Ev_Sniff True) RS_Dial_Failed = Some RS_Tunnel"
| "race_step (Ev_Sniff False) RS_Dial_Failed = Some (RS_Raw False None)"
| "race_step Ev_Grace RS_Dial_Failed = Some (RS_Kicked None)"
| "race_step (Ev_Sniff True) RS_Dialed = Some RS_Tunnel"
| "race_step (Ev_Sniff False) RS_Dialed = Some RS_Sniffed_Dialed"
| "race_step (Ev_Head h e) RS_Dialed = Some (RS_Head h e)"
| "race_step (Ev_Sniff True) (RS_Head h e) = Some RS_Tunnel"
| "race_step (Ev_Sniff False) (RS_Head h e) = Some (RS_Raw False (Some (h, e)))"
| "race_step Ev_Grace (RS_Head h e) = Some (RS_Kicked (Some (h, e)))"
| "race_step (Ev_Sniff t) (RS_Kicked up) = Some (RS_Raw t up)"
| "race_step ev st = None"

fun race :: "race_event list \<Rightarrow> race_state \<Rightarrow> race_state option" where
  "race [] s = Some s"
| "race (e # es) s = Option.bind (race_step e s) (race es)"

text \<open>What \<open>toRaw\<close> does: the first block of the upstream goes to the client, and both are bridged unless that read was the end.\<close>

datatype raw_fate = Raw_Close | Raw_Head_Close bytes | Raw_Bridge bytes

definition toRaw :: "(bytes \<times> bool) option \<Rightarrow> raw_fate" where
  "toRaw up =
     (case up of
        None \<Rightarrow> Raw_Close
      | Some (h, ended) \<Rightarrow> if ended then Raw_Head_Close h else Raw_Bridge h)"

section \<open>The first frame\<close>

datatype ws_fate = WF_Refused int | WF_Local | WF_Proxy url

definition serveWS ::
  "bool \<Rightarrow> proxy_config option \<Rightarrow> (string \<Rightarrow> url option) \<Rightarrow> peer_id \<Rightarrow> open_msg \<Rightarrow> ws_fate" where
  "serveWS has_handler cfg parse p om =
     (let t = om_target om in
      if CHR ''#'' \<in> set t then WF_Refused 400
      else if local_path t then (if has_handler then WF_Local else WF_Refused 404)
      else case parse t of
        None \<Rightarrow> WF_Refused 400
      | Some u \<Rightarrow>
          if ur_host u = [] \<or> (ur_scheme u \<noteq> ''ws'' \<and> ur_scheme u \<noteq> ''wss'') then WF_Refused 400
          else case cfg of
            None \<Rightarrow> WF_Refused 403
          | Some allow \<Rightarrow>
              if (case allow of None \<Rightarrow> True | Some f \<Rightarrow> \<not> f p KindWS u) then WF_Refused 403 else WF_Proxy u)"

definition ws_result :: "int \<Rightarrow> string \<Rightarrow> header_pair list \<Rightarrow> string \<Rightarrow> result_msg" where
  "ws_result status protocol headers err =
     \<lparr>rm_kind = KindWS, rm_status = status, rm_statusText = [], rm_protocol = protocol, rm_headers = headers, rm_error = err\<rparr>"

definition rejectWS :: "result_enc \<Rightarrow> int \<Rightarrow> string \<Rightarrow> nat option \<Rightarrow> wframe list \<Rightarrow> wframe list" where
  "rejectWS js status msg fail out = snd (send_json fail FrameResult (js (ws_result status [] [] msg)) out)"

datatype session_fate = SF_Closed wire_err | SF_Abort string | SF_HTTP http_fate | SF_WS ws_fate

definition serveTunnelConn ::
  "server_config \<Rightarrow> (bytes \<Rightarrow> open_msg option) \<Rightarrow> (string \<Rightarrow> url option) \<Rightarrow> (string \<Rightarrow> url option) \<Rightarrow> (string \<Rightarrow> url \<Rightarrow> bool) \<Rightarrow>
   peer_id \<Rightarrow> io_err \<Rightarrow> bytes \<Rightarrow> session_fate \<times> bytes" where
  "serveTunnelConn c dec parse parse_uri new_request p fin bs =
     (case ReadFrame fin bs of
        Inl e \<Rightarrow> (SF_Closed e, [])
      | Inr ((ft, payload), rest) \<Rightarrow>
          (if ft \<noteq> FrameOpen then SF_Abort ''protocol_error''
           else case dec payload of
             None \<Rightarrow> SF_Abort ''bad_open''
           | Some om \<Rightarrow>
               (case ValidateOpen (Some om) of
                  Some e \<Rightarrow> SF_Abort ''bad_open''
                | None \<Rightarrow>
                    if om_kind om = KindHTTP
                    then SF_HTTP (serveHTTP (sc_httpHandler c) (sc_httpProxy c) parse parse_uri new_request p om)
                    else SF_WS (serveWS (sc_wsHandler c) (sc_wsProxy c) parse p om)), rest))"

text \<open>A stream of a server without an upstream.\<close>

definition serveStream ::
  "server_config \<Rightarrow> (bytes \<Rightarrow> open_msg option) \<Rightarrow> (string \<Rightarrow> url option) \<Rightarrow> (string \<Rightarrow> url option) \<Rightarrow> (string \<Rightarrow> url \<Rightarrow> bool) \<Rightarrow>
   peer_id \<Rightarrow> io_err \<Rightarrow> bytes \<Rightarrow> (session_fate \<times> bytes) option" where
  "serveStream c dec parse parse_uri new_request p fin bs =
     (let (tunnel, bs) = sniffMagic bs in
      if tunnel then Some (serveTunnelConn c dec parse parse_uri new_request p fin bs) else None)"

section \<open>A local WebSocket handler\<close>

text \<open>
  The calls of the handler, \<open>None\<close> when one of them panicked, which the deferred function recovers, and then \<open>Close\<close>
  inside that function, whose panics nothing recovers.
\<close>

fun handler_calls :: "(bytes \<Rightarrow> close_msg option) \<Rightarrow> (bytes \<Rightarrow> abort_msg option) \<Rightarrow> ws_op list \<Rightarrow> wsconn \<Rightarrow> wsconn" where
  "handler_calls dc da [] c = c"
| "handler_calls dc da (op # ops) c = (case ws_step dc da op c of Inl e \<Rightarrow> c | Inr c' \<Rightarrow> handler_calls dc da ops c')"

definition serveWSLocal ::
  "(bytes \<Rightarrow> close_msg option) \<Rightarrow> (bytes \<Rightarrow> abort_msg option) \<Rightarrow> open_msg \<Rightarrow> ws_op list \<Rightarrow> ws_in list \<Rightarrow> wsconn run" where
  "serveWSLocal dc da om ops rest =
     (let c = handler_calls dc da ops (NewTunnelWSConn (Some (om_protocols om))) in
      map_sum id snd (ws_close dc da rest 1000 [] c))"

end
