(* ===== verification/Tunnel_Upstream.thy ===== *)
theory Tunnel_Upstream
  imports Tunnel_Server
begin

text \<open>
  The goroutines of \<open>serveWithUpstream\<close> (\<open>src/tunnel/server.go\<close>) one by one: the handler itself, the sniffing of the
  client, the dial and the first read of the upstream, and \<open>reap\<close>; with their channels, the two read deadlines and the
  fate of the upstream connection. They implement the race of \<open>Tunnel_Server\<close>, read no connection twice at a time,
  leave no connection open behind, and wait for nobody but a dial and the session itself.
\<close>

section \<open>State\<close>

text \<open>A read deadline is absent, ahead, or already past (\<open>SetReadDeadline(time.Now())\<close>).\<close>

datatype deadline = DL_None | DL_Ahead | DL_Past

datatype up_conn = UP_None | UP_Open | UP_Closed

text \<open>Where each goroutine is; a constructor carries what a local variable holds there.\<close>

datatype sniffer = SN_Arm | SN_Peek | SN_Disarm bool | SN_Send bool | SN_Done

datatype dialer = DI_Dial | DI_Arm | DI_Read | DI_Disarm bytes bool | DI_Send bytes bool | DI_Done

datatype reaper = RE_None | RE_Wait_Dial | RE_Kick | RE_Wait_Head | RE_Close | RE_Done

datatype handler =
    HA_First                                \<comment> \<open>the first \<open>select\<close>\<close>
  | HA_Wait_Dial                            \<comment> \<open>not a tunnel\<close>
  | HA_Kick                                 \<comment> \<open>not a tunnel, dialled: cut the first read short\<close>
  | HA_Wait_Head
  | HA_Unkick bytes bool
  | HA_No_Dial                              \<comment> \<open>the dial failed: sniffing or the grace period\<close>
  | HA_Dialed                               \<comment> \<open>the second \<open>select\<close>\<close>
  | HA_Head bytes bool                      \<comment> \<open>the upstream spoke: sniffing or the grace period\<close>
  | HA_Kick_Sniff "(bytes \<times> bool) option"   \<comment> \<open>\<open>toRaw\<close> with the sniffing pending\<close>
  | HA_Wait_Sniff "(bytes \<times> bool) option"
  | HA_Raw bool "(bytes \<times> bool) option"
  | HA_Bridge bool "bytes \<times> bool"
  | HA_Close_Raw bool "bytes \<times> bool"
  | HA_Reap bool
  | HA_Close_Up
  | HA_Tunnel
  | HA_Done race_state

record ups =
  us_ha :: handler
  us_sn :: sniffer
  us_di :: dialer
  us_re :: reaper
  us_sniffCh :: "bool option"
  us_dialCh :: "bool option"
  us_headCh :: "(bytes \<times> bool) option"
  us_sdl :: deadline
  us_udl :: deadline
  us_up :: up_conn

definition ups_start :: ups where
  "ups_start = \<lparr>us_ha = HA_First, us_sn = SN_Arm, us_di = DI_Dial, us_re = RE_None, us_sniffCh = None, us_dialCh = None,
     us_headCh = None, us_sdl = DL_None, us_udl = DL_None, us_up = UP_None\<rparr>"

section \<open>Steps\<close>

text \<open>
  What the outside decides is in the operation: what \<open>Peek\<close> finds, how a dial ends, what the first read returns. A read
  whose deadline is set may also time out, and one on a closed connection fails.
\<close>

datatype us_op =
    Sniff_Go | Sniff_Peek bool | Sniff_Timeout
  | Dial_End bool | Up_Go | Up_Read bytes bool | Up_Timeout | Up_Fail
  | Take_Sniff | Take_Dial | Take_Head | Grace | Go_On | Serve_End
  | Reap_Go

fun sniff_step :: "us_op \<Rightarrow> ups \<Rightarrow> ups option" where
  "sniff_step Sniff_Go s =
     (case us_sn s of
        SN_Arm \<Rightarrow> Some (s\<lparr>us_sn := SN_Peek, us_sdl := DL_Ahead\<rparr>)
      | SN_Disarm t \<Rightarrow> Some (s\<lparr>us_sn := SN_Send t, us_sdl := DL_None\<rparr>)
      | SN_Send t \<Rightarrow> Some (s\<lparr>us_sn := SN_Done, us_sniffCh := Some t\<rparr>)
      | _ \<Rightarrow> None)"
| "sniff_step (Sniff_Peek t) s = (if us_sn s = SN_Peek then Some (s\<lparr>us_sn := SN_Disarm t\<rparr>) else None)"
| "sniff_step Sniff_Timeout s =
     (if us_sn s = SN_Peek \<and> us_sdl s \<noteq> DL_None then Some (s\<lparr>us_sn := SN_Disarm False\<rparr>) else None)"
| "sniff_step x s = None"

fun dial_step :: "us_op \<Rightarrow> ups \<Rightarrow> ups option" where
  "dial_step (Dial_End ok) s =
     (if us_di s = DI_Dial
      then Some (if ok then s\<lparr>us_di := DI_Arm, us_dialCh := Some True, us_up := UP_Open\<rparr>
                 else s\<lparr>us_di := DI_Done, us_dialCh := Some False\<rparr>)
      else None)"
| "dial_step Up_Go s =
     (case us_di s of
        DI_Arm \<Rightarrow> Some (s\<lparr>us_di := DI_Read, us_udl := DL_Ahead\<rparr>)
      | DI_Disarm h e \<Rightarrow> Some (s\<lparr>us_di := DI_Send h e, us_udl := DL_None\<rparr>)
      | DI_Send h e \<Rightarrow> Some (s\<lparr>us_di := DI_Done, us_headCh := Some (h, e)\<rparr>)
      | _ \<Rightarrow> None)"
| "dial_step (Up_Read h e) s = (if us_di s = DI_Read then Some (s\<lparr>us_di := DI_Disarm h e\<rparr>) else None)"
| "dial_step Up_Timeout s =
     (if us_di s = DI_Read \<and> us_udl s \<noteq> DL_None then Some (s\<lparr>us_di := DI_Disarm [] False\<rparr>) else None)"
| "dial_step Up_Fail s =
     (if us_di s = DI_Read \<and> us_up s = UP_Closed then Some (s\<lparr>us_di := DI_Disarm [] True\<rparr>) else None)"
| "dial_step x s = None"

text \<open>A receive of the handler: the channel must hold something, and the place decides where it leads.\<close>

fun take_sniff :: "bool \<Rightarrow> handler \<Rightarrow> handler option" where
  "take_sniff t HA_First = Some (if t then HA_Reap False else HA_Wait_Dial)"
| "take_sniff t HA_No_Dial = Some (if t then HA_Tunnel else HA_Raw False None)"
| "take_sniff t HA_Dialed = Some (if t then HA_Reap True else HA_Kick)"
| "take_sniff t (HA_Head h e) = Some (if t then HA_Close_Up else HA_Raw False (Some (h, e)))"
| "take_sniff t (HA_Wait_Sniff up) = Some (HA_Raw t up)"
| "take_sniff t x = None"

fun take_dial :: "bool \<Rightarrow> handler \<Rightarrow> handler option" where
  "take_dial ok HA_First = Some (if ok then HA_Dialed else HA_No_Dial)"
| "take_dial ok HA_Wait_Dial = Some (if ok then HA_Kick else HA_Raw False None)"
| "take_dial ok x = None"

fun take_head :: "bytes \<times> bool \<Rightarrow> handler \<Rightarrow> handler option" where
  "take_head (h, e) HA_Wait_Head = Some (HA_Unkick h e)"
| "take_head (h, e) HA_Dialed = Some (HA_Head h e)"
| "take_head x y = None"

fun handler_step :: "us_op \<Rightarrow> ups \<Rightarrow> ups option" where
  "handler_step Take_Sniff s =
     (case us_sniffCh s of
        None \<Rightarrow> None
      | Some t \<Rightarrow> map_option (\<lambda>h. s\<lparr>us_ha := h, us_sniffCh := None\<rparr>) (take_sniff t (us_ha s)))"
| "handler_step Take_Dial s =
     (case us_dialCh s of
        None \<Rightarrow> None
      | Some ok \<Rightarrow> map_option (\<lambda>h. s\<lparr>us_ha := h, us_dialCh := None\<rparr>) (take_dial ok (us_ha s)))"
| "handler_step Take_Head s =
     (case us_headCh s of
        None \<Rightarrow> None
      | Some x \<Rightarrow> map_option (\<lambda>h. s\<lparr>us_ha := h, us_headCh := None\<rparr>) (take_head x (us_ha s)))"
| "handler_step Grace s =
     (case us_ha s of
        HA_No_Dial \<Rightarrow> Some (s\<lparr>us_ha := HA_Kick_Sniff None\<rparr>)
      | HA_Head h e \<Rightarrow> Some (s\<lparr>us_ha := HA_Kick_Sniff (Some (h, e))\<rparr>)
      | _ \<Rightarrow> None)"
| "handler_step Go_On s =
     (case us_ha s of
        HA_Kick \<Rightarrow> Some (s\<lparr>us_ha := HA_Wait_Head, us_udl := DL_Past\<rparr>)
      | HA_Unkick h e \<Rightarrow> Some (s\<lparr>us_ha := HA_Raw False (Some (h, e)), us_udl := DL_None\<rparr>)
      | HA_Kick_Sniff up \<Rightarrow> Some (s\<lparr>us_ha := HA_Wait_Sniff up, us_sdl := DL_Past\<rparr>)
      | HA_Raw t up \<Rightarrow>
          Some (s\<lparr>us_sdl := DL_None, us_ha := (case up of None \<Rightarrow> HA_Done (RS_Raw t None) | Some h \<Rightarrow> HA_Bridge t h)\<rparr>)
      | HA_Close_Raw t h \<Rightarrow> Some (s\<lparr>us_ha := HA_Done (RS_Raw t (Some h)), us_up := UP_Closed\<rparr>)
      | HA_Reap seen \<Rightarrow> Some (s\<lparr>us_ha := HA_Tunnel, us_re := (if seen then RE_Kick else RE_Wait_Dial)\<rparr>)
      | HA_Close_Up \<Rightarrow> Some (s\<lparr>us_ha := HA_Tunnel, us_up := UP_Closed\<rparr>)
      | _ \<Rightarrow> None)"
| "handler_step Serve_End s =
     (case us_ha s of
        HA_Bridge t h \<Rightarrow> Some (s\<lparr>us_ha := HA_Close_Raw t h\<rparr>)
      | HA_Tunnel \<Rightarrow> Some (s\<lparr>us_ha := HA_Done RS_Tunnel\<rparr>)
      | _ \<Rightarrow> None)"
| "handler_step x s = None"

fun reap_step :: "us_op \<Rightarrow> ups \<Rightarrow> ups option" where
  "reap_step Reap_Go s =
     (case us_re s of
        RE_Wait_Dial \<Rightarrow>
          (case us_dialCh s of
             None \<Rightarrow> None
           | Some ok \<Rightarrow> Some (s\<lparr>us_re := (if ok then RE_Kick else RE_Done), us_dialCh := None\<rparr>))
      | RE_Kick \<Rightarrow> Some (s\<lparr>us_re := RE_Wait_Head, us_udl := DL_Past\<rparr>)
      | RE_Wait_Head \<Rightarrow> (if us_headCh s = None then None else Some (s\<lparr>us_re := RE_Close, us_headCh := None\<rparr>))
      | RE_Close \<Rightarrow> Some (s\<lparr>us_re := RE_Done, us_up := UP_Closed\<rparr>)
      | _ \<Rightarrow> None)"
| "reap_step x s = None"

definition us_step :: "us_op \<Rightarrow> ups \<Rightarrow> ups option" where
  "us_step x s =
     (case sniff_step x s of
        Some s' \<Rightarrow> Some s'
      | None \<Rightarrow> (case dial_step x s of
          Some s' \<Rightarrow> Some s'
        | None \<Rightarrow> (case handler_step x s of Some s' \<Rightarrow> Some s' | None \<Rightarrow> reap_step x s)))"

fun us_run :: "us_op list \<Rightarrow> ups \<Rightarrow> ups option" where
  "us_run [] s = Some s"
| "us_run (x # xs) s = Option.bind (us_step x s) (us_run xs)"

section \<open>The invariant\<close>

text \<open>Has the handler the answer of the sniffing, and where is the upstream: being dialled, at its first read, in hand, or gone?\<close>

fun sniff_open :: "handler \<Rightarrow> bool" where
  "sniff_open HA_First = True"
| "sniff_open HA_No_Dial = True"
| "sniff_open HA_Dialed = True"
| "sniff_open (HA_Head h e) = True"
| "sniff_open (HA_Kick_Sniff up) = True"
| "sniff_open (HA_Wait_Sniff up) = True"
| "sniff_open x = False"

datatype stage = Dialing | Reading | In_Hand | Gone

fun held :: "(bytes \<times> bool) option \<Rightarrow> stage" where
  "held None = Gone"
| "held (Some x) = In_Hand"

fun handler_stage :: "handler \<Rightarrow> stage" where
  "handler_stage HA_First = Dialing"
| "handler_stage HA_Wait_Dial = Dialing"
| "handler_stage HA_Kick = Reading"
| "handler_stage HA_Wait_Head = Reading"
| "handler_stage (HA_Unkick h e) = In_Hand"
| "handler_stage HA_No_Dial = Gone"
| "handler_stage HA_Dialed = Reading"
| "handler_stage (HA_Head h e) = In_Hand"
| "handler_stage (HA_Kick_Sniff up) = held up"
| "handler_stage (HA_Wait_Sniff up) = held up"
| "handler_stage (HA_Raw t up) = held up"
| "handler_stage (HA_Bridge t h) = In_Hand"
| "handler_stage (HA_Close_Raw t h) = In_Hand"
| "handler_stage (HA_Reap seen) = (if seen then Reading else Dialing)"
| "handler_stage HA_Close_Up = In_Hand"
| "handler_stage HA_Tunnel = Gone"
| "handler_stage (HA_Done f) = Gone"

fun reaper_stage :: "reaper \<Rightarrow> stage" where
  "reaper_stage RE_Wait_Dial = Dialing"
| "reaper_stage RE_Kick = Reading"
| "reaper_stage RE_Wait_Head = Reading"
| "reaper_stage RE_Close = In_Hand"
| "reaper_stage RE_Done = Gone"
| "reaper_stage RE_None = Gone"

text \<open>What goes with a stage: the goroutine of the dial, its two channels, the connection.\<close>

fun up_ok :: "stage \<Rightarrow> dialer \<Rightarrow> bool option \<Rightarrow> (bytes \<times> bool) option \<Rightarrow> up_conn \<Rightarrow> bool" where
  "up_ok Dialing di None hc up \<longleftrightarrow> di = DI_Dial \<and> hc = None \<and> up = UP_None"
| "up_ok Dialing di (Some ok) hc up \<longleftrightarrow>
     (if ok then up = UP_Open \<and> di \<noteq> DI_Dial \<and> (di = DI_Done \<longleftrightarrow> hc \<noteq> None) else di = DI_Done \<and> hc = None \<and> up = UP_None)"
| "up_ok Reading di dc hc up \<longleftrightarrow> dc = None \<and> up = UP_Open \<and> di \<noteq> DI_Dial \<and> (di = DI_Done \<longleftrightarrow> hc \<noteq> None)"
| "up_ok In_Hand di dc hc up \<longleftrightarrow> dc = None \<and> hc = None \<and> di = DI_Done \<and> up = UP_Open"
| "up_ok Gone di dc hc up \<longleftrightarrow> dc = None \<and> hc = None \<and> di = DI_Done \<and> up \<noteq> UP_Open"

definition stage_of :: "handler \<Rightarrow> reaper \<Rightarrow> stage" where
  "stage_of ha re = (if re = RE_None then handler_stage ha else reaper_stage re)"

definition sniff_ok :: "handler \<Rightarrow> sniffer \<Rightarrow> bool option \<Rightarrow> bool" where
  "sniff_ok ha sn sc \<longleftrightarrow> (if sniff_open ha then sn = SN_Done \<longleftrightarrow> sc \<noteq> None else sn = SN_Done \<and> sc = None)"

definition past_reap :: "handler \<Rightarrow> bool" where
  "past_reap ha \<longleftrightarrow> (case ha of HA_Tunnel \<Rightarrow> True | HA_Done f \<Rightarrow> True | _ \<Rightarrow> False)"

definition ups_inv :: "ups \<Rightarrow> bool" where
  "ups_inv s \<longleftrightarrow>
     sniff_ok (us_ha s) (us_sn s) (us_sniffCh s) \<and> (us_sn s = SN_Peek \<longrightarrow> us_sdl s \<noteq> DL_None) \<and>
     (us_re s \<noteq> RE_None \<longrightarrow> past_reap (us_ha s)) \<and>
     up_ok (stage_of (us_ha s) (us_re s)) (us_di s) (us_dialCh s) (us_headCh s) (us_up s) \<and>
     (us_di s = DI_Read \<longrightarrow> us_udl s \<noteq> DL_None)"

lemma ups_inv_start: "ups_inv ups_start"
  by (simp add: ups_inv_def sniff_ok_def stage_of_def ups_start_def)

lemma sniff_step_inv: "ups_inv s \<Longrightarrow> sniff_step x s = Some s' \<Longrightarrow> ups_inv s'"
  by (cases x; cases "us_sn s") (auto simp: ups_inv_def sniff_ok_def split: if_splits)

text \<open>The steps of the dialling goroutine keep the stage.\<close>

lemma up_ok_dial:
  "up_ok st DI_Dial dc hc up \<Longrightarrow> up_ok st DI_Arm (Some True) hc UP_Open"
  "up_ok st DI_Dial dc hc up \<Longrightarrow> up_ok st DI_Done (Some False) hc up"
  "up_ok st DI_Arm dc hc up \<Longrightarrow> up_ok st DI_Read dc hc up"
  "up_ok st DI_Read dc hc up \<Longrightarrow> up_ok st (DI_Disarm h e) dc hc up"
  "up_ok st (DI_Disarm h e) dc hc up \<Longrightarrow> up_ok st (DI_Send h e) dc hc up"
  "up_ok st (DI_Send h e) dc hc up \<Longrightarrow> up_ok st DI_Done dc (Some (h, e)) up"
  by (cases st; cases dc; simp split: if_splits)+

lemma dial_step_inv: "ups_inv s \<Longrightarrow> dial_step x s = Some s' \<Longrightarrow> ups_inv s'"
  by (cases x; cases "us_di s") (auto simp: ups_inv_def dest: up_ok_dial split: if_splits)

lemma up_ok_iff:
  "up_ok Dialing di dc hc up \<longleftrightarrow>
     (case dc of
        None \<Rightarrow> di = DI_Dial \<and> hc = None \<and> up = UP_None
      | Some ok \<Rightarrow>
          if ok then up = UP_Open \<and> di \<noteq> DI_Dial \<and> (di = DI_Done \<longleftrightarrow> hc \<noteq> None) else di = DI_Done \<and> hc = None \<and> up = UP_None)"
  by (cases dc) simp_all

lemma up_ok_taken:
  "up_ok Dialing di (Some True) hc up \<Longrightarrow> up_ok Reading di None hc up"
  "up_ok Dialing di (Some False) hc up \<Longrightarrow> up_ok Gone di None hc up"
  "up_ok Reading di dc (Some x) up \<Longrightarrow> up_ok In_Hand di dc None up"
  "up_ok In_Hand di dc hc up \<Longrightarrow> up_ok Gone di dc hc UP_Closed"
  by auto

lemma reap_step_inv: "ups_inv s \<Longrightarrow> reap_step x s = Some s' \<Longrightarrow> ups_inv s'"
  by (cases x; cases "us_re s") (auto simp: ups_inv_def stage_of_def split: option.splits if_splits dest: up_ok_taken)

lemma no_reaper: "ups_inv s \<Longrightarrow> \<not> past_reap (us_ha s) \<Longrightarrow> us_re s = RE_None"
  by (auto simp: ups_inv_def)

text \<open>Where the receives of the handler lead.\<close>

lemma take_sniff_stage:
  "take_sniff t ha = Some h \<Longrightarrow> sniff_open ha \<and> \<not> sniff_open h \<and> \<not> past_reap ha \<and> handler_stage h = handler_stage ha"
  by (cases "(t, ha)" rule: take_sniff.cases; cases t) (auto simp: past_reap_def)

lemma take_dial_stage:
  "take_dial ok ha = Some h \<Longrightarrow> \<not> past_reap ha \<and> sniff_open h = sniff_open ha \<and> handler_stage ha = Dialing \<and>
     handler_stage h = (if ok then Reading else Gone)"
  by (cases "(ok, ha)" rule: take_dial.cases; cases ok) (auto simp: past_reap_def)

lemma take_head_stage:
  "take_head x ha = Some h \<Longrightarrow> \<not> past_reap ha \<and> sniff_open h = sniff_open ha \<and> handler_stage ha = Reading \<and> handler_stage h = In_Hand"
  by (cases "(x, ha)" rule: take_head.cases) (auto simp: past_reap_def)

lemma ups_inv_noreap:
  "us_re s = RE_None \<Longrightarrow> ups_inv s \<longleftrightarrow>
     sniff_ok (us_ha s) (us_sn s) (us_sniffCh s) \<and> (us_sn s = SN_Peek \<longrightarrow> us_sdl s \<noteq> DL_None) \<and>
     up_ok (handler_stage (us_ha s)) (us_di s) (us_dialCh s) (us_headCh s) (us_up s) \<and>
     (us_di s = DI_Read \<longrightarrow> us_udl s \<noteq> DL_None)"
  by (simp add: ups_inv_def stage_of_def)

lemma go_on_inv:
  assumes inv: "ups_inv s" and run: "handler_step Go_On s = Some s'"
  shows "ups_inv s'"
proof -
  have "\<not> past_reap (us_ha s)" using run by (auto simp: past_reap_def split: handler.splits)
  then have r: "us_re s = RE_None" by (rule no_reaper[OF inv])
  note i = inv[unfolded ups_inv_noreap[OF r]]
  show ?thesis
  proof (cases "us_ha s")
    case (HA_Raw t up)
    define h where "h = (case up of None \<Rightarrow> HA_Done (RS_Raw t None) | Some h \<Rightarrow> HA_Bridge t h)"
    have "s' = s\<lparr>us_sdl := DL_None, us_ha := h\<rparr>" using run HA_Raw by (simp add: h_def)
    then show ?thesis using HA_Raw i r by (cases up) (simp_all add: h_def ups_inv_noreap sniff_ok_def)
  next
    case (HA_Kick_Sniff up)
    then have "s' = s\<lparr>us_ha := HA_Wait_Sniff up, us_sdl := DL_Past\<rparr>" using run by simp
    then show ?thesis using HA_Kick_Sniff i r by (simp add: ups_inv_noreap sniff_ok_def)
  next
    case (HA_Reap seen)
    then have "s' = s\<lparr>us_ha := HA_Tunnel, us_re := (if seen then RE_Kick else RE_Wait_Dial)\<rparr>" using run by simp
    then show ?thesis using HA_Reap i r by (cases seen) (simp_all add: ups_inv_def stage_of_def sniff_ok_def past_reap_def)
  next
    case HA_Kick
    then have "s' = s\<lparr>us_ha := HA_Wait_Head, us_udl := DL_Past\<rparr>" using run by simp
    then show ?thesis using HA_Kick i r by (simp add: ups_inv_noreap sniff_ok_def)
  next
    case (HA_Unkick h e)
    then have "s' = s\<lparr>us_ha := HA_Raw False (Some (h, e)), us_udl := DL_None\<rparr>" using run by simp
    then show ?thesis using HA_Unkick i r by (simp add: ups_inv_noreap sniff_ok_def)
  next
    case (HA_Close_Raw t h)
    then have "s' = s\<lparr>us_ha := HA_Done (RS_Raw t (Some h)), us_up := UP_Closed\<rparr>" using run by simp
    then show ?thesis using HA_Close_Raw i r by (simp add: ups_inv_noreap sniff_ok_def)
  next
    case HA_Close_Up
    then have "s' = s\<lparr>us_ha := HA_Tunnel, us_up := UP_Closed\<rparr>" using run by simp
    then show ?thesis using HA_Close_Up i r by (simp add: ups_inv_noreap sniff_ok_def)
  qed (use run in simp_all)
qed

lemma handler_step_inv:
  assumes inv: "ups_inv s" and run: "handler_step x s = Some s'"
  shows "ups_inv s'"
proof (cases x)
  case Take_Sniff
  then obtain t h where t: "us_sniffCh s = Some t" "take_sniff t (us_ha s) = Some h" "s' = s\<lparr>us_ha := h, us_sniffCh := None\<rparr>"
    using run by (auto split: option.splits)
  note st = take_sniff_stage[OF t(2)]
  then have "us_re s = RE_None" using no_reaper[OF inv] by blast
  then show ?thesis using inv t(1,3) st by (simp add: ups_inv_noreap sniff_ok_def)
next
  case Take_Dial
  then obtain ok h where t: "us_dialCh s = Some ok" "take_dial ok (us_ha s) = Some h" "s' = s\<lparr>us_ha := h, us_dialCh := None\<rparr>"
    using run by (auto split: option.splits)
  note st = take_dial_stage[OF t(2)]
  then have "us_re s = RE_None" using no_reaper[OF inv] by blast
  then show ?thesis using inv t(1,3) st by (cases ok) (simp_all add: ups_inv_noreap sniff_ok_def)
next
  case Take_Head
  then obtain y h where t: "us_headCh s = Some y" "take_head y (us_ha s) = Some h" "s' = s\<lparr>us_ha := h, us_headCh := None\<rparr>"
    using run by (auto split: option.splits)
  note st = take_head_stage[OF t(2)]
  then have "us_re s = RE_None" using no_reaper[OF inv] by blast
  then show ?thesis using inv t(1,3) st by (simp add: ups_inv_noreap sniff_ok_def)
next
  case Grace
  then obtain up where g: "s' = s\<lparr>us_ha := HA_Kick_Sniff up\<rparr>" "sniff_open (us_ha s)" "handler_stage (us_ha s) = held up" "\<not> past_reap (us_ha s)"
    using run by (auto simp: past_reap_def split: handler.splits)
  then have "us_re s = RE_None" using no_reaper[OF inv] by blast
  then show ?thesis using inv g(1-3) by (simp add: ups_inv_noreap sniff_ok_def)
next
  case Go_On
  then show ?thesis using go_on_inv[OF inv] run by simp
next
  case Serve_End
  show ?thesis
  proof (cases "us_ha s")
    case (HA_Bridge t h)
    then have "s' = s\<lparr>us_ha := HA_Close_Raw t h\<rparr>" "us_re s = RE_None" using Serve_End run no_reaper[OF inv] by (auto simp: past_reap_def)
    then show ?thesis using inv HA_Bridge by (simp add: ups_inv_noreap sniff_ok_def)
  next
    case HA_Tunnel
    then have "s' = s\<lparr>us_ha := HA_Done RS_Tunnel\<rparr>" using Serve_End run by simp
    then show ?thesis using inv HA_Tunnel by (auto simp: ups_inv_def stage_of_def sniff_ok_def past_reap_def split: if_splits)
  qed (use Serve_End run in simp_all)
qed (use run in simp_all)

lemma us_step_cases:
  "us_step x s = Some s' \<Longrightarrow>
   sniff_step x s = Some s' \<or> dial_step x s = Some s' \<or> handler_step x s = Some s' \<or> reap_step x s = Some s'"
  by (simp add: us_step_def split: option.splits)

lemma us_step_inv:
  assumes "ups_inv s" "us_step x s = Some s'"
  shows "ups_inv s'"
  using us_step_cases[OF assms(2)] sniff_step_inv dial_step_inv handler_step_inv reap_step_inv assms(1) by blast

lemma us_run_inv: "us_run xs s = Some s' \<Longrightarrow> ups_inv s \<Longrightarrow> ups_inv s'"
  by (induction xs arbitrary: s) (auto simp: bind_eq_Some_conv dest: us_step_inv)

section \<open>The race it implements\<close>

fun race_of :: "handler \<Rightarrow> race_state" where
  "race_of HA_First = RS_Start"
| "race_of HA_Wait_Dial = RS_Sniffed"
| "race_of HA_Kick = RS_Sniffed_Dialed"
| "race_of HA_Wait_Head = RS_Sniffed_Dialed"
| "race_of (HA_Unkick h e) = RS_Raw False (Some (h, e))"
| "race_of HA_No_Dial = RS_Dial_Failed"
| "race_of HA_Dialed = RS_Dialed"
| "race_of (HA_Head h e) = RS_Head h e"
| "race_of (HA_Kick_Sniff up) = RS_Kicked up"
| "race_of (HA_Wait_Sniff up) = RS_Kicked up"
| "race_of (HA_Raw t up) = RS_Raw t up"
| "race_of (HA_Bridge t h) = RS_Raw t (Some h)"
| "race_of (HA_Close_Raw t h) = RS_Raw t (Some h)"
| "race_of (HA_Reap seen) = RS_Tunnel"
| "race_of HA_Close_Up = RS_Tunnel"
| "race_of HA_Tunnel = RS_Tunnel"
| "race_of (HA_Done f) = f"

text \<open>The event of the race a step of the handler is; all other steps are none.\<close>

definition event_of :: "us_op \<Rightarrow> ups \<Rightarrow> race_event list" where
  "event_of x s =
     (case x of
        Take_Sniff \<Rightarrow> (case us_sniffCh s of None \<Rightarrow> [] | Some t \<Rightarrow> [Ev_Sniff t])
      | Take_Dial \<Rightarrow> (case us_dialCh s of None \<Rightarrow> [] | Some ok \<Rightarrow> [Ev_Dial ok])
      | Take_Head \<Rightarrow> (case us_headCh s of None \<Rightarrow> [] | Some (h, e) \<Rightarrow> [Ev_Head h e])
      | Grace \<Rightarrow> [Ev_Grace]
      | _ \<Rightarrow> [])"

lemma take_sniff_race: "take_sniff t ha = Some ha' \<Longrightarrow> race_step (Ev_Sniff t) (race_of ha) = Some (race_of ha')"
  by (cases "(t, ha)" rule: take_sniff.cases; cases t) auto

lemma take_dial_race: "take_dial ok ha = Some ha' \<Longrightarrow> race_step (Ev_Dial ok) (race_of ha) = Some (race_of ha')"
  by (cases "(ok, ha)" rule: take_dial.cases; cases ok) auto

lemma take_head_race: "take_head (h, e) ha = Some ha' \<Longrightarrow> race_step (Ev_Head h e) (race_of ha) = Some (race_of ha')"
  by (cases "((h, e), ha)" rule: take_head.cases) auto

lemma handler_step_race:
  "handler_step x s = Some s' \<Longrightarrow> race (event_of x s) (race_of (us_ha s)) = Some (race_of (us_ha s'))"
proof (cases x)
  case Grace
  then show "handler_step x s = Some s' \<Longrightarrow> ?thesis" by (cases "us_ha s") (auto simp: event_of_def)
next
  case Go_On
  then show "handler_step x s = Some s' \<Longrightarrow> ?thesis" by (cases "us_ha s") (auto simp: event_of_def split: option.splits)
next
  case Serve_End
  then show "handler_step x s = Some s' \<Longrightarrow> ?thesis" by (cases "us_ha s") (auto simp: event_of_def)
qed (auto simp: event_of_def bind_eq_Some_conv dest: take_sniff_race take_dial_race take_head_race split: option.splits)

lemma others_race:
  assumes "sniff_step x s = Some s' \<or> dial_step x s = Some s' \<or> reap_step x s = Some s'"
  shows "event_of x s = [] \<and> us_ha s' = us_ha s"
proof -
  have "event_of x s = [] \<and> us_ha s' = us_ha s" if "sniff_step x s = Some s'"
    using that by (cases x; cases "us_sn s") (auto simp: event_of_def split: if_splits)
  moreover have "event_of x s = [] \<and> us_ha s' = us_ha s" if "dial_step x s = Some s'"
    using that by (cases x; cases "us_di s") (auto simp: event_of_def split: if_splits)
  moreover have "event_of x s = [] \<and> us_ha s' = us_ha s" if "reap_step x s = Some s'"
    using that by (cases x; cases "us_re s") (auto simp: event_of_def split: if_splits option.splits)
  ultimately show ?thesis using assms by blast
qed

fun us_events :: "us_op list \<Rightarrow> ups \<Rightarrow> race_event list" where
  "us_events [] s = []"
| "us_events (x # xs) s = event_of x s @ (case us_step x s of None \<Rightarrow> [] | Some s' \<Rightarrow> us_events xs s')"

lemma race_app: "race es s = Some t \<Longrightarrow> race (es @ fs) s = race fs t"
  by (induction es arbitrary: s) (auto simp: bind_eq_Some_conv)

lemma us_step_race:
  assumes "us_step x s = Some s'"
  shows "race (event_of x s) (race_of (us_ha s)) = Some (race_of (us_ha s'))"
  using us_step_cases[OF assms] others_race[of x s s'] handler_step_race[of x s s'] by (elim disjE) simp_all

lemma us_run_race: "us_run xs s = Some s' \<Longrightarrow> race (us_events xs s) (race_of (us_ha s)) = Some (race_of (us_ha s'))"
proof (induction xs arbitrary: s)
  case (Cons x xs)
  then obtain q where q: "us_step x s = Some q" "us_run xs q = Some s'" by (auto simp: bind_eq_Some_conv)
  then show ?case using race_app[OF us_step_race[OF q(1)]] Cons.IH[OF q(2)] by simp
qed simp

section \<open>Every run ends\<close>

fun sn_rank :: "sniffer \<Rightarrow> nat" where
  "sn_rank SN_Arm = 4"
| "sn_rank SN_Peek = 3"
| "sn_rank (SN_Disarm t) = 2"
| "sn_rank (SN_Send t) = 1"
| "sn_rank SN_Done = 0"

fun di_rank :: "dialer \<Rightarrow> nat" where
  "di_rank DI_Dial = 5"
| "di_rank DI_Arm = 4"
| "di_rank DI_Read = 3"
| "di_rank (DI_Disarm h e) = 2"
| "di_rank (DI_Send h e) = 1"
| "di_rank DI_Done = 0"

fun re_rank :: "reaper \<Rightarrow> nat" where
  "re_rank RE_None = 5"
| "re_rank RE_Wait_Dial = 4"
| "re_rank RE_Kick = 3"
| "re_rank RE_Wait_Head = 2"
| "re_rank RE_Close = 1"
| "re_rank RE_Done = 0"

fun ha_rank :: "handler \<Rightarrow> nat" where
  "ha_rank HA_First = 8"
| "ha_rank HA_Wait_Dial = 7"
| "ha_rank HA_Dialed = 7"
| "ha_rank HA_Kick = 6"
| "ha_rank HA_No_Dial = 6"
| "ha_rank (HA_Head h e) = 6"
| "ha_rank HA_Wait_Head = 5"
| "ha_rank (HA_Kick_Sniff up) = 5"
| "ha_rank (HA_Unkick h e) = 4"
| "ha_rank (HA_Wait_Sniff up) = 4"
| "ha_rank (HA_Raw t up) = 3"
| "ha_rank (HA_Bridge t h) = 2"
| "ha_rank (HA_Reap seen) = 2"
| "ha_rank HA_Close_Up = 2"
| "ha_rank (HA_Close_Raw t h) = 1"
| "ha_rank HA_Tunnel = 1"
| "ha_rank (HA_Done f) = 0"

definition us_rank :: "ups \<Rightarrow> nat" where
  "us_rank s = sn_rank (us_sn s) + di_rank (us_di s) + re_rank (us_re s) + ha_rank (us_ha s)"

lemma take_sniff_rank: "take_sniff t ha = Some h \<Longrightarrow> ha_rank h < ha_rank ha"
  by (cases "(t, ha)" rule: take_sniff.cases; cases t) auto

lemma take_dial_rank: "take_dial ok ha = Some h \<Longrightarrow> ha_rank h < ha_rank ha"
  by (cases "(ok, ha)" rule: take_dial.cases; cases ok) auto

lemma take_head_rank: "take_head x ha = Some h \<Longrightarrow> ha_rank h < ha_rank ha"
  by (cases "(x, ha)" rule: take_head.cases) auto

lemma go_on_rank:
  assumes inv: "ups_inv s" and run: "handler_step Go_On s = Some s'"
  shows "us_rank s' < us_rank s"
proof (cases "us_ha s")
  case (HA_Raw t up)
  then show ?thesis using run by (cases up) (auto simp: us_rank_def)
next
  case (HA_Reap seen)
  then have "us_re s = RE_None" using no_reaper[OF inv] by (simp add: past_reap_def)
  then show ?thesis using run HA_Reap by (cases seen) (auto simp: us_rank_def)
qed (use run in \<open>auto simp: us_rank_def\<close>)

lemma handler_rank:
  assumes inv: "ups_inv s" and run: "handler_step x s = Some s'"
  shows "us_rank s' < us_rank s"
proof (cases x)
  case Go_On
  then show ?thesis using go_on_rank[OF inv] run by simp
next
  case Grace
  then show ?thesis using run by (auto simp: us_rank_def split: handler.splits)
next
  case Serve_End
  then show ?thesis using run by (auto simp: us_rank_def split: handler.splits)
qed (use run in \<open>auto simp: us_rank_def dest: take_sniff_rank take_dial_rank take_head_rank split: option.splits\<close>)

lemma us_step_rank:
  assumes inv: "ups_inv s" and run: "us_step x s = Some s'"
  shows "us_rank s' < us_rank s"
proof -
  have "us_rank s' < us_rank s" if "sniff_step x s = Some s'"
    using that by (cases x; cases "us_sn s") (auto simp: us_rank_def split: if_splits)
  moreover have "us_rank s' < us_rank s" if "dial_step x s = Some s'"
    using that by (cases x; cases "us_di s") (auto simp: us_rank_def split: if_splits)
  moreover have "us_rank s' < us_rank s" if "reap_step x s = Some s'"
    using that by (cases x; cases "us_re s") (auto simp: us_rank_def split: if_splits option.splits)
  ultimately show ?thesis using us_step_cases[OF run] handler_rank[OF inv] by blast
qed

lemma us_run_rank: "us_run xs s = Some s' \<Longrightarrow> ups_inv s \<Longrightarrow> length xs + us_rank s' \<le> us_rank s"
proof (induction xs arbitrary: s)
  case (Cons x xs)
  then obtain q where q: "us_step x s = Some q" "us_run xs q = Some s'" by (auto simp: bind_eq_Some_conv)
  show ?case using Cons.IH[OF q(2) us_step_inv[OF Cons.prems(2) q(1)]] us_step_rank[OF Cons.prems(2) q(1)] by simp
qed simp

section \<open>Nobody is waited for\<close>

text \<open>A step that needs neither a byte of the client nor one of the upstream.\<close>

fun own :: "us_op \<Rightarrow> bool" where
  "own (Sniff_Peek t) = False"
| "own (Up_Read h e) = False"
| "own x = True"

definition finished :: "ups \<Rightarrow> bool" where
  "finished s \<longleftrightarrow> (\<exists>f. us_ha s = HA_Done f) \<and> us_sn s = SN_Done \<and> us_di s = DI_Done \<and> (us_re s = RE_None \<or> us_re s = RE_Done)"

lemma us_step_intros:
  "sniff_step x s \<noteq> None \<Longrightarrow> us_step x s \<noteq> None"
  "dial_step x s \<noteq> None \<Longrightarrow> us_step x s \<noteq> None"
  "handler_step x s \<noteq> None \<Longrightarrow> us_step x s \<noteq> None"
  "reap_step x s \<noteq> None \<Longrightarrow> us_step x s \<noteq> None"
  by (auto simp: us_step_def split: option.splits)

lemma sniffer_goes_on:
  assumes "ups_inv s" "us_sn s \<noteq> SN_Done"
  shows "\<exists>x. own x \<and> sniff_step x s \<noteq> None"
proof (cases "us_sn s")
  case SN_Peek
  then show ?thesis using assms(1) by (intro exI[of _ Sniff_Timeout]) (simp add: ups_inv_def)
qed (use assms(2) in \<open>auto intro!: exI[of _ Sniff_Go]\<close>)

lemma dialer_goes_on:
  assumes "ups_inv s" "us_di s \<noteq> DI_Done"
  shows "\<exists>x. own x \<and> dial_step x s \<noteq> None"
proof (cases "us_di s")
  case DI_Read
  then show ?thesis using assms(1) by (intro exI[of _ Up_Timeout]) (simp add: ups_inv_def)
next
  case DI_Dial
  then show ?thesis by (intro exI[of _ "Dial_End True"]) simp
qed (use assms(2) in \<open>auto intro!: exI[of _ Up_Go]\<close>)

lemma reaper_goes_on:
  assumes "ups_inv s" "us_di s = DI_Done" "us_re s \<noteq> RE_None" "us_re s \<noteq> RE_Done"
  shows "\<exists>x. own x \<and> reap_step x s \<noteq> None"
proof -
  have "up_ok (reaper_stage (us_re s)) DI_Done (us_dialCh s) (us_headCh s) (us_up s)"
    using assms(1-3) by (simp add: ups_inv_def stage_of_def)
  then have "reap_step Reap_Go s \<noteq> None" using assms(3,4) by (cases "us_re s"; cases "us_dialCh s") auto
  then show ?thesis by (intro exI[of _ Reap_Go]) simp
qed

lemma handler_goes_on:
  assumes inv: "ups_inv s" and idle: "us_sn s = SN_Done" "us_di s = DI_Done" and not: "\<nexists>f. us_ha s = HA_Done f"
  shows "\<exists>x. own x \<and> handler_step x s \<noteq> None"
proof -
  have sc: "sniff_open (us_ha s) \<Longrightarrow> \<exists>t. us_sniffCh s = Some t" using inv idle(1) by (simp add: ups_inv_def sniff_ok_def)
  have up: "up_ok (handler_stage (us_ha s)) DI_Done (us_dialCh s) (us_headCh s) (us_up s)" if "\<not> past_reap (us_ha s)"
    using inv idle(2) no_reaper[OF inv that] by (simp add: ups_inv_noreap)
  show ?thesis
  proof (cases "us_ha s")
    case HA_First
    then show ?thesis using sc by (intro exI[of _ Take_Sniff]) auto
  next
    case HA_Wait_Dial
    then have "us_dialCh s \<noteq> None" using up by (cases "us_dialCh s") (simp_all add: past_reap_def)
    then show ?thesis using HA_Wait_Dial by (intro exI[of _ Take_Dial]) auto
  next
    case HA_Wait_Head
    then have "us_headCh s \<noteq> None" using up by (simp add: past_reap_def)
    then show ?thesis using HA_Wait_Head by (intro exI[of _ Take_Head]) auto
  next
    case HA_Dialed
    then show ?thesis using sc by (intro exI[of _ Take_Sniff]) auto
  next
    case (HA_Wait_Sniff up)
    then show ?thesis using sc by (intro exI[of _ Take_Sniff]) auto
  next
    case HA_No_Dial
    then show ?thesis by (intro exI[of _ Grace]) simp
  next
    case (HA_Head h e)
    then show ?thesis by (intro exI[of _ Grace]) simp
  next
    case (HA_Bridge t h)
    then show ?thesis by (intro exI[of _ Serve_End]) simp
  next
    case HA_Tunnel
    then show ?thesis by (intro exI[of _ Serve_End]) simp
  qed (use not in \<open>auto intro!: exI[of _ Go_On]\<close>)
qed

lemma not_stuck:
  assumes inv: "ups_inv s" and not: "\<not> finished s"
  shows "\<exists>x. own x \<and> us_step x s \<noteq> None"
proof (cases "us_sn s = SN_Done \<and> us_di s = DI_Done")
  case True
  show ?thesis
  proof (cases "\<exists>f. us_ha s = HA_Done f")
    case True
    then have "us_re s \<noteq> RE_None \<and> us_re s \<noteq> RE_Done" using not \<open>us_sn s = SN_Done \<and> us_di s = DI_Done\<close> by (simp add: finished_def)
    then show ?thesis using reaper_goes_on[OF inv] \<open>us_sn s = SN_Done \<and> us_di s = DI_Done\<close> us_step_intros(4) by blast
  next
    case False
    then show ?thesis using handler_goes_on[OF inv] True us_step_intros(3) by blast
  qed
next
  case False
  then show ?thesis using sniffer_goes_on[OF inv] dialer_goes_on[OF inv] us_step_intros(1,2) by blast
qed

lemma finished_closed: "ups_inv s \<Longrightarrow> finished s \<Longrightarrow> us_up s \<noteq> UP_Open \<and> us_sniffCh s = None \<and> us_dialCh s = None \<and> us_headCh s = None"
  by (auto simp: ups_inv_def finished_def stage_of_def sniff_ok_def)


text \<open>
  C36: the goroutines implement the race of \<open>race_step\<close>: what the handler receives, in that order, is a run of the race, and
  where the handler is, is where the race is. And nothing is read by two at a time: when the session of the tunnel or
  the bridge reads the client, the sniffing has ended; when the bridge reads the upstream, its first read has ended
  and nobody has closed it.
\<close>

theorem upstream_runs_race:
  assumes "us_run xs ups_start = Some s"
  shows "race (us_events xs ups_start) RS_Start = Some (race_of (us_ha s)) \<and>
    (case us_ha s of
       HA_Tunnel \<Rightarrow> us_sn s = SN_Done
     | HA_Bridge t h \<Rightarrow> us_sn s = SN_Done \<and> us_di s = DI_Done \<and> us_re s = RE_None \<and> us_up s = UP_Open
     | _ \<Rightarrow> True)"
proof -
  have inv: "ups_inv s" using us_run_inv[OF assms ups_inv_start] .
  have "race (us_events xs ups_start) RS_Start = Some (race_of (us_ha s))"
    using us_run_race[OF assms] by (simp add: ups_start_def)
  then show ?thesis using inv no_reaper[OF inv]
    by (cases "us_ha s") (simp_all add: ups_inv_def sniff_ok_def stage_of_def past_reap_def)
qed

text \<open>A tunnel whose upstream is dialled while it is served, and reaped.\<close>

definition demo_us :: "us_op list" where
  "demo_us = [Sniff_Go, Sniff_Peek True, Sniff_Go, Sniff_Go, Take_Sniff, Go_On, Dial_End True, Reap_Go, Up_Go, Reap_Go,
     Up_Timeout, Up_Go, Up_Go, Reap_Go, Reap_Go, Serve_End]"

lemma demo_us_run: "\<exists>s. us_run demo_us ups_start = Some s \<and> finished s \<and> us_up s = UP_Closed"
  by (simp add: demo_us_def us_step_def ups_start_def finished_def)


theorem upstream_runs_race_witness:
  "race (us_events (take 6 demo_us) ups_start) RS_Start = Some RS_Tunnel \<and>
   (\<exists>s. us_run (take 6 demo_us) ups_start = Some s \<and> us_ha s = HA_Tunnel \<and> us_sn s = SN_Done)"
proof -
  obtain s where s: "us_run (take 6 demo_us) ups_start = Some s" "us_ha s = HA_Tunnel"
    by (simp add: demo_us_def us_step_def ups_start_def)
  from upstream_runs_race[OF s(1)] s show ?thesis by simp
qed

text \<open>
  The deadline that is to cut the first read short may be overwritten: the goroutine of the dial sends its
  result before it sets its own deadline. The handler then waits for the first block until the opening times out.
\<close>

lemma kick_is_lost:
  "\<exists>s. us_run [Sniff_Go, Sniff_Peek False, Sniff_Go, Sniff_Go, Take_Sniff, Dial_End True, Take_Dial, Go_On, Up_Go] ups_start = Some s \<and>
     us_ha s = HA_Wait_Head \<and> us_di s = DI_Read \<and> us_udl s = DL_Ahead"
  by (simp add: us_step_def ups_start_def)

end
