(* ===== verification/Policy.thy ===== *)
theory Policy
  imports Stream_Run Go_Strings
begin

text \<open>
  The transports of \<open>src/transport.go\<close> and the path policy of \<open>src/policy.go\<close>: the snapshot a policy sees,
  the built-in policy, the candidates, and the guards under which a decision is carried out. A multiaddress
  (go-multiaddr) is what the code reads of it: the codes of its protocols and its text; \<open>peer.SplitAddr\<close>,
  which takes the peer suffix off an address, is a parameter. \<open>PathInfo\<close> is modelled without the identity
  and addresses of the connection, the snapshot without the identity of the stream. Evaluations and dials
  run in goroutines of their own: the critical sections are definitions, and a run interleaves them.
\<close>

section \<open>Transports\<close>

datatype ma_proto = P_CIRCUIT | P_WEBRTC_DIRECT | P_WEBTRANSPORT | P_QUIC_V1 | P_QUIC | P_WS | P_WSS | P_TCP | P_OTHER nat

record maddr =
  ma_protos :: "ma_proto list"
  ma_text :: string

datatype path_transport =
    TransportUnknown | TransportTCP | TransportWebSocket | TransportQUIC | TransportWebTransport
  | TransportWebRTCDirect | TransportRelay

fun transport_String :: "path_transport \<Rightarrow> string" where
  "transport_String TransportTCP = ''tcp''"
| "transport_String TransportWebSocket = ''websocket''"
| "transport_String TransportQUIC = ''quic''"
| "transport_String TransportWebTransport = ''webtransport''"
| "transport_String TransportWebRTCDirect = ''webrtc-direct''"
| "transport_String TransportRelay = ''relay''"
| "transport_String TransportUnknown = ''unknown''"

fun Priority :: "path_transport \<Rightarrow> nat" where
  "Priority TransportTCP = 0"
| "Priority TransportWebSocket = 0"
| "Priority TransportQUIC = 1"
| "Priority TransportWebTransport = 2"
| "Priority TransportWebRTCDirect = 3"
| "Priority TransportRelay = 4"
| "Priority TransportUnknown = 4"

definition PathTransportOf :: "maddr option \<Rightarrow> path_transport" where
  "PathTransportOf addr =
     (case addr of
        None \<Rightarrow> TransportUnknown
      | Some a \<Rightarrow>
          let has = (\<lambda>ks. list_ex (\<lambda>p. p \<in> set ks) (ma_protos a)) in
          if has [P_CIRCUIT] then TransportRelay
          else if has [P_WEBRTC_DIRECT] then TransportWebRTCDirect
          else if has [P_WEBTRANSPORT] then TransportWebTransport
          else if has [P_QUIC_V1, P_QUIC] then TransportQUIC
          else if has [P_WS, P_WSS] then TransportWebSocket
          else if has [P_TCP] then TransportTCP
          else TransportUnknown)"

definition addr_rank :: "maddr \<Rightarrow> nat" where
  "addr_rank a = Priority (PathTransportOf (Some a))"

text \<open>\<open>sort.SliceStable\<close>: a stable sort is determined by its key.\<close>

definition SortAddrsByPreference :: "maddr list \<Rightarrow> maddr list" where
  "SortAddrsByPreference addrs = sort_key addr_rank addrs"

text \<open>\<open>path.transport\<close>, from the multiaddresses of the two ends, where the connection has any.\<close>

definition transport_of :: "maddr option option \<Rightarrow> maddr option option \<Rightarrow> path_transport" where
  "transport_of la ra =
     (case la of
        Some l \<Rightarrow>
          if PathTransportOf l \<noteq> TransportUnknown then PathTransportOf l
          else (case ra of Some r \<Rightarrow> PathTransportOf r | None \<Rightarrow> TransportUnknown)
      | None \<Rightarrow> (case ra of Some r \<Rightarrow> PathTransportOf r | None \<Rightarrow> TransportUnknown))"

section \<open>Constants and records\<close>

definition policyMaxPaths :: nat where "policyMaxPaths = 4"
definition policyAddMinBacklog :: int where "policyAddMinBacklog = 500 * millisecond"
definition defaultPolicyCooldown :: int where "defaultPolicyCooldown = second"
definition policyAddMaxShift :: int where "policyAddMaxShift = 5"
definition policyPathWarmup :: int where "policyPathWarmup = 2 * second"
definition policyLowSharePct :: rat where "policyLowSharePct = fl64 (1 / 20)"
definition policyRemoveMinLowFor :: int where "policyRemoveMinLowFor = 3 * second"
definition policyRemoveKeepPaths :: nat where "policyRemoveKeepPaths = 2"
definition policyAddTryN :: nat where "policyAddTryN = 3"

lemmas policy_consts = policyMaxPaths_def policyAddMinBacklog_def defaultPolicyCooldown_def policyAddMaxShift_def
  policyPathWarmup_def policyRemoveMinLowFor_def policyRemoveKeepPaths_def policyAddTryN_def

record path_info =
  pi_id :: u64
  pi_dialed :: bool
  pi_attachedAt :: gotime
  pi_auto :: bool
  pi_srtt :: int
  pi_minRTT :: int
  pi_estRate :: rat
  pi_inflight :: int
  pi_suspect :: bool

definition path_info :: "gotime \<Rightarrow> path \<Rightarrow> path_info" where
  "path_info now p =
     \<lparr>pi_id = p_id p, pi_dialed = p_dialed p, pi_attachedAt = p_attachedAt p, pi_auto = p_auto p, pi_srtt = p_srtt p,
      pi_minRTT = p_minRTT p, pi_estRate = effRate now p, pi_inflight = p_inflight p, pi_suspect = p_suspect p\<rparr>"

record policy_path =
  pp_info :: path_info
  pp_lowFor :: int

record policy_snapshot =
  sn_now :: gotime
  sn_paths :: "policy_path list"
  sn_pending :: int
  sn_backlogFor :: int
  sn_unacked :: u64
  sn_candidates :: "maddr list"
  sn_nextAutoAddAt :: gotime
  sn_autoAddFails :: int

record policy_decision =
  pd_add :: "maddr list"
  pd_remove :: "u64 list"

text \<open>The fields of the stream that belong to the policy.\<close>

record policy_state =
  ps_backlogSince :: gotime
  ps_evalActive :: bool
  ps_dialActive :: bool
  ps_nextAutoAddAt :: gotime
  ps_autoAddFails :: int
  ps_cooldown :: int

definition new_policy_state :: "int \<Rightarrow> policy_state" where
  "new_policy_state cooldown = \<lparr>ps_backlogSince = Zero_Time, ps_evalActive = False, ps_dialActive = False,
     ps_nextAutoAddAt = Zero_Time, ps_autoAddFails = 0, ps_cooldown = cooldown\<rparr>"

section \<open>The built-in policy\<close>

fun pick_low :: "nat \<Rightarrow> policy_path list \<Rightarrow> u64 list \<Rightarrow> u64 list" where
  "pick_low live [] rm = rm"
| "pick_low live (pp # pps) rm =
     (if int live - int (length rm) \<le> int policyRemoveKeepPaths then rm
      else if \<not> pi_auto (pp_info pp) \<or> pp_lowFor pp < policyRemoveMinLowFor then pick_low live pps rm
      else pick_low live pps (rm @ [pi_id (pp_info pp)]))"

definition default_Decide :: "policy_snapshot \<Rightarrow> policy_decision" where
  "default_Decide sn =
     (let live = length (sn_paths sn);
          adds = (if policyAddMinBacklog \<le> sn_backlogFor sn \<and> live < policyMaxPaths \<and>
                     \<not> time_before (sn_now sn) (sn_nextAutoAddAt sn) \<and> 0 < length (sn_candidates sn)
                  then take (min policyAddTryN (length (sn_candidates sn))) (sn_candidates sn) else []);
          removes = (if sn_backlogFor sn = 0 \<and> policyRemoveKeepPaths < live then pick_low live (sn_paths sn) [] else [])
      in \<lparr>pd_add = adds, pd_remove = removes\<rparr>)"

section \<open>The snapshot\<close>

definition sinceOrZero :: "gotime \<Rightarrow> gotime \<Rightarrow> int" where
  "sinceOrZero t now = (if is_zero_time t then 0 else time_sub now t)"

text \<open>
  \<open>policyCandidatesLocked\<close>: \<open>strip\<close> is \<open>stripP2PSuffix\<close>, \<open>book\<close> the addresses of the peer, \<open>used\<close> the texts of
  the remote addresses of the paths.
\<close>

definition eligible :: "(maddr \<Rightarrow> maddr option) \<Rightarrow> maddr list \<Rightarrow> maddr list" where
  "eligible strip book =
     concat (map (\<lambda>a. case strip a of
        None \<Rightarrow> []
      | Some b \<Rightarrow> if PathTransportOf (Some b) = TransportRelay then [] else [b]) book)"

definition policyCandidates :: "(maddr \<Rightarrow> maddr option) \<Rightarrow> maddr list \<Rightarrow> string list \<Rightarrow> maddr list" where
  "policyCandidates strip book used =
     (let addrs = SortAddrsByPreference (eligible strip book) in
      if 1 < length addrs
      then filter (\<lambda>a. ma_text a \<notin> set used) addrs @ filter (\<lambda>a. ma_text a \<in> set used) addrs
      else addrs)"

definition share_rate :: "gotime \<Rightarrow> path \<Rightarrow> rat" where
  "share_rate now p = max (effRate now p) (p_rxRate p)"

definition agg_rate :: "gotime \<Rightarrow> path list \<Rightarrow> rat" where
  "agg_rate now ps = foldl (\<lambda>a p. fl64 (a + share_rate now p)) 0 ps"

definition is_low :: "gotime \<Rightarrow> rat \<Rightarrow> path \<Rightarrow> bool" where
  "is_low now agg p \<longleftrightarrow> 0 < agg \<and> share_rate now p < fl64 (agg * policyLowSharePct) \<and>
     policyPathWarmup \<le> time_sub now (p_attachedAt p)"

definition note_low :: "gotime \<Rightarrow> rat \<Rightarrow> path \<Rightarrow> path" where
  "note_low now agg p =
     (if is_low now agg p then (if is_zero_time (p_lowSince p) then p\<lparr>p_lowSince := now\<rparr> else p)
      else p\<lparr>p_lowSince := Zero_Time\<rparr>)"

definition note_backlog :: "gotime \<Rightarrow> stream \<Rightarrow> policy_state \<Rightarrow> policy_state" where
  "note_backlog now s q =
     (if st_gotWindow s \<and> 0 < st_pendingBytes s
      then (if is_zero_time (ps_backlogSince q) then q\<lparr>ps_backlogSince := now\<rparr> else q)
      else q\<lparr>ps_backlogSince := Zero_Time\<rparr>)"

definition policySnapshot ::
  "gotime \<Rightarrow> maddr list \<Rightarrow> stream \<Rightarrow> policy_state \<Rightarrow> policy_snapshot option \<times> stream \<times> policy_state" where
  "policySnapshot now cands s q =
     (if st_closed s then (None, s, q)
      else
        let q = note_backlog now s q;
            ps = map (note_low now (agg_rate now (st_paths s))) (st_paths s) in
        (Some \<lparr>sn_now = now,
           sn_paths = map (\<lambda>p. \<lparr>pp_info = path_info now p, pp_lowFor = sinceOrZero (p_lowSince p) now\<rparr>) ps,
           sn_pending = st_pendingBytes s, sn_backlogFor = sinceOrZero (ps_backlogSince q) now,
           sn_unacked = st_sentOff s - st_cumAcked s, sn_candidates = cands,
           sn_nextAutoAddAt = ps_nextAutoAddAt q, sn_autoAddFails = ps_autoAddFails q\<rparr>,
         s\<lparr>st_paths := ps\<rparr>, q))"

section \<open>Carrying out a decision\<close>

definition execPolicyAdd :: "gotime \<Rightarrow> stream \<Rightarrow> policy_state \<Rightarrow> bool \<times> policy_state" where
  "execPolicyAdd now s q =
     (if st_closed s \<or> ps_dialActive q \<or> time_before now (ps_nextAutoAddAt q) \<or> policyMaxPaths \<le> length (st_paths s)
      then (False, q) else (True, q\<lparr>ps_dialActive := True\<rparr>))"

text \<open>The dials in order: for each address, whether the stream had ended and what \<open>AddPath\<close> returned.\<close>

datatype dial_outcome = Dial_None | Dial_OK u64 | Dial_Aborted | Dial_Failed

fun try_dials :: "(bool \<times> u64 option) list \<Rightarrow> dial_outcome" where
  "try_dials [] = Dial_Failed"
| "try_dials ((ended, r) # zs) =
     (if ended then Dial_Aborted else case r of Some i \<Rightarrow> Dial_OK i | None \<Rightarrow> try_dials zs)"

definition policy_dial :: "(bool \<times> u64 option) list \<Rightarrow> dial_outcome" where
  "policy_dial zs = (if zs = [] then Dial_None else try_dials zs)"

definition policyCooldownDur :: "policy_state \<Rightarrow> int" where
  "policyCooldownDur q = (if 0 < ps_cooldown q then ps_cooldown q else defaultPolicyCooldown)"

definition finish_dial :: "gotime \<Rightarrow> dial_outcome \<Rightarrow> stream \<Rightarrow> policy_state \<Rightarrow> stream \<times> policy_state" where
  "finish_dial now r s q =
     (let q = q\<lparr>ps_dialActive := False\<rparr> in
      case r of
        Dial_None \<Rightarrow> (s, q)
      | Dial_Aborted \<Rightarrow> (s, q)
      | Dial_OK i \<Rightarrow>
          (s\<lparr>st_paths := upd_path i (\<lambda>p. p\<lparr>p_auto := True\<rparr>) (st_paths s)\<rparr>,
           q\<lparr>ps_autoAddFails := 0, ps_nextAutoAddAt := time_add now (policyCooldownDur q)\<rparr>)
      | Dial_Failed \<Rightarrow>
          let fails = ps_autoAddFails q + 1; shift = min (fails - 1) policyAddMaxShift in
          (s, q\<lparr>ps_autoAddFails := fails,
                ps_nextAutoAddAt := time_add now (wrap64 (policyCooldownDur q * 2 ^ nat shift))\<rparr>))"

fun pick_targets :: "gotime \<Rightarrow> path list \<Rightarrow> u64 list \<Rightarrow> u64 list \<Rightarrow> u64 list" where
  "pick_targets now ps [] tg = tg"
| "pick_targets now ps (i # is) tg =
     (if int (length ps) - int (length tg) \<le> 1 then tg
      else case lookup i ps of
        None \<Rightarrow> pick_targets now ps is tg
      | Some p \<Rightarrow>
          if time_sub now (p_attachedAt p) < policyPathWarmup then pick_targets now ps is tg
          else pick_targets now ps is (tg @ [i]))"

definition remove_all_paths :: "(u64 \<Rightarrow> bool) \<Rightarrow> u64 list \<Rightarrow> stream \<Rightarrow> stream" where
  "remove_all_paths wr tg s = foldl (\<lambda>s i. snd (removePath wr i s)) s tg"

definition execPolicyRemove :: "(u64 \<Rightarrow> bool) \<Rightarrow> u64 list \<Rightarrow> gotime \<Rightarrow> stream \<Rightarrow> stream" where
  "execPolicyRemove wr ids now s =
     (if st_closed s then s else remove_all_paths wr (pick_targets now (st_paths s) ids []) s)"

text \<open>
  \<open>runPolicy\<close>: the snapshot, under the flag that keeps evaluations of a stream apart, and what is done with
  the decision.
\<close>

definition eval_begin ::
  "gotime \<Rightarrow> maddr list \<Rightarrow> stream \<Rightarrow> policy_state \<Rightarrow> policy_snapshot option \<times> stream \<times> policy_state" where
  "eval_begin now cands s q =
     (if \<not> cf_policy (st_cfg s) \<or> ps_evalActive q then (None, s, q)
      else case policySnapshot now cands s (q\<lparr>ps_evalActive := True\<rparr>) of
        (None, s, q) \<Rightarrow> (None, s, q\<lparr>ps_evalActive := False\<rparr>)
      | (Some sn, s, q) \<Rightarrow> (Some sn, s, q))"

definition eval_finish ::
  "(u64 \<Rightarrow> bool) \<Rightarrow> gotime \<Rightarrow> policy_decision \<Rightarrow> stream \<Rightarrow> policy_state \<Rightarrow> bool \<times> stream \<times> policy_state" where
  "eval_finish wr now d s q =
     (let s = (if 0 < length (pd_remove d) then execPolicyRemove wr (pd_remove d) now s else s);
          (dial, q) = (if 0 < length (pd_add d) then execPolicyAdd now s q else (False, q)) in
      (dial, s, q\<lparr>ps_evalActive := False\<rparr>))"

section \<open>Candidates\<close>

definition cand_key :: "string list \<Rightarrow> maddr \<Rightarrow> bool \<times> nat" where
  "cand_key used a = (ma_text a \<in> set used, addr_rank a)"

lemma stable_sort_filter: "filter (\<lambda>a. f a = k) (sort_key f xs) = filter (\<lambda>a. f a = k) xs"
  by (rule sort_key_stable)

lemma eligible_not_relay: "a \<in> set (eligible strip book) \<Longrightarrow> PathTransportOf (Some a) \<noteq> TransportRelay"
  by (auto simp: eligible_def split: option.splits if_splits)

lemma policyCandidates_mset: "mset (policyCandidates strip book used) = mset (eligible strip book)"
proof -
  have "mset (filter P xs) + mset (filter (\<lambda>a. \<not> P a) xs) = mset xs" for P and xs :: "maddr list"
    by (induction xs) auto
  from this[of "\<lambda>a. ma_text a \<notin> set used" "SortAddrsByPreference (eligible strip book)"]
  show ?thesis by (simp add: policyCandidates_def Let_def SortAddrsByPreference_def)
qed

lemma sorted_by_rank: "sorted_wrt (\<lambda>a b. addr_rank a \<le> addr_rank b) (SortAddrsByPreference xs)"
  using sorted_sort_key[of addr_rank xs] by (simp add: SortAddrsByPreference_def sorted_map)

lemma policyCandidates_sorted:
  "sorted_wrt (\<lambda>a b. cand_key used a \<le> cand_key used b) (policyCandidates strip book used)"
proof (cases "1 < length (eligible strip book)")
  case True
  let ?xs = "SortAddrsByPreference (eligible strip book)"
  have f: "sorted_wrt (\<lambda>a b. cand_key used a \<le> cand_key used b) (filter (\<lambda>a. (ma_text a \<in> set used) = v) ?xs)" for v
  proof (rule sorted_wrt_mono_rel[OF _ sorted_wrt_filter[OF sorted_by_rank]])
    fix a b assume "a \<in> set (filter (\<lambda>a. (ma_text a \<in> set used) = v) ?xs)" "b \<in> set (filter (\<lambda>a. (ma_text a \<in> set used) = v) ?xs)"
      "addr_rank a \<le> addr_rank b"
    then show "cand_key used a \<le> cand_key used b" by (auto simp: cand_key_def less_eq_prod_def)
  qed
  have "length ?xs = length (eligible strip book)" by (simp add: SortAddrsByPreference_def)
  then show ?thesis using True f[of False] f[of True]
    by (auto simp: policyCandidates_def Let_def sorted_wrt_append cand_key_def less_eq_prod_def)
next
  case False
  then have "length (policyCandidates strip book used) \<le> 1"
    using policyCandidates_mset[of strip book used] by (metis mset_eq_length not_less)
  then show ?thesis by (cases "policyCandidates strip book used" rule: list.exhaust) (auto simp: sorted_wrt01)
qed

text \<open>
  The candidates a policy is offered are exactly the addresses of the peer that are not relay addresses;
  addresses no path uses come first, then by preference of their transport, and equal ones keep the order of
  the address book. These facts determine the list.
\<close>
theorem policy_candidates_spec:
  "mset (policyCandidates strip book used) = mset (eligible strip book) \<and>
   list_all (\<lambda>a. PathTransportOf (Some a) \<noteq> TransportRelay) (policyCandidates strip book used) \<and>
   sorted_wrt (\<lambda>a b. cand_key used a \<le> cand_key used b) (policyCandidates strip book used) \<and>
   filter (\<lambda>a. cand_key used a = k) (policyCandidates strip book used) =
     filter (\<lambda>a. cand_key used a = k) (eligible strip book)"
proof -
  let ?xs = "SortAddrsByPreference (eligible strip book)"
  have "filter (\<lambda>a. cand_key used a = k) ?xs = filter (\<lambda>a. cand_key used a = k) (eligible strip book)"
  proof -
    have "filter (\<lambda>a. cand_key used a = k) xs = filter (\<lambda>a. (ma_text a \<in> set used) = fst k) (filter (\<lambda>a. addr_rank a = snd k) xs)" for xs
      by (auto simp: cand_key_def prod_eq_iff intro!: filter_cong)
    from this[of ?xs] this[of "eligible strip book"] show ?thesis
      by (simp only: SortAddrsByPreference_def stable_sort_filter)
  qed
  moreover have "filter (\<lambda>a. cand_key used a = k) (policyCandidates strip book used) = filter (\<lambda>a. cand_key used a = k) ?xs"
  proof (cases "fst k")
    case True
    then have "filter (\<lambda>a. ma_text a \<notin> set used \<and> cand_key used a = k) ?xs = []"
      "filter (\<lambda>a. ma_text a \<in> set used \<and> cand_key used a = k) ?xs = filter (\<lambda>a. cand_key used a = k) ?xs"
      by (auto simp: cand_key_def filter_empty_conv intro!: filter_cong)
    then show ?thesis by (simp add: policyCandidates_def Let_def)
  next
    case False
    then have "filter (\<lambda>a. ma_text a \<in> set used \<and> cand_key used a = k) ?xs = []"
      "filter (\<lambda>a. ma_text a \<notin> set used \<and> cand_key used a = k) ?xs = filter (\<lambda>a. cand_key used a = k) ?xs"
      by (auto simp: cand_key_def filter_empty_conv intro!: filter_cong)
    then show ?thesis by (simp add: policyCandidates_def Let_def)
  qed
  moreover have "PathTransportOf (Some a) \<noteq> TransportRelay" if "a \<in> set (policyCandidates strip book used)" for a
    using that mset_eq_setD[OF policyCandidates_mset] eligible_not_relay by blast
  ultimately show ?thesis using policyCandidates_mset policyCandidates_sorted by (auto simp: list_all_iff)
qed

section \<open>The built-in policy is conservative\<close>

lemma pick_low_bound:
  "length rm + policyRemoveKeepPaths \<le> live \<Longrightarrow> length (pick_low live pps rm) + policyRemoveKeepPaths \<le> live"
  by (induction live pps rm rule: pick_low.induct) auto

lemma pick_low_members:
  "i \<in> set (pick_low live pps rm) \<Longrightarrow> i \<in> set rm \<or>
     (\<exists>pp \<in> set pps. pi_id (pp_info pp) = i \<and> pi_auto (pp_info pp) \<and> policyRemoveMinLowFor \<le> pp_lowFor pp)"
  by (induction live pps rm rule: pick_low.induct) (auto split: if_splits)

lemma note_low_id [simp]: "p_id (note_low now agg p) = p_id p" "p_auto (note_low now agg p) = p_auto p"
  "p_attachedAt (note_low now agg p) = p_attachedAt p" "p_dead (note_low now agg p) = p_dead p"
  by (simp_all add: note_low_def)

lemma note_low_since: "p_lowSince (note_low now agg p) \<noteq> Zero_Time \<Longrightarrow> is_low now agg p"
  by (simp add: note_low_def split: if_splits)

lemma eval_begin_Some:
  assumes "eval_begin now cands s q = (Some sn, s', q')"
  shows "\<not> st_closed s \<and> st_paths s' = map (note_low now (agg_rate now (st_paths s))) (st_paths s) \<and>
    sn_paths sn = map (\<lambda>p. \<lparr>pp_info = path_info now p, pp_lowFor = sinceOrZero (p_lowSince p) now\<rparr>) (st_paths s') \<and>
    sn_candidates sn = cands \<and> sn_now sn = now \<and> sn_nextAutoAddAt sn = ps_nextAutoAddAt q' \<and>
    sn_backlogFor sn = sinceOrZero (ps_backlogSince q') now \<and>
    (ps_backlogSince q' \<noteq> Zero_Time \<longrightarrow> st_gotWindow s \<and> 0 < st_pendingBytes s)"
  using assms
  by (auto simp: eval_begin_def policySnapshot_def note_backlog_def Let_def split: if_splits prod.splits option.splits)

text \<open>
  The built-in policy on the snapshot of a stream. It adds only under a backlog that has lasted half a
  second, with fewer than four paths and outside the cool-down, and offers the first three candidates at
  most; it removes only when nothing is backed up, only paths the policy added itself, that are past their
  warm-up and carry less than a twentieth of the traffic and have done so for three seconds; at least two
  paths remain; and it never does both.
\<close>
theorem default_policy_conservative:
  assumes "eval_begin now cands s q = (Some sn, s', q')" and "default_Decide sn = d"
  shows "(pd_add d = [] \<or> pd_remove d = []) \<and>
    (pd_add d = [] \<or>
       pd_add d = take 3 cands \<and> 500 * millisecond \<le> time_sub now (ps_backlogSince q') \<and>
       st_gotWindow s \<and> 0 < st_pendingBytes s \<and> length (st_paths s) < 4 \<and> \<not> time_before now (ps_nextAutoAddAt q')) \<and>
    (pd_remove d = [] \<or> length (pd_remove d) + 2 \<le> length (st_paths s)) \<and>
    (\<forall>i \<in> set (pd_remove d). \<exists>p \<in> set (st_paths s). p_id p = i \<and> p_auto p \<and>
       2 * second \<le> time_sub now (p_attachedAt p) \<and> is_low now (agg_rate now (st_paths s)) p \<and>
       (p_lowSince p \<noteq> Zero_Time \<and> 3 * second \<le> time_sub now (p_lowSince p)))"
proof -
  note f = eval_begin_Some[OF assms(1)]
  define adds where "adds = (policyAddMinBacklog \<le> sn_backlogFor sn \<and> length (sn_paths sn) < policyMaxPaths \<and>
      \<not> time_before (sn_now sn) (sn_nextAutoAddAt sn) \<and> 0 < length (sn_candidates sn))"
  have len: "length (sn_paths sn) = length (st_paths s)" using f by simp
  have add: "pd_add d = (if adds then take (min policyAddTryN (length cands)) cands else [])"
    using assms(2) f by (auto simp: default_Decide_def Let_def adds_def)
  have rem: "pd_remove d = (if sn_backlogFor sn = 0 \<and> policyRemoveKeepPaths < length (st_paths s)
      then pick_low (length (st_paths s)) (sn_paths sn) [] else [])"
    using assms(2) len by (auto simp: default_Decide_def Let_def)
  have bl: "0 < sn_backlogFor sn \<Longrightarrow> ps_backlogSince q' \<noteq> Zero_Time"
    using f by (auto simp: sinceOrZero_def is_zero_time_def split: if_splits)
  have A: "pd_add d = [] \<or> pd_remove d = []" by (auto simp: add rem adds_def policy_consts millisecond_def)
  have B: "pd_add d = [] \<or>
       pd_add d = take 3 cands \<and> 500 * millisecond \<le> time_sub now (ps_backlogSince q') \<and>
       st_gotWindow s \<and> 0 < st_pendingBytes s \<and> length (st_paths s) < 4 \<and> \<not> time_before now (ps_nextAutoAddAt q')"
  proof (cases adds)
    case True
    then have "0 < sn_backlogFor sn" by (simp add: adds_def policy_consts millisecond_def)
    then have nz: "ps_backlogSince q' \<noteq> Zero_Time" by (rule bl)
    then have "sn_backlogFor sn = time_sub now (ps_backlogSince q')" using f by (simp add: sinceOrZero_def is_zero_time_def)
    moreover have "take (min policyAddTryN (length cands)) cands = take 3 cands"
      by (simp add: policyAddTryN_def min_def)
    ultimately show ?thesis using True add f nz len by (simp add: adds_def policyAddMinBacklog_def policyMaxPaths_def)
  qed (simp add: add)
  have C: "pd_remove d = [] \<or> length (pd_remove d) + 2 \<le> length (st_paths s)"
  proof (cases "pd_remove d = []")
    case False
    then have "policyRemoveKeepPaths < length (st_paths s)" "pd_remove d = pick_low (length (st_paths s)) (sn_paths sn) []"
      by (auto simp: rem split: if_splits)
    then show ?thesis using pick_low_bound[of "[]" "length (st_paths s)" "sn_paths sn"] by (simp add: policyRemoveKeepPaths_def)
  qed simp
  have D: "\<exists>p \<in> set (st_paths s). p_id p = i \<and> p_auto p \<and>
       2 * second \<le> time_sub now (p_attachedAt p) \<and> is_low now (agg_rate now (st_paths s)) p \<and>
       (p_lowSince p \<noteq> Zero_Time \<and> 3 * second \<le> time_sub now (p_lowSince p))"
    if "i \<in> set (pd_remove d)" for i
  proof -
    let ?agg = "agg_rate now (st_paths s)"
    have "i \<in> set (pick_low (length (st_paths s)) (sn_paths sn) [])" using that by (simp add: rem split: if_splits)
    then obtain pp where pp: "pp \<in> set (sn_paths sn)" "pi_id (pp_info pp) = i" "pi_auto (pp_info pp)"
        "policyRemoveMinLowFor \<le> pp_lowFor pp"
      using pick_low_members by fastforce
    then obtain p where p: "p \<in> set (st_paths s)"
        "pp = \<lparr>pp_info = path_info now (note_low now ?agg p), pp_lowFor = sinceOrZero (p_lowSince (note_low now ?agg p)) now\<rparr>"
      using f by auto
    let ?l = "p_lowSince (note_low now ?agg p)"
    have pos: "(0::int) < 3 * second" by (simp add: second_def)
    have l: "?l \<noteq> Zero_Time" "3 * second \<le> time_sub now ?l"
      using pp(4) p(2) pos by (auto simp: sinceOrZero_def is_zero_time_def policyRemoveMinLowFor_def split: if_splits)
    then have low: "is_low now ?agg p" using note_low_since by blast
    have same: "p_lowSince p = ?l"
    proof (rule ccontr)
      assume "p_lowSince p \<noteq> ?l"
      then have "?l = now" using low by (simp add: note_low_def split: if_splits)
      then show False using l pos by simp
    qed
    show ?thesis using pp p low l unfolding same[symmetric]
      by (intro bexI[of _ p]) (auto simp: path_info_def is_low_def policyPathWarmup_def)
  qed
  show ?thesis using A B C D by blast
qed

section \<open>Removals\<close>

definition without :: "u64 list \<Rightarrow> path list \<Rightarrow> path list" where
  "without tg ps = filter (\<lambda>p. p_id p \<notin> set tg) ps"

lemma pick_targets_members:
  "i \<in> set (pick_targets now ps is tg) \<Longrightarrow> i \<in> set tg \<or>
     i \<in> set is \<and> (\<exists>p. lookup i ps = Some p \<and> policyPathWarmup \<le> time_sub now (p_attachedAt p))"
  by (induction now ps "is" tg rule: pick_targets.induct) (auto split: if_splits option.splits)

lemma pick_targets_length:
  "length tg < length ps \<Longrightarrow> length (pick_targets now ps is tg) < length ps"
  by (induction now ps "is" tg rule: pick_targets.induct) (auto split: option.splits)

text \<open>Dropping one of several live paths whose peer can be told.\<close>

lemma drop_path_clean:
  assumes "lookup i (st_paths s) = Some p" and "\<not> p_dead p" and "filter (\<lambda>p. p_id p \<noteq> i) (st_paths s) \<noteq> []"
  shows "st_paths (drop_path (\<lambda>_. True) i None True s) = filter (\<lambda>p. p_id p \<noteq> i) (st_paths s) \<and>
    st_closed (drop_path (\<lambda>_. True) i None True s) = st_closed s"
  using assms
  by (subst (1 2) drop_path.simps)
    (simp add: Let_def remove_path_def finish_drop_def emit_def wakeSend_def triggerAck_def split: option.splits)

lemma one_with_id: "distinct (map p_id ps) \<Longrightarrow> length (filter (\<lambda>p. p_id p = i) ps) \<le> 1"
proof (induction ps)
  case (Cons p ps)
  show ?case
  proof (cases "p_id p = i")
    case True
    then have "filter (\<lambda>p. p_id p = i) ps = []" using Cons.prems by (simp add: filter_empty_conv) (metis image_eqI)
    then show ?thesis by simp
  qed (use Cons in simp)
qed simp

lemma removePath_clean:
  assumes "\<forall>p \<in> set (st_paths s). \<not> p_dead p" and "distinct (map p_id (st_paths s))"
  shows "st_paths (snd (removePath (\<lambda>_. True) i s)) =
      (if st_closed s \<or> length (st_paths s) \<le> 1 then st_paths s else filter (\<lambda>p. p_id p \<noteq> i) (st_paths s)) \<and>
    st_closed (snd (removePath (\<lambda>_. True) i s)) = st_closed s"
proof (cases "st_closed s \<or> length (st_paths s) \<le> 1 \<or> lookup i (st_paths s) = None")
  case True
  moreover have "lookup i (st_paths s) = None \<Longrightarrow> filter (\<lambda>p. p_id p \<noteq> i) (st_paths s) = st_paths s"
    by (auto simp: lookup_None filter_id_conv)
  ultimately show ?thesis by (auto simp: removePath_def)
next
  case False
  then obtain p where p: "lookup i (st_paths s) = Some p" by auto
  then have mem: "p \<in> set (st_paths s)" "p_id p = i" by (auto simp: lookup_def find_Some_iff)
  have "length (filter (\<lambda>p. p_id p \<noteq> i) (st_paths s)) + length (filter (\<lambda>p. p_id p = i) (st_paths s)) = length (st_paths s)"
    using sum_length_filter_compl[of "\<lambda>p. p_id p = i" "st_paths s"] by simp
  moreover have "length (filter (\<lambda>p. p_id p = i) (st_paths s)) \<le> 1"
    by (rule one_with_id[OF assms(2)])
  ultimately have "filter (\<lambda>p. p_id p \<noteq> i) (st_paths s) \<noteq> []" using False by force
  then show ?thesis using drop_path_clean[OF p _] assms(1) mem False p by (simp add: removePath_def)
qed

lemma remove_all_paths_clean:
  assumes "\<forall>p \<in> set (st_paths s). \<not> p_dead p" and "distinct (map p_id (st_paths s))" and "\<not> st_closed s"
    and "length tg < length (st_paths s)"
  shows "st_paths (remove_all_paths (\<lambda>_. True) tg s) = without tg (st_paths s) \<and> without tg (st_paths s) \<noteq> []"
  using assms
proof (induction tg arbitrary: s)
  case Nil
  then show ?case by (auto simp: remove_all_paths_def without_def)
next
  case (Cons i tg)
  let ?s = "snd (removePath (\<lambda>_. True) i s)"
  have c: "st_paths ?s = filter (\<lambda>p. p_id p \<noteq> i) (st_paths s)" "\<not> st_closed ?s"
    using removePath_clean[OF Cons.prems(1,2)] Cons.prems(3,4) by auto
  have "length (filter (\<lambda>p. p_id p = i) (st_paths s)) \<le> 1"
    by (rule one_with_id[OF Cons.prems(2)])
  then have "length tg < length (st_paths ?s)"
    using Cons.prems(4) c sum_length_filter_compl[of "\<lambda>p. p_id p = i" "st_paths s"] by simp
  moreover have "\<forall>p \<in> set (st_paths ?s). \<not> p_dead p" "distinct (map p_id (st_paths ?s))"
    using Cons.prems(1,2) c(1) by (auto simp: distinct_map_filter)
  ultimately have "st_paths (remove_all_paths (\<lambda>_. True) tg ?s) = without tg (st_paths ?s) \<and> without tg (st_paths ?s) \<noteq> []"
    using Cons.IH[of ?s] c(2) by blast
  moreover have "without tg (st_paths ?s) = without (i # tg) (st_paths s)"
    unfolding c(1) by (auto simp: without_def intro!: filter_cong)
  ultimately show ?case by (simp add: remove_all_paths_def)
qed


section \<open>Runs of the policy\<close>

text \<open>
  The goroutines of the policy of one stream: at most one evaluation between its snapshot and its decision,
  and at most one round of dials, in any order with everything else that happens to the stream. The
  history field \<open>pw_last\<close> is the clock when the last round that counts ended.
\<close>

record pol_world =
  pw_s :: stream
  pw_q :: policy_state
  pw_evals :: nat
  pw_dials :: "maddr list list"
  pw_last :: gotime

definition new_pol_world :: "int \<Rightarrow> stream \<Rightarrow> pol_world" where
  "new_pol_world cooldown s =
     \<lparr>pw_s = s, pw_q = new_policy_state cooldown, pw_evals = 0, pw_dials = [], pw_last = Zero_Time\<rparr>"

datatype pol_op =
    Pol_Eval gotime "maddr list"
  | Pol_Decide "u64 \<Rightarrow> bool" gotime policy_decision
  | Pol_Dial gotime "(bool \<times> u64 option) list"
  | Pol_Env stream

fun pol_step :: "pol_op \<Rightarrow> pol_world \<Rightarrow> pol_world" where
  "pol_step (Pol_Eval now cands) w =
     (let (r, s, q) = eval_begin now cands (pw_s w) (pw_q w) in
      w\<lparr>pw_s := s, pw_q := q, pw_evals := pw_evals w + (if r = None then 0 else 1)\<rparr>)"
| "pol_step (Pol_Decide wr now d) w =
     (let (dial, s, q) = eval_finish wr now d (pw_s w) (pw_q w) in
      w\<lparr>pw_s := s, pw_q := q, pw_evals := pw_evals w - 1,
        pw_dials := (if dial then pw_dials w @ [pd_add d] else pw_dials w)\<rparr>)"
| "pol_step (Pol_Dial now zs) w =
     (let r = policy_dial zs; (s, q) = finish_dial now r (pw_s w) (pw_q w) in
      w\<lparr>pw_s := s, pw_q := q, pw_dials := tl (pw_dials w),
        pw_last := (if r = Dial_None \<or> r = Dial_Aborted then pw_last w else now)\<rparr>)"
| "pol_step (Pol_Env s) w = w\<lparr>pw_s := s\<rparr>"

fun pol_enabled :: "pol_op \<Rightarrow> pol_world \<Rightarrow> bool" where
  "pol_enabled (Pol_Eval now cands) w = True"
| "pol_enabled (Pol_Decide wr now d) w = (0 < pw_evals w)"
| "pol_enabled (Pol_Dial now zs) w = (pw_dials w \<noteq> [] \<and> length zs = length (hd (pw_dials w)))"
| "pol_enabled (Pol_Env s) w = True"

inductive pol_reach :: "pol_world \<Rightarrow> pol_world \<Rightarrow> bool" for w0 where
  start: "pol_reach w0 w0"
| step: "pol_reach w0 w \<Longrightarrow> pol_enabled x w \<Longrightarrow> pol_reach w0 (pol_step x w)"

text \<open>The delay after a number of failures in a row.\<close>

definition backoff :: "int \<Rightarrow> int \<Rightarrow> int" where
  "backoff cooldown fails = cooldown * 2 ^ nat (min (fails - 1) 5)"

definition pol_inv :: "int \<Rightarrow> pol_world \<Rightarrow> bool" where
  "pol_inv c w \<longleftrightarrow>
     pw_evals w = (if ps_evalActive (pw_q w) then 1 else 0) \<and>
     length (pw_dials w) = (if ps_dialActive (pw_q w) then 1 else 0) \<and>
     policyCooldownDur (pw_q w) = c \<and> 0 \<le> ps_autoAddFails (pw_q w) \<and>
     (ps_nextAutoAddAt (pw_q w) = time_add (pw_last w) (backoff c (ps_autoAddFails (pw_q w))))"

lemma eval_begin_frame:
  "eval_begin now cands s q = (r, s', q') \<Longrightarrow>
     ps_evalActive q' = (ps_evalActive q \<or> r \<noteq> None) \<and> (r \<noteq> None \<longrightarrow> \<not> ps_evalActive q) \<and>
     ps_dialActive q' = ps_dialActive q \<and> ps_cooldown q' = ps_cooldown q \<and>
     ps_autoAddFails q' = ps_autoAddFails q \<and> ps_nextAutoAddAt q' = ps_nextAutoAddAt q"
  by (auto simp: eval_begin_def policySnapshot_def note_backlog_def Let_def split: if_splits prod.splits option.splits)

lemma execPolicyAdd_frame:
  "execPolicyAdd now s q = (b, q') \<Longrightarrow>
     (b \<longrightarrow> \<not> ps_dialActive q) \<and> ps_dialActive q' = (ps_dialActive q \<or> b) \<and> ps_evalActive q' = ps_evalActive q \<and>
     ps_cooldown q' = ps_cooldown q \<and> ps_autoAddFails q' = ps_autoAddFails q \<and> ps_nextAutoAddAt q' = ps_nextAutoAddAt q"
  by (auto simp: execPolicyAdd_def split: if_splits)

lemma backoff_0 [simp]: "backoff c 0 = c"
  by (simp add: backoff_def)

lemma backoff_bounds:
  assumes "0 < c"
  shows "c \<le> backoff c fails \<and> backoff c fails \<le> 32 * c"
proof -
  have "nat (min (fails - 1) 5) \<le> 5" by simp
  then have "2 ^ nat (min (fails - 1) 5) \<le> (2 ^ 5 :: int)" by (rule power_increasing) simp
  moreover have "(1::int) \<le> 2 ^ nat (min (fails - 1) 5)" by simp
  ultimately show ?thesis using assms by (simp add: backoff_def mult_left_mono algebra_simps)
qed

lemma pol_inv_step:
  assumes "pol_inv c w" and "pol_enabled x w" and "0 < c" and "32 * c < 2 ^ 63"
  shows "pol_inv c (pol_step x w)"
proof (cases x)
  case (Pol_Eval now cands)
  obtain r s q where e: "eval_begin now cands (pw_s w) (pw_q w) = (r, s, q)" by (metis prod_cases3)
  show ?thesis using assms(1) eval_begin_frame[OF e] Pol_Eval e
    by (auto simp: pol_inv_def policyCooldownDur_def)
next
  case (Pol_Decide wr now d)
  let ?s = "if 0 < length (pd_remove d) then execPolicyRemove wr (pd_remove d) now (pw_s w) else pw_s w"
  obtain b q where e: "(if 0 < length (pd_add d) then execPolicyAdd now ?s (pw_q w) else (False, pw_q w)) = (b, q)"
    by fastforce
  have fr: "(b \<longrightarrow> \<not> ps_dialActive (pw_q w)) \<and> ps_dialActive q = (ps_dialActive (pw_q w) \<or> b) \<and>
     ps_evalActive q = ps_evalActive (pw_q w) \<and> ps_cooldown q = ps_cooldown (pw_q w) \<and>
     ps_autoAddFails q = ps_autoAddFails (pw_q w) \<and> ps_nextAutoAddAt q = ps_nextAutoAddAt (pw_q w)"
  proof (cases "0 < length (pd_add d)")
    case True
    then show ?thesis using e execPolicyAdd_frame[of now ?s "pw_q w" b q] by simp
  next
    case False
    then show ?thesis using e by auto
  qed
  have "eval_finish wr now d (pw_s w) (pw_q w) = (b, ?s, q\<lparr>ps_evalActive := False\<rparr>)"
    unfolding eval_finish_def Let_def e by simp
  then have "pol_step x w = w\<lparr>pw_s := ?s, pw_q := q\<lparr>ps_evalActive := False\<rparr>, pw_evals := pw_evals w - 1,
      pw_dials := (if b then pw_dials w @ [pd_add d] else pw_dials w)\<rparr>"
    using Pol_Decide by simp
  then show ?thesis using assms(1,2) Pol_Decide fr
    by (cases b) (auto simp: pol_inv_def policyCooldownDur_def split: if_splits)
next
  case (Pol_Dial now zs)
  let ?q = "pw_q w"
  have one: "length (pw_dials w) = 1" using assms(1,2) Pol_Dial by (auto simp: pol_inv_def split: if_splits)
  define f where "f = ps_autoAddFails ?q + 1"
  have "c \<le> backoff c f" "backoff c f \<le> 32 * c" using backoff_bounds[OF assms(3)] by blast+
  then have "int64_range (backoff c f)" using assms(3,4) by (simp add: int64_range_def)
  then have w: "wrap64 (c * 2 ^ nat (min (f - 1) policyAddMaxShift)) = backoff c f"
    by (simp add: backoff_def policyAddMaxShift_def)
  have i: "pw_evals w = (if ps_evalActive ?q then 1 else 0)" "policyCooldownDur ?q = c" "0 \<le> ps_autoAddFails ?q"
    "ps_nextAutoAddAt ?q = time_add (pw_last w) (backoff c (ps_autoAddFails ?q))"
    using assms(1) by (simp_all add: pol_inv_def)
  have cd: "policyCooldownDur (?q\<lparr>ps_dialActive := False\<rparr>) = c" using i(2) by (simp add: policyCooldownDur_def split: if_splits)
  obtain s q where fin: "finish_dial now (policy_dial zs) (pw_s w) ?q = (s, q)" by fastforce
  have q: "ps_evalActive q = ps_evalActive ?q" "\<not> ps_dialActive q" "ps_cooldown q = ps_cooldown ?q" "0 \<le> ps_autoAddFails q"
    using fin i(3) by (cases "policy_dial zs"; auto simp: finish_dial_def Let_def)+
  have n: "ps_nextAutoAddAt q = time_add
      (if policy_dial zs = Dial_None \<or> policy_dial zs = Dial_Aborted then pw_last w else now) (backoff c (ps_autoAddFails q))"
    using fin i(4) w cd by (cases "policy_dial zs") (auto simp: finish_dial_def Let_def f_def)
  have "policyCooldownDur q = c" using q(3) i(2) by (simp add: policyCooldownDur_def split: if_splits)
  then show ?thesis using Pol_Dial fin one q n i(1) by (simp add: pol_inv_def Let_def)
next
  case (Pol_Env s)
  then show ?thesis using assms(1) by (simp add: pol_inv_def)
qed

lemma pol_reach_inv:
  assumes "pol_reach w0 w" and "pol_inv c w0" and "0 < c" and "32 * c < 2 ^ 63"
  shows "pol_inv c w"
  using assms by (induction rule: pol_reach.induct) (auto intro: pol_inv_step)

lemma pol_inv_new: "pol_inv (policyCooldownDur (new_policy_state cd)) (new_pol_world cd s)"
  by (simp add: pol_inv_def new_pol_world_def new_policy_state_def policyCooldownDur_def)

text \<open>
  However evaluations, decisions of any policy, dials and everything else interleave, a stream has at most
  one evaluation and one round of dials in progress; the next round may start the cool-down after the last
  one, doubled per failure in a row up to 32 times; and a decision starts a round only when none is running,
  on an open stream with fewer than four paths, after that time.
\<close>
theorem policy_one_dial_at_a_time:
  assumes "pol_reach (new_pol_world cd s0) w" and "c = policyCooldownDur (new_policy_state cd)" and "32 * c < 2 ^ 63"
  shows "pw_evals w \<le> 1 \<and> length (pw_dials w) \<le> 1 \<and>
    ps_nextAutoAddAt (pw_q w) = time_add (pw_last w) (backoff c (ps_autoAddFails (pw_q w))) \<and>
    c \<le> backoff c (ps_autoAddFails (pw_q w)) \<and> backoff c (ps_autoAddFails (pw_q w)) \<le> 32 * c \<and>
    (fst (execPolicyAdd now s (pw_q w)) \<longrightarrow>
       pw_dials w = [] \<and> \<not> st_closed s \<and> length (st_paths s) < 4 \<and> \<not> time_before now (ps_nextAutoAddAt (pw_q w)))"
proof -
  have c: "0 < c" using assms(2) by (simp add: policyCooldownDur_def defaultPolicyCooldown_def second_def)
  have "pol_inv c w" by (rule pol_reach_inv[OF assms(1) _ c assms(3)]) (simp add: assms(2) pol_inv_new)
  then show ?thesis using backoff_bounds[OF c]
    by (auto simp: pol_inv_def execPolicyAdd_def policyMaxPaths_def split: if_splits)
qed

section \<open>Witnesses\<close>

definition demo_ps :: stream where
  "demo_ps = (newStreamFull \<lparr>cf_minBuf = 100, cf_maxBuf = 400, cf_sendBufCap = 0, cf_telemetryInterval = 0, cf_policy = True\<rparr>
     (At 0) True)\<lparr>st_gotWindow := True, st_pendingBytes := 10,
     st_paths := [new_path 0 True (At 0), new_path 2 True (At 0), new_path 4 True (At 5000000000)]\<rparr>"

definition demo_sn :: policy_snapshot where
  "demo_sn = the (fst (eval_begin (At 2000000000) [] demo_ps
     (new_policy_state 0\<lparr>ps_backlogSince := At 1000000000\<rparr>)))"

lemma demo_eval: "eval_begin (At 2000000000) [] demo_ps (new_policy_state 0\<lparr>ps_backlogSince := At 1000000000\<rparr>) =
  (Some demo_sn, snd (eval_begin (At 2000000000) [] demo_ps (new_policy_state 0\<lparr>ps_backlogSince := At 1000000000\<rparr>)))"
  by (simp add: demo_sn_def demo_ps_def eval_begin_def policySnapshot_def newStreamFull_def norm_config_def Let_def new_policy_state_def)

theorem default_policy_conservative_witness: "pd_add (default_Decide demo_sn) = [] \<or> pd_remove (default_Decide demo_sn) = []"
proof -
  obtain s' q' where "eval_begin (At 2000000000) [] demo_ps (new_policy_state 0\<lparr>ps_backlogSince := At 1000000000\<rparr>) = (Some demo_sn, s', q')"
    using demo_eval by (metis surj_pair)
  from default_policy_conservative[OF this refl] show ?thesis by blast
qed


theorem policy_one_dial_at_a_time_witness:
  "ps_nextAutoAddAt (pw_q (pol_step (Pol_Dial (At 7) [(False, None)])
     (pol_step (Pol_Decide (\<lambda>_. True) (At 5) \<lparr>pd_add = [\<lparr>ma_protos = [P_TCP], ma_text = ''a''\<rparr>], pd_remove = []\<rparr>)
       (pol_step (Pol_Eval (At 3) []) (new_pol_world 0 demo_ps))))) = At 1000000007"
proof -
  let ?w0 = "new_pol_world 0 demo_ps"
  let ?w1 = "pol_step (Pol_Eval (At 3) []) ?w0"
  let ?w2 = "pol_step (Pol_Decide (\<lambda>_. True) (At 5) \<lparr>pd_add = [\<lparr>ma_protos = [P_TCP], ma_text = ''a''\<rparr>], pd_remove = []\<rparr>) ?w1"
  let ?w3 = "pol_step (Pol_Dial (At 7) [(False, None)]) ?w2"
  note d = new_pol_world_def new_policy_state_def demo_ps_def eval_begin_def eval_finish_def execPolicyAdd_def
    policySnapshot_def newStreamFull_def norm_config_def Let_def policyMaxPaths_def note_backlog_def is_zero_time_def
  have e: "pw_evals ?w1 = 1" "ps_dialActive (pw_q ?w1) = False" "ps_nextAutoAddAt (pw_q ?w1) = Zero_Time"
      "st_closed (pw_s ?w1) = False" "length (st_paths (pw_s ?w1)) = 3" "pw_dials ?w1 = []" "ps_autoAddFails (pw_q ?w1) = 0"
    by (simp_all add: d)
  have x: "length (pw_dials ?w2) = 1 \<and> length (hd (pw_dials ?w2)) = 1 \<and> ps_autoAddFails (pw_q ?w2) = 0"
    using e by (auto simp: eval_finish_def execPolicyAdd_def policyMaxPaths_def Let_def split: prod.splits)
  have "pol_reach ?w0 ?w3"
    by (intro pol_reach.intros) (use e x in \<open>auto simp del: pol_step.simps\<close>)
  from policy_one_dial_at_a_time[OF this refl]
  have "ps_nextAutoAddAt (pw_q ?w3) = time_add (pw_last ?w3) (backoff 1000000000 (ps_autoAddFails (pw_q ?w3)))"
    by (simp add: policyCooldownDur_def new_policy_state_def defaultPolicyCooldown_def second_def del: pol_step.simps)
  moreover have "pw_last ?w3 = At 7" "ps_autoAddFails (pw_q ?w3) = 1"
    using x by (simp_all add: policy_dial_def finish_dial_def Let_def del: pol_step.simps(1,2))
  ultimately show ?thesis by (simp add: backoff_def del: pol_step.simps)
qed

text \<open>One evaluation of the built-in policy may ask for several removals.\<close>

definition low_path :: "u64 \<Rightarrow> policy_path" where
  "low_path i = \<lparr>pp_info = path_info (At 0) (new_path i True (At 0)\<lparr>p_auto := True\<rparr>), pp_lowFor = 4 * second\<rparr>"

lemma default_policy_removes_two:
  "pd_remove (default_Decide \<lparr>sn_now = At 0, sn_paths = map low_path [0, 2, 4, 6], sn_pending = 0, sn_backlogFor = 0,
     sn_unacked = 0, sn_candidates = [], sn_nextAutoAddAt = Zero_Time, sn_autoAddFails = 0\<rparr>) = [0, 2]"
  by (simp add: default_Decide_def Let_def low_path_def path_info_def new_path_def policy_consts second_def)

end
