(* ===== verification/Observe.thy ===== *)
theory Observe
  imports Stream_Props Policy
begin

text \<open>
  The observation side of a stream, \<open>src/stats.go\<close>: the snapshot \<open>Stats()\<close> and the subscriptions to path
  events. A hub is the set of subscriptions of a stream; a subscription is its buffered channel, whose
  reader runs on its own. Identity and addresses of the connections are not part of the snapshots.
\<close>

section \<open>Statistics\<close>

record path_stats =
  pt_info :: path_info
  pt_delivered :: u64
  pt_rxBytes :: u64
  pt_rxRateBps :: rat
  pt_resentSegs :: u64
  pt_resentBytes :: u64

record stream_stats =
  ss_paths :: "path_stats list"
  ss_txRateBps :: rat
  ss_rxRateBps :: rat
  ss_sentBytes :: u64
  ss_ackedBytes :: u64
  ss_inflight :: int
  ss_pendingBytes :: int
  ss_sendBufCap :: int
  ss_lostSegs :: u64
  ss_resentSegs :: u64
  ss_resentBytes :: u64
  ss_recvCum :: u64
  ss_recvBufCap :: int
  ss_recvBuffered :: int
  ss_recvReady :: int
  ss_recvDropped :: int

definition path_stats :: "gotime \<Rightarrow> path \<Rightarrow> path_stats" where
  "path_stats now p =
     \<lparr>pt_info = path_info now p, pt_delivered = p_delivered p, pt_rxBytes = p_rxBytes p, pt_rxRateBps = p_rxRate p,
      pt_resentSegs = p_resentSegs p, pt_resentBytes = p_resentBytes p\<rparr>"

definition Stats :: "gotime \<Rightarrow> stream \<Rightarrow> stream_stats" where
  "Stats now s =
     \<lparr>ss_paths = map (path_stats now) (st_paths s),
      ss_txRateBps = foldl (\<lambda>a p. fl64 (a + effRate now p)) 0 (st_paths s),
      ss_rxRateBps = foldl (\<lambda>a p. fl64 (a + p_rxRate p)) 0 (st_paths s),
      ss_sentBytes = st_sentOff s, ss_ackedBytes = st_cumAcked s,
      ss_inflight = sum_list (map p_inflight (st_paths s)),
      ss_pendingBytes = st_pendingBytes s, ss_sendBufCap = cf_sendBufCap (st_cfg s),
      ss_lostSegs = st_lostSegs s, ss_resentSegs = st_resentSegs s, ss_resentBytes = st_resentBytes s,
      ss_recvCum = rb_cum (st_rbuf s), ss_recvBufCap = rb_cap (st_rbuf s),
      ss_recvBuffered = rb_sizeBytes (st_rbuf s), ss_recvReady = rb_avail (st_rbuf s),
      ss_recvDropped = rb_dropped (st_rbuf s)\<rparr>"

section \<open>Events\<close>

datatype event_type = EventPathAdded | EventPathRemoved | EventPathDegraded

fun event_type_String :: "event_type \<Rightarrow> string" where
  "event_type_String EventPathAdded = ''path_added''"
| "event_type_String EventPathRemoved = ''path_removed''"
| "event_type_String EventPathDegraded = ''path_degraded''"

record event =
  ev_type :: event_type
  ev_pathID :: u64
  ev_info :: path_info
  ev_cause :: "serr option"
  ev_at :: gotime
  ev_dropped :: u64

text \<open>
  \<open>sub_active\<close>: the subscription is in the set of the stream; \<open>sub_open\<close>: its channel is not closed. The
  last two fields are history: what was emitted while it was active, and what its reader took.
\<close>

record subscription =
  sub_cap :: nat
  sub_ch :: "event list"
  sub_dropped :: u64
  sub_active :: bool
  sub_open :: bool
  sub_emitted :: "event list"
  sub_taken :: "event list"

record hub =
  hub_closed :: bool
  hub_subs :: "subscription list"

definition Subscribe :: "int \<Rightarrow> hub \<Rightarrow> nat \<times> hub" where
  "Subscribe bufLen h =
     (let n = (if bufLen \<le> 0 then 16 else bufLen);
          sub = \<lparr>sub_cap = nat n, sub_ch = [], sub_dropped = 0, sub_active = \<not> hub_closed h, sub_open = \<not> hub_closed h,
                 sub_emitted = [], sub_taken = []\<rparr> in
      (length (hub_subs h), h\<lparr>hub_subs := hub_subs h @ [sub]\<rparr>))"

definition end_sub :: "subscription \<Rightarrow> subscription" where
  "end_sub u = (if sub_active u then u\<lparr>sub_active := False, sub_open := False\<rparr> else u)"

definition unsubscribe :: "nat \<Rightarrow> hub \<Rightarrow> hub" where
  "unsubscribe k h = (if k < length (hub_subs h) then h\<lparr>hub_subs := (hub_subs h)[k := end_sub (hub_subs h ! k)]\<rparr> else h)"

definition post :: "event \<Rightarrow> subscription \<Rightarrow> subscription" where
  "post e u =
     (if \<not> sub_active u then u
      else
        let ev = e\<lparr>ev_dropped := sub_dropped u\<rparr>; u = u\<lparr>sub_emitted := sub_emitted u @ [e]\<rparr> in
        if length (sub_ch u) < sub_cap u then u\<lparr>sub_ch := sub_ch u @ [ev], sub_dropped := 0\<rparr>
        else u\<lparr>sub_dropped := sub_dropped u + 1\<rparr>)"

definition emitEvent :: "event_type \<Rightarrow> path_info \<Rightarrow> serr option \<Rightarrow> gotime \<Rightarrow> hub \<Rightarrow> hub" where
  "emitEvent t info cause now h =
     (let ev = \<lparr>ev_type = t, ev_pathID = pi_id info, ev_info = info, ev_cause = cause, ev_at = now, ev_dropped = 0\<rparr> in
      h\<lparr>hub_subs := map (post ev) (hub_subs h)\<rparr>)"

definition closeSubs :: "hub \<Rightarrow> hub" where
  "closeSubs h = h\<lparr>hub_closed := True, hub_subs := map end_sub (hub_subs h)\<rparr>"

text \<open>The reader takes an event; a closed channel still gives what it holds.\<close>

definition take_event :: "subscription \<Rightarrow> subscription" where
  "take_event u = (case sub_ch u of [] \<Rightarrow> u | e # es \<Rightarrow> u\<lparr>sub_ch := es, sub_taken := sub_taken u @ [e]\<rparr>)"

definition receive :: "nat \<Rightarrow> hub \<Rightarrow> hub" where
  "receive k h = (if k < length (hub_subs h) then h\<lparr>hub_subs := (hub_subs h)[k := take_event (hub_subs h ! k)]\<rparr> else h)"

datatype hub_op =
    Hub_Subscribe int
  | Hub_Unsubscribe nat
  | Hub_Emit event_type path_info "serr option" gotime
  | Hub_Receive nat
  | Hub_Close

fun hub_step :: "hub_op \<Rightarrow> hub \<Rightarrow> hub" where
  "hub_step (Hub_Subscribe n) h = snd (Subscribe n h)"
| "hub_step (Hub_Unsubscribe k) h = unsubscribe k h"
| "hub_step (Hub_Emit t i c now) h = emitEvent t i c now h"
| "hub_step (Hub_Receive k) h = receive k h"
| "hub_step Hub_Close h = closeSubs h"

definition new_hub :: hub where "new_hub = \<lparr>hub_closed = False, hub_subs = []\<rparr>"

section \<open>Accounting of events\<close>

definition seen :: "subscription \<Rightarrow> event list" where
  "seen u = sub_taken u @ sub_ch u"

text \<open>What a list of delivered events accounts for: themselves and the ones they say were dropped.\<close>

definition covered :: "event list \<Rightarrow> nat" where
  "covered es = sum_list (map (\<lambda>e. Suc (unat (ev_dropped e))) es)"

lemma covered_simps [simp]: "covered [] = 0" "covered (es @ fs) = covered es + covered fs"
  "covered (e # es) = Suc (unat (ev_dropped e)) + covered es"
  by (simp_all add: covered_def)

lemma covered_mono: "covered (take (Suc k) es) \<le> covered es"
  by (metis append_take_drop_id covered_simps(2) le_add1)

definition sub_inv :: "bool \<Rightarrow> subscription \<Rightarrow> bool" where
  "sub_inv fin u \<longleftrightarrow>
     length (sub_ch u) \<le> sub_cap u \<and> (fin \<longrightarrow> \<not> sub_active u) \<and> sub_open u = sub_active u \<and>
     (length (sub_emitted u) < 2 ^ 64 \<longrightarrow>
        covered (seen u) + unat (sub_dropped u) = length (sub_emitted u) \<and>
        (\<forall>k < length (seen u). seen u ! k =
           (sub_emitted u ! (covered (take (Suc k) (seen u)) - 1))\<lparr>ev_dropped := ev_dropped (seen u ! k)\<rparr>))"

lemma covered_pos: "k < length es \<Longrightarrow> 0 < covered (take (Suc k) es)"
  by (cases es) auto

lemma sub_inv_post:
  assumes "sub_inv fin u"
  shows "sub_inv fin (post e u)"
proof (cases "sub_active u")
  case True
  note i = assms[unfolded sub_inv_def]
  let ?em = "sub_emitted u" and ?u = "post e u"
  have em: "sub_emitted ?u = ?em @ [e]" using True by (simp add: post_def Let_def)
  have fields: "sub_cap ?u = sub_cap u" "sub_active ?u = sub_active u" "sub_open ?u = sub_open u" "length (sub_ch ?u) \<le> sub_cap u"
    using True i by (simp_all add: post_def Let_def)
  have "covered (seen ?u) + unat (sub_dropped ?u) = length (sub_emitted ?u) \<and>
      (\<forall>k < length (seen ?u). seen ?u ! k =
         (sub_emitted ?u ! (covered (take (Suc k) (seen ?u)) - 1))\<lparr>ev_dropped := ev_dropped (seen ?u ! k)\<rparr>)"
    if small: "length (sub_emitted ?u) < 2 ^ 64"
  proof -
    have c: "covered (seen u) + unat (sub_dropped u) = length ?em"
      and n: "\<And>k. k < length (seen u) \<Longrightarrow> seen u ! k =
           (?em ! (covered (take (Suc k) (seen u)) - 1))\<lparr>ev_dropped := ev_dropped (seen u ! k)\<rparr>"
      using i small em by auto
    have pos: "covered (take (Suc k) (seen u)) - 1 < length ?em" if "k < length (seen u)" for k
      using covered_mono[of k "seen u"] covered_pos[OF that] c by simp
    have keep: "(?em @ [e]) ! (covered (take (Suc k) (seen u)) - 1) = ?em ! (covered (take (Suc k) (seen u)) - 1)"
      if "k < length (seen u)" for k
      using pos[OF that] by (simp add: nth_append)
    show ?thesis
    proof (cases "length (sub_ch u) < sub_cap u")
      case room: True
      let ?ev = "e\<lparr>ev_dropped := sub_dropped u\<rparr>"
      have s: "seen ?u = seen u @ [?ev]" "sub_dropped ?u = 0"
        using True room by (simp_all add: post_def Let_def seen_def)
      have "(seen u @ [?ev]) ! k = ((?em @ [e]) ! (covered (take (Suc k) (seen u @ [?ev])) - 1))\<lparr>ev_dropped :=
          ev_dropped ((seen u @ [?ev]) ! k)\<rparr>" if "k < Suc (length (seen u))" for k
      proof (cases "k < length (seen u)")
        case True
        then have "(seen u @ [?ev]) ! k = seen u ! k" "take (Suc k) (seen u @ [?ev]) = take (Suc k) (seen u)"
          by (simp_all add: nth_append)
        then show ?thesis using n[OF True] keep[OF True] by simp
      next
        case False
        then have "k = length (seen u)" using that by simp
        then show ?thesis using c by (simp add: nth_append)
      qed
      then show ?thesis unfolding s em using c by simp
    next
      case False
      have s: "seen ?u = seen u" "sub_dropped ?u = sub_dropped u + 1"
        using True False by (simp_all add: post_def Let_def seen_def)
      have "unat (sub_dropped u + 1) = Suc (unat (sub_dropped u))"
        using c small em by (subst unat_add_no_wrap) auto
      then show ?thesis unfolding s em using c n keep by simp
    qed
  qed
  then show ?thesis using i fields by (simp add: sub_inv_def)
qed (use assms in \<open>simp add: post_def\<close>)

lemma sub_inv_end: "sub_inv fin u \<Longrightarrow> sub_inv fin' (end_sub u) \<and> \<not> sub_active (end_sub u)"
  by (auto simp: sub_inv_def end_sub_def seen_def)

lemma sub_inv_take: "sub_inv fin u \<Longrightarrow> sub_inv fin (take_event u)"
proof -
  have "seen (take_event u) = seen u" "length (sub_ch (take_event u)) \<le> length (sub_ch u)"
    "sub_dropped (take_event u) = sub_dropped u" "sub_emitted (take_event u) = sub_emitted u"
    "sub_active (take_event u) = sub_active u" "sub_open (take_event u) = sub_open u" "sub_cap (take_event u) = sub_cap u"
    by (auto simp: take_event_def seen_def split: list.split)
  then show "sub_inv fin u \<Longrightarrow> sub_inv fin (take_event u)" by (auto simp: sub_inv_def)
qed

definition hub_inv :: "hub \<Rightarrow> bool" where
  "hub_inv h \<longleftrightarrow> list_all (sub_inv (hub_closed h)) (hub_subs h)"

lemma hub_inv_upd:
  "hub_inv h \<Longrightarrow> (\<And>u. sub_inv (hub_closed h) u \<Longrightarrow> sub_inv (hub_closed h) (f u)) \<Longrightarrow>
   hub_inv (h\<lparr>hub_subs := (hub_subs h)[k := f (hub_subs h ! k)]\<rparr>)"
  unfolding hub_inv_def by (cases "k < length (hub_subs h)") (auto simp: list_all_length nth_list_update)

lemma hub_inv_step: "hub_inv h \<Longrightarrow> hub_inv (hub_step x h)"
proof (induction x)
  case (Hub_Subscribe n)
  then show ?case by (simp add: hub_inv_def Subscribe_def Let_def sub_inv_def seen_def)
next
  case (Hub_Unsubscribe k)
  then show ?case using sub_inv_end by (auto simp: unsubscribe_def intro!: hub_inv_upd)
next
  case (Hub_Emit t i c now)
  then show ?case by (auto simp: hub_inv_def emitEvent_def Let_def list_all_iff sub_inv_post)
next
  case (Hub_Receive k)
  then show ?case using sub_inv_take by (auto simp: receive_def intro!: hub_inv_upd)
next
  case Hub_Close
  then show ?case using sub_inv_end by (auto simp: hub_inv_def closeSubs_def list_all_iff)
qed

lemma hub_inv_run: "hub_inv h \<Longrightarrow> hub_inv (fold hub_step ops h)"
  by (induction ops arbitrary: h) (auto simp: hub_inv_step)

section \<open>Properties\<close>

text \<open>
  Nothing is lost silently. Whatever is emitted, taken, subscribed and closed in whatever order, the
  events a subscriber finds are the emitted ones in their order, the numbers of dropped events they carry
  say exactly which ones are missing between them, the counter of the subscription says how many are missing
  at the end, the channel never holds more than its capacity, and a closed stream has no open channel.
\<close>
theorem subscriber_accounts_for_all_events:
  assumes "u \<in> set (hub_subs (fold hub_step ops new_hub))" and "length (sub_emitted u) < 2 ^ 64"
  shows "covered (seen u) + unat (sub_dropped u) = length (sub_emitted u) \<and>
    (\<forall>k < length (seen u). seen u ! k =
       (sub_emitted u ! (covered (take (Suc k) (seen u)) - 1))\<lparr>ev_dropped := ev_dropped (seen u ! k)\<rparr>) \<and>
    length (sub_ch u) \<le> sub_cap u \<and>
    (sub_open u \<longrightarrow> \<not> hub_closed (fold hub_step ops new_hub))"
proof -
  have "hub_inv new_hub" by (simp add: hub_inv_def new_hub_def)
  then have "sub_inv (hub_closed (fold hub_step ops new_hub)) u"
    using hub_inv_run[of new_hub ops] assms(1) by (simp add: hub_inv_def list_all_iff)
  then show ?thesis using assms(2) unfolding sub_inv_def by blast
qed

text \<open>
  In every run the books \<open>Stats()\<close> reports are consistent: what is in flight is not negative and is at most
  what was sent and not acknowledged, and what is pending is what was written and not sent.
\<close>
theorem stats_consistent:
  assumes "reach c (new_world cf t ini) w"
  shows "let z = Stats now (w_s w) in
    0 \<le> ss_inflight z \<and> ss_ackedBytes z \<le> ss_sentBytes z \<and>
    ss_inflight z \<le> int (unat (ss_sentBytes z)) - int (unat (ss_ackedBytes z)) \<and>
    int (unat (ss_sentBytes z)) + ss_pendingBytes z = int (length (w_written w)) \<and>
    map (\<lambda>p. pi_id (pt_info p)) (ss_paths z) = map p_id (st_paths (w_s w))"
proof -
  have inv: "send_inv (w_written w) (w_s w)" using reach_inv[OF assms world_inv_new] by (simp add: world_inv_def)
  note v = send_invD[OF inv]
  have t: "unat (st_cumAcked (w_s w)) + total_len ss_data (st_unacked (w_s w)) = unat (st_sentOff (w_s w))"
    using tiling_concat[OF v(3)] by simp
  have "ss_inflight (Stats now (w_s w)) = in_flight (w_s w)" by (simp add: Stats_def in_flight_def)
  moreover have "0 \<le> in_flight (w_s w)" "in_flight (w_s w) \<le> int (total_len ss_data (st_unacked (w_s w)))"
    using in_flight_nonneg[OF inv] in_flight_unacked[OF inv] by blast+
  moreover have "st_pendingBytes (w_s w) = int (length (w_written w)) - int (unat (st_sentOff (w_s w)))"
    using v by (metis length_drop of_nat_diff)
  moreover have "int (unat (st_cumAcked (w_s w))) + int (total_len ss_data (st_unacked (w_s w))) = int (unat (st_sentOff (w_s w)))"
    using t by linarith
  ultimately show ?thesis using t
    by (auto simp: Stats_def Let_def word_le_nat_alt path_stats_def path_info_def)
qed

section \<open>Witnesses\<close>

definition demo_info :: path_info where
  "demo_info = path_info (At 0) (new_path 3 True (At 0))"

definition demo_hub_ops :: "hub_op list" where
  "demo_hub_ops =
     [Hub_Subscribe 1, Hub_Emit EventPathAdded demo_info None (At 1), Hub_Emit EventPathDegraded demo_info None (At 2),
      Hub_Receive 0, Hub_Emit EventPathRemoved demo_info (Some E_EOF) (At 3), Hub_Close, Hub_Receive 0]"

lemma demo_sub: "fold hub_step demo_hub_ops new_hub = \<lparr>hub_closed = True, hub_subs = [hub_subs (fold hub_step demo_hub_ops new_hub) ! 0]\<rparr>"
  and demo_sub_facts: "map ev_dropped (seen (hub_subs (fold hub_step demo_hub_ops new_hub) ! 0)) = [0, 1]"
    "sub_dropped (hub_subs (fold hub_step demo_hub_ops new_hub) ! 0) = 0"
    "length (sub_emitted (hub_subs (fold hub_step demo_hub_ops new_hub) ! 0)) = 3"
  by (simp_all add: demo_hub_ops_def new_hub_def Subscribe_def Let_def emitEvent_def post_def receive_def take_event_def
      closeSubs_def end_sub_def seen_def)

theorem subscriber_accounts_for_all_events_witness:
  "covered (seen (hub_subs (fold hub_step demo_hub_ops new_hub) ! 0)) = 3 \<and>
   map ev_dropped (seen (hub_subs (fold hub_step demo_hub_ops new_hub) ! 0)) = [0, 1]"
proof -
  let ?u = "hub_subs (fold hub_step demo_hub_ops new_hub) ! 0"
  have "hub_subs (fold hub_step demo_hub_ops new_hub) = [?u]" using arg_cong[OF demo_sub, of hub_subs] by simp
  then have "?u \<in> set (hub_subs (fold hub_step demo_hub_ops new_hub))" by (metis list.set_intros(1))
  then show ?thesis using subscriber_accounts_for_all_events[of ?u demo_hub_ops] demo_sub_facts by simp
qed

theorem stats_consistent_witness: "0 \<le> ss_inflight (Stats (At 9000) (w_s demo_w5)) \<and> ss_inflight (Stats (At 9000) (w_s demo_w5)) = 3"
proof -
  have "0 \<le> ss_inflight (Stats (At 9000) (w_s demo_w5))"
    using stats_consistent[OF demo_reach, of "At 9000"] by (simp add: Let_def)
  moreover have "ss_inflight (Stats (At 9000) (w_s demo_w5)) = 3"
    by (simp add: Stats_def demo_state demo_config_def new_path_def)
  ultimately show ?thesis by blast
qed

end
