(* ===== verification/Handshake.thy ===== *)
theory Handshake
  imports Go_Strings
begin

text \<open>
  The handshake of an aggregate stream, \<open>src/handshake.go\<close>, and the check of credentials of
  \<open>src/aggregator.go\<close>. The length-prefixed messages (go-msgio) and their protobuf form are parameters: a
  message that arrives is the fields it decodes to, or \<open>None\<close> when reading or decoding it fails.
\<close>

section \<open>Messages\<close>

definition aggStreamIDLen :: nat where "aggStreamIDLen = 16"
definition maxHandshakeMsg :: nat where "maxHandshakeMsg = 4096"
definition maxRejectReasonLen :: nat where "maxRejectReasonLen = 256"

record hello_msg =
  hm_id :: bytes
  hm_auth :: bytes

record hello_ack =
  ha_id :: bytes
  ha_error :: string

datatype hs_err = HS_Random | HS_Send | HS_Read | HS_Rejected string | HS_Echo | HS_ID_Length nat

section \<open>The three steps\<close>

text \<open>
  \<open>handshakeInitiator\<close>: \<open>fresh\<close> is the random id, \<open>sent\<close> whether the Hello went out, \<open>ack\<close> what came back;
  also the Hello that is sent.
\<close>

definition handshakeInitiator ::
  "bytes option \<Rightarrow> bytes \<Rightarrow> bool \<Rightarrow> hello_ack option \<Rightarrow> (hs_err + bytes) \<times> hello_msg list" where
  "handshakeInitiator fresh auth sent ack =
     (case fresh of
        None \<Rightarrow> (Inl HS_Random, [])
      | Some i \<Rightarrow>
          let hello = \<lparr>hm_id = i, hm_auth = auth\<rparr> in
          if \<not> sent then (Inl HS_Send, [hello])
          else case ack of
            None \<Rightarrow> (Inl HS_Read, [hello])
          | Some a \<Rightarrow>
              if ha_error a \<noteq> [] then (Inl (HS_Rejected (ha_error a)), [hello])
              else if ha_id a \<noteq> i then (Inl HS_Echo, [hello])
              else (Inr i, [hello]))"

definition handshakeResponderRead :: "hello_msg option \<Rightarrow> hs_err + bytes \<times> bytes" where
  "handshakeResponderRead hello =
     (case hello of
        None \<Rightarrow> Inl HS_Read
      | Some h \<Rightarrow>
          if length (hm_id h) \<noteq> aggStreamIDLen then Inl (HS_ID_Length (length (hm_id h)))
          else Inr (hm_id h, hm_auth h))"

definition handshakeResponderAck :: "bytes \<Rightarrow> hello_ack" where
  "handshakeResponderAck i = \<lparr>ha_id = i, ha_error = []\<rparr>"

text \<open>The loop that moves the cut back to the start of a rune; indexing below zero would panic.\<close>

fun back_to_start :: "string \<Rightarrow> nat \<Rightarrow> nat run" where
  "back_to_start s 0 = (if rune_start (s ! 0) then Inr 0 else Inl Index_Range)"
| "back_to_start s (Suc e) = (if rune_start (s ! Suc e) then Inr (Suc e) else back_to_start s e)"

definition errAuthRejected :: string where "errAuthRejected = ''unauthorized''"

definition replacement_char :: string where "replacement_char = [CHR 0xEF, CHR 0xBF, CHR 0xBD]"

definition reject_reason :: "string \<Rightarrow> string run" where
  "reject_reason reason =
     (let reason = ToValidUTF8 reason replacement_char;
          reason = (if reason = [] then errAuthRejected else reason) in
      if maxRejectReasonLen < length reason
      then (case back_to_start reason maxRejectReasonLen of
              Inl p \<Rightarrow> Inl p
            | Inr e \<Rightarrow> Inr (take e reason))
      else Inr reason)"

definition handshakeResponderReject :: "bytes \<Rightarrow> string \<Rightarrow> hello_ack run" where
  "handshakeResponderReject i reason =
     (case reject_reason reason of
        Inl p \<Rightarrow> Inl p
      | Inr r \<Rightarrow> Inr \<lparr>ha_id = i, ha_error = r\<rparr>)"

section \<open>Credentials\<close>

text \<open>\<open>checkAuth\<close>: the error text of a rejection; \<open>handler\<close> is the application's \<open>AuthHandler\<close>.\<close>

definition checkAuth :: "(peer_id \<Rightarrow> bytes \<Rightarrow> string option) option \<Rightarrow> bytes \<Rightarrow> peer_id \<Rightarrow> bytes \<Rightarrow> string option" where
  "checkAuth handler token p auth =
     (case handler of
        Some h \<Rightarrow> h p auth
      | None \<Rightarrow> if 0 < length token \<and> auth \<noteq> token then Some errAuthRejected else None)"

section \<open>Valid text\<close>

text \<open>The four shapes of a well-formed sequence.\<close>

lemma decode_codes_shapes:
  assumes "decode_codes bs = (r, n)" and "(r, n) \<noteq> (rune_error, 1)" and "bs \<noteq> []"
  shows "(\<exists>a t. bs = a # t \<and> n = 1 \<and> r = a \<and> a < 0x80) \<or>
    (\<exists>a b t. bs = a # b # t \<and> n = 2 \<and> between 0xC2 a 0xDF \<and> between 0x80 b 0xBF) \<or>
    (\<exists>a b c t. bs = a # b # c # t \<and> n = 3 \<and> between 0xE0 a 0xEF \<and>
       between (if a = 0xE0 then 0xA0 else 0x80) b (if a = 0xED then 0x9F else 0xBF) \<and> between 0x80 c 0xBF) \<or>
    (\<exists>a b c d t. bs = a # b # c # d # t \<and> n = 4 \<and> between 0xF0 a 0xF4 \<and>
       between (if a = 0xF0 then 0x90 else 0x80) b (if a = 0xF4 then 0x8F else 0xBF) \<and>
       between 0x80 c 0xBF \<and> between 0x80 d 0xBF)"
proof -
  obtain a t where bs: "bs = a # t" using assms(3) by (cases bs) auto
  note d = assms(1)[unfolded bs decode_codes_def list.case]
  consider "a < 0x80" | "\<not> a < 0x80" "between 0xC2 a 0xDF" | "\<not> a < 0x80" "\<not> between 0xC2 a 0xDF" "between 0xE0 a 0xEF"
    | "\<not> a < 0x80" "\<not> between 0xC2 a 0xDF" "\<not> between 0xE0 a 0xEF" "between 0xF0 a 0xF4"
    using d assms(2) by (auto split: if_splits)
  then show ?thesis
  proof cases
    case 1
    then show ?thesis using d bs by simp
  next
    case 2
    then show ?thesis using d assms(2) bs
      by (simp only: if_False if_True split: list.splits if_splits) auto
  next
    case 3
    then show ?thesis using d assms(2) bs
      by (simp only: if_False if_True split: list.splits if_splits) (auto intro: exI[of _ "237 :: nat"])
  next
    case 4
    then show ?thesis using d assms(2) bs
      by (simp only: if_False if_True split: list.splits if_splits) (auto intro: exI[of _ "244 :: nat"])
  qed
qed

lemma decode_codes_shape:
  assumes "decode_codes bs = (r, n)" and "(r, n) \<noteq> (rune_error, 1)" and "bs \<noteq> []"
  shows "n \<le> length bs \<and> n \<le> 4 \<and> \<not> between 0x80 (bs ! 0) 0xBF \<and> (\<forall>i. 0 < i \<and> i < n \<longrightarrow> between 0x80 (bs ! i) 0xBF)"
proof -
  have cont: "between 0x80 b 0xBF" if "between (if P then 0xA0 else 0x80) b (if Q then 0x9F else 0xBF)" for b P Q
    using that by (auto simp: between_def split: if_splits)
  have cont': "between 0x80 b 0xBF" if "between (if P then 0x90 else 0x80) b (if Q then 0x8F else 0xBF)" for b P Q
    using that by (auto simp: between_def split: if_splits)
  have lead: "a < 0x80 \<Longrightarrow> \<not> between 0x80 a 0xBF" "between 0xC2 a 0xDF \<Longrightarrow> \<not> between 0x80 a 0xBF"
    "between 0xE0 a 0xEF \<Longrightarrow> \<not> between 0x80 a 0xBF" "between 0xF0 a 0xF4 \<Longrightarrow> \<not> between 0x80 a 0xBF" for a
    by (auto simp: between_def)
  have two: "(\<forall>i. 0 < i \<and> i < (2::nat) \<longrightarrow> P i) = P 1" for P
    by (metis One_nat_def less_2_cases less_numeral_extra(1) neq0_conv one_less_numeral_iff semiring_norm(76))
  have three: "(\<forall>i. 0 < i \<and> i < (3::nat) \<longrightarrow> P i) = (P 1 \<and> P 2)" for P
  proof -
    have "0 < i \<and> i < (3::nat) \<longleftrightarrow> i = 1 \<or> i = 2" for i by auto
    then show ?thesis by auto
  qed
  have four: "(\<forall>i. 0 < i \<and> i < (4::nat) \<longrightarrow> P i) = (P 1 \<and> P 2 \<and> P 3)" for P
  proof -
    have "0 < i \<and> i < (4::nat) \<longleftrightarrow> i = 1 \<or> i = 2 \<or> i = 3" for i by auto
    then show ?thesis by auto
  qed
  from decode_codes_shapes[OF assms] show ?thesis
  proof (elim disjE exE conjE)
    fix a t assume "bs = a # t" "n = 1" "r = a" "a < 0x80"
    then show ?thesis using lead by auto
  next
    fix a b t assume "bs = a # b # t" "n = 2" "between 0xC2 a 0xDF" "between 0x80 b 0xBF"
    then show ?thesis using lead by (simp add: two)
  next
    fix a b c t
    assume "bs = a # b # c # t" "n = 3" "between 0xE0 a 0xEF"
      "between (if a = 0xE0 then 0xA0 else 0x80) b (if a = 0xED then 0x9F else 0xBF)" "between 0x80 c 0xBF"
    then show ?thesis using lead cont[of "a = 0xE0" b "a = 0xED"] by (simp add: three)
  next
    fix a b c d t
    assume "bs = a # b # c # d # t" "n = 4" "between 0xF0 a 0xF4"
      "between (if a = 0xF0 then 0x90 else 0x80) b (if a = 0xF4 then 0x8F else 0xBF)" "between 0x80 c 0xBF" "between 0x80 d 0xBF"
    then show ?thesis using lead cont'[of "a = 0xF0" b "a = 0xF4"] by (simp add: four)
  qed
qed

text \<open>Decoding reads no further than the width it reports.\<close>

lemma decode_codes_extend:
  assumes "decode_codes bs = (r, n)" and "(r, n) \<noteq> (rune_error, 1)" and "bs \<noteq> []"
  shows "decode_codes (take n bs @ zs) = (r, n)"
proof -
  from decode_codes_shapes[OF assms] show ?thesis
  proof (elim disjE exE conjE)
    fix a t assume "bs = a # t" "n = 1" "r = a" "a < 0x80"
    then show ?thesis by (simp add: decode_codes_def)
  next
    fix a b t assume s: "bs = a # b # t" "n = 2" "between 0xC2 a 0xDF" "between 0x80 b 0xBF"
    then have "\<not> a < 0x80" by (simp add: between_def)
    then show ?thesis using s assms(1) by (simp add: decode_codes_def)
  next
    fix a b c t
    assume s: "bs = a # b # c # t" "n = 3" "between 0xE0 a 0xEF"
      "between (if a = 0xE0 then 0xA0 else 0x80) b (if a = 0xED then 0x9F else 0xBF)" "between 0x80 c 0xBF"
    then have "\<not> a < 0x80" "\<not> between 0xC2 a 0xDF" by (simp_all add: between_def)
    then show ?thesis using s assms(1) by (simp add: decode_codes_def)
  next
    fix a b c d t
    assume s: "bs = a # b # c # d # t" "n = 4" "between 0xF0 a 0xF4"
      "between (if a = 0xF0 then 0x90 else 0x80) b (if a = 0xF4 then 0x8F else 0xBF)" "between 0x80 c 0xBF" "between 0x80 d 0xBF"
    then have "\<not> a < 0x80" "\<not> between 0xC2 a 0xDF" "\<not> between 0xE0 a 0xEF" by (simp_all add: between_def)
    then show ?thesis using s assms(1) by (simp add: decode_codes_def)
  qed
qed

lemma decode_rune_shape:
  assumes "s \<noteq> []" and "decode_rune s = (r, n)" and "(r, n) \<noteq> (rune_error, 1)"
  shows "1 \<le> n \<and> n \<le> length s \<and> rune_start (s ! 0) \<and> (\<forall>i. 0 < i \<and> i < n \<longrightarrow> \<not> rune_start (s ! i)) \<and>
    decode_rune (take n s @ zs) = (r, n)"
proof -
  let ?bs = "map code_of (take 4 s)"
  have ne: "?bs \<noteq> []" using assms(1) by simp
  note d = assms(2)[unfolded decode_rune_def]
  have sh: "n \<le> length ?bs" "n \<le> 4" "\<not> between 0x80 (?bs ! 0) 0xBF" "\<forall>i. 0 < i \<and> i < n \<longrightarrow> between 0x80 (?bs ! i) 0xBF"
    using decode_codes_shape[OF d assms(3) ne] by blast+
  have nth: "?bs ! i = code_of (s ! i)" if "i < length ?bs" for i using that by simp
  have n: "1 \<le> n" "n \<le> length s" using decode_rune_size[OF assms(1)] assms(2) sh(1) by auto
  have "take 4 (take n s @ zs) = take n s @ take (4 - n) zs" using sh(2) n(2) by simp
  moreover have "take n ?bs = map code_of (take n s)" using sh(2) by (simp add: take_map min_def)
  ultimately have "decode_rune (take n s @ zs) = (r, n)"
    using decode_codes_extend[OF d assms(3) ne, of "map code_of (take (4 - n) zs)"] by (simp add: decode_rune_def)
  moreover have "rune_start (s ! 0)" using sh(3) nth[of 0] ne by (simp add: rune_start_def)
  moreover have "\<not> rune_start (s ! i)" if "0 < i \<and> i < n" for i
    using sh(1,4) that nth[of i] by (auto simp: rune_start_def)
  ultimately show ?thesis using n by blast
qed

lemma valid_utf8_Nil [simp]: "valid_utf8 []"
  by (simp add: valid_utf8.simps)

lemma valid_utf8_step:
  "s \<noteq> [] \<Longrightarrow> valid_utf8 s \<longleftrightarrow> decode_rune s \<noteq> (rune_error, 1) \<and> valid_utf8 (drop (snd (decode_rune s)) s)"
  by (subst valid_utf8.simps) simp

text \<open>A valid text cut at the start of a rune is valid, and it starts with one.\<close>

lemma valid_utf8_take:
  "valid_utf8 s \<Longrightarrow> n \<le> length s \<Longrightarrow> n = length s \<or> rune_start (s ! n) \<Longrightarrow> valid_utf8 (take n s)"
proof (induction s arbitrary: n rule: valid_utf8.induct)
  case (1 s)
  show ?case
  proof (cases "n = 0 \<or> s = []")
    case False
    obtain r w where d: "decode_rune s = (r, w)" by fastforce
    have v: "(r, w) \<noteq> (rune_error, 1)" "valid_utf8 (drop w s)" using "1.prems"(1) False d by (auto simp: valid_utf8_step)
    have ne: "s \<noteq> []" using False by simp
    have sh: "1 \<le> w" "w \<le> length s" "\<forall>i. 0 < i \<and> i < w \<longrightarrow> \<not> rune_start (s ! i)"
      and ext: "decode_rune (take w s @ zs) = (r, w)" for zs
      using decode_rune_shape[OF ne d v(1)] by blast+
    have wn: "w \<le> n" using "1.prems"(2,3) sh(2,3) False by (meson leI le_less_trans not_gr_zero order.strict_implies_order not_le)
    then have t: "take n s = take w s @ take (n - w) (drop w s)" by (metis le_add_diff_inverse take_add)
    have "valid_utf8 (take (n - w) (drop w s))"
      using "1.IH"[OF ne, of "n - w"] d v "1.prems"(2,3) wn by auto
    then show ?thesis using ext[of "take (n - w) (drop w s)"] v(1) sh(1,2) ne False unfolding t
      by (subst valid_utf8_step) auto
  qed auto
qed

lemma valid_utf8_start: "valid_utf8 s \<Longrightarrow> s \<noteq> [] \<Longrightarrow> rune_start (s ! 0)"
  using decode_rune_shape[of s "fst (decode_rune s)" "snd (decode_rune s)"] by (simp add: valid_utf8_step)

lemma valid_utf8_append: "valid_utf8 s \<Longrightarrow> valid_utf8 t \<Longrightarrow> valid_utf8 (s @ t)"
proof (induction s rule: valid_utf8.induct)
  case (1 s)
  show ?case
  proof (cases "s = []")
    case False
    obtain r w where d: "decode_rune s = (r, w)" by fastforce
    have v: "(r, w) \<noteq> (rune_error, 1)" "valid_utf8 (drop w s)" using "1.prems"(1) False d by (auto simp: valid_utf8_step)
    have sh: "1 \<le> w" "w \<le> length s" and ext: "decode_rune (take w s @ zs) = (r, w)" for zs
      using decode_rune_shape[OF False d v(1)] by blast+
    have "decode_rune (s @ t) = (r, w)" using ext[of "drop w s @ t"] by (simp flip: append_assoc)
    then show ?thesis
      using "1.IH"[OF False] d v "1.prems"(2) sh(2) False by (subst valid_utf8_step) auto
  qed (use "1.prems" in simp)
qed

lemma to_valid_utf8_valid: "valid_utf8 repl \<Longrightarrow> valid_utf8 (to_valid_utf8 repl bad s)"
proof (induction repl bad s rule: to_valid_utf8.induct)
  case (1 repl bad s)
  show ?case
  proof (cases "s = []")
    case False
    obtain r w where d: "decode_rune s = (r, w)" by fastforce
    show ?thesis
    proof (cases "(r, w) = (rune_error, 1)")
      case True
      then show ?thesis using "1.IH"(1)[OF False] "1.prems" d False
        by (subst to_valid_utf8.simps) (auto intro: valid_utf8_append)
    next
      case good: False
      have sh: "1 \<le> w" "w \<le> length s" and ext: "decode_rune (take w s @ zs) = (r, w)" for zs
        using decode_rune_shape[OF False d good] by blast+
      have "valid_utf8 (take w s)"
        using ext[of "[]"] good sh False by (subst valid_utf8_step) auto
      then show ?thesis using "1.IH"(2)[OF False] "1.prems" d good False
        by (subst to_valid_utf8.simps) (auto intro: valid_utf8_append)
    qed
  qed (simp add: to_valid_utf8.simps)
qed

lemma back_to_start_finds:
  "w \<le> e \<Longrightarrow> rune_start (s ! w) \<Longrightarrow> \<exists>k. back_to_start s e = Inr k \<and> w \<le> k \<and> k \<le> e \<and> rune_start (s ! k)"
proof (induction e)
  case (Suc e)
  then show ?case by (cases "w = Suc e") auto
qed simp

lemma second_rune:
  assumes "valid_utf8 s" and "5 \<le> length s"
  shows "\<exists>w. 1 \<le> w \<and> w \<le> 4 \<and> rune_start (s ! w)"
proof -
  obtain r w where d: "decode_rune s = (r, w)" by fastforce
  have ne: "s \<noteq> []" using assms(2) by auto
  have v: "(r, w) \<noteq> (rune_error, 1)" "valid_utf8 (drop w s)" using assms(1) ne d by (auto simp: valid_utf8_step)
  have "map code_of (take 4 s) \<noteq> []" using ne by simp
  then have w: "w \<le> 4" using decode_codes_shape[OF d[unfolded decode_rune_def] v(1)] by blast
  then have "rune_start (s ! w)" using valid_utf8_start[OF v(2)] assms(2) by (simp add: nth_drop)
  then show ?thesis using decode_rune_shape[OF ne d v(1)] w by blast
qed

lemma reject_reason_ok:
  obtains r where "reject_reason reason = Inr r" "r \<noteq> []" "valid_utf8 r" "length r \<le> maxRejectReasonLen"
proof -
  define t where "t = (if ToValidUTF8 reason replacement_char = [] then errAuthRejected else ToValidUTF8 reason replacement_char)"
  have "valid_utf8 replacement_char" "valid_utf8 errAuthRejected"
    by (simp_all add: replacement_char_def errAuthRejected_def valid_utf8_step decode_rune_def decode_codes_def
        code_of_def between_def rune_error_def)
  then have t: "valid_utf8 t" "t \<noteq> []"
    by (auto simp: t_def ToValidUTF8_def to_valid_utf8_valid errAuthRejected_def)
  show ?thesis
  proof (cases "maxRejectReasonLen < length t")
    case False
    then show ?thesis using that[of t] t by (simp add: reject_reason_def t_def[symmetric] Let_def)
  next
    case True
    then have len: "256 < length t" by (simp add: maxRejectReasonLen_def)
    then obtain w where w: "1 \<le> w" "w \<le> 4" "rune_start (t ! w)" using second_rune[OF t(1)] by auto
    then obtain k where k: "back_to_start t 256 = Inr k" "w \<le> k" "k \<le> 256" "rune_start (t ! k)"
      using back_to_start_finds[of w 256 t] by auto
    have "reject_reason reason = Inr (take k t)"
      using True k(1) by (simp add: reject_reason_def t_def[symmetric] Let_def maxRejectReasonLen_def)
    moreover have "valid_utf8 (take k t)" using valid_utf8_take[OF t(1)] k len by simp
    ultimately show ?thesis using that[of "take k t"] k w len t(2) by (auto simp: maxRejectReasonLen_def)
  qed
qed

section \<open>Properties\<close>

text \<open>
  C23: whatever text the application rejects a stream with, including bytes that are not UTF-8, the
  responder answers without panicking, its answer carries a non-empty valid UTF-8 text of at most 256
  bytes, and the initiator takes that answer as a rejection with that text and never as a handshake.
\<close>
theorem rejection_is_delivered:
  "\<exists>ack. handshakeResponderReject i reason = Inr ack \<and> ha_error ack \<noteq> [] \<and> valid_utf8 (ha_error ack) \<and>
     length (ha_error ack) \<le> maxRejectReasonLen \<and>
     fst (handshakeInitiator (Some j) auth True (Some ack)) = Inl (HS_Rejected (ha_error ack))"
proof -
  obtain r where r: "reject_reason reason = Inr r" "r \<noteq> []" "valid_utf8 r" "length r \<le> maxRejectReasonLen"
    by (rule reject_reason_ok)
  then show ?thesis by (simp add: handshakeResponderReject_def handshakeInitiator_def)
qed

text \<open>
  C24: the two sides agree: an initiator that returns an id has sent exactly one Hello, that Hello is
  accepted by the responder when the id has 16 bytes and hands it the same id and credential, and an answer
  that acknowledges another id is refused.
\<close>
theorem handshake_agreement:
  assumes "handshakeInitiator fresh auth sent ack = (Inr i, out)"
  shows "fresh = Some i \<and> sent \<and> ack = Some (handshakeResponderAck i) \<and>
    out = [\<lparr>hm_id = i, hm_auth = auth\<rparr>] \<and>
    handshakeResponderRead (Some \<lparr>hm_id = i, hm_auth = auth\<rparr>) =
      (if length i = aggStreamIDLen then Inr (i, auth) else Inl (HS_ID_Length (length i))) \<and>
    (j \<noteq> i \<longrightarrow> fst (handshakeInitiator fresh auth sent (Some (handshakeResponderAck j))) = Inl HS_Echo)"
  using assms
  by (auto simp: handshakeInitiator_def handshakeResponderRead_def handshakeResponderAck_def Let_def
      split: option.splits if_splits)

theorem handshake_agreement_witness:
  "fst (handshakeInitiator (Some (replicate 16 7)) [1] True (Some (handshakeResponderAck (replicate 16 8)))) = Inl HS_Echo"
proof -
  have "handshakeInitiator (Some (replicate 16 7)) [1] True (Some (handshakeResponderAck (replicate 16 7))) =
      (Inr (replicate 16 7), [\<lparr>hm_id = replicate 16 7, hm_auth = [1]\<rparr>])"
    by (simp add: handshakeInitiator_def handshakeResponderAck_def)
  moreover have "replicate 16 8 \<noteq> (replicate 16 7 :: bytes)" by simp
  ultimately show ?thesis
    using handshake_agreement by (simp add: handshakeInitiator_def handshakeResponderAck_def)
qed

section \<open>The watcher of a handshake\<close>

text \<open>
  \<open>watchStreamCtx\<close>: a goroutine that resets the stream when the context ends, and the function that stops it. The lock
  makes the test of \<open>finished\<close> with the reset, and the setting of \<open>finished\<close>, one step each.
\<close>

datatype watcher = WT_Select | WT_Woken | WT_Ended

datatype stopper = SP_Idle | SP_Marked | SP_Stopped

record watch =
  wt_ctx :: bool
  wt_finished :: bool
  wt_done :: bool
  wt_goroutine :: watcher
  wt_stop :: stopper
  wt_reset :: bool

definition watchStreamCtx :: watch where
  "watchStreamCtx = \<lparr>wt_ctx = False, wt_finished = False, wt_done = False, wt_goroutine = WT_Select, wt_stop = SP_Idle,
     wt_reset = False\<rparr>"

datatype watch_op = Ctx_Ends | Sees_Ctx | Sees_Done | Locks | Stop_Marks | Stop_Closes

fun watch_step :: "watch_op \<Rightarrow> watch \<Rightarrow> watch option" where
  "watch_step Ctx_Ends w = Some (w\<lparr>wt_ctx := True\<rparr>)"
| "watch_step Sees_Ctx w =
     (if wt_goroutine w = WT_Select \<and> wt_ctx w then Some (w\<lparr>wt_goroutine := WT_Woken\<rparr>) else None)"
| "watch_step Sees_Done w =
     (if wt_goroutine w = WT_Select \<and> wt_done w then Some (w\<lparr>wt_goroutine := WT_Ended\<rparr>) else None)"
| "watch_step Locks w =
     (if wt_goroutine w = WT_Woken
      then Some (w\<lparr>wt_goroutine := WT_Ended, wt_reset := wt_reset w \<or> \<not> wt_finished w\<rparr>) else None)"
| "watch_step Stop_Marks w =
     (if wt_stop w = SP_Idle then Some (w\<lparr>wt_stop := SP_Marked, wt_finished := True\<rparr>) else None)"
| "watch_step Stop_Closes w =
     (if wt_stop w = SP_Marked then Some (w\<lparr>wt_stop := SP_Stopped, wt_done := True\<rparr>) else None)"

fun watch_run :: "watch_op list \<Rightarrow> watch \<Rightarrow> watch option" where
  "watch_run [] w = Some w"
| "watch_run (x # xs) w = Option.bind (watch_step x w) (watch_run xs)"

definition watch_inv :: "watch \<Rightarrow> bool" where
  "watch_inv w \<longleftrightarrow> (wt_finished w \<longleftrightarrow> wt_stop w \<noteq> SP_Idle) \<and> (wt_done w \<longleftrightarrow> wt_stop w = SP_Stopped) \<and>
     (wt_goroutine w = WT_Woken \<longrightarrow> wt_ctx w) \<and> (wt_reset w \<longrightarrow> wt_ctx w \<and> wt_goroutine w = WT_Ended) \<and>
     (wt_goroutine w = WT_Ended \<longrightarrow> wt_finished w \<or> wt_reset w)"

lemma watch_step_inv: "watch_step x w = Some w' \<Longrightarrow> watch_inv w \<Longrightarrow> watch_inv w'"
  by (cases x) (auto simp: watch_inv_def split: if_splits)

lemma watch_run_inv: "watch_run xs w = Some w' \<Longrightarrow> watch_inv w \<Longrightarrow> watch_inv w'"
  by (induction xs arbitrary: w) (auto simp: bind_eq_Some_conv dest: watch_step_inv)

lemma watch_finished_stays: "watch_run xs w = Some w' \<Longrightarrow> wt_finished w \<Longrightarrow> wt_finished w' \<and> wt_reset w' = wt_reset w"
proof (induction xs arbitrary: w)
  case (Cons x xs)
  then obtain v where v: "watch_step x w = Some v" "watch_run xs v = Some w'" by (auto simp: bind_eq_Some_conv)
  then have "wt_finished v \<and> wt_reset v = wt_reset w" using Cons.prems(2) by (cases x) (auto split: if_splits)
  then show ?case using Cons.IH[OF v(2)] by simp
qed simp

text \<open>
  A handshake that has ended in time is never undone: once \<open>stop\<close> has taken the lock the stream is not reset any more,
  whatever comes in which order. It is reset only because the context ended; and the goroutine always ends, after
  \<open>stop\<close> or when the context ends.
\<close>

theorem watch_never_resets_late:
  assumes "watch_run xs watchStreamCtx = Some w" "watch_run ys w = Some w'"
  shows "(wt_stop w \<noteq> SP_Idle \<longrightarrow> wt_reset w' = wt_reset w) \<and> (wt_reset w' \<longrightarrow> wt_ctx w') \<and>
    (wt_goroutine w = WT_Ended \<or> (\<exists>x \<in> {Sees_Ctx, Sees_Done, Locks}. watch_step x w \<noteq> None) \<or> wt_stop w \<noteq> SP_Stopped \<and> \<not> wt_ctx w)"
proof -
  have inv: "watch_inv w" by (rule watch_run_inv[OF assms(1)]) (simp add: watchStreamCtx_def watch_inv_def)
  then have inv': "watch_inv w'" using watch_run_inv[OF assms(2)] by blast
  have "wt_goroutine w = WT_Ended \<or> (\<exists>x \<in> {Sees_Ctx, Sees_Done, Locks}. watch_step x w \<noteq> None) \<or> wt_stop w \<noteq> SP_Stopped \<and> \<not> wt_ctx w"
    using inv by (cases "wt_goroutine w") (auto simp: watch_inv_def)
  then show ?thesis using inv inv' watch_finished_stays[OF assms(2)] by (simp add: watch_inv_def)
qed

theorem watch_never_resets_late_witness:
  "\<exists>w. watch_run [Ctx_Ends, Sees_Ctx, Stop_Marks, Locks] watchStreamCtx = Some w \<and> \<not> wt_reset w"
proof -
  obtain w where w: "watch_run [Ctx_Ends, Sees_Ctx, Stop_Marks] watchStreamCtx = Some w" "wt_stop w \<noteq> SP_Idle" "\<not> wt_reset w"
    by (simp add: watchStreamCtx_def)
  have "watch_run [Ctx_Ends, Sees_Ctx, Stop_Marks, Locks] watchStreamCtx = watch_run [Locks] w"
    using w(1) by (auto simp: watchStreamCtx_def)
  moreover obtain w' where "watch_run [Locks] w = Some w'" using w(1) by (auto simp: watchStreamCtx_def)
  ultimately show ?thesis using watch_never_resets_late[OF w(1)] w by metis
qed

end
