(* ===== verification/Aggregator.thy ===== *)
theory Aggregator
  imports Stream_Props Policy Handshake
begin

text \<open>
  The aggregator of \<open>src/aggregator.go\<close> with the path handshakes of \<open>src/path.go\<close> and \<open>src/relaypath.go\<close>: the
  options, the table that routes an incoming path to its aggregate stream, the handlers of the two protocols,
  \<open>OpenStream\<close>, \<open>Accept\<close>, \<open>AddPath\<close> and \<open>Close\<close>. A handler that waits for the network between two critical
  sections is two steps, with what it holds in between in a list of pending handshakes, and a run interleaves
  them with everything the streams do. The protobuf codec of \<open>PathAttach\<close> is a parameter.
\<close>

section \<open>Options\<close>

type_synonym policy_fn = "policy_snapshot \<Rightarrow> policy_decision"
type_synonym auth_handler = "peer_id \<Rightarrow> bytes \<Rightarrow> string option"

record options =
  op_acceptBacklog :: int
  op_handshakeTimeout :: int
  op_reorderMin :: int
  op_reorderMax :: int
  op_minPaths :: int
  op_policy :: "policy_fn option"
  op_authToken :: bytes
  op_authHandler :: "auth_handler option"

record open_options =
  oo_minPaths :: int
  oo_handshakeTimeout :: int
  oo_reorderMin :: int
  oo_reorderMax :: int
  oo_policy :: "policy_fn option"
  oo_authToken :: bytes

datatype shared_option =
    WithHandshakeTimeout int
  | WithReorderBuffer int int
  | WithMinPaths int
  | WithAuthToken bytes

datatype agg_option =
    WithAcceptBacklog int
  | WithPolicy "policy_fn option"
  | WithAuthHandler "auth_handler option"
  | For_New shared_option

datatype open_option =
    WithStreamPolicy "policy_fn option"
  | For_Open shared_option

definition bad_buffer :: "int \<Rightarrow> int \<Rightarrow> bool" where
  "bad_buffer lo hi \<longleftrightarrow> lo \<le> 0 \<or> hi \<le> 0 \<or> hi < lo"

fun applyOption :: "agg_option \<Rightarrow> options \<Rightarrow> options" where
  "applyOption (WithAcceptBacklog n) o1 = o1\<lparr>op_acceptBacklog := n\<rparr>"
| "applyOption (WithPolicy p) o1 = o1\<lparr>op_policy := p\<rparr>"
| "applyOption (WithAuthHandler h) o1 = o1\<lparr>op_authHandler := h\<rparr>"
| "applyOption (For_New (WithHandshakeTimeout d)) o1 = o1\<lparr>op_handshakeTimeout := d\<rparr>"
| "applyOption (For_New (WithReorderBuffer lo hi)) o1 =
     (if bad_buffer lo hi then o1 else o1\<lparr>op_reorderMin := lo, op_reorderMax := hi\<rparr>)"
| "applyOption (For_New (WithMinPaths n)) o1 = o1\<lparr>op_minPaths := n\<rparr>"
| "applyOption (For_New (WithAuthToken t)) o1 = o1\<lparr>op_authToken := t\<rparr>"

fun applyOpenOption :: "open_option \<Rightarrow> open_options \<Rightarrow> open_options" where
  "applyOpenOption (WithStreamPolicy p) oo = oo\<lparr>oo_policy := p\<rparr>"
| "applyOpenOption (For_Open (WithHandshakeTimeout d)) oo = oo\<lparr>oo_handshakeTimeout := d\<rparr>"
| "applyOpenOption (For_Open (WithReorderBuffer lo hi)) oo =
     (if bad_buffer lo hi then oo else oo\<lparr>oo_reorderMin := lo, oo_reorderMax := hi\<rparr>)"
| "applyOpenOption (For_Open (WithMinPaths n)) oo = oo\<lparr>oo_minPaths := n\<rparr>"
| "applyOpenOption (For_Open (WithAuthToken t)) oo = oo\<lparr>oo_authToken := t\<rparr>"

definition defaultHandshakeTimeout :: int where "defaultHandshakeTimeout = 60 * second"

definition default_options :: options where
  "default_options =
     \<lparr>op_acceptBacklog = 16, op_handshakeTimeout = defaultHandshakeTimeout, op_reorderMin = defaultMinReorderBuf,
      op_reorderMax = defaultMaxReorderBuf, op_minPaths = 1, op_policy = Some default_Decide, op_authToken = [],
      op_authHandler = None\<rparr>"

definition defaultOpenOptions :: "options \<Rightarrow> open_options" where
  "defaultOpenOptions o1 =
     \<lparr>oo_minPaths = op_minPaths o1, oo_handshakeTimeout = op_handshakeTimeout o1, oo_reorderMin = op_reorderMin o1,
      oo_reorderMax = op_reorderMax o1, oo_policy = op_policy o1, oo_authToken = op_authToken o1\<rparr>"

definition streamCfg :: "open_options \<Rightarrow> stream_config" where
  "streamCfg oo =
     \<lparr>cf_minBuf = oo_reorderMin oo, cf_maxBuf = oo_reorderMax oo, cf_sendBufCap = 0, cf_telemetryInterval = 0,
      cf_policy = (oo_policy oo \<noteq> None)\<rparr>"

text \<open>\<open>handshakeCtxWith\<close>: the timeout that is added to a context, if any.\<close>

definition handshakeCtxWith :: "bool \<Rightarrow> int \<Rightarrow> int option" where
  "handshakeCtxWith has_deadline d = (if has_deadline \<or> d \<le> 0 then None else Some d)"

section \<open>State\<close>

text \<open>
  An incoming handshake stream is the peer it comes from and the Hello it will deliver. An aggregate stream
  of the aggregator is a \<open>world\<close>: the stream with its history.
\<close>

record incoming =
  ic_peer :: peer_id
  ic_hello :: "hello_msg option"

record agg_stream =
  as_id :: bytes
  as_peer :: peer_id
  as_w :: world

record aggregator =
  ag_opts :: options
  ag_queue :: "incoming list"
  ag_closed :: bool
  ag_routes :: "bytes \<Rightarrow> nat option"
  ag_objs :: "agg_stream list"

definition agg_new :: "agg_option list \<Rightarrow> aggregator run" where
  "agg_new opts =
     (let o1 = fold applyOption opts default_options in
      if op_acceptBacklog o1 < 0 then Inl Chan_Size
      else Inr \<lparr>ag_opts = o1, ag_queue = [], ag_closed = False, ag_routes = (\<lambda>_. None), ag_objs = []\<rparr>)"

definition agg_close :: "aggregator \<Rightarrow> aggregator" where
  "agg_close a = a\<lparr>ag_closed := True\<rparr>"

text \<open>\<open>handleStream\<close>: whether the stream was queued; otherwise it is reset.\<close>

definition handleStream :: "incoming \<Rightarrow> aggregator \<Rightarrow> bool \<times> aggregator" where
  "handleStream x a =
     (if ag_closed a then (False, a)
      else if int (length (ag_queue a)) < op_acceptBacklog (ag_opts a) then (True, a\<lparr>ag_queue := ag_queue a @ [x]\<rparr>)
      else (False, a))"

section \<open>The routing table\<close>

definition register :: "bytes \<Rightarrow> nat \<Rightarrow> aggregator \<Rightarrow> aggregator" where
  "register i h a = a\<lparr>ag_routes := (ag_routes a)(i := Some h)\<rparr>"

definition unregister :: "bytes \<Rightarrow> nat \<Rightarrow> aggregator \<Rightarrow> aggregator" where
  "unregister i h a = (if ag_routes a i = Some h then a\<lparr>ag_routes := (ag_routes a)(i := None)\<rparr> else a)"

text \<open>A new aggregate stream, registered before its id can be known to work by the peer.\<close>

definition add_stream :: "open_options \<Rightarrow> gotime \<Rightarrow> bytes \<Rightarrow> peer_id \<Rightarrow> bool \<Rightarrow> aggregator \<Rightarrow> nat \<times> aggregator" where
  "add_stream oo now i p initiator a =
     (let h = length (ag_objs a);
          st = \<lparr>as_id = i, as_peer = p, as_w = new_world (streamCfg oo) now initiator\<rparr> in
      (h, register i h (a\<lparr>ag_objs := ag_objs a @ [st]\<rparr>)))"

text \<open>
  What happens to a stream of the aggregator: the new state of its world; a stream that ended in between
  deregisters.
\<close>

definition put_world :: "nat \<Rightarrow> world \<Rightarrow> aggregator \<Rightarrow> aggregator" where
  "put_world h w a =
     (let st = ag_objs a ! h; a' = a\<lparr>ag_objs := (ag_objs a)[h := st\<lparr>as_w := w\<rparr>]\<rparr> in
      if Eff_Deregister \<in> set (drop (length (st_out (w_s (as_w st)))) (st_out (w_s w)))
      then unregister (as_id st) h a' else a')"

section \<open>Incoming paths\<close>

type_synonym attach_codec = "bytes \<Rightarrow> (bytes \<times> u64) option"

definition unmarshalPathAttach :: "attach_codec \<Rightarrow> bytes \<Rightarrow> (bytes \<times> u64) option" where
  "unmarshalPathAttach dec body =
     (case dec body of
        None \<Rightarrow> None
      | Some (i, pid) \<Rightarrow> if length i \<noteq> aggStreamIDLen then None else Some (i, pid))"

text \<open>
  \<open>handlePathStream\<close> up to the echo: the sub-stream delivers \<open>bs\<close>; the result is the stream and the path id that
  were found and reserved, the echo that is written and the bytes the frame reader holds already.
\<close>

definition path_bind ::
  "attach_codec \<Rightarrow> peer_id \<Rightarrow> io_err \<Rightarrow> bytes \<Rightarrow> aggregator \<Rightarrow> (nat \<times> u64 \<times> bytes \<times> bytes) option \<times> aggregator" where
  "path_bind dec p fin bs a =
     (if ag_closed a then (None, a)
      else case read_frame fin bs of
        Inl e \<Rightarrow> (None, a)
      | Inr ((ft, f), rest) \<Rightarrow>
          if ft \<noteq> framePathAttach then (None, a)
          else case unmarshalPathAttach dec (f_body f) of
            None \<Rightarrow> (None, a)
          | Some (i, pid) \<Rightarrow>
              case ag_routes a i of
                None \<Rightarrow> (None, a)
              | Some h \<Rightarrow>
                  let st = ag_objs a ! h in
                  if p \<noteq> as_peer st then (None, a)
                  else
                    let w = as_w st; (ok, s) = reserveRemotePathID pid (w_s w) in
                    if \<not> ok then (None, a)
                    else (Some (h, pid, append_ctrl_frame [] framePathAttach (f_body f), rest),
                          put_world h (w\<lparr>w_s := s, w_granted := pid # w_granted w\<rparr>) a))"

text \<open>The rest of it, and of \<open>attachDialedConn\<close>: attach the path unless the handshake failed.\<close>

definition path_attach :: "bool \<Rightarrow> gotime \<Rightarrow> nat \<Rightarrow> u64 \<Rightarrow> bool \<Rightarrow> aggregator \<Rightarrow> bool \<times> aggregator" where
  "path_attach ok now h pid dialed a =
     (if \<not> ok then (False, a)
      else
        let w = as_w (ag_objs a ! h) in
        case attachPath now (new_path pid dialed Zero_Time) (w_s w) of
          (Some e, s) \<Rightarrow> (False, put_world h (w\<lparr>w_s := s\<rparr>) a)
        | (None, s) \<Rightarrow> (True, put_world h (w\<lparr>w_s := s, w_granted := removeAll pid (w_granted w)\<rparr>) a))"

section \<open>Outgoing paths\<close>

text \<open>\<open>AddPath\<close> and \<open>AddRelayPath\<close> reserve an id first; an id whose dial fails is never used.\<close>

definition reserve_path :: "nat \<Rightarrow> aggregator \<Rightarrow> (serr + u64) \<times> aggregator" where
  "reserve_path h a =
     (let w = as_w (ag_objs a ! h) in
      case reserveLocalPathID (w_s w) of
        Inl e \<Rightarrow> (Inl e, a)
      | Inr (pid, s) \<Rightarrow> (Inr pid, put_world h (w\<lparr>w_s := s, w_granted := pid # w_granted w\<rparr>) a))"

text \<open>\<open>recvPathAttachAck\<close>: the first frame of the answer must be the echo of what was asked.\<close>

definition recvPathAttachAck :: "attach_codec \<Rightarrow> io_err \<Rightarrow> bytes \<Rightarrow> bytes \<Rightarrow> u64 \<Rightarrow> bytes option" where
  "recvPathAttachAck dec fin bs i pid =
     (case read_frame fin bs of
        Inl e \<Rightarrow> None
      | Inr ((ft, f), rest) \<Rightarrow>
          if ft \<noteq> framePathAttach then None
          else case unmarshalPathAttach dec (f_body f) of
            None \<Rightarrow> None
          | Some (j, q) \<Rightarrow> if j \<noteq> i \<or> q \<noteq> pid then None else Some rest)"

text \<open>
  \<open>attachDialedConn\<close> on a connection: whether the sub-stream opened, the protocol was agreed and the bind frame
  was written, what the peer answered, and whether the context was still alive.
\<close>

definition attachDialedConn ::
  "attach_codec \<Rightarrow> bool \<Rightarrow> bool \<Rightarrow> bool \<Rightarrow> io_err \<Rightarrow> bytes \<Rightarrow> bool \<Rightarrow> gotime \<Rightarrow> nat \<Rightarrow> u64 \<Rightarrow> aggregator \<Rightarrow> bool \<times> aggregator" where
  "attachDialedConn dec opened agreed sent fin answer alive now h pid a =
     (if \<not> opened then (False, a)
      else if \<not> agreed then (False, a)
      else if \<not> sent then (False, a)
      else if recvPathAttachAck dec fin answer (as_id (ag_objs a ! h)) pid = None then (False, a)
      else if \<not> alive then (False, a)
      else path_attach True now h pid True a)"

section \<open>Opening and accepting\<close>

datatype open_err = OE_Closed | OE_Not_Supported | OE_Stream | OE_Handshake hs_err | OE_Canceled

text \<open>
  \<open>OpenStream\<close> up to the first path: the result of \<open>host.NewStream\<close> (\<open>Inl True\<close>: the peer does not speak the
  protocol), of the handshake, and whether the context is still alive.
\<close>

definition open_stream ::
  "open_option list \<Rightarrow> gotime \<Rightarrow> peer_id \<Rightarrow> bool + (hs_err + bytes) \<Rightarrow> bool \<Rightarrow> aggregator \<Rightarrow> (open_err + nat) \<times> aggregator" where
  "open_stream opts now p hs alive a =
     (if ag_closed a then (Inl OE_Closed, a)
      else
        let oo = fold applyOpenOption opts (defaultOpenOptions (ag_opts a)) in
        case hs of
          Inl unsupported \<Rightarrow> (Inl (if unsupported then OE_Not_Supported else OE_Stream), a)
        | Inr (Inl e) \<Rightarrow> (Inl (OE_Handshake e), a)
        | Inr (Inr i) \<Rightarrow>
            if \<not> alive then (Inl OE_Canceled, a)
            else let (h, a) = add_stream oo now i p True a in (Inr h, a))"

datatype accept_reply = AR_None | AR_Reset | AR_Reject hello_ack | AR_Ack nat hello_ack

text \<open>\<open>Accept\<close> takes a stream from the queue and answers the Hello; the stream is registered before the answer.\<close>

definition accept_read :: "gotime \<Rightarrow> aggregator \<Rightarrow> (accept_reply \<times> aggregator) run" where
  "accept_read now a =
     (case ag_queue a of
        [] \<Rightarrow> Inr (AR_None, a)
      | x # q \<Rightarrow>
          let a = a\<lparr>ag_queue := q\<rparr> in
          case handshakeResponderRead (ic_hello x) of
            Inl e \<Rightarrow> Inr (AR_Reset, a)
          | Inr (i, auth) \<Rightarrow>
              case checkAuth (op_authHandler (ag_opts a)) (op_authToken (ag_opts a)) (ic_peer x) auth of
                Some reason \<Rightarrow>
                  (case handshakeResponderReject i reason of Inl e \<Rightarrow> Inl e | Inr ack \<Rightarrow> Inr (AR_Reject ack, a))
              | None \<Rightarrow>
                  let (h, a) = add_stream (defaultOpenOptions (ag_opts a)) now i (ic_peer x) False a in
                  Inr (AR_Ack h (handshakeResponderAck i), a))"

text \<open>Its end: the stream is returned unless the answer could not be written or the context has ended.\<close>

definition accept_done :: "bool \<Rightarrow> bool \<Rightarrow> nat \<Rightarrow> aggregator \<Rightarrow> nat option \<times> aggregator" where
  "accept_done sent alive h a =
     (let w = as_w (ag_objs a ! h) in
      if sent \<and> alive then (Some h, a)
      else (None, put_world h (w\<lparr>w_s := stream_close (w_s w)\<rparr>) a))"

end
