(* ===== verification/Aggregator_Run.thy ===== *)
theory Aggregator_Run
  imports Aggregator
begin

text \<open>
  Runs of an aggregator: incoming streams, accepts, opens, path handshakes in both directions and everything
  the aggregate streams do, in any order. The invariant says that the routing table leads to live streams
  only, that every stream is in a run of \<open>Stream_Run\<close>, so that all that is proved there holds of it, and that
  every pending path handshake holds an id reserved for it.
\<close>

section \<open>Changing one stream\<close>

definition world_of :: "aggregator \<Rightarrow> nat \<Rightarrow> world" where
  "world_of a h = as_w (ag_objs a ! h)"

lemma unregister_fields [simp]:
  "ag_objs (unregister i h a) = ag_objs a" "ag_opts (unregister i h a) = ag_opts a"
  "ag_queue (unregister i h a) = ag_queue a" "ag_closed (unregister i h a) = ag_closed a"
  by (simp_all add: unregister_def)

lemma put_world_fields [simp]:
  "ag_objs (put_world h w a) = (ag_objs a)[h := (ag_objs a ! h)\<lparr>as_w := w\<rparr>]"
  "ag_opts (put_world h w a) = ag_opts a" "ag_queue (put_world h w a) = ag_queue a"
  "ag_closed (put_world h w a) = ag_closed a"
  by (simp_all add: put_world_def Let_def)

lemma put_world_ids:
  "h < length (ag_objs a) \<Longrightarrow> k < length (ag_objs a) \<Longrightarrow>
   as_id (ag_objs (put_world h w a) ! k) = as_id (ag_objs a ! k) \<and> as_peer (ag_objs (put_world h w a) ! k) = as_peer (ag_objs a ! k)"
  by (simp add: nth_list_update)

lemma world_of_put:
  "h < length (ag_objs a) \<Longrightarrow> world_of (put_world h w a) k = (if k = h then w else world_of a k)"
  by (simp add: world_of_def nth_list_update)

text \<open>A new route only ever comes from \<open>register\<close>; a stream that ends loses the route that leads to it.\<close>

lemma put_world_routes:
  "ag_routes (put_world h w a) i = Some k \<Longrightarrow> ag_routes a i = Some k"
  by (auto simp: put_world_def Let_def unregister_def split: if_splits)

lemma put_world_drops:
  assumes "traced (w_s (world_of a h)) (w_s w)" and "\<not> st_once (w_s (world_of a h))" and "st_once (w_s w)"
  shows "ag_routes (put_world h w a) (as_id (ag_objs a ! h)) \<noteq> Some h"
proof -
  obtain es where "st_out (w_s w) = st_out (w_s (world_of a h)) @ es" "Eff_Deregister \<in> set es"
    using assms by (auto simp: traced_def)
  then have "Eff_Deregister \<in> set (drop (length (st_out (w_s (world_of a h)))) (st_out (w_s w)))" by simp
  then show ?thesis by (simp add: put_world_def Let_def world_of_def unregister_def)
qed

section \<open>Invariant\<close>

definition routes_live :: "aggregator \<Rightarrow> bool" where
  "routes_live a \<longleftrightarrow>
     (\<forall>i h. ag_routes a i = Some h \<longrightarrow>
        h < length (ag_objs a) \<and> as_id (ag_objs a ! h) = i \<and> \<not> st_once (w_s (world_of a h)))"

definition is_run :: "(nat \<Rightarrow> nat \<Rightarrow> byte) \<Rightarrow> aggregator \<Rightarrow> nat \<Rightarrow> bool" where
  "is_run cs a h \<longleftrightarrow> (\<exists>cf t ini. reach (cs h) (new_world cf t ini) (world_of a h))"

type_synonym pending = "(nat \<times> u64 \<times> bool) list"

definition pending_ok :: "aggregator \<Rightarrow> pending \<Rightarrow> bool" where
  "pending_ok a ps \<longleftrightarrow> distinct (map (\<lambda>(h, pid, d). (h, pid)) ps) \<and>
     (\<forall>h pid d. (h, pid, d) \<in> set ps \<longrightarrow> h < length (ag_objs a) \<and> pid \<in> set (w_granted (world_of a h)))"

definition agg_inv :: "(nat \<Rightarrow> nat \<Rightarrow> byte) \<Rightarrow> aggregator \<Rightarrow> pending \<Rightarrow> bool" where
  "agg_inv cs a ps \<longleftrightarrow> routes_live a \<and> (\<forall>h < length (ag_objs a). is_run cs a h) \<and> pending_ok a ps \<and>
     int (length (ag_queue a)) \<le> max 0 (op_acceptBacklog (ag_opts a))"

text \<open>One step of one stream keeps the table and the runs.\<close>

lemma put_world_step:
  assumes inv: "routes_live a" "\<forall>h < length (ag_objs a). is_run cs a h"
    and h: "h < length (ag_objs a)" and ok: "sop_ok (cs h) (world_of a h) x" and run: "sop_step x (world_of a h) = Inr w"
  shows "routes_live (put_world h w a) \<and> (\<forall>k < length (ag_objs a). is_run cs (put_world h w a) k)"
proof
  have f: "forward (world_of a h) w" by (rule step_forward[OF ok run])
  show "routes_live (put_world h w a)" unfolding routes_live_def
  proof (intro allI impI)
    fix i k
    assume r: "ag_routes (put_world h w a) i = Some k"
    then have l: "k < length (ag_objs a)" "as_id (ag_objs a ! k) = i" "\<not> st_once (w_s (world_of a k))"
      using inv(1) put_world_routes[OF r] by (auto simp: routes_live_def)
    have "\<not> st_once (w_s (world_of (put_world h w a) k))"
    proof (cases "k = h")
      case True
      then show ?thesis using put_world_drops[of a h w] f l r world_of_put[OF h] by (auto simp: forward_def)
    next
      case False
      then show ?thesis using l world_of_put[OF h] by simp
    qed
    then show "k < length (ag_objs (put_world h w a)) \<and> as_id (ag_objs (put_world h w a) ! k) = i \<and>
        \<not> st_once (w_s (world_of (put_world h w a) k))"
      using l put_world_ids[OF h] by simp
  qed
  show "\<forall>k < length (ag_objs a). is_run cs (put_world h w a) k"
  proof (intro allI impI)
    fix k assume k: "k < length (ag_objs a)"
    obtain cf t ini where "reach (cs k) (new_world cf t ini) (world_of a k)" using inv(2) k by (auto simp: is_run_def)
    then have "reach (cs k) (new_world cf t ini) (world_of (put_world h w a) k)"
      using reach_step[OF _ ok run] by (cases "k = h") (auto simp: world_of_put[OF h])
    then show "is_run cs (put_world h w a) k" unfolding is_run_def by blast
  qed
qed

lemma granted_kept:
  "sop_step x w = Inr w' \<Longrightarrow> (\<And>now p. x \<noteq> Do_Attach now p) \<Longrightarrow> set (w_granted w) \<subseteq> set (w_granted w')"
  by (cases x) (auto split: prod.splits sum.splits bool.splits)

lemma granted_attach:
  "sop_step (Do_Attach now p) w = Inr w' \<Longrightarrow> set (w_granted w) - {p_id p} \<subseteq> set (w_granted w')"
  by (auto split: prod.splits option.splits)

lemma pending_step:
  assumes "pending_ok a ps" and "h < length (ag_objs a)" and "set (w_granted (world_of a h)) \<subseteq> set (w_granted w)"
  shows "pending_ok (put_world h w a) ps"
  using assms unfolding pending_ok_def by (auto simp: world_of_put)

section \<open>Runs\<close>

datatype agg_op =
    Ag_Incoming incoming
  | Ag_Accept gotime
  | Ag_Accept_Done bool bool nat
  | Ag_Open "open_option list" gotime peer_id "bool + (hs_err + bytes)" bool
  | Ag_Bind peer_id io_err bytes
  | Ag_Reserve nat
  | Ag_Attach bool gotime
  | Ag_Later
  | Ag_Stream nat sop
  | Ag_Close

text \<open>The path handshakes that are under way; \<open>Ag_Later\<close> lets another one finish first.\<close>

fun agg_step :: "attach_codec \<Rightarrow> agg_op \<Rightarrow> aggregator \<times> pending \<Rightarrow> (aggregator \<times> pending) run" where
  "agg_step dec (Ag_Incoming x) (a, ps) = Inr (snd (handleStream x a), ps)"
| "agg_step dec (Ag_Accept now) (a, ps) = (case accept_read now a of Inl e \<Rightarrow> Inl e | Inr (r, a') \<Rightarrow> Inr (a', ps))"
| "agg_step dec (Ag_Accept_Done sent alive h) (a, ps) = Inr (snd (accept_done sent alive h a), ps)"
| "agg_step dec (Ag_Open opts now p hs alive) (a, ps) = Inr (snd (open_stream opts now p hs alive a), ps)"
| "agg_step dec (Ag_Bind p fin bs) (a, ps) =
     (case path_bind dec p fin bs a of
        (None, a') \<Rightarrow> Inr (a', ps)
      | (Some (h, pid, echo, rest), a') \<Rightarrow> Inr (a', (h, pid, False) # ps))"
| "agg_step dec (Ag_Reserve h) (a, ps) =
     (case reserve_path h a of (Inl e, a') \<Rightarrow> Inr (a', ps) | (Inr pid, a') \<Rightarrow> Inr (a', (h, pid, True) # ps))"
| "agg_step dec (Ag_Attach ok now) (a, ps) =
     (case ps of
        [] \<Rightarrow> Inr (a, [])
      | (h, pid, dialed) # ps' \<Rightarrow> Inr (snd (path_attach ok now h pid dialed a), ps'))"
| "agg_step dec Ag_Later (a, ps) = Inr (a, rotate1 ps)"
| "agg_step dec (Ag_Stream h x) (a, ps) =
     (case sop_step x (world_of a h) of Inl e \<Rightarrow> Inl e | Inr w \<Rightarrow> Inr (put_world h w a, ps))"
| "agg_step dec Ag_Close (a, ps) = Inr (agg_close a, ps)"

fun stream_sop :: "sop \<Rightarrow> bool" where
  "stream_sop Do_Reserve_Local = False"
| "stream_sop (Do_Reserve_Remote i) = False"
| "stream_sop (Do_Attach now p) = False"
| "stream_sop x = True"

fun agg_enabled :: "(nat \<Rightarrow> nat \<Rightarrow> byte) \<Rightarrow> aggregator \<times> pending \<Rightarrow> agg_op \<Rightarrow> bool" where
  "agg_enabled cs (a, ps) (Ag_Accept_Done sent alive h) \<longleftrightarrow> h < length (ag_objs a)"
| "agg_enabled cs (a, ps) (Ag_Reserve h) \<longleftrightarrow>
     h < length (ag_objs a) \<and> unat (st_nextPathID (w_s (world_of a h))) + 2 < 2 ^ 64"
| "agg_enabled cs (a, ps) (Ag_Stream h x) \<longleftrightarrow> h < length (ag_objs a) \<and> stream_sop x \<and> sop_ok (cs h) (world_of a h) x"
| "agg_enabled cs (a, ps) x \<longleftrightarrow> True"

inductive agg_reach :: "attach_codec \<Rightarrow> (nat \<Rightarrow> nat \<Rightarrow> byte) \<Rightarrow> aggregator \<Rightarrow> aggregator \<times> pending \<Rightarrow> bool" for dec cs a0 where
  agg_start: "agg_reach dec cs a0 (a0, [])"
| agg_next: "agg_reach dec cs a0 s \<Longrightarrow> agg_enabled cs s x \<Longrightarrow> agg_step dec x s = Inr s' \<Longrightarrow> agg_reach dec cs a0 s'"

section \<open>The invariant holds in every run\<close>

lemma agg_inv_queue: "agg_inv cs a ps \<Longrightarrow> int (length q) \<le> max 0 (op_acceptBacklog (ag_opts a)) \<Longrightarrow> agg_inv cs (a\<lparr>ag_queue := q\<rparr>) ps"
  by (simp add: agg_inv_def routes_live_def is_run_def pending_ok_def world_of_def)

lemma add_stream_fields:
  assumes "add_stream oo now i p ini a = (h, a')"
  shows "h = length (ag_objs a) \<and> ag_objs a' = ag_objs a @ [\<lparr>as_id = i, as_peer = p, as_w = new_world (streamCfg oo) now ini\<rparr>] \<and>
    ag_routes a' = (ag_routes a)(i := Some h) \<and> ag_queue a' = ag_queue a \<and> ag_opts a' = ag_opts a \<and> ag_closed a' = ag_closed a"
  using assms by (auto simp: add_stream_def register_def Let_def)

lemma add_stream_inv:
  assumes "agg_inv cs a ps" and "add_stream oo now i p ini a = (h, a')"
  shows "agg_inv cs a' ps"
proof -
  note f = add_stream_fields[OF assms(2)]
  have w: "world_of a' k = (if k = h then new_world (streamCfg oo) now ini else world_of a k)" if "k \<le> h" for k
    using f that by (simp add: world_of_def nth_append)
  have "reach (cs h) (new_world (streamCfg oo) now ini) (new_world (streamCfg oo) now ini)" by (rule reach_start)
  then have "is_run cs a' h" using w[of h] unfolding is_run_def by (metis order_refl)
  moreover have "is_run cs a' k" if "k < h" for k
    using assms(1) f w[of k] that by (auto simp: agg_inv_def is_run_def)
  ultimately have "\<forall>k < length (ag_objs a'). is_run cs a' k" using f by (auto simp: less_Suc_eq)
  moreover have "routes_live a'" unfolding routes_live_def
  proof (intro allI impI)
    fix j k assume "ag_routes a' j = Some k"
    then show "k < length (ag_objs a') \<and> as_id (ag_objs a' ! k) = j \<and> \<not> st_once (w_s (world_of a' k))"
      using assms(1) f w[of k]
      by (auto simp: agg_inv_def routes_live_def nth_append new_world_def newStreamFull_def Let_def split: if_splits)
  qed
  moreover have "pending_ok a' ps" unfolding pending_ok_def
  proof (intro conjI allI impI)
    show "distinct (map (\<lambda>(h, pid, d). (h, pid)) ps)" using assms(1) by (simp add: agg_inv_def pending_ok_def)
    fix k pid d assume "(k, pid, d) \<in> set ps"
    then have "k < length (ag_objs a)" "pid \<in> set (w_granted (world_of a k))"
      using assms(1) by (auto simp: agg_inv_def pending_ok_def)
    then show "k < length (ag_objs a')" "pid \<in> set (w_granted (world_of a' k))" using f w[of k] by auto
  qed
  ultimately show ?thesis using assms(1) f by (simp add: agg_inv_def)
qed

lemma run_ids: "is_run cs a h \<Longrightarrow> ids_inv (w_s (world_of a h)) (w_granted (world_of a h))"
  using reach_inv[OF _ world_inv_new] by (auto simp: is_run_def world_inv_def)

lemma id_taken: "ids_inv s gs \<Longrightarrow> i \<in> set gs \<or> i \<in> p_id ` set (st_paths s) \<Longrightarrow> id_known s i"
  by (auto simp: ids_inv_def list_all_iff)

lemma step_inv:
  assumes inv: "agg_inv cs a ps" and h: "h < length (ag_objs a)"
    and ok: "sop_ok (cs h) (world_of a h) x" and run: "sop_step x (world_of a h) = Inr w"
    and pend: "pending_ok (put_world h w a) ps'"
  shows "agg_inv cs (put_world h w a) ps'"
  using put_world_step[of a cs h x w] h ok run inv pend by (simp add: agg_inv_def)

lemma pair_mem: "(h, i, d) \<in> set ps \<Longrightarrow> (h, i) \<in> (\<lambda>x. case x of (h, pid, d) \<Rightarrow> (h, pid)) ` set ps"
  by force

lemma pending_mem: "pending_ok a ps \<Longrightarrow> i \<notin> set (w_granted (world_of a h)) \<Longrightarrow> \<forall>d. (h, i, d) \<notin> set ps"
  by (auto simp: pending_ok_def)

lemma pending_cons:
  assumes "pending_ok a ps" and "h < length (ag_objs a)" and "i \<in> set (w_granted (world_of a h))" and "\<forall>d. (h, i, d) \<notin> set ps"
  shows "pending_ok a ((h, i, d) # ps)"
  using assms by (auto simp: pending_ok_def)

lemma reserve_remote_inv:
  assumes inv: "agg_inv cs a ps" and h: "h < length (ag_objs a)"
    and r: "reserveRemotePathID i (w_s (world_of a h)) = (True, s)"
  defines "w \<equiv> (world_of a h)\<lparr>w_s := s, w_granted := i # w_granted (world_of a h)\<rparr>"
  shows "agg_inv cs (put_world h w a) ((h, i, d) # ps) \<and> i \<notin> set (w_granted (world_of a h)) \<union> p_id ` set (st_paths (w_s (world_of a h)))"
proof -
  have "ids_inv (w_s (world_of a h)) (w_granted (world_of a h))" using inv h run_ids[of cs a h] by (simp add: agg_inv_def)
  moreover have "\<not> id_known (w_s (world_of a h)) i" using r by (auto simp: reserveRemotePathID_def id_known_def split: if_splits)
  ultimately have fresh: "i \<notin> set (w_granted (world_of a h)) \<union> p_id ` set (st_paths (w_s (world_of a h)))"
    using id_taken by blast
  have "sop_step (Do_Reserve_Remote i) (world_of a h) = Inr w" using r by (simp add: w_def)
  moreover have p: "pending_ok (put_world h w a) ps"
    using inv h by (intro pending_step) (auto simp: agg_inv_def w_def)
  have "pending_ok (put_world h w a) ((h, i, d) # ps)"
    using pending_cons[OF p, of h i d] pending_mem[of a ps i h] h inv fresh by (simp add: world_of_put w_def agg_inv_def)
  ultimately show ?thesis using step_inv[OF inv h, of "Do_Reserve_Remote i" w] fresh by simp
qed

lemma reserve_local_inv:
  assumes inv: "agg_inv cs a ps" and h: "h < length (ag_objs a)" and room: "unat (st_nextPathID (w_s (world_of a h))) + 2 < 2 ^ 64"
    and r: "reserveLocalPathID (w_s (world_of a h)) = Inr (i, s)"
  defines "w \<equiv> (world_of a h)\<lparr>w_s := s, w_granted := i # w_granted (world_of a h)\<rparr>"
  shows "agg_inv cs (put_world h w a) ((h, i, d) # ps)"
proof -
  have ids: "ids_inv (w_s (world_of a h)) (w_granted (world_of a h))" using inv h run_ids[of cs a h] by (simp add: agg_inv_def)
  then have "\<not> id_known (w_s (world_of a h)) i"
    using r by (auto simp: reserveLocalPathID_def ids_inv_def id_known_def split: if_splits)
  then have fresh: "i \<notin> set (w_granted (world_of a h))" using id_taken[OF ids] by blast
  have "sop_step Do_Reserve_Local (world_of a h) = Inr w" using r by (simp add: w_def)
  moreover have p: "pending_ok (put_world h w a) ps"
    using inv h by (intro pending_step) (auto simp: agg_inv_def w_def)
  have "pending_ok (put_world h w a) ((h, i, d) # ps)"
    using pending_cons[OF p, of h i d] pending_mem[of a ps i h] h inv fresh by (simp add: world_of_put w_def agg_inv_def)
  ultimately show ?thesis using step_inv[OF inv h, of Do_Reserve_Local w] room by simp
qed

lemma path_attach_inv:
  assumes inv: "agg_inv cs a ((h, i, d) # ps)"
  shows "agg_inv cs (snd (path_attach ok now h i d a)) ps"
proof (cases ok)
  case False
  then show ?thesis using inv by (simp add: path_attach_def agg_inv_def pending_ok_def)
next
  case True
  have h: "h < length (ag_objs a)" and g: "i \<in> set (w_granted (world_of a h))"
    and p: "pending_ok a ps" and new: "\<forall>d. (h, i, d) \<notin> set ps"
    using inv by (auto simp: agg_inv_def pending_ok_def dest: pair_mem)
  let ?p = "new_path i d Zero_Time"
  have sok: "sop_ok (cs h) (world_of a h) (Do_Attach now ?p)" using g by (simp add: new_path_def)
  obtain w where w: "sop_step (Do_Attach now ?p) (world_of a h) = Inr w"
  proof -
    obtain e s where "attachPath now ?p (w_s (world_of a h)) = (e, s)" by fastforce
    then show ?thesis using that by (cases e) simp_all
  qed
  have eq: "snd (path_attach ok now h i d a) = put_world h w a"
    using w True by (auto simp: path_attach_def Let_def world_of_def new_path_def split: prod.splits option.splits)
  have sub: "set (w_granted (world_of a h)) - {i} \<subseteq> set (w_granted w)"
    using granted_attach[OF w] by (simp add: new_path_def)
  have "pending_ok (put_world h w a) ps"
    unfolding pending_ok_def
  proof (intro conjI allI impI)
    show "distinct (map (\<lambda>(h, pid, d). (h, pid)) ps)" using p by (simp add: pending_ok_def)
    fix k j e assume m: "(k, j, e) \<in> set ps"
    then have k: "k < length (ag_objs a)" "j \<in> set (w_granted (world_of a k))" using p by (auto simp: pending_ok_def)
    then show "k < length (ag_objs (put_world h w a))" by simp
    show "j \<in> set (w_granted (world_of (put_world h w a) k))"
      using k m new sub by (cases "k = h") (auto simp: world_of_put[OF h])
  qed
  moreover have "agg_inv cs a ps" using inv by (simp add: agg_inv_def pending_ok_def)
  ultimately show ?thesis unfolding eq using step_inv[of cs a ps h "Do_Attach now ?p" w ps] h sok w by blast
qed

lemma pending_rotate: "pending_ok a ps \<Longrightarrow> pending_ok a (rotate1 ps)"
  by (cases ps) (auto simp: pending_ok_def)

lemma path_bind_cases:
  assumes "path_bind dec p fin bs a = (r, a')"
  shows "r = None \<and> a' = a \<or>
    (\<exists>h i pid f rest s. r = Some (h, pid, append_ctrl_frame [] framePathAttach (f_body f), rest) \<and> \<not> ag_closed a \<and>
       read_frame fin bs = Inr ((framePathAttach, f), rest) \<and> unmarshalPathAttach dec (f_body f) = Some (i, pid) \<and>
       ag_routes a i = Some h \<and> as_peer (ag_objs a ! h) = p \<and>
       reserveRemotePathID pid (w_s (world_of a h)) = (True, s) \<and>
       a' = put_world h ((world_of a h)\<lparr>w_s := s, w_granted := pid # w_granted (world_of a h)\<rparr>) a)"
  using assms unfolding path_bind_def world_of_def Let_def
  by (auto split: if_splits sum.splits prod.splits option.splits)

lemma agg_inv_step:
  assumes inv: "agg_inv cs a ps" and en: "agg_enabled cs (a, ps) x" and run: "agg_step dec x (a, ps) = Inr (a', ps')"
  shows "agg_inv cs a' ps'"
proof (cases x)
  case (Ag_Incoming c)
  then show ?thesis using inv run agg_inv_queue[OF inv, of "ag_queue a @ [c]"]
    by (auto simp: handleStream_def agg_inv_def split: if_splits)
next
  case (Ag_Accept now)
  have q: "agg_inv cs (a\<lparr>ag_queue := tl (ag_queue a)\<rparr>) ps"
    by (rule agg_inv_queue[OF inv]) (use inv in \<open>auto simp: agg_inv_def\<close>)
  then show ?thesis using run Ag_Accept inv add_stream_inv[OF q]
    by (auto simp: accept_read_def Let_def split: list.splits sum.splits prod.splits option.splits)
next
  case (Ag_Accept_Done sent alive h)
  have h: "h < length (ag_objs a)" using en Ag_Accept_Done by simp
  let ?w = "(world_of a h)\<lparr>w_s := stream_close (w_s (world_of a h))\<rparr>"
  have "agg_inv cs (put_world h ?w a) ps"
    by (rule step_inv[OF inv h, of Do_Close]) (use inv h in \<open>auto simp: agg_inv_def intro!: pending_step\<close>)
  then show ?thesis using run Ag_Accept_Done inv by (auto simp: accept_done_def Let_def world_of_def split: if_splits)
next
  case (Ag_Open opts now p hs alive)
  then show ?thesis using run inv add_stream_inv[OF inv]
    by (auto simp: open_stream_def Let_def split: if_splits sum.splits prod.splits)
next
  case (Ag_Bind p fin bs)
  obtain r a1 where b: "path_bind dec p fin bs a = (r, a1)" by fastforce
  from path_bind_cases[OF b] show ?thesis
  proof (elim disjE conjE exE)
    assume "r = None" "a1 = a"
    then show ?thesis using run Ag_Bind b inv by simp
  next
    fix h i pid f rest s
    assume c: "r = Some (h, pid, append_ctrl_frame [] framePathAttach (f_body f), rest)" "ag_routes a i = Some h"
      "reserveRemotePathID pid (w_s (world_of a h)) = (True, s)"
      "a1 = put_world h ((world_of a h)\<lparr>w_s := s, w_granted := pid # w_granted (world_of a h)\<rparr>) a"
    have "h < length (ag_objs a)" using c(2) inv by (auto simp: agg_inv_def routes_live_def)
    then show ?thesis using run Ag_Bind b c reserve_remote_inv[OF inv _ c(3)] by auto
  qed
next
  case (Ag_Reserve h)
  then have h: "h < length (ag_objs a)" "unat (st_nextPathID (w_s (world_of a h))) + 2 < 2 ^ 64" using en by simp_all
  show ?thesis
  proof (cases "reserveLocalPathID (w_s (world_of a h))")
    case (Inl e)
    then show ?thesis using run Ag_Reserve inv by (simp add: reserve_path_def world_of_def)
  next
    case (Inr z)
    then show ?thesis using run Ag_Reserve reserve_local_inv[OF inv h, of "fst z" "snd z"]
      by (cases z) (auto simp: reserve_path_def world_of_def Let_def)
  qed
next
  case (Ag_Attach ok now)
  then show ?thesis using run inv path_attach_inv by (auto split: list.splits)
next
  case Ag_Later
  then show ?thesis using run inv pending_rotate by (auto simp: agg_inv_def)
next
  case (Ag_Stream h y)
  then have h: "h < length (ag_objs a)" "stream_sop y" "sop_ok (cs h) (world_of a h) y" using en by simp_all
  obtain w where w: "sop_step y (world_of a h) = Inr w" "a' = put_world h w a" "ps' = ps"
    using run Ag_Stream by (auto split: sum.splits)
  have "set (w_granted (world_of a h)) \<subseteq> set (w_granted w)" using granted_kept[OF w(1)] h(2) by (cases y) auto
  then have "pending_ok (put_world h w a) ps" using inv h(1) by (intro pending_step) (auto simp: agg_inv_def)
  then show ?thesis using step_inv[OF inv h(1,3) w(1)] w by simp
next
  case Ag_Close
  have "agg_inv cs (a\<lparr>ag_closed := True\<rparr>) ps"
    using inv by (simp add: agg_inv_def routes_live_def is_run_def pending_ok_def world_of_def)
  then show ?thesis using run Ag_Close by (simp add: agg_close_def)
qed

lemma agg_inv_new: "agg_new opts = Inr a \<Longrightarrow> agg_inv cs a []"
  by (auto simp: agg_new_def Let_def agg_inv_def routes_live_def pending_ok_def split: if_splits)

lemma agg_reach_inv:
  assumes "agg_reach dec cs a0 s" and "agg_inv cs a0 []"
  shows "agg_inv cs (fst s) (snd s)"
  using assms
proof (induction rule: agg_reach.induct)
  case (agg_next s x s')
  then show ?case using agg_inv_step[of cs "fst s" "snd s" x dec "fst s'" "snd s'"] by simp
qed simp

section \<open>Properties\<close>


text \<open>
  C27: in every run, a sub-stream of the path protocol either leaves the aggregator as it is, or its first frame
  is a PATH_ATTACH whose id leads to a live stream with the very peer that opened the sub-stream, and whose
  path id belongs to the peer's half of the ids and is neither in use nor reserved on that stream; then
  exactly that frame is echoed, the id is reserved, and nothing else changes on any stream.
\<close>
theorem path_bind_authentic:
  assumes "agg_new opts = Inr a0" and "agg_reach dec cs a0 (a, ps)" and "path_bind dec p fin bs a = (r, a')"
  shows "r = None \<and> a' = a \<or>
    (\<exists>h pid f rest. r = Some (h, pid, append_ctrl_frame [] framePathAttach (f_body f), rest) \<and> \<not> ag_closed a \<and>
       read_frame fin bs = Inr ((framePathAttach, f), rest) \<and> h < length (ag_objs a) \<and>
       unmarshalPathAttach dec (f_body f) = Some (as_id (ag_objs a ! h), pid) \<and> as_peer (ag_objs a ! h) = p \<and>
       pid AND 1 = st_remoteParity (w_s (as_w (ag_objs a ! h))) \<and> \<not> st_closed (w_s (as_w (ag_objs a ! h))) \<and>
       pid \<notin> set (w_granted (as_w (ag_objs a ! h))) \<union> p_id ` set (st_paths (w_s (as_w (ag_objs a ! h)))) \<and>
       st_paths (w_s (as_w (ag_objs a' ! h))) = st_paths (w_s (as_w (ag_objs a ! h))) \<and>
       w_granted (as_w (ag_objs a' ! h)) = pid # w_granted (as_w (ag_objs a ! h)) \<and>
       (\<forall>k. k \<noteq> h \<longrightarrow> ag_objs a' ! k = ag_objs a ! k))"
proof -
  have inv: "agg_inv cs a ps" using agg_reach_inv[OF assms(2) agg_inv_new[OF assms(1)]] by simp
  from path_bind_cases[OF assms(3)] show ?thesis
  proof (elim disjE conjE exE)
    fix h i pid f rest s
    assume c: "r = Some (h, pid, append_ctrl_frame [] framePathAttach (f_body f), rest)" "\<not> ag_closed a"
      "read_frame fin bs = Inr ((framePathAttach, f), rest)" "unmarshalPathAttach dec (f_body f) = Some (i, pid)"
      "ag_routes a i = Some h" "as_peer (ag_objs a ! h) = p" "reserveRemotePathID pid (w_s (world_of a h)) = (True, s)"
      "a' = put_world h ((world_of a h)\<lparr>w_s := s, w_granted := pid # w_granted (world_of a h)\<rparr>) a"
    have h: "h < length (ag_objs a)" "as_id (ag_objs a ! h) = i" using c(5) inv by (auto simp: agg_inv_def routes_live_def)
    have new: "pid \<notin> set (w_granted (world_of a h)) \<union> p_id ` set (st_paths (w_s (world_of a h)))"
      using reserve_remote_inv[OF inv h(1) c(7)] by blast
    have "pid AND 1 = st_remoteParity (w_s (world_of a h))" "\<not> st_closed (w_s (world_of a h))"
      "st_paths s = st_paths (w_s (world_of a h))"
      using c(7) by (auto simp: reserveRemotePathID_def split: if_splits)
    then show ?thesis using c h new by (auto simp: world_of_def)
  qed simp
qed

text \<open>
  Registration comes before the answer: as soon as the HelloAck of an accepted stream can reach the peer,
  a path that the peer offers for it under an id of its own half is bound, whatever else was going on, and the peer takes the echo as the acceptance of just that path.
\<close>
theorem offered_path_is_bound:
  assumes "accept_read now a = Inr (AR_Ack h ack, a')" and "\<not> ag_closed a" and "ic_peer (hd (ag_queue a)) = p"
    and "read_frame fin bs = Inr ((framePathAttach, f), rest)" and "unmarshalPathAttach dec (f_body f) = Some (ha_id ack, pid)"
    and "pid AND 1 = 0" and "pid \<noteq> 0"
  shows "fst (path_bind dec p fin bs a') = Some (h, pid, append_ctrl_frame [] framePathAttach (f_body f), rest) \<and>
    recvPathAttachAck dec fin' (append_ctrl_frame [] framePathAttach (f_body f) @ later) (ha_id ack) pid = Some later"
proof -
  have "length (f_body f) \<le> maxCtrlBody" using read_frame_Inr[OF assms(4)] by (simp add: frame_ok_def)
  then have "wire_ok (W_Ctrl framePathAttach (f_body f))" by (simp add: ctrl_type_def)
  from read_frame_encode[OF this, of fin' later]
  have "recvPathAttachAck dec fin' (append_ctrl_frame [] framePathAttach (f_body f) @ later) (ha_id ack) pid = Some later"
    using assms(5) by (simp add: recvPathAttachAck_def)
  moreover obtain x q i auth where x: "ag_queue a = x # q" "handshakeResponderRead (ic_hello x) = Inr (i, auth)"
      "add_stream (defaultOpenOptions (ag_opts a)) now i (ic_peer x) False (a\<lparr>ag_queue := q\<rparr>) = (h, a')"
      "ack = handshakeResponderAck i"
    using assms(1) by (auto simp: accept_read_def Let_def split: list.splits sum.splits prod.splits option.splits)
  note n = add_stream_fields[OF x(3)]
  have "fst (path_bind dec p fin bs a') = Some (h, pid, append_ctrl_frame [] framePathAttach (f_body f), rest)"
  proof -
  have "ag_routes a' i = Some h" "ag_objs a' ! h = \<lparr>as_id = i, as_peer = ic_peer x,
      as_w = new_world (streamCfg (defaultOpenOptions (ag_opts a))) now False\<rparr>" "\<not> ag_closed a'"
    using n assms(2) by auto
  then show ?thesis
    using assms(3-) x
    by (auto simp: path_bind_def Let_def handshakeResponderAck_def new_world_def newStreamFull_def
        reserveRemotePathID_def split: prod.splits)
  qed
  ultimately show ?thesis by blast
qed

lemma options_valid:
  "0 < op_reorderMin o1 \<and> op_reorderMin o1 \<le> op_reorderMax o1 \<Longrightarrow>
   0 < op_reorderMin (fold applyOption opts o1) \<and> op_reorderMin (fold applyOption opts o1) \<le> op_reorderMax (fold applyOption opts o1)"
proof (induction opts arbitrary: o1)
  case (Cons x opts)
  have "0 < op_reorderMin (applyOption x o1) \<and> op_reorderMin (applyOption x o1) \<le> op_reorderMax (applyOption x o1)"
    using Cons.prems by (cases "(x, o1)" rule: applyOption.cases) (auto simp: bad_buffer_def)
  then show ?case using Cons.IH[of "applyOption x o1"] by simp
qed simp

lemma open_options_valid:
  "0 < oo_reorderMin oo \<and> oo_reorderMin oo \<le> oo_reorderMax oo \<Longrightarrow>
   0 < oo_reorderMin (fold applyOpenOption opts oo) \<and> oo_reorderMin (fold applyOpenOption opts oo) \<le> oo_reorderMax (fold applyOpenOption opts oo)"
proof (induction opts arbitrary: oo)
  case (Cons x opts)
  have "0 < oo_reorderMin (applyOpenOption x oo) \<and> oo_reorderMin (applyOpenOption x oo) \<le> oo_reorderMax (applyOpenOption x oo)"
    using Cons.prems by (cases "(x, oo)" rule: applyOpenOption.cases) (auto simp: bad_buffer_def)
  then show ?case using Cons.IH[of "applyOpenOption x oo"] by simp
qed simp

text \<open>
  C28: no combination of options, invalid bounds included, gives a stream an unusable receive buffer: both bounds
  are positive and ordered, with and without the overrides of \<open>OpenStream\<close>, and are the ones the stream ends up
  with; and \<open>New\<close> panics exactly when the backlog it is given last is negative.
\<close>
theorem options_keep_buffers_valid:
  "let o1 = fold applyOption opts default_options; oo = fold applyOpenOption over (defaultOpenOptions o1);
       c = norm_config (streamCfg oo) in
   0 < oo_reorderMin oo \<and> oo_reorderMin oo \<le> oo_reorderMax oo \<and>
   cf_minBuf c = oo_reorderMin oo \<and> cf_maxBuf c = oo_reorderMax oo \<and>
   (agg_new opts = Inl Chan_Size) = (op_acceptBacklog o1 < 0)"
proof -
  let ?o = "fold applyOption opts default_options"
  have "0 < op_reorderMin ?o \<and> op_reorderMin ?o \<le> op_reorderMax ?o"
    by (rule options_valid) (simp add: default_options_def defaultMinReorderBuf_def defaultMaxReorderBuf_def)
  then have "0 < oo_reorderMin (defaultOpenOptions ?o) \<and> oo_reorderMin (defaultOpenOptions ?o) \<le> oo_reorderMax (defaultOpenOptions ?o)"
    by (simp add: defaultOpenOptions_def)
  from open_options_valid[OF this, of over] show ?thesis
    by (auto simp: Let_def norm_config_def streamCfg_def agg_new_def)
qed

text \<open>A second handshake under an id that is in use takes the route from the first stream.\<close>

lemma accept_takes_over_route:
  assumes "ag_routes a i = Some g" and "add_stream oo now i p False a = (h, a')" and "g < length (ag_objs a)"
  shows "ag_routes a' i = Some h \<and> h \<noteq> g \<and> ag_objs a' ! g = ag_objs a ! g"
  using add_stream_fields[OF assms(2)] assms(3) by (auto simp: nth_append)

section \<open>Witnesses\<close>

definition demo_id :: bytes where "demo_id = replicate 16 7"

definition demo_dec :: attach_codec where
  "demo_dec body = (if body = [1] then Some (demo_id, 2) else None)"

definition demo_agg0 :: aggregator where
  "demo_agg0 = \<lparr>ag_opts = default_options, ag_queue = [], ag_closed = False, ag_routes = (\<lambda>_. None), ag_objs = []\<rparr>"

definition demo_agg1 :: aggregator where
  "demo_agg1 = demo_agg0\<lparr>ag_queue := [\<lparr>ic_peer = ''p'', ic_hello = Some \<lparr>hm_id = demo_id, hm_auth = []\<rparr>\<rparr>]\<rparr>"

definition demo_agg2 :: aggregator where
  "demo_agg2 = snd (add_stream (defaultOpenOptions default_options) (At 0) demo_id ''p'' False demo_agg0)"

definition demo_attach :: bytes where "demo_attach = append_ctrl_frame [] framePathAttach [1]"

lemma demo_agg_new: "agg_new [] = Inr demo_agg0"
  by (simp add: agg_new_def default_options_def demo_agg0_def)

lemma demo_accept: "accept_read (At 0) demo_agg1 = Inr (AR_Ack 0 (handshakeResponderAck demo_id), demo_agg2)"
  by (simp add: accept_read_def demo_agg1_def demo_agg0_def demo_agg2_def demo_id_def handshakeResponderRead_def aggStreamIDLen_def
      checkAuth_def default_options_def add_stream_def register_def Let_def)

lemma demo_reach_agg: "agg_reach demo_dec (\<lambda>_. demo_content) demo_agg0 (demo_agg2, [])"
proof (rule agg_next)
  show "agg_reach demo_dec (\<lambda>_. demo_content) demo_agg0 (demo_agg1, [])"
    by (rule agg_next[OF agg_start, where x = "Ag_Incoming \<lparr>ic_peer = ''p'', ic_hello = Some \<lparr>hm_id = demo_id, hm_auth = []\<rparr>\<rparr>"])
      (simp_all add: handleStream_def demo_agg0_def demo_agg1_def default_options_def)
  show "agg_enabled (\<lambda>_. demo_content) (demo_agg1, []) (Ag_Accept (At 0))" by simp
  show "agg_step demo_dec (Ag_Accept (At 0)) (demo_agg1, []) = Inr (demo_agg2, [])" by (simp add: demo_accept)
qed

lemma demo_attach_read: "read_frame Io_EOF demo_attach = Inr ((framePathAttach, empty_frame\<lparr>f_body := [1]\<rparr>), [])"
  using read_frame_encode[of "W_Ctrl framePathAttach [1]" Io_EOF "[]"] by (simp add: demo_attach_def ctrl_type_def maxCtrlBody_def)


theorem path_bind_authentic_witness:
  "fst (path_bind demo_dec ''q'' Io_EOF demo_attach demo_agg2) = None \<and>
   fst (path_bind demo_dec ''p'' Io_EOF demo_attach demo_agg2) = Some (0, 2, demo_attach, [])"
proof -
  obtain r a' where q: "path_bind demo_dec ''q'' Io_EOF demo_attach demo_agg2 = (r, a')" by fastforce
  have one: "length (ag_objs demo_agg2) = 1" "as_peer (ag_objs demo_agg2 ! 0) = ''p''"
    by (simp_all add: demo_agg2_def demo_agg0_def add_stream_def register_def Let_def)
  then have "r = None" using path_bind_authentic[OF demo_agg_new demo_reach_agg q] by auto
  moreover have "fst (path_bind demo_dec ''p'' Io_EOF demo_attach demo_agg2) = Some (0, 2, demo_attach, [])"
    unfolding path_bind_def demo_attach_read
    by (simp add: demo_agg2_def demo_agg0_def add_stream_def register_def Let_def unmarshalPathAttach_def
        demo_dec_def demo_id_def aggStreamIDLen_def new_world_def newStreamFull_def reserveRemotePathID_def demo_attach_def)
  ultimately show ?thesis using q by simp
qed

theorem offered_path_is_bound_witness:
  "recvPathAttachAck demo_dec Io_EOF demo_attach demo_id 2 = Some []"
  using offered_path_is_bound[OF demo_accept, of "''p''" Io_EOF demo_attach "empty_frame\<lparr>f_body := [1]\<rparr>" "[]" demo_dec 2 Io_EOF "[]"]
    demo_attach_read
  by (simp add: demo_agg1_def demo_agg0_def unmarshalPathAttach_def demo_dec_def demo_id_def aggStreamIDLen_def
      handshakeResponderAck_def demo_attach_def)

end
