(* ===== verification/Add_Path.thy ===== *)
theory Add_Path
  imports Aggregator_Run "HOL-Library.Monad_Syntax"
begin

text \<open>
  Opening paths on demand: \<open>dialDirect\<close>, \<open>AddPath\<close>, the loop \<open>attachMinPaths\<close> that dials the addresses of the
  peer until the stream has the paths it was asked for, and \<open>OpenStream\<close> as a whole. A connection is what it does
  when a path is bound on it; the network is one \<open>dial_env\<close> per attempt, and what the rest of the program does
  between two attempts is a function of the aggregator. The loop may run for ever, so it is a partial function.
\<close>

section \<open>Dialling\<close>

record conn =
  cn_peer :: peer_id
  cn_opened :: bool
  cn_agreed :: bool
  cn_sent :: bool
  cn_fin :: io_err
  cn_answer :: bytes
  cn_alive :: bool

record dial_env =
  de_peer_suffix :: "maddr \<Rightarrow> peer_id option"
  de_split_last :: "maddr \<Rightarrow> maddr"
  de_dial :: "maddr \<Rightarrow> (peer_id \<Rightarrow> conn option) option"

datatype dial_err = DE_No_Transport | DE_Dial | DE_Wrong_Peer peer_id

text \<open>\<open>transportForDialing\<close> and \<open>Dial\<close> are the two layers of \<open>de_dial\<close>.\<close>

definition dialDirect :: "dial_env \<Rightarrow> peer_id \<Rightarrow> maddr \<Rightarrow> dial_err + conn" where
  "dialDirect env p addr0 =
     (let addr = (case de_peer_suffix env addr0 of
                    None \<Rightarrow> addr0
                  | Some q \<Rightarrow> if q = [] then addr0 else de_split_last env addr0) in
      case de_dial env addr of
        None \<Rightarrow> Inl DE_No_Transport
      | Some dial \<Rightarrow>
          (case dial p of
             None \<Rightarrow> Inl DE_Dial
           | Some cc \<Rightarrow> if cn_peer cc \<noteq> p then Inl (DE_Wrong_Peer (cn_peer cc)) else Inr cc))"

datatype add_err = AE_Closed | AE_Dial dial_err | AE_Bind

definition AddPath :: "attach_codec \<Rightarrow> dial_env \<Rightarrow> gotime \<Rightarrow> nat \<Rightarrow> maddr \<Rightarrow> aggregator \<Rightarrow> (add_err + u64) \<times> aggregator" where
  "AddPath dec env now h addr a =
     (case reserve_path h a of
        (Inl e, a) \<Rightarrow> (Inl AE_Closed, a)
      | (Inr pid, a) \<Rightarrow>
          (case dialDirect env (as_peer (ag_objs a ! h)) addr of
             Inl e \<Rightarrow> (Inl (AE_Dial e), a)
           | Inr cc \<Rightarrow>
               let (ok, a) = attachDialedConn dec (cn_opened cc) (cn_agreed cc) (cn_sent cc) (cn_fin cc) (cn_answer cc)
                     (cn_alive cc) now h pid a in
               (if ok then Inr pid else Inl AE_Bind, a)))"

section \<open>Enough paths\<close>

text \<open>
  The outside of a loop: for every attempt the network it meets, the time, and what happened since the last one.
\<close>

record outside =
  ou_env :: "nat \<Rightarrow> dial_env"
  ou_now :: "nat \<Rightarrow> gotime"
  ou_between :: "nat \<Rightarrow> aggregator \<Rightarrow> aggregator"

definition path_count :: "nat \<Rightarrow> aggregator \<Rightarrow> nat" where
  "path_count h a = length (st_paths (w_s (as_w (ag_objs a ! h))))"

fun attach_round :: "attach_codec \<Rightarrow> outside \<Rightarrow> nat \<Rightarrow> int \<Rightarrow> maddr list \<Rightarrow> bool \<Rightarrow> nat \<Rightarrow> aggregator \<Rightarrow> bool \<times> nat \<times> aggregator" where
  "attach_round dec out h n [] progress k a = (progress, k, a)"
| "attach_round dec out h n (addr # addrs) progress k a =
     (if n \<le> int (path_count h a) then (progress, k, a)
      else case AddPath dec (ou_env out k) (ou_now out k) h addr (ou_between out k a) of
        (Inr pid, a') \<Rightarrow> attach_round dec out h n addrs True (Suc k) a'
      | (Inl e, a') \<Rightarrow> attach_round dec out h n addrs progress (Suc k) a')"

text \<open>The result: whether the stream has the paths, the number of attempts, and the aggregator.\<close>

partial_function (option) attach_loop ::
  "attach_codec \<Rightarrow> outside \<Rightarrow> nat \<Rightarrow> int \<Rightarrow> maddr list \<Rightarrow> nat \<Rightarrow> aggregator \<Rightarrow> (bool \<times> nat \<times> aggregator) option" where
  "attach_loop dec out h n addrs k a =
     (if n \<le> int (path_count h a) then Some (True, k, a)
      else case attach_round dec out h n addrs False k a of
        (progress, k', a') \<Rightarrow> if progress then attach_loop dec out h n addrs k' a' else Some (False, k', a'))"

definition attachMinPaths ::
  "attach_codec \<Rightarrow> outside \<Rightarrow> maddr list \<Rightarrow> nat \<Rightarrow> int \<Rightarrow> aggregator \<Rightarrow> (bool \<times> nat \<times> aggregator) option" where
  "attachMinPaths dec out book h n a =
     (if book = [] then Some (False, 0, a)
      else attach_loop dec out h n (SortAddrsByPreference book) 0 a)"

section \<open>Opening a stream\<close>

definition close_stream :: "nat \<Rightarrow> aggregator \<Rightarrow> aggregator" where
  "close_stream h a = (let w = as_w (ag_objs a ! h) in put_world h (w\<lparr>w_s := stream_close (w_s w)\<rparr>) a)"

text \<open>\<open>OpenStream\<close>: \<open>Inl None\<close> is \<open>ErrMinPaths\<close>.\<close>

definition OpenStream ::
  "attach_codec \<Rightarrow> outside \<Rightarrow> maddr list \<Rightarrow> open_option list \<Rightarrow> gotime \<Rightarrow> peer_id \<Rightarrow> bool + (hs_err + bytes) \<Rightarrow> bool \<Rightarrow>
   aggregator \<Rightarrow> ((open_err option + nat) \<times> aggregator) option" where
  "OpenStream dec out book opts now p hs alive a =
     (case open_stream opts now p hs alive a of
        (Inl e, a) \<Rightarrow> Some (Inl (Some e), a)
      | (Inr h, a) \<Rightarrow>
          let n = oo_minPaths (fold applyOpenOption opts (defaultOpenOptions (ag_opts a))) in
          if 1 < n then
            do { (ok, k, a) \<leftarrow> attachMinPaths dec out book h n a;
                 Some (if ok then (Inr h, a) else (Inl None, close_stream h a)) }
          else Some (Inr h, a))"

section \<open>What an attempt does to the number of paths\<close>

lemma path_count_put:
  "h < length (ag_objs a) \<Longrightarrow> path_count h (put_world h w a) = length (st_paths (w_s w))"
  by (simp add: path_count_def put_world_def unregister_def Let_def)

lemma put_world_length [simp]: "length (ag_objs (put_world h w a)) = length (ag_objs a)"
  by (simp add: put_world_def unregister_def Let_def)

lemma reserve_path_count:
  assumes "reserve_path h a = (r, a')" and "h < length (ag_objs a)"
  shows "path_count h a' = path_count h a" and "length (ag_objs a') = length (ag_objs a)"
  using assms
  by (auto simp: reserve_path_def reserveLocalPathID_def path_count_put Let_def path_count_def split: sum.splits if_splits prod.splits)

lemma path_attach_count:
  assumes "path_attach ok now h pid d a = (r, a')" and "h < length (ag_objs a)"
  shows "path_count h a' = path_count h a + (if r then 1 else 0)" and "length (ag_objs a') = length (ag_objs a)"
  using assms
  by (auto simp: path_attach_def attachPath_def path_count_put Let_def path_count_def wakeSend_def emit_def
      split: if_splits option.splits prod.splits)

lemma attachDialedConn_count:
  assumes "attachDialedConn dec o1 g s f ans al now h pid a = (r, a')" and "h < length (ag_objs a)"
  shows "path_count h a' = path_count h a + (if r then 1 else 0)" and "length (ag_objs a') = length (ag_objs a)"
  using assms path_attach_count[of True now h pid True a r a']
  by (auto simp: attachDialedConn_def split: if_splits)

lemma AddPath_count:
  assumes "AddPath dec env now h addr a = (r, a')" and "h < length (ag_objs a)"
  shows "path_count h a' = path_count h a + (if isl r then 0 else 1)" and "length (ag_objs a') = length (ag_objs a)"
proof -
  obtain q a1 where r1: "reserve_path h a = (q, a1)" by fastforce
  note c1 = reserve_path_count[OF r1 assms(2)]
  have "path_count h a' = path_count h a + (if isl r then 0 else 1) \<and> length (ag_objs a') = length (ag_objs a)"
  proof (cases q)
    case (Inl e)
    then show ?thesis using assms(1) r1 c1 by (auto simp: AddPath_def)
  next
    case (Inr pid)
    show ?thesis
    proof (cases "dialDirect env (as_peer (ag_objs a1 ! h)) addr")
      case (Inl e)
      then show ?thesis using assms(1) r1 c1 Inr by (auto simp: AddPath_def)
    next
      case (Inr cc)
      obtain ok a2 where d: "attachDialedConn dec (cn_opened cc) (cn_agreed cc) (cn_sent cc) (cn_fin cc) (cn_answer cc)
          (cn_alive cc) now h pid a1 = (ok, a2)" by fastforce
      then have "r = (if ok then Inr pid else Inl AE_Bind)" "a' = a2"
        using assms(1) r1 \<open>q = Inr pid\<close> Inr by (auto simp: AddPath_def)
      then show ?thesis using attachDialedConn_count[OF d] c1 assms(2) by auto
    qed
  qed
  then show "path_count h a' = path_count h a + (if isl r then 0 else 1)" "length (ag_objs a') = length (ag_objs a)" by blast+
qed

section \<open>The loop ends\<close>

text \<open>
  The entry of a stream is sound: it exists, its routes are under its own id, and a stream that has ended has
  none. Nothing outside loses a path or the entry.
\<close>

definition entry_ok :: "nat \<Rightarrow> aggregator \<Rightarrow> bool" where
  "entry_ok h a \<longleftrightarrow> h < length (ag_objs a) \<and> (\<forall>i. ag_routes a i = Some h \<longrightarrow> i = as_id (ag_objs a ! h)) \<and>
     (st_once (w_s (as_w (ag_objs a ! h))) \<longrightarrow> st_closed (w_s (as_w (ag_objs a ! h))) \<and> ag_routes a (as_id (ag_objs a ! h)) \<noteq> Some h)"

definition keeps_paths :: "outside \<Rightarrow> nat \<Rightarrow> bool" where
  "keeps_paths out h \<longleftrightarrow> (\<forall>k b. entry_ok h b \<longrightarrow> entry_ok h (ou_between out k b) \<and> path_count h b \<le> path_count h (ou_between out k b))"

definition adds_no_paths :: "outside \<Rightarrow> nat \<Rightarrow> bool" where
  "adds_no_paths out h \<longleftrightarrow> (\<forall>k b. path_count h (ou_between out k b) = path_count h b)"

lemma entry_put:
  assumes "entry_ok h a" and "st_once (w_s w) \<Longrightarrow> st_closed (w_s w)"
    and "st_out (w_s w) = st_out (w_s (as_w (ag_objs a ! h))) @ es"
    and "st_once (w_s w) \<Longrightarrow> \<not> st_once (w_s (as_w (ag_objs a ! h))) \<Longrightarrow> Eff_Deregister \<in> set es"
  shows "entry_ok h (put_world h w a)"
proof -
  have h: "h < length (ag_objs a)" using assms(1) by (simp add: entry_ok_def)
  define a1 where "a1 = a\<lparr>ag_objs := (ag_objs a)[h := (ag_objs a ! h)\<lparr>as_w := w\<rparr>]\<rparr>"
  have eq: "put_world h w a = (if Eff_Deregister \<in> set es then unregister (as_id (ag_objs a ! h)) h a1 else a1)"
    unfolding put_world_def Let_def assms(3) a1_def by simp
  have own: "ag_routes a i = Some h \<Longrightarrow> i = as_id (ag_objs a ! h)" for i using assms(1) by (simp add: entry_ok_def)
  have sub: "ag_routes (put_world h w a) i = Some h \<Longrightarrow> ag_routes a i = Some h" for i by (rule put_world_routes)
  have once: "ag_routes (put_world h w a) (as_id (ag_objs a ! h)) \<noteq> Some h" if "st_once (w_s w)"
  proof (cases "st_once (w_s (as_w (ag_objs a ! h)))")
    case True
    then show ?thesis using assms(1) sub by (auto simp: entry_ok_def)
  next
    case False
    then show ?thesis using eq assms(4)[OF that] by (simp add: unregister_def)
  qed
  show ?thesis
    unfolding entry_ok_def
  proof (intro conjI allI impI)
    fix i
    assume "ag_routes (put_world h w a) i = Some h"
    then show "i = as_id (ag_objs (put_world h w a) ! h)" using own[OF sub] h by simp
  qed (use h once assms(2) in simp_all)
qed

lemma reserve_entry:
  assumes "reserve_path h a = (r, a')" and "entry_ok h a"
  shows "entry_ok h a'"
proof -
  let ?w = "as_w (ag_objs a ! h)"
  have "entry_ok h (put_world h (?w\<lparr>w_s := s, w_granted := g\<rparr>) a)" if "reserveLocalPathID (w_s ?w) = Inr (pid, s)" for pid s g
    using that assms(2) by (intro entry_put[where es = "[]"]) (auto simp: reserveLocalPathID_def entry_ok_def split: if_splits)
  then show ?thesis using assms by (auto simp: reserve_path_def Let_def split: sum.splits prod.splits)
qed

lemma attach_entry:
  assumes "path_attach ok now h pid d a = (r, a')" and "entry_ok h a"
  shows "entry_ok h a'"
proof -
  let ?w = "as_w (ag_objs a ! h)"
  have "entry_ok h (put_world h (?w\<lparr>w_s := s, w_granted := g\<rparr>) a)" if at: "attachPath now p (w_s ?w) = (e, s)" for p e s g
  proof (cases e)
    case None
    then show ?thesis using at assms(2)
      by (intro entry_put[where es = "[Eff_Added (p_id p), Eff_Go_Recv (p_id p), Eff_Go_Ping (p_id p) False (sendTs (w_s ?w) now)]"])
        (auto simp: attachPath_def entry_ok_def Let_def wakeSend_def emit_def split: if_splits)
  next
    case (Some x)
    then show ?thesis using at assms(2)
      by (intro entry_put[where es = "[]"]) (auto simp: attachPath_def entry_ok_def Let_def split: if_splits)
  qed
  from this[of "new_path pid d Zero_Time" _ _ "w_granted ?w"] this[of "new_path pid d Zero_Time" None]
  show ?thesis using assms by (auto simp: path_attach_def Let_def split: if_splits option.splits prod.splits)
qed

lemma attachDialedConn_entry:
  "attachDialedConn dec o1 g s f ans al now h pid a = (r, a') \<Longrightarrow> entry_ok h a \<Longrightarrow> entry_ok h a'"
  using attach_entry[of True now h pid True a r a'] by (auto simp: attachDialedConn_def split: if_splits)

lemma AddPath_entry:
  assumes "AddPath dec env now h addr a = (r, a')" and "entry_ok h a"
  shows "entry_ok h a'"
proof -
  obtain q a1 where r1: "reserve_path h a = (q, a1)" by fastforce
  note e1 = reserve_entry[OF r1 assms(2)]
  show ?thesis
    using assms(1) r1 e1
    by (auto simp: AddPath_def Let_def split: sum.splits prod.splits intro: attachDialedConn_entry)
qed

lemma attach_round_progress:
  "attach_round dec out h n addrs True k a = (progress', k', a') \<Longrightarrow> progress'"
  by (induction addrs arbitrary: k a) (auto split: if_splits sum.splits prod.splits)

text \<open>One round: own progress shows in the number of paths, and without it only others added any.\<close>

lemma attach_round_facts:
  assumes "attach_round dec out h n addrs progress k a = (progress', k', a')" and "entry_ok h a" and "keeps_paths out h"
  shows "entry_ok h a' \<and> path_count h a \<le> path_count h a' \<and> k' \<le> k + length addrs \<and>
    (progress' \<longrightarrow> progress \<or> path_count h a < path_count h a') \<and>
    (adds_no_paths out h \<longrightarrow> \<not> progress' \<longrightarrow> path_count h a' = path_count h a)"
  using assms(1,2)
proof (induction addrs arbitrary: progress k a)
  case (Cons addr addrs)
  show ?case
  proof (cases "n \<le> int (path_count h a)")
    case True
    then show ?thesis using Cons.prems by auto
  next
    case False
    define b where "b = ou_between out k a"
    obtain r c where r: "AddPath dec (ou_env out k) (ou_now out k) h addr b = (r, c)" by fastforce
    have b: "entry_ok h b" "path_count h a \<le> path_count h b" "adds_no_paths out h \<longrightarrow> path_count h b = path_count h a"
      using assms(3) Cons.prems(2) by (auto simp: keeps_paths_def b_def adds_no_paths_def)
    have c: "path_count h c = path_count h b + (if isl r then 0 else 1)"
      using AddPath_count(1)[OF r] b(1) by (simp add: entry_ok_def)
    have run: "attach_round dec out h n addrs (progress \<or> \<not> isl r) (Suc k) c = (progress', k', a')"
      using Cons.prems(1) False r by (cases r) (auto simp: b_def)
    have "progress'" if "\<not> isl r" using attach_round_progress[of dec out h n addrs "Suc k" c] run that by simp
    then show ?thesis
      using Cons.IH[OF run AddPath_entry[OF r b(1)]] b c by (auto split: if_splits)
  qed
qed auto

lemma attach_loop_ends:
  assumes "entry_ok h a" and "keeps_paths out h"
  shows "\<exists>ok k' a'. attach_loop dec out h n addrs k a = Some (ok, k', a') \<and> entry_ok h a' \<and> path_count h a \<le> path_count h a' \<and>
    (ok \<longrightarrow> n \<le> int (path_count h a')) \<and> (adds_no_paths out h \<longrightarrow> n \<le> int (path_count h a') \<longrightarrow> ok) \<and>
    k' \<le> k + length addrs * (nat (n - int (path_count h a)) + 1)"
  using assms(1)
proof (induction "nat (n - int (path_count h a))" arbitrary: k a rule: less_induct)
  case less
  show ?case
  proof (cases "n \<le> int (path_count h a)")
    case True
    then show ?thesis using less.prems by (subst attach_loop.simps) auto
  next
    case False
    obtain p k1 b where r: "attach_round dec out h n addrs False k a = (p, k1, b)" by (metis prod_cases3)
    note f = attach_round_facts[OF r less.prems assms(2)]
    show ?thesis
    proof (cases p)
      case False
      then show ?thesis using r f \<open>\<not> n \<le> int (path_count h a)\<close> by (subst attach_loop.simps) auto
    next
      case True
      then have lt: "path_count h a < path_count h b" using f by simp
      then have m: "nat (n - int (path_count h b)) < nat (n - int (path_count h a))" using False by (simp add: nat_less_eq_zless)
      obtain ok k' a' where i: "attach_loop dec out h n addrs k1 b = Some (ok, k', a')" "entry_ok h a'" "path_count h b \<le> path_count h a'"
        "ok \<longrightarrow> n \<le> int (path_count h a')" "adds_no_paths out h \<longrightarrow> n \<le> int (path_count h a') \<longrightarrow> ok"
        "k' \<le> k1 + length addrs * (nat (n - int (path_count h b)) + 1)"
        using less.hyps[OF m] f by blast
      have "length addrs * (nat (n - int (path_count h b)) + 1) \<le> length addrs * nat (n - int (path_count h a))"
        using m by (intro mult_le_mono2) (simp only: Suc_eq_plus1[symmetric] Suc_le_eq)
      then have "k' \<le> k + length addrs * (nat (n - int (path_count h a)) + 1)" using i(6) f by simp
      moreover have "attach_loop dec out h n addrs k a = Some (ok, k', a')"
        using r True False i(1) by (subst attach_loop.simps) simp
      ultimately show ?thesis using i lt by (intro exI[of _ ok] exI[of _ k'] exI[of _ a']) simp
    qed
  qed
qed

text \<open>
  The loop that fills a stream up to the paths it was asked for ends, whatever dials fail: while nobody else
  loses a path of the stream, it returns after at most one round over the address book per missing path and one
  more; it reports success only with enough paths, and, when nobody else adds paths either, it reports failure
  only with too few.
\<close>

theorem min_paths_loop_ends:
  assumes "entry_ok h a" and "keeps_paths out h"
  shows "\<exists>ok k a'. attachMinPaths dec out book h n a = Some (ok, k, a') \<and>
    k \<le> length book * (nat (n - int (path_count h a)) + 1) \<and> path_count h a \<le> path_count h a' \<and>
    (ok \<longrightarrow> n \<le> int (path_count h a')) \<and>
    (adds_no_paths out h \<longrightarrow> book \<noteq> [] \<longrightarrow> n \<le> int (path_count h a') \<longrightarrow> ok)"
proof (cases "book = []")
  case False
  have "length (SortAddrsByPreference book) = length book" by (simp add: SortAddrsByPreference_def)
  then show ?thesis
    using attach_loop_ends[OF assms, of dec n "SortAddrsByPreference book" 0] False by (auto simp: attachMinPaths_def)
qed (auto simp: attachMinPaths_def)

lemma close_stream_closes:
  assumes "entry_ok h a"
  shows "st_closed (w_s (as_w (ag_objs (close_stream h a) ! h)))" and "ag_routes (close_stream h a) i \<noteq> Some h"
proof -
  let ?s = "w_s (as_w (ag_objs a ! h))"
  have h: "h < length (ag_objs a)" using assms by (simp add: entry_ok_def)
  have oc: "st_once ?s \<Longrightarrow> st_closed ?s" using assms unfolding entry_ok_def by blast
  then have once: "st_once (stream_close ?s)" "st_closed (stream_close ?s)"
    by (simp_all add: stream_close_def emit_def)
  have e: "entry_ok h (close_stream h a)"
    unfolding close_stream_def Let_def
    by (rule entry_put[OF assms, where es = "if st_once ?s then []
        else concat (map (\<lambda>p. [Eff_Write (p_id p) M_Fin, Eff_Close (p_id p)]) (st_paths ?s)) @ [Eff_Deregister, Eff_Close_Subs]"])
      (auto simp: stream_close_def emit_def once oc)
  have w: "as_w (ag_objs (close_stream h a) ! h) = (as_w (ag_objs a ! h))\<lparr>w_s := stream_close ?s\<rparr>"
    using h by (simp add: close_stream_def Let_def)
  then show "st_closed (w_s (as_w (ag_objs (close_stream h a) ! h)))" using once by simp
  show "ag_routes (close_stream h a) i \<noteq> Some h" using e w once by (auto simp: entry_ok_def)
qed


text \<open>
  Paths that somebody else attaches during the last round do not count: with one address whose dial fails, the
  loop reports failure although the stream has the paths by then.
\<close>

lemma foreign_paths_not_counted:
  assumes "int (path_count h a) < n" and "AddPath dec (ou_env out 0) (ou_now out 0) h addr (ou_between out 0 a) = (Inl e, a')"
  shows "attachMinPaths dec out [addr] h n a = Some (False, 1, a')"
proof -
  have "attach_round dec out h n [addr] False 0 a = (False, 1, a')" using assms by simp
  then show ?thesis
    using assms(1) unfolding attachMinPaths_def by (subst attach_loop.simps) (simp add: SortAddrsByPreference_def)
qed

lemma AddPath_no_dial:
  "dialDirect env (as_peer (ag_objs (snd (reserve_path h a)) ! h)) addr = Inl d \<Longrightarrow> \<exists>e a'. AddPath dec env now h addr a = (Inl e, a')"
  by (auto simp: AddPath_def split: prod.splits sum.splits)

section \<open>Witnesses\<close>

definition dead_end :: dial_env where
  "dead_end = \<lparr>de_peer_suffix = (\<lambda>_. None), de_split_last = (\<lambda>a. a), de_dial = (\<lambda>_. None)\<rparr>"

definition demo_outside :: outside where
  "demo_outside = \<lparr>ou_env = (\<lambda>_. dead_end), ou_now = (\<lambda>_. At 0), ou_between = (\<lambda>_ a. a)\<rparr>"

lemma demo_outside_ok: "keeps_paths demo_outside h" "adds_no_paths demo_outside h"
  by (simp_all add: keeps_paths_def adds_no_paths_def demo_outside_def)

definition demo_addr :: maddr where "demo_addr = \<lparr>ma_protos = [P_TCP], ma_text = ''/tcp''\<rparr>"

text \<open>The peer's own path arrives while the only dial of this side fails: two paths, yet no success.\<close>

lemma foreign_path_example:
  "\<exists>a'. attachMinPaths demo_dec (demo_outside\<lparr>ou_between := (\<lambda>_ a. snd (path_attach True (At 0) 0 2 False a))\<rparr>) [demo_addr] 0 2 demo_agg2 =
     Some (False, 1, a') \<and> path_count 0 a' = 2"
proof -
  let ?out = "demo_outside\<lparr>ou_between := (\<lambda>_ a. snd (path_attach True (At 0) 0 2 False a))\<rparr>"
  have one: "path_count 0 demo_agg2 = 1" "length (ag_objs demo_agg2) = 1" "\<not> st_closed (w_s (as_w (ag_objs demo_agg2 ! 0)))"
    by (simp_all add: path_count_def demo_agg2_def add_stream_def register_def demo_agg1_def demo_agg0_def new_world_def
        newStreamFull_def Let_def)
  define b where "b = snd (path_attach True (At 0) 0 2 False demo_agg2)"
  have at: "path_attach True (At 0) 0 2 False demo_agg2 = (True, b)"
    using one(3) by (auto simp: b_def path_attach_def attachPath_def Let_def)
  then have b: "path_count 0 b = 2" "length (ag_objs b) = 1" using path_attach_count[OF at] one by simp_all
  have d: "dialDirect dead_end p demo_addr = Inl DE_No_Transport" for p by (simp add: dialDirect_def dead_end_def)
  obtain e a' where r: "AddPath demo_dec dead_end (At 0) 0 demo_addr b = (Inl e, a')"
    using AddPath_no_dial[OF d] by blast
  have "path_count 0 a' = 2" using AddPath_count(1)[OF r] b by simp
  moreover have "attachMinPaths demo_dec ?out [demo_addr] 0 2 demo_agg2 = Some (False, 1, a')"
    using foreign_paths_not_counted[of 0 demo_agg2 2 demo_dec ?out demo_addr e a'] one r b_def by (simp add: demo_outside_def)
  ultimately show ?thesis by blast
qed

theorem min_paths_loop_ends_witness:
  "\<exists>k a'. attachMinPaths demo_dec demo_outside [demo_addr] 0 2 demo_agg2 = Some (False, k, a') \<and> k \<le> 2"
proof -
  have one: "path_count 0 demo_agg2 = 1"
    by (simp add: path_count_def demo_agg2_def add_stream_def register_def demo_agg1_def demo_agg0_def new_world_def
        newStreamFull_def Let_def)
  have en: "entry_ok 0 demo_agg2"
    by (simp add: entry_ok_def demo_agg2_def add_stream_def register_def demo_agg1_def demo_agg0_def new_world_def
        newStreamFull_def Let_def)
  have d: "dialDirect dead_end p demo_addr = Inl DE_No_Transport" for p by (simp add: dialDirect_def dead_end_def)
  obtain e c where r: "AddPath demo_dec dead_end (At 0) 0 demo_addr demo_agg2 = (Inl e, c)"
    using AddPath_no_dial[OF d] by blast
  have "attachMinPaths demo_dec demo_outside [demo_addr] 0 2 demo_agg2 = Some (False, 1, c)"
    using one r by (intro foreign_paths_not_counted[where e = e]) (simp_all add: demo_outside_def)
  then show ?thesis
    using min_paths_loop_ends[OF en demo_outside_ok(1), of demo_dec "[demo_addr]" 2] one by auto
qed


end
