(* ===== verification/Relay_Path.thy ===== *)
theory Relay_Path
  imports Stream_Props Policy
begin

text \<open>
  Paths through a relay, \<open>src/relaypath.go\<close>: the initiator's \<open>AddRelayPath\<close> with its table of requests that wait
  for a PATH_READY, and the responder's reservations. A part that runs between two waits is one operation: the
  reservation of ids, the request, the end of the wait, the circuit and its binding on the one side, the request
  and the end of the reservation on the other. What the code takes from protobuf, go-multiaddr, go-libp2p's
  peer identities and its circuit client is the record \<open>relay_env\<close> or the outcome of an operation.
\<close>

section \<open>Messages\<close>

definition maxConcurrentReservations :: int where "maxConcurrentReservations = 8"

record path_request =
  pr_id :: u64
  pr_relay :: bytes
  pr_addrs :: "bytes list"
  pr_ac :: "bytes option"

record path_ready =
  pd_id :: u64
  pd_error :: string

record relay_env =
  re_marshal_request :: "path_request \<Rightarrow> bytes option"
  re_unmarshal_request :: "bytes \<Rightarrow> path_request option"
  re_marshal_ready :: "path_ready \<Rightarrow> bytes option"
  re_unmarshal_ready :: "bytes \<Rightarrow> path_ready option"
  re_peer_bytes :: "peer_id \<Rightarrow> bytes"
  re_peer_of :: "bytes \<Rightarrow> string + peer_id"
  re_addr_bytes :: "maddr \<Rightarrow> bytes"
  re_addr_of :: "bytes \<Rightarrow> maddr option"
  re_strip :: "maddr \<Rightarrow> maddr option"
  re_can_dial :: "maddr \<Rightarrow> bool"
  re_encapsulate :: "maddr \<Rightarrow> string \<Rightarrow> maddr"
  re_show_peer :: "peer_id \<Rightarrow> string"

definition marshalPathRequest :: "relay_env \<Rightarrow> u64 \<Rightarrow> peer_id \<times> maddr list \<Rightarrow> maddr option \<Rightarrow> bytes option" where
  "marshalPathRequest env reqID relay acAddr =
     re_marshal_request env \<lparr>pr_id = reqID, pr_relay = re_peer_bytes env (fst relay),
       pr_addrs = map (re_addr_bytes env) (snd relay), pr_ac = map_option (re_addr_bytes env) acAddr\<rparr>"

text \<open>\<open>stripP2PSuffix\<close> leaves nothing of an address that is only a peer suffix.\<close>

definition decodeRelayInfo :: "relay_env \<Rightarrow> path_request \<Rightarrow> string + peer_id \<times> maddr option list" where
  "decodeRelayInfo env req =
     (case re_peer_of env (pr_relay req) of
        Inl e \<Rightarrow> Inl (''netacc: PathRequest '' @ [CHR 0xE7, CHR 0x9A, CHR 0x84] @ '' relay_peer '' @
                   [CHR 0xE9, CHR 0x9D, CHR 0x9E, CHR 0xE6, CHR 0xB3, CHR 0x95] @ '': '' @ e)
      | Inr i \<Rightarrow> Inr (i, map (re_strip env) (List.map_filter (re_addr_of env) (pr_addrs req))))"

definition marshalPathReady :: "relay_env \<Rightarrow> u64 \<Rightarrow> string option \<Rightarrow> bytes option" where
  "marshalPathReady env reqID rerr =
     re_marshal_ready env \<lparr>pd_id = reqID, pd_error = (case rerr of None \<Rightarrow> [] | Some e \<Rightarrow> e)\<rparr>"

section \<open>The address of a circuit\<close>

definition pickRelayAddr :: "relay_env \<Rightarrow> maddr list \<Rightarrow> maddr option" where
  "pickRelayAddr env addrs =
     List.find (\<lambda>base. P_CIRCUIT \<notin> set (ma_protos base) \<and> re_can_dial env base) (List.map_filter (re_strip env) addrs)"

definition buildCircuitAddr :: "relay_env \<Rightarrow> maddr \<Rightarrow> peer_id \<Rightarrow> peer_id \<Rightarrow> maddr" where
  "buildCircuitAddr env relayAddr relayID dest =
     re_encapsulate env relayAddr
       (''/p2p/'' @ re_show_peer env relayID @ ''/p2p-circuit/p2p/'' @ re_show_peer env dest)"

section \<open>The initiator\<close>

text \<open>
  What belongs to relay paths in a stream: the channel of a request holds one reply at most, \<open>None\<close> for success.
\<close>

record relay_side =
  rl_w :: world
  rl_nextReq :: u64
  rl_pending :: "u64 \<Rightarrow> string option option option"
  rl_inFlight :: int

definition new_relay_side :: "world \<Rightarrow> relay_side" where
  "new_relay_side w = \<lparr>rl_w = w, rl_nextReq = 0, rl_pending = (\<lambda>_. None), rl_inFlight = 0\<rparr>"

datatype relay_err =
    RE_No_Aggregator | RE_No_Relay_ID | RE_Self | RE_No_Addr | RE_Closed | RE_Encode | RE_Send serr
  | RE_Refused string | RE_Timeout

definition relay_check :: "relay_env \<Rightarrow> bool \<Rightarrow> peer_id \<Rightarrow> peer_id \<Rightarrow> peer_id \<times> maddr list \<Rightarrow> relay_err + maddr" where
  "relay_check env has_agg self dest relay =
     (if \<not> has_agg then Inl RE_No_Aggregator
      else if fst relay = [] then Inl RE_No_Relay_ID
      else if fst relay = dest \<or> fst relay = self then Inl RE_Self
      else case pickRelayAddr env (snd relay) of None \<Rightarrow> Inl RE_No_Addr | Some a \<Rightarrow> Inr a)"

definition relay_reserve :: "relay_side \<Rightarrow> (relay_err + u64 \<times> u64) \<times> relay_side" where
  "relay_reserve rs =
     (case reserveLocalPathID (w_s (rl_w rs)) of
        Inl e \<Rightarrow> (Inl RE_Closed, rs)
      | Inr (pid, s) \<Rightarrow>
          (Inr (pid, rl_nextReq rs),
           rs\<lparr>rl_w := (rl_w rs)\<lparr>w_s := s, w_granted := pid # w_granted (rl_w rs)\<rparr>, rl_nextReq := rl_nextReq rs + 1,
              rl_pending := (rl_pending rs)(rl_nextReq rs := Some None)\<rparr>))"

definition relay_forget :: "u64 \<Rightarrow> relay_side \<Rightarrow> relay_side" where
  "relay_forget reqID rs = rs\<lparr>rl_pending := (rl_pending rs)(reqID := None)\<rparr>"

definition put_stream :: "stream \<Rightarrow> relay_side \<Rightarrow> relay_side" where
  "put_stream s rs = rs\<lparr>rl_w := (rl_w rs)\<lparr>w_s := s\<rparr>\<rparr>"

definition sendPathRequest ::
  "relay_env \<Rightarrow> (u64 \<Rightarrow> bool) \<Rightarrow> u64 \<Rightarrow> peer_id \<times> maddr list \<Rightarrow> maddr option \<Rightarrow> relay_side \<Rightarrow> relay_err option \<times> relay_side" where
  "sendPathRequest env wr reqID relay acAddr rs =
     (case marshalPathRequest env reqID relay acAddr of
        None \<Rightarrow> (Some RE_Encode, rs)
      | Some body \<Rightarrow>
          (case writeCtrl wr framePathRequest body (w_s (rl_w rs)) of
             (None, s) \<Rightarrow> (None, put_stream s rs)
           | (Some e, s) \<Rightarrow> (Some (RE_Send e), put_stream s rs)))"

text \<open>
  The wait: the reply, the end of the context or the end of the stream, whichever the \<open>select\<close> takes; \<open>None\<close>
  when it cannot take it yet, \<open>Some None\<close> when the other side is ready.
\<close>

datatype wait_event = W_Ready | W_Timeout | W_Done

definition relay_wait :: "wait_event \<Rightarrow> u64 \<Rightarrow> relay_side \<Rightarrow> relay_err option option \<times> relay_side" where
  "relay_wait ev reqID rs =
     (case ev of
        W_Ready \<Rightarrow>
          (case rl_pending rs reqID of
             Some (Some None) \<Rightarrow> (Some None, rs\<lparr>rl_pending := (rl_pending rs)(reqID := Some None)\<rparr>)
           | Some (Some (Some e)) \<Rightarrow> (Some (Some (RE_Refused e)), relay_forget reqID rs)
           | _ \<Rightarrow> (None, rs))
      | W_Timeout \<Rightarrow> (Some (Some RE_Timeout), relay_forget reqID rs)
      | W_Done \<Rightarrow> if st_once (w_s (rl_w rs)) then (Some (Some RE_Closed), relay_forget reqID rs) else (None, rs))"

text \<open>The circuit was dialled and bound, or not; in both cases the request is over.\<close>

definition relay_connect :: "bool \<Rightarrow> gotime \<Rightarrow> u64 \<Rightarrow> u64 \<Rightarrow> relay_side \<Rightarrow> bool \<times> relay_side" where
  "relay_connect bound now pathID reqID rs =
     (if \<not> bound then (False, relay_forget reqID rs)
      else case attachPath now (new_path pathID True Zero_Time) (w_s (rl_w rs)) of
        (Some e, s) \<Rightarrow> (False, relay_forget reqID (put_stream s rs))
      | (None, s) \<Rightarrow>
          (True, relay_forget reqID (rs\<lparr>rl_w := (rl_w rs)\<lparr>w_s := s, w_granted := removeAll pathID (w_granted (rl_w rs))\<rparr>\<rparr>)))"

definition handlePathReady :: "relay_env \<Rightarrow> bytes \<Rightarrow> relay_side \<Rightarrow> relay_side" where
  "handlePathReady env body rs =
     (case re_unmarshal_ready env body of
        None \<Rightarrow> rs
      | Some pr \<Rightarrow>
          (case rl_pending rs (pd_id pr) of
             None \<Rightarrow> rs
           | Some (Some r) \<Rightarrow> rs
           | Some None \<Rightarrow>
               rs\<lparr>rl_pending := (rl_pending rs)(pd_id pr := Some (Some (if pd_error pr = [] then None else Some (pd_error pr))))\<rparr>))"

section \<open>The responder\<close>

definition sendPathReady :: "relay_env \<Rightarrow> (u64 \<Rightarrow> bool) \<Rightarrow> u64 \<Rightarrow> string option \<Rightarrow> relay_side \<Rightarrow> relay_side" where
  "sendPathReady env wr reqID rerr rs =
     (case marshalPathReady env reqID rerr of
        None \<Rightarrow> rs
      | Some body \<Rightarrow> put_stream (snd (writeCtrl wr framePathReady body (w_s (rl_w rs)))) rs)"

datatype request_fate = RF_Dropped | RF_Answered u64 | RF_Ignored u64 | RF_Reserving u64 peer_id "maddr option list"

definition handlePathRequest :: "relay_env \<Rightarrow> bool \<Rightarrow> (u64 \<Rightarrow> bool) \<Rightarrow> bytes \<Rightarrow> relay_side \<Rightarrow> request_fate \<times> relay_side" where
  "handlePathRequest env has_agg wr body rs =
     (case re_unmarshal_request env body of
        None \<Rightarrow> (RF_Dropped, rs)
      | Some req \<Rightarrow>
          let reqID = pr_id req in
          case decodeRelayInfo env req of
            Inl e \<Rightarrow> (RF_Answered reqID, sendPathReady env wr reqID (Some e) rs)
          | Inr (relay, addrs) \<Rightarrow>
              if \<not> has_agg then
                (RF_Answered reqID, sendPathReady env wr reqID (Some (''netacc: '' @ [CHR 0xE8, CHR 0xAF, CHR 0xA5,
                   CHR 0xE8, CHR 0x81, CHR 0x9A, CHR 0xE5, CHR 0x90, CHR 0x88, CHR 0xE6, CHR 0xB5, CHR 0x81,
                   CHR 0xE4, CHR 0xB8, CHR 0x8D, CHR 0xE7, CHR 0xBB, CHR 0x8F] @ '' Aggregator '' @ [CHR 0xE5,
                   CHR 0x88, CHR 0x9B, CHR 0xE5, CHR 0xBB, CHR 0xBA, CHR 0xEF, CHR 0xBC, CHR 0x8C, CHR 0xE6,
                   CHR 0x97, CHR 0xA0, CHR 0xE6, CHR 0xB3, CHR 0x95, CHR 0xE5, CHR 0x81, CHR 0x9A] @ '' reservation'')) rs)
              else if st_closed (w_s (rl_w rs)) then (RF_Ignored reqID, rs)
              else if maxConcurrentReservations \<le> rl_inFlight rs then
                (RF_Answered reqID, sendPathReady env wr reqID (Some (''netacc: '' @ [CHR 0xE5, CHR 0x90, CHR 0x8C,
                   CHR 0xE6, CHR 0x97, CHR 0xB6, CHR 0xE5, CHR 0x9C, CHR 0xA8, CHR 0xE9, CHR 0x80, CHR 0x94,
                   CHR 0xE7, CHR 0x9A, CHR 0x84] @ '' reservation '' @ [CHR 0xE5, CHR 0x8D, CHR 0x8F, CHR 0xE8,
                   CHR 0xB0, CHR 0x83, CHR 0xE8, CHR 0xB6, CHR 0x85, CHR 0xE9, CHR 0x99, CHR 0x90])) rs)
              else (RF_Reserving reqID relay addrs, rs\<lparr>rl_inFlight := rl_inFlight rs + 1\<rparr>))"

text \<open>The end of the goroutine of a reservation: the answer, then the deferred decrement.\<close>

definition reservation_answer :: "relay_env \<Rightarrow> (u64 \<Rightarrow> bool) \<Rightarrow> u64 \<Rightarrow> string option \<Rightarrow> relay_side \<Rightarrow> relay_side" where
  "reservation_answer env wr reqID outcome rs =
     sendPathReady env wr reqID
       (case outcome of
          None \<Rightarrow> None
        | Some e \<Rightarrow> Some (''netacc: reservation '' @ [CHR 0xE5, CHR 0xA4, CHR 0xB1, CHR 0xE8, CHR 0xB4, CHR 0xA5] @ '': '' @ e)) rs"

definition reservation_end :: "relay_side \<Rightarrow> relay_side" where
  "reservation_end rs = rs\<lparr>rl_inFlight := rl_inFlight rs - 1\<rparr>"

end
