(* ===== verification/Relay_Path_Run.thy ===== *)
theory Relay_Path_Run
  imports Relay_Path Aggregator_Run
begin

text \<open>
  Control frames and relay paths at work: that a control frame gets out while one path works, that a run of
  relay requests is a run of its stream, what a call may rely on when it dials, how many reservations are under
  way, and the exchange of the two sides.
\<close>

section \<open>A control frame gets out\<close>

lemma finish_drop_alive:
  "st_paths (finish_drop cause False fin s) = st_paths s" "st_closed (finish_drop cause False fin s) = st_closed s"
  by (simp_all add: finish_drop_def wakeSend_def triggerAck_def)

lemma drop_path_survivor:
  "q \<in> set (st_paths s) \<Longrightarrow> wr (p_id q) \<Longrightarrow> p_id q \<noteq> i \<Longrightarrow> \<not> st_closed s \<Longrightarrow>
   q \<in> set (st_paths (drop_path wr i cause notify s)) \<and> \<not> st_closed (drop_path wr i cause notify s)"
proof (induction wr i cause notify s rule: drop_path.induct)
  case (1 wr i cause notify s)
  show ?case
  proof (cases "\<exists>p. lookup i (st_paths s) = Some p \<and> \<not> p_dead p")
    case False
    then have "drop_path wr i cause notify s = s" by (subst drop_path.simps) (auto split: option.splits)
    then show ?thesis using "1.prems" by simp
  next
    case True
    then obtain p where p: "lookup i (st_paths s) = Some p" "\<not> p_dead p" by blast
    define s1 where "s1 = remove_path i s"
    define s2 where "s2 = emit [Eff_Close i, Eff_Removed i cause] s1"
    have q: "q \<in> set (st_paths s1)" "q \<in> set (st_paths s2)" "\<not> st_closed s2"
      using "1.prems" by (simp_all add: s2_def s1_def emit_def remove_path_def)
    define s3 where "s3 = (if notify \<and> \<not> st_closed s2
        then case pickAck (st_paths s2) of None \<Rightarrow> s2
          | Some q \<Rightarrow> let s' = emit [Eff_Write (p_id q) (M_Path_Drop i)] s2 in
              if wr (p_id q) then s' else drop_path wr (p_id q) (Some E_Write) True s'
        else s2)"
    have ne: "(st_paths s1 = []) = False" using q(1) by (cases "st_paths s1") auto
    have "drop_path wr i cause notify s = finish_drop cause (st_paths s1 = []) (st_finRecv s1) s3"
      unfolding s3_def s2_def s1_def using p by (subst drop_path.simps) (simp add: Let_def)
    then have eq: "drop_path wr i cause notify s = finish_drop cause False (st_finRecv s1) s3" unfolding ne .
    have "q \<in> set (st_paths s3) \<and> \<not> st_closed s3"
    proof (cases "notify \<and> pickAck (st_paths s2) \<noteq> None")
      case False
      then show ?thesis using q by (auto simp: s3_def)
    next
      case True
      then obtain r where r: "pickAck (st_paths s2) = Some r" by blast
      define s' where "s' = emit [Eff_Write (p_id r) (M_Path_Drop i)] s2"
      have q': "q \<in> set (st_paths s')" "\<not> st_closed s'" using q by (simp_all add: s'_def emit_def)
      have "q \<in> set (st_paths (drop_path wr (p_id r) (Some E_Write) True s')) \<and>
          \<not> st_closed (drop_path wr (p_id r) (Some E_Write) True s')" if "\<not> wr (p_id r)"
      proof -
        have "p_id q \<noteq> p_id r" using that "1.prems"(2) by auto
        then show ?thesis using "1.IH"[OF p s1_def s2_def _ r s'_def that q'(1) "1.prems"(2) _ q'(2)] True q(3) by blast
      qed
      then show ?thesis using True q q' r by (simp add: s3_def s'_def Let_def)
    qed
    then show ?thesis by (simp add: eq finish_drop_alive)
  qed
qed

lemma pickAck_alive:
  assumes "send_inv W s" and "\<not> st_closed s" and "pickAck (st_paths s) = Some p"
  shows "p \<in> set (st_paths s)" and "\<exists>r. lookup (p_id p) (st_paths s) = Some r \<and> \<not> p_dead r"
proof -
  show p: "p \<in> set (st_paths s)" by (rule mds.pick_ack_law[OF assms(3)])
  then obtain r where r: "lookup (p_id p) (st_paths s) = Some r" using lookup_None by (cases "lookup (p_id p) (st_paths s)") auto
  then show "\<exists>r. lookup (p_id p) (st_paths s) = Some r \<and> \<not> p_dead r"
    using send_invD(7)[OF assms(1)] assms(2) lookup_Some[OF r] by (auto simp: paths_ok_def)
qed

text \<open>One attempt of \<open>writeCtrl\<close> on an open stream.\<close>

lemma writeCtrl_try:
  fixes ft body wr
  assumes "send_inv W s" and "\<not> st_closed s" and "pickAck (st_paths s) = Some p"
  defines "s1 \<equiv> emit [Eff_Write (p_id p) (M_Ctrl ft body)] s"
  defines "s2 \<equiv> drop_path wr (p_id p) (Some E_Write) True s1"
  shows "writeCtrl wr ft body s = (if wr (p_id p) then (None, s1) else writeCtrl wr ft body s2)"
    and "send_inv W s2" and "\<exists>es. st_out s2 = st_out s @ es" and "length (st_paths s2) < length (st_paths s)"
    and "p_id ` set (st_paths s2) \<subseteq> p_id ` set (st_paths s)"
    and "(st_once s \<longrightarrow> st_closed s) \<Longrightarrow> (st_once s2 \<longrightarrow> st_closed s2) \<and> (st_paths s2 = [] \<longrightarrow> st_closed s2)"
proof -
  note p = pickAck_alive[OF assms(1-3)]
  have s1: "st_paths s1 = st_paths s" "st_closed s1 = st_closed s" "st_once s1 = st_once s" by (simp_all add: s1_def emit_def)
  obtain r where r: "lookup (p_id p) (st_paths s1) = Some r" "\<not> p_dead r" using p(2) s1 by auto
  show len: "length (st_paths s2) < length (st_paths s)"
    using drop_path_removes(2)[OF r] s1 by (simp add: s2_def)
  show "writeCtrl wr ft body s = (if wr (p_id p) then (None, s1) else writeCtrl wr ft body s2)"
    using assms(2,3) len by (subst writeCtrl.simps) (simp add: Let_def s1_def[symmetric] s2_def[symmetric])
  have "send_inv W s1" using assms(1) by (simp add: s1_def)
  then show "send_inv W s2" by (simp add: s2_def drop_path_inv)
  have e: "evolves s1 s2" by (simp add: s2_def evolves_drop_path)
  have "evolves s s1" by (simp add: s1_def)
  then have ev: "evolves s s2" by (rule evolves_trans[OF _ e])
  then show "\<exists>es. st_out s2 = st_out s @ es" using traced_grows by (simp add: evolves_def)
  show "p_id ` set (st_paths s2) \<subseteq> p_id ` set (st_paths s)"
    using ev subseq_set_distinct(1)[of "map p_id (st_paths s2)" "map p_id (st_paths s)"] by (simp add: evolves_def)
  assume "st_once s \<longrightarrow> st_closed s"
  moreover from this have "st_paths s2 = [] \<longrightarrow> st_closed s2"
    using drop_path_last[of s1 wr "p_id p" "Some E_Write" True] s1 assms(2) p(1)
    unfolding s2_def[symmetric] by (metis empty_iff list.set(1))
  ultimately show "(st_once s2 \<longrightarrow> st_closed s2) \<and> (st_paths s2 = [] \<longrightarrow> st_closed s2)"
    using ev by (simp add: evolves_def)
qed

lemma writeCtrl_delivers:
  assumes "send_inv W s" and "\<not> st_closed s" and "q \<in> set (st_paths s)" and "wr (p_id q)"
  shows "\<exists>s' es i. writeCtrl wr ft body s = (None, s') \<and> st_out s' = st_out s @ es @ [Eff_Write i (M_Ctrl ft body)] \<and>
    wr i \<and> q \<in> set (st_paths s') \<and> \<not> st_closed s'"
  using assms
proof (induction "length (st_paths s)" arbitrary: s rule: less_induct)
  case less
  obtain p where p: "pickAck (st_paths s) = Some p"
    using less.prems(3) mds.pick_ack_some[of "st_paths s"] by (cases "st_paths s") auto
  note t = writeCtrl_try[OF less.prems(1,2) p, where ft = ft and body = body and wr = wr]
  define s1 where "s1 = emit [Eff_Write (p_id p) (M_Ctrl ft body)] s"
  show ?case
  proof (cases "wr (p_id p)")
    case True
    then show ?thesis using less.prems t(1) by (auto simp: emit_def)
  next
    case False
    define s2 where "s2 = drop_path wr (p_id p) (Some E_Write) True s1"
    have q: "q \<in> set (st_paths s2) \<and> \<not> st_closed s2"
      unfolding s2_def using less.prems False by (intro drop_path_survivor) (auto simp: s1_def emit_def)
    have "\<exists>s' es i. writeCtrl wr ft body s2 = (None, s') \<and> st_out s' = st_out s2 @ es @ [Eff_Write i (M_Ctrl ft body)] \<and>
        wr i \<and> q \<in> set (st_paths s') \<and> \<not> st_closed s'"
      using less.hyps[of s2] t(2,4) q less.prems(4) by (simp add: s2_def s1_def)
    moreover obtain es where "st_out s2 = st_out s @ es" using t(3) by (auto simp: s2_def s1_def)
    moreover have "writeCtrl wr ft body s = writeCtrl wr ft body s2" using t(1) False by (simp add: s2_def s1_def)
    ultimately show ?thesis by (metis append_assoc)
  qed
qed

lemma writeCtrl_fails:
  assumes "send_inv W s" and "\<not> st_closed s" and "st_once s \<longrightarrow> st_closed s" and "st_paths s \<noteq> []"
    and "\<forall>i \<in> p_id ` set (st_paths s). \<not> wr i"
  shows "\<exists>s'. writeCtrl wr ft body s = (Some E_Closed, s') \<and> st_closed s'"
  using assms
proof (induction "length (st_paths s)" arbitrary: s rule: less_induct)
  case less
  obtain p where p: "pickAck (st_paths s) = Some p"
    using less.prems(4) mds.pick_ack_some by blast
  note t = writeCtrl_try[OF less.prems(1,2) p, where ft = ft and body = body and wr = wr]
  define s2 where "s2 = drop_path wr (p_id p) (Some E_Write) True (emit [Eff_Write (p_id p) (M_Ctrl ft body)] s)"
  have "\<not> wr (p_id p)" using less.prems(5) pickAck_alive(1)[OF less.prems(1,2) p] by blast
  then have eq: "writeCtrl wr ft body s = writeCtrl wr ft body s2" using t(1) by (simp add: s2_def)
  show ?case
  proof (cases "st_closed s2")
    case True
    then show ?thesis unfolding eq by (subst writeCtrl.simps) simp
  next
    case False
    moreover have "st_paths s2 \<noteq> []" "st_once s2 \<longrightarrow> st_closed s2" using t(6)[OF less.prems(3)] False by (auto simp: s2_def)
    moreover have "\<forall>i \<in> p_id ` set (st_paths s2). \<not> wr i" using t(5) less.prems(5) unfolding s2_def by blast
    ultimately show ?thesis unfolding eq using less.hyps[of s2] t(2,4) by (simp add: s2_def)
  qed
qed

text \<open>
  A control frame gets out while one path works: whatever paths fail under it, \<open>writeCtrl\<close> drops them, writes
  the whole frame on a path that works and leaves the stream open with the working paths; when none works, it
  reports an error and the stream has ended.
\<close>

theorem control_frame_gets_out:
  assumes "reach c (new_world cf t ini) w" and "\<not> st_closed (w_s w)" and "st_paths (w_s w) \<noteq> []"
  shows "(\<forall>q \<in> set (st_paths (w_s w)). wr (p_id q) \<longrightarrow>
      (\<exists>s' es i. writeCtrl wr ft body (w_s w) = (None, s') \<and> st_out s' = st_out (w_s w) @ es @ [Eff_Write i (M_Ctrl ft body)] \<and>
         wr i \<and> q \<in> set (st_paths s') \<and> \<not> st_closed s')) \<and>
    ((\<forall>q \<in> set (st_paths (w_s w)). \<not> wr (p_id q)) \<longrightarrow>
      (\<exists>s'. writeCtrl wr ft body (w_s w) = (Some E_Closed, s') \<and> st_closed s'))"
  using writeCtrl_delivers[OF reach_send_inv[OF assms(1)] assms(2)]
    writeCtrl_fails[OF reach_send_inv[OF assms(1)] assms(2) reach_once[OF assms(1)] assms(3)] by blast

section \<open>Runs\<close>

datatype phase = Ph_New | Ph_Waiting | Ph_Dialling

text \<open>
  A stream with its calls of \<open>AddRelayPath\<close> by request id, the goroutines that reserve for the peer (and whether
  they have answered), and the history: the replies that found a request, in order, and the requests of the peer
  that were taken, answered, and ignored because the stream had ended.
\<close>

record relay_run =
  rr_side :: relay_side
  rr_calls :: "u64 \<Rightarrow> (u64 \<times> phase) option"
  rr_jobs :: "(u64 \<times> bool) list"
  rr_matched :: "(u64 \<times> string option) list"
  rr_taken :: "u64 list"
  rr_answered :: "u64 list"
  rr_ignored :: "u64 list"

definition new_relay_run :: "world \<Rightarrow> relay_run" where
  "new_relay_run w = \<lparr>rr_side = new_relay_side w, rr_calls = (\<lambda>_. None), rr_jobs = [], rr_matched = [], rr_taken = [],
     rr_answered = [], rr_ignored = []\<rparr>"

datatype rl_op =
    Rl_Stream sop
  | Rl_Reserve
  | Rl_Send "u64 \<Rightarrow> bool" "peer_id \<times> maddr list" "maddr option" u64
  | Rl_Wait wait_event u64
  | Rl_Connect bool gotime u64
  | Rl_Ready bytes
  | Rl_Request "u64 \<Rightarrow> bool" bytes
  | Rl_Answer "u64 \<Rightarrow> bool" nat "string option"
  | Rl_End nat

definition reply_of :: "relay_env \<Rightarrow> bytes \<Rightarrow> relay_side \<Rightarrow> (u64 \<times> string option) list" where
  "reply_of env body rs =
     (case re_unmarshal_ready env body of
        None \<Rightarrow> []
      | Some pr \<Rightarrow> if rl_pending rs (pd_id pr) = None then []
          else [(pd_id pr, if pd_error pr = [] then None else Some (pd_error pr))])"

fun note_fate :: "request_fate \<Rightarrow> relay_run \<Rightarrow> relay_run" where
  "note_fate RF_Dropped rr = rr"
| "note_fate (RF_Answered r) rr = rr\<lparr>rr_taken := r # rr_taken rr, rr_answered := r # rr_answered rr\<rparr>"
| "note_fate (RF_Ignored r) rr = rr\<lparr>rr_taken := r # rr_taken rr, rr_ignored := r # rr_ignored rr\<rparr>"
| "note_fate (RF_Reserving r relay addrs) rr = rr\<lparr>rr_taken := r # rr_taken rr, rr_jobs := (r, False) # rr_jobs rr\<rparr>"

fun rl_step :: "relay_env \<Rightarrow> bool \<Rightarrow> rl_op \<Rightarrow> relay_run \<Rightarrow> relay_run run" where
  "rl_step env has_agg (Rl_Stream x) rr =
     (case sop_step x (rl_w (rr_side rr)) of Inl e \<Rightarrow> Inl e | Inr w \<Rightarrow> Inr (rr\<lparr>rr_side := (rr_side rr)\<lparr>rl_w := w\<rparr>\<rparr>))"
| "rl_step env has_agg Rl_Reserve rr =
     (case relay_reserve (rr_side rr) of
        (Inl e, rs) \<Rightarrow> Inr (rr\<lparr>rr_side := rs\<rparr>)
      | (Inr (pid, r), rs) \<Rightarrow> Inr (rr\<lparr>rr_side := rs, rr_calls := (rr_calls rr)(r := Some (pid, Ph_New))\<rparr>))"
| "rl_step env has_agg (Rl_Send wr relay ac r) rr =
     (case rr_calls rr r of
        Some (pid, Ph_New) \<Rightarrow>
          (case sendPathRequest env wr r relay ac (rr_side rr) of
             (None, rs) \<Rightarrow> Inr (rr\<lparr>rr_side := rs, rr_calls := (rr_calls rr)(r := Some (pid, Ph_Waiting))\<rparr>)
           | (Some e, rs) \<Rightarrow> Inr (rr\<lparr>rr_side := relay_forget r rs, rr_calls := (rr_calls rr)(r := None)\<rparr>))
      | _ \<Rightarrow> Inr rr)"
| "rl_step env has_agg (Rl_Wait ev r) rr =
     (case rr_calls rr r of
        Some (pid, Ph_Waiting) \<Rightarrow>
          (case relay_wait ev r (rr_side rr) of
             (None, rs) \<Rightarrow> Inr rr
           | (Some None, rs) \<Rightarrow> Inr (rr\<lparr>rr_side := rs, rr_calls := (rr_calls rr)(r := Some (pid, Ph_Dialling))\<rparr>)
           | (Some (Some e), rs) \<Rightarrow> Inr (rr\<lparr>rr_side := rs, rr_calls := (rr_calls rr)(r := None)\<rparr>))
      | _ \<Rightarrow> Inr rr)"
| "rl_step env has_agg (Rl_Connect bound now r) rr =
     (case rr_calls rr r of
        Some (pid, Ph_Dialling) \<Rightarrow>
          Inr (rr\<lparr>rr_side := snd (relay_connect bound now pid r (rr_side rr)), rr_calls := (rr_calls rr)(r := None)\<rparr>)
      | _ \<Rightarrow> Inr rr)"
| "rl_step env has_agg (Rl_Ready body) rr =
     Inr (rr\<lparr>rr_side := handlePathReady env body (rr_side rr), rr_matched := rr_matched rr @ reply_of env body (rr_side rr)\<rparr>)"
| "rl_step env has_agg (Rl_Request wr body) rr =
     (let (fate, rs) = handlePathRequest env has_agg wr body (rr_side rr) in Inr (note_fate fate (rr\<lparr>rr_side := rs\<rparr>)))"
| "rl_step env has_agg (Rl_Answer wr k outcome) rr =
     (if k < length (rr_jobs rr) \<and> \<not> snd (rr_jobs rr ! k) then
        let r = fst (rr_jobs rr ! k) in
        Inr (rr\<lparr>rr_side := reservation_answer env wr r outcome (rr_side rr), rr_jobs := (rr_jobs rr)[k := (r, True)],
               rr_answered := r # rr_answered rr\<rparr>)
      else Inr rr)"
| "rl_step env has_agg (Rl_End k) rr =
     (if k < length (rr_jobs rr) \<and> snd (rr_jobs rr ! k) then
        Inr (rr\<lparr>rr_side := reservation_end (rr_side rr), rr_jobs := take k (rr_jobs rr) @ drop (Suc k) (rr_jobs rr)\<rparr>)
      else Inr rr)"

text \<open>Operations of the stream, with the ids of the calls left to the calls; less than \<open>2^64\<close> ids are used.\<close>

fun rl_ok :: "(nat \<Rightarrow> byte) \<Rightarrow> relay_run \<Rightarrow> rl_op \<Rightarrow> bool" where
  "rl_ok c rr (Rl_Stream x) \<longleftrightarrow> sop_ok c (rl_w (rr_side rr)) x \<and>
     (case x of Do_Attach now p \<Rightarrow> \<forall>r pid ph. rr_calls rr r = Some (pid, ph) \<longrightarrow> pid \<noteq> p_id p | _ \<Rightarrow> True)"
| "rl_ok c rr Rl_Reserve \<longleftrightarrow> unat (st_nextPathID (w_s (rl_w (rr_side rr)))) + 2 < 2 ^ 64 \<and>
     unat (rl_nextReq (rr_side rr)) + 1 < 2 ^ 64"
| "rl_ok c rr x \<longleftrightarrow> True"

inductive rl_reach :: "relay_env \<Rightarrow> bool \<Rightarrow> (nat \<Rightarrow> byte) \<Rightarrow> relay_run \<Rightarrow> relay_run \<Rightarrow> bool" for env has_agg c rr0 where
  rl_start: "rl_reach env has_agg c rr0 rr0"
| rl_next: "rl_reach env has_agg c rr0 rr \<Longrightarrow> rl_ok c rr x \<Longrightarrow> rl_step env has_agg x rr = Inr rr' \<Longrightarrow> rl_reach env has_agg c rr0 rr'"

section \<open>The invariant\<close>

text \<open>The replies that found request \<open>r\<close>; the state of its channel while it waits and after.\<close>

definition replies :: "relay_run \<Rightarrow> u64 \<Rightarrow> string option list" where
  "replies rr r = map snd (filter (\<lambda>(q, x). q = r) (rr_matched rr))"

definition call_ok :: "relay_run \<Rightarrow> u64 \<Rightarrow> phase \<Rightarrow> bool" where
  "call_ok rr r ph \<longleftrightarrow>
     (case ph of
        Ph_Dialling \<Rightarrow> \<exists>ys. replies rr r = None # ys
      | _ \<Rightarrow> (case rl_pending (rr_side rr) r of
           Some (Some x) \<Rightarrow> \<exists>ys. replies rr r = x # ys
         | _ \<Rightarrow> replies rr r = []))"

definition calls_inv :: "relay_run \<Rightarrow> bool" where
  "calls_inv rr \<longleftrightarrow>
     (\<forall>r pid ph. rr_calls rr r = Some (pid, ph) \<longrightarrow>
        pid \<in> set (w_granted (rl_w (rr_side rr))) \<and> r < rl_nextReq (rr_side rr) \<and> call_ok rr r ph) \<and>
     (\<forall>r r' pid ph ph'. rr_calls rr r = Some (pid, ph) \<longrightarrow> rr_calls rr r' = Some (pid, ph') \<longrightarrow> r = r') \<and>
     (\<forall>r. rl_pending (rr_side rr) r = None \<longleftrightarrow> rr_calls rr r = None) \<and>
     (\<forall>q x. (q, x) \<in> set (rr_matched rr) \<longrightarrow> q < rl_nextReq (rr_side rr))"

definition jobs_inv :: "relay_run \<Rightarrow> bool" where
  "jobs_inv rr \<longleftrightarrow> rl_inFlight (rr_side rr) = int (length (rr_jobs rr)) \<and> length (rr_jobs rr) \<le> 8 \<and>
     mset (rr_taken rr) = mset (rr_answered rr) + mset (rr_ignored rr) + mset (map fst (filter (\<lambda>j. \<not> snd j) (rr_jobs rr)))"

definition rl_inv :: "(nat \<Rightarrow> byte) \<Rightarrow> world \<Rightarrow> relay_run \<Rightarrow> bool" where
  "rl_inv c w0 rr \<longleftrightarrow> reach c w0 (rl_w (rr_side rr)) \<and> calls_inv rr \<and> jobs_inv rr"

text \<open>What a control frame, and so every message of the two handlers, leaves alone.\<close>

lemma put_stream_simps [simp]:
  "rl_w (put_stream s rs) = (rl_w rs)\<lparr>w_s := s\<rparr>" "rl_nextReq (put_stream s rs) = rl_nextReq rs"
  "rl_pending (put_stream s rs) = rl_pending rs" "rl_inFlight (put_stream s rs) = rl_inFlight rs"
  by (simp_all add: put_stream_def)

lemma forget_simps [simp]:
  "rl_w (relay_forget r rs) = rl_w rs" "rl_nextReq (relay_forget r rs) = rl_nextReq rs"
  "rl_pending (relay_forget r rs) = (rl_pending rs)(r := None)" "rl_inFlight (relay_forget r rs) = rl_inFlight rs"
  by (simp_all add: relay_forget_def)

definition same_side :: "relay_side \<Rightarrow> relay_side \<Rightarrow> bool" where
  "same_side rs rs' \<longleftrightarrow> rl_nextReq rs' = rl_nextReq rs \<and> rl_pending rs' = rl_pending rs \<and> rl_inFlight rs' = rl_inFlight rs \<and>
     w_granted (rl_w rs') = w_granted (rl_w rs)"

lemma reach_ctrl: "reach c w0 w \<Longrightarrow> reach c w0 (w\<lparr>w_s := snd (writeCtrl wr ft body (w_s w))\<rparr>)"
  by (erule reach_step[where x = "Do_Ctrl wr ft body"]) simp_all

lemma sendPathReady_side:
  "reach c w0 (rl_w rs) \<Longrightarrow> reach c w0 (rl_w (sendPathReady env wr r e rs)) \<and> same_side rs (sendPathReady env wr r e rs)"
  by (auto simp: sendPathReady_def same_side_def reach_ctrl split: option.split)

lemma sendPathRequest_side:
  "sendPathRequest env wr r relay ac rs = (res, rs') \<Longrightarrow> reach c w0 (rl_w rs) \<Longrightarrow> reach c w0 (rl_w rs') \<and> same_side rs rs'"
  using reach_ctrl[of c w0 "rl_w rs" wr framePathRequest]
  by (auto simp: sendPathRequest_def same_side_def split: option.splits prod.splits) (metis snd_conv)+

lemma calls_invD:
  assumes "calls_inv rr"
  shows "rr_calls rr r = Some (pid, ph) \<Longrightarrow> pid \<in> set (w_granted (rl_w (rr_side rr)))"
    and "rr_calls rr r = Some (pid, ph) \<Longrightarrow> r < rl_nextReq (rr_side rr)"
    and "rr_calls rr r = Some (pid, ph) \<Longrightarrow> call_ok rr r ph"
    and "rr_calls rr r = Some (pid, ph) \<Longrightarrow> rr_calls rr r' = Some (pid, ph') \<Longrightarrow> r = r'"
    and "rl_pending (rr_side rr) r = None \<longleftrightarrow> rr_calls rr r = None"
    and "(r, x) \<in> set (rr_matched rr) \<Longrightarrow> r < rl_nextReq (rr_side rr)"
  using assms unfolding calls_inv_def by blast+

lemma call_ok_cong:
  "rl_pending (rr_side rr') r = rl_pending (rr_side rr) r \<Longrightarrow> replies rr' r = replies rr r \<Longrightarrow> call_ok rr' r ph = call_ok rr r ph"
  by (simp add: call_ok_def split: phase.split option.split)

text \<open>A step that concerns call \<open>r\<close> only, or no call, and matches no reply.\<close>

lemma calls_inv_one:
  assumes inv: "calls_inv rr" and m: "rr_matched rr' = rr_matched rr" and n: "rl_nextReq (rr_side rr') = rl_nextReq (rr_side rr)"
    and other: "\<And>q. q \<noteq> r \<Longrightarrow> rr_calls rr' q = rr_calls rr q \<and> rl_pending (rr_side rr') q = rl_pending (rr_side rr) q"
    and own: "\<And>pid ph'. rr_calls rr' r = Some (pid, ph') \<Longrightarrow> (\<exists>ph. rr_calls rr r = Some (pid, ph)) \<and> call_ok rr' r ph'"
    and slot: "rl_pending (rr_side rr') r = None \<longleftrightarrow> rr_calls rr' r = None"
    and g: "\<And>q pid ph. rr_calls rr' q = Some (pid, ph) \<Longrightarrow> pid \<in> set (w_granted (rl_w (rr_side rr))) \<Longrightarrow>
      pid \<in> set (w_granted (rl_w (rr_side rr')))"
  shows "calls_inv rr'"
proof -
  have orig: "\<exists>ph. rr_calls rr q = Some (pid, ph)" if "rr_calls rr' q = Some (pid, ph')" for q pid ph'
    using that other[of q] own by (cases "q = r") auto
  have rep: "replies rr' q = replies rr q" for q by (simp add: replies_def m)
  have ok: "call_ok rr' q ph'" if "rr_calls rr' q = Some (pid, ph')" for q pid ph'
  proof (cases "q = r")
    case True
    then show ?thesis using own that by blast
  next
    case False
    then show ?thesis using that other[OF False] calls_invD(3)[OF inv] call_ok_cong[OF _ rep] by metis
  qed
  show ?thesis
    unfolding calls_inv_def
  proof (intro conjI allI impI)
    fix q q' pid ph ph'
    assume "rr_calls rr' q = Some (pid, ph)" "rr_calls rr' q' = Some (pid, ph')"
    then show "q = q'" using orig calls_invD(4)[OF inv] by blast
  next
    fix q
    show "rl_pending (rr_side rr') q = None \<longleftrightarrow> rr_calls rr' q = None"
      using slot other[of q] calls_invD(5)[OF inv, of q] by (cases "q = r") auto
  qed (use orig ok g calls_invD(1,2,6)[OF inv] m n in \<open>fastforce+\<close>)
qed

lemma calls_inv_same:
  assumes "calls_inv rr" and "rr_calls rr' = rr_calls rr" and "rr_matched rr' = rr_matched rr"
    and "rl_pending (rr_side rr') = rl_pending (rr_side rr)" and "rl_nextReq (rr_side rr') = rl_nextReq (rr_side rr)"
    and "\<And>r pid ph. rr_calls rr r = Some (pid, ph) \<Longrightarrow> pid \<in> set (w_granted (rl_w (rr_side rr))) \<Longrightarrow>
      pid \<in> set (w_granted (rl_w (rr_side rr')))"
  shows "calls_inv rr'"
proof -
  have "call_ok rr' q ph = call_ok rr q ph" for q ph
    using assms(3,4) by (intro call_ok_cong) (simp_all add: replies_def)
  then show ?thesis
    using assms calls_invD(3,5)[OF assms(1)] by (intro calls_inv_one[of rr rr', where r = 0]) auto
qed

lemma jobs_inv_same:
  "jobs_inv rr \<Longrightarrow> rr_jobs rr' = rr_jobs rr \<Longrightarrow> rr_taken rr' = rr_taken rr \<Longrightarrow> rr_answered rr' = rr_answered rr \<Longrightarrow>
   rr_ignored rr' = rr_ignored rr \<Longrightarrow> rl_inFlight (rr_side rr') = rl_inFlight (rr_side rr) \<Longrightarrow> jobs_inv rr'"
  by (simp add: jobs_inv_def)

lemma inv_stream:
  assumes inv: "rl_inv c w0 rr" and ok: "rl_ok c rr (Rl_Stream x)" and run: "sop_step x (rl_w (rr_side rr)) = Inr w"
  shows "rl_inv c w0 (rr\<lparr>rr_side := (rr_side rr)\<lparr>rl_w := w\<rparr>\<rparr>)"
proof -
  have ci: "calls_inv rr" using inv by (simp add: rl_inv_def)
  have g: "pid \<in> set (w_granted w)" if "rr_calls rr r = Some (pid, ph)" "pid \<in> set (w_granted (rl_w (rr_side rr)))" for r pid ph
  proof (cases "\<exists>now p. x = Do_Attach now p")
    case True
    then obtain now p where x: "x = Do_Attach now p" by blast
    then have "pid \<noteq> p_id p" using ok that by auto
    then show ?thesis using granted_attach[OF run[unfolded x]] that by blast
  next
    case False
    then show ?thesis using granted_kept[OF run] that by blast
  qed
  have "calls_inv (rr\<lparr>rr_side := (rr_side rr)\<lparr>rl_w := w\<rparr>\<rparr>)"
  proof (rule calls_inv_same[OF ci])
    fix r pid ph
    assume "rr_calls rr r = Some (pid, ph)" "pid \<in> set (w_granted (rl_w (rr_side rr)))"
    from g[OF this] show "pid \<in> set (w_granted (rl_w (rr_side (rr\<lparr>rr_side := (rr_side rr)\<lparr>rl_w := w\<rparr>\<rparr>))))" by simp
  qed simp_all
  moreover have "reach c w0 w" by (rule reach_step[OF _ _ run]) (use inv ok in \<open>simp_all add: rl_inv_def\<close>)
  ultimately show ?thesis using inv jobs_inv_same[of rr] by (simp add: rl_inv_def)
qed

lemma inv_reserve:
  assumes inv: "rl_inv c (new_world cf t ini) rr" and ok: "rl_ok c rr Rl_Reserve"
    and run: "relay_reserve (rr_side rr) = (Inr (pid, r), rs)"
  shows "rl_inv c (new_world cf t ini) (rr\<lparr>rr_side := rs, rr_calls := (rr_calls rr)(r := Some (pid, Ph_New))\<rparr>)"
proof -
  let ?w = "rl_w (rr_side rr)"
  obtain s where s: "reserveLocalPathID (w_s ?w) = Inr (pid, s)" and r: "r = rl_nextReq (rr_side rr)"
    and rs: "rs = (rr_side rr)\<lparr>rl_w := ?w\<lparr>w_s := s, w_granted := pid # w_granted ?w\<rparr>, rl_nextReq := r + 1,
      rl_pending := (rl_pending (rr_side rr))(r := Some None)\<rparr>"
    using run by (auto simp: relay_reserve_def split: sum.splits prod.splits)
  have re: "reach c (new_world cf t ini) ?w" and ci: "calls_inv rr" and ji: "jobs_inv rr" using inv by (simp_all add: rl_inv_def)
  have ids: "ids_inv (w_s ?w) (w_granted ?w)" using reach_inv[OF re world_inv_new] by (simp add: world_inv_def)
  have "\<not> id_known (w_s ?w) pid"
    using s ids by (auto simp: reserveLocalPathID_def ids_inv_def id_known_def split: if_splits)
  then have fresh: "pid \<notin> set (w_granted ?w)" using id_taken[OF ids] by blast
  have lt: "r < r + 1" "q < r \<Longrightarrow> q < r + 1" for q
  proof -
    have "unat (r + 1) = unat r + 1" using ok by (simp add: r unat_plus_if_size word_size)
    then show "r < r + 1" "q < r \<Longrightarrow> q < r + 1" by (simp_all add: word_less_nat_alt)
  qed
  have none: "rr_calls rr r = None" using calls_invD(2)[OF ci, of r] by (cases "rr_calls rr r") (auto simp: r)
  define rr' where "rr' = rr\<lparr>rr_side := rs, rr_calls := (rr_calls rr)(r := Some (pid, Ph_New))\<rparr>"
  have rep: "replies rr' q = replies rr q" for q by (simp add: replies_def rr'_def)
  have "replies rr r = []"
    using calls_invD(6)[OF ci, of r] by (auto simp: replies_def filter_empty_conv r)
  then have new: "call_ok rr' r Ph_New" using rep by (simp add: call_ok_def rr'_def rs)
  have old: "call_ok rr' q ph = call_ok rr q ph" if "q \<noteq> r" for q ph
    using that by (intro call_ok_cong rep) (simp add: rr'_def rs)
  have granted: "p \<noteq> pid" if "rr_calls rr q = Some (p, ph)" for q p ph
    using calls_invD(1)[OF ci that] fresh by auto
  have "calls_inv rr'"
    unfolding calls_inv_def
  proof (intro conjI allI impI)
    fix q p ph
    assume q: "rr_calls rr' q = Some (p, ph)"
    show "p \<in> set (w_granted (rl_w (rr_side rr')))" "q < rl_nextReq (rr_side rr')" "call_ok rr' q ph"
      using q calls_invD(1-3)[OF ci, of q] new old[of q] lt by (auto simp: rr'_def rs r split: if_splits)
    fix q' ph'
    assume "rr_calls rr' q' = Some (p, ph')"
    then show "q = q'" using q granted calls_invD(4)[OF ci, of q p ph q' ph'] by (auto simp: rr'_def split: if_splits)
  next
    fix q
    show "rl_pending (rr_side rr') q = None \<longleftrightarrow> rr_calls rr' q = None"
      using calls_invD(5)[OF ci, of q] by (simp add: rr'_def rs)
  next
    fix q x
    assume "(q, x) \<in> set (rr_matched rr')"
    then show "q < rl_nextReq (rr_side rr')" using calls_invD(6)[OF ci] lt by (simp add: rr'_def rs r)
  qed
  moreover have "reach c (new_world cf t ini) (rl_w rs)"
    using reach_step[OF re, of Do_Reserve_Local "rl_w rs"] ok s by (simp add: rs)
  ultimately show ?thesis using ji jobs_inv_same[of rr rr'] by (simp add: rl_inv_def rr'_def rs)
qed

text \<open>
  A step of call \<open>r\<close>: it keeps the other channels, and either the call goes on in a new phase or it is over.
\<close>

lemma inv_call:
  assumes inv: "rl_inv c w0 rr" and re: "reach c w0 (rl_w rs)" and n: "rl_nextReq rs = rl_nextReq (rr_side rr)"
    and f: "rl_inFlight rs = rl_inFlight (rr_side rr)"
    and pend: "\<And>q. q \<noteq> r \<Longrightarrow> rl_pending rs q = rl_pending (rr_side rr) q" and slot: "rl_pending rs r = None \<longleftrightarrow> x = None"
    and g: "\<And>q pid ph. ((rr_calls rr)(r := x)) q = Some (pid, ph) \<Longrightarrow> pid \<in> set (w_granted (rl_w (rr_side rr))) \<Longrightarrow>
      pid \<in> set (w_granted (rl_w rs))"
    and own: "\<And>pid ph'. x = Some (pid, ph') \<Longrightarrow>
      (\<exists>ph. rr_calls rr r = Some (pid, ph)) \<and> call_ok (rr\<lparr>rr_side := rs, rr_calls := (rr_calls rr)(r := x)\<rparr>) r ph'"
  shows "rl_inv c w0 (rr\<lparr>rr_side := rs, rr_calls := (rr_calls rr)(r := x)\<rparr>)"
proof -
  let ?rr = "rr\<lparr>rr_side := rs, rr_calls := (rr_calls rr)(r := x)\<rparr>"
  have ci: "calls_inv rr" and ji: "jobs_inv rr" using inv by (simp_all add: rl_inv_def)
  have "calls_inv ?rr"
  proof (rule calls_inv_one[OF ci])
    fix pid ph'
    assume "rr_calls ?rr r = Some (pid, ph')"
    then show "(\<exists>ph. rr_calls rr r = Some (pid, ph)) \<and> call_ok ?rr r ph'" using own by simp
  next
    fix q pid ph
    assume "rr_calls ?rr q = Some (pid, ph)" "pid \<in> set (w_granted (rl_w (rr_side rr)))"
    then show "pid \<in> set (w_granted (rl_w (rr_side ?rr)))" using g[of q pid ph] by simp
  qed (simp_all add: n pend slot)
  then show ?thesis using re jobs_inv_same[OF ji, of ?rr] f by (simp add: rl_inv_def)
qed

lemma inv_send:
  assumes inv: "rl_inv c w0 rr" and run: "rl_step env has_agg (Rl_Send wr relay ac r) rr = Inr rr'"
  shows "rl_inv c w0 rr'"
proof (cases "\<exists>pid. rr_calls rr r = Some (pid, Ph_New)")
  case False
  then show ?thesis using inv run by (auto split: option.splits phase.splits)
next
  case True
  then obtain pid where pid: "rr_calls rr r = Some (pid, Ph_New)" by blast
  obtain res rs where s: "sendPathRequest env wr r relay ac (rr_side rr) = (res, rs)" by fastforce
  have re: "reach c w0 (rl_w rs)" and same: "same_side (rr_side rr) rs"
    using sendPathRequest_side[OF s, of c w0] inv by (simp_all add: rl_inv_def)
  have ci: "calls_inv rr" using inv by (simp add: rl_inv_def)
  have some: "rl_pending (rr_side rr) r \<noteq> None" using calls_invD(5)[OF ci, of r] pid by simp
  show ?thesis
  proof (cases res)
    case None
    have eq: "rr' = rr\<lparr>rr_side := rs, rr_calls := (rr_calls rr)(r := Some (pid, Ph_Waiting))\<rparr>" (is "_ = ?rr")
      using run pid s None by simp
    have "call_ok ?rr r Ph_Waiting = call_ok rr r Ph_Waiting"
      by (rule call_ok_cong) (use same in \<open>simp_all add: same_side_def replies_def\<close>)
    then have "call_ok ?rr r Ph_Waiting" using calls_invD(3)[OF ci pid] by (simp add: call_ok_def)
    then show ?thesis unfolding eq using re same some pid by (intro inv_call[OF inv]) (auto simp: same_side_def)
  next
    case (Some e)
    have eq: "rr' = rr\<lparr>rr_side := relay_forget r rs, rr_calls := (rr_calls rr)(r := None)\<rparr>" using run pid s Some by simp
    show ?thesis unfolding eq using re same by (intro inv_call[OF inv]) (auto simp: same_side_def)
  qed
qed

lemma relay_wait_cases:
  "relay_wait ev r rs = (res, rs') \<Longrightarrow> res = None \<or> (\<exists>e. res = Some (Some e) \<and> rs' = relay_forget r rs) \<or>
   (res = Some None \<and> rl_pending rs r = Some (Some None) \<and> rs' = rs\<lparr>rl_pending := (rl_pending rs)(r := Some None)\<rparr>)"
  by (cases ev) (auto simp: relay_wait_def split: option.splits if_splits)

lemma inv_wait:
  assumes inv: "rl_inv c w0 rr" and run: "rl_step env has_agg (Rl_Wait ev r) rr = Inr rr'"
  shows "rl_inv c w0 rr'"
proof (cases "\<exists>pid. rr_calls rr r = Some (pid, Ph_Waiting)")
  case False
  then show ?thesis using inv run by (auto split: option.splits phase.splits)
next
  case True
  then obtain pid where pid: "rr_calls rr r = Some (pid, Ph_Waiting)" by blast
  have ci: "calls_inv rr" and re: "reach c w0 (rl_w (rr_side rr))" using inv by (simp_all add: rl_inv_def)
  have over: "rl_inv c w0 (rr\<lparr>rr_side := relay_forget r (rr_side rr), rr_calls := (rr_calls rr)(r := None)\<rparr>)"
    using re by (intro inv_call[OF inv]) auto
  obtain res rs where r: "relay_wait ev r (rr_side rr) = (res, rs)" by fastforce
  consider "res = None" | e where "res = Some (Some e)" "rs = relay_forget r (rr_side rr)"
    | "res = Some None" "rl_pending (rr_side rr) r = Some (Some None)"
      "rs = (rr_side rr)\<lparr>rl_pending := (rl_pending (rr_side rr))(r := Some None)\<rparr>"
    using relay_wait_cases[OF r] by blast
  then show ?thesis
  proof cases
    case 1
    then show ?thesis using inv run pid r by simp
  next
    case (2 e)
    then show ?thesis using over run pid r by simp
  next
    case 3
    have eq: "rr' = rr\<lparr>rr_side := rs, rr_calls := (rr_calls rr)(r := Some (pid, Ph_Dialling))\<rparr>" (is "_ = ?rr")
      using run pid r 3(1) by simp
    have "call_ok ?rr r Ph_Dialling" using calls_invD(3)[OF ci pid] 3(2) by (simp add: call_ok_def replies_def)
    then show ?thesis unfolding eq using re pid 3(3) by (intro inv_call[OF inv]) auto
  qed
qed

lemma inv_connect:
  assumes inv: "rl_inv c w0 rr" and run: "rl_step env has_agg (Rl_Connect bound now r) rr = Inr rr'"
  shows "rl_inv c w0 rr'"
proof (cases "\<exists>pid. rr_calls rr r = Some (pid, Ph_Dialling)")
  case False
  then show ?thesis using inv run by (auto split: option.splits phase.splits)
next
  case True
  then obtain pid where pid: "rr_calls rr r = Some (pid, Ph_Dialling)" by blast
  have ci: "calls_inv rr" and re: "reach c w0 (rl_w (rr_side rr))" using inv by (simp_all add: rl_inv_def)
  have over: "rl_inv c w0 (rr\<lparr>rr_side := relay_forget r (put_stream s (rr_side rr)), rr_calls := (rr_calls rr)(r := None)\<rparr>)"
    if "reach c w0 ((rl_w (rr_side rr))\<lparr>w_s := s\<rparr>)" for s
    using that by (intro inv_call[OF inv]) auto
  obtain e s where a: "attachPath now (new_path pid True Zero_Time) (w_s (rl_w (rr_side rr))) = (e, s)" by fastforce
  have ok: "sop_ok c (rl_w (rr_side rr)) (Do_Attach now (new_path pid True Zero_Time))"
    using calls_invD(1)[OF ci pid] by (simp add: new_path_def)
  have attach: "reach c w0 w" if "sop_step (Do_Attach now (new_path pid True Zero_Time)) (rl_w (rr_side rr)) = Inr w" for w
    by (rule reach_step[OF re ok that])
  have id: "p_id (new_path pid True Zero_Time) = pid" by (simp add: new_path_def)
  consider "\<not> bound" | err where "bound" "e = Some err" | "bound" "e = None" by (cases e) auto
  then show ?thesis
  proof cases
    case 1
    then have "rr' = rr\<lparr>rr_side := relay_forget r (put_stream (w_s (rl_w (rr_side rr))) (rr_side rr)), rr_calls := (rr_calls rr)(r := None)\<rparr>"
      using run pid by (simp add: relay_connect_def put_stream_def)
    then show ?thesis using over[of "w_s (rl_w (rr_side rr))"] re by simp
  next
    case 2
    then have "rr' = rr\<lparr>rr_side := relay_forget r (put_stream s (rr_side rr)), rr_calls := (rr_calls rr)(r := None)\<rparr>"
      using run pid a by (simp add: relay_connect_def)
    then show ?thesis using over[of s] attach a 2 by simp
  next
    case 3
    let ?w = "(rl_w (rr_side rr))\<lparr>w_s := s, w_granted := removeAll pid (w_granted (rl_w (rr_side rr)))\<rparr>"
    have eq: "rr' = rr\<lparr>rr_side := relay_forget r ((rr_side rr)\<lparr>rl_w := ?w\<rparr>), rr_calls := (rr_calls rr)(r := None)\<rparr>"
      using run pid a 3 by (simp add: relay_connect_def)
    have "reach c w0 ?w" using attach[of ?w] a 3 id by simp
    moreover have "p \<noteq> pid" if "rr_calls rr q = Some (p, ph)" "q \<noteq> r" for q p ph
      using calls_invD(4)[OF ci that(1)] pid that(2) by blast
    ultimately show ?thesis unfolding eq by (intro inv_call[OF inv]) (auto split: if_splits)
  qed
qed

lemma inv_ready:
  assumes inv: "rl_inv c w0 rr"
  shows "rl_inv c w0 (rr\<lparr>rr_side := handlePathReady env body (rr_side rr), rr_matched := rr_matched rr @ reply_of env body (rr_side rr)\<rparr>)"
    (is "rl_inv c w0 ?rr")
proof (cases "reply_of env body (rr_side rr) = []")
  case True
  then have "handlePathReady env body (rr_side rr) = rr_side rr"
    by (auto simp: reply_of_def handlePathReady_def split: option.splits if_splits)
  then show ?thesis using inv True by simp
next
  case False
  have ci: "calls_inv rr" and ji: "jobs_inv rr" using inv by (simp_all add: rl_inv_def)
  obtain q x where q: "reply_of env body (rr_side rr) = [(q, x)]" "rl_pending (rr_side rr) q \<noteq> None"
    using False by (auto simp: reply_of_def split: option.splits if_splits)
  have side: "rl_w (rr_side ?rr) = rl_w (rr_side rr)" "rl_nextReq (rr_side ?rr) = rl_nextReq (rr_side rr)"
    "rl_inFlight (rr_side ?rr) = rl_inFlight (rr_side rr)"
    "rl_pending (rr_side ?rr) = (if rl_pending (rr_side rr) q = Some None then (rl_pending (rr_side rr))(q := Some (Some x))
       else rl_pending (rr_side rr))"
    using q by (auto simp: reply_of_def handlePathReady_def split: option.splits if_splits)
  have rep: "replies ?rr r = replies rr r @ (if r = q then [x] else [])" for r
    by (simp add: replies_def q)
  have ok: "call_ok ?rr r ph" if "rr_calls rr r = Some (pid, ph)" for r pid ph
  proof (cases "r = q")
    case False
    then show ?thesis using calls_invD(3)[OF ci that] call_ok_cong[of ?rr r rr ph] side(4) rep[of r] by simp
  next
    case True
    then show ?thesis using calls_invD(3)[OF ci that] q(2) unfolding call_ok_def side(4) rep
      by (auto split: phase.splits option.splits)
  qed
  have "rr_calls rr q \<noteq> None" using q(2) calls_invD(5)[OF ci, of q] by simp
  then have lt: "q < rl_nextReq (rr_side rr)" using calls_invD(2)[OF ci, of q] by auto
  have "calls_inv ?rr"
    unfolding calls_inv_def
  proof (intro conjI allI impI)
    fix r pid ph
    assume "rr_calls ?rr r = Some (pid, ph)"
    then have r: "rr_calls rr r = Some (pid, ph)" by simp
    show "pid \<in> set (w_granted (rl_w (rr_side ?rr)))" "r < rl_nextReq (rr_side ?rr)" "call_ok ?rr r ph"
      using calls_invD(1,2)[OF ci r] ok[OF r] side(1,2) by simp_all
    fix r' ph'
    assume "rr_calls ?rr r' = Some (pid, ph')"
    then show "r = r'" using calls_invD(4)[OF ci r] by simp
  next
    fix r
    show "rl_pending (rr_side ?rr) r = None \<longleftrightarrow> rr_calls ?rr r = None"
      using calls_invD(5)[OF ci, of r] side(4) q(2) by (cases "r = q") auto
  next
    fix r y
    assume "(r, y) \<in> set (rr_matched ?rr)"
    then show "r < rl_nextReq (rr_side ?rr)" using calls_invD(6)[OF ci, of r y] lt side(2) q(1) by auto
  qed
  then show ?thesis using jobs_inv_same[OF ji, of ?rr] side(1,3) inv by (simp add: rl_inv_def)
qed

lemma inv_answered:
  assumes inv: "rl_inv c w0 rr" and same: "same_side (rr_side rr) (rr_side rr')" and re: "reach c w0 (rl_w (rr_side rr'))"
    and "rr_calls rr' = rr_calls rr" and "rr_matched rr' = rr_matched rr" and "jobs_inv rr'"
  shows "rl_inv c w0 rr'"
  using assms calls_inv_same[of rr rr'] by (simp add: rl_inv_def same_side_def)

lemma inv_request:
  assumes inv: "rl_inv c w0 rr" and run: "handlePathRequest env has_agg wr body (rr_side rr) = (fate, rs)"
  shows "rl_inv c w0 (note_fate fate (rr\<lparr>rr_side := rs\<rparr>))"
proof -
  have re: "reach c w0 (rl_w (rr_side rr))" and ji: "jobs_inv rr" and ci: "calls_inv rr" using inv by (simp_all add: rl_inv_def)
  consider "fate = RF_Dropped" "rs = rr_side rr" | r e where "fate = RF_Answered r" "rs = sendPathReady env wr r e (rr_side rr)"
    | r where "fate = RF_Ignored r" "rs = rr_side rr"
    | r relay addrs where "fate = RF_Reserving r relay addrs" "rs = (rr_side rr)\<lparr>rl_inFlight := rl_inFlight (rr_side rr) + 1\<rparr>"
        "rl_inFlight (rr_side rr) < maxConcurrentReservations"
    using run by (auto simp: handlePathRequest_def Let_def split: option.splits sum.splits if_splits)
  then show ?thesis
  proof cases
    case (2 r e)
    have "jobs_inv (note_fate fate (rr\<lparr>rr_side := rs\<rparr>))"
      using ji sendPathReady_side[OF re, of env wr r e] by (simp add: 2 jobs_inv_def same_side_def)
    then show ?thesis using sendPathReady_side[OF re, of env wr r e] by (intro inv_answered[OF inv]) (simp_all add: 2)
  next
    case (3 r)
    have "jobs_inv (note_fate fate (rr\<lparr>rr_side := rs\<rparr>))" using ji by (simp add: 3 jobs_inv_def)
    then show ?thesis using re by (intro inv_answered[OF inv]) (simp_all add: 3 same_side_def)
  next
    case (4 r relay addrs)
    have "jobs_inv (note_fate fate (rr\<lparr>rr_side := rs\<rparr>))"
      using ji 4(3) by (simp add: 4 jobs_inv_def maxConcurrentReservations_def)
    then show ?thesis using re ci calls_inv_same[of rr "note_fate fate (rr\<lparr>rr_side := rs\<rparr>)"]
      by (simp add: rl_inv_def 4)
  qed (use inv in simp)
qed

lemma jobs_update:
  assumes "k < length js" and "\<not> snd (js ! k)"
  shows "mset (map fst (filter (\<lambda>j. \<not> snd j) js)) = add_mset (fst (js ! k)) (mset (map fst (filter (\<lambda>j. \<not> snd j) (js[k := (r, True)]))))"
proof -
  have js: "js = take k js @ js ! k # drop (Suc k) js" by (rule id_take_nth_drop[OF assms(1)])
  show ?thesis
    using assms by (subst js) (simp add: upd_conv_take_nth_drop)
qed

lemma inv_answer:
  assumes inv: "rl_inv c w0 rr" and run: "rl_step env has_agg (Rl_Answer wr k outcome) rr = Inr rr'"
  shows "rl_inv c w0 rr'"
proof (cases "k < length (rr_jobs rr) \<and> \<not> snd (rr_jobs rr ! k)")
  case False
  then have "rr' = rr" using run by (simp split: if_splits)
  then show ?thesis using inv by simp
next
  case True
  have re: "reach c w0 (rl_w (rr_side rr))" and ji: "jobs_inv rr" using inv by (simp_all add: rl_inv_def)
  define r where "r = fst (rr_jobs rr ! k)"
  obtain e where rs: "reservation_answer env wr r outcome (rr_side rr) = sendPathReady env wr r e (rr_side rr)"
    by (simp add: reservation_answer_def)
  have eq: "rr' = rr\<lparr>rr_side := sendPathReady env wr r e (rr_side rr), rr_jobs := (rr_jobs rr)[k := (r, True)], rr_answered := r # rr_answered rr\<rparr>"
    using run True rs by (simp add: Let_def r_def)
  note side = sendPathReady_side[OF re, of env wr r e]
  have "jobs_inv rr'"
    using ji side True jobs_update[of k "rr_jobs rr" r] by (simp add: eq jobs_inv_def same_side_def r_def)
  then show ?thesis using side by (intro inv_answered[OF inv]) (simp_all add: eq)
qed

lemma jobs_remove:
  assumes "k < length js" and "snd (js ! k)"
  shows "filter (\<lambda>j. \<not> snd j) (take k js @ drop (Suc k) js) = filter (\<lambda>j. \<not> snd j) js"
    and "length js = Suc (length (take k js @ drop (Suc k) js))"
proof -
  have js: "js = take k js @ js ! k # drop (Suc k) js" by (rule id_take_nth_drop[OF assms(1)])
  show "filter (\<lambda>j. \<not> snd j) (take k js @ drop (Suc k) js) = filter (\<lambda>j. \<not> snd j) js"
    using arg_cong[OF js, of "filter (\<lambda>j. \<not> snd j)"] assms(2) by simp
  show "length js = Suc (length (take k js @ drop (Suc k) js))" using assms(1) by simp
qed

lemma inv_end:
  assumes inv: "rl_inv c w0 rr" and run: "rl_step env has_agg (Rl_End k) rr = Inr rr'"
  shows "rl_inv c w0 rr'"
proof (cases "k < length (rr_jobs rr) \<and> snd (rr_jobs rr ! k)")
  case False
  then have "rr' = rr" using run by (simp split: if_splits)
  then show ?thesis using inv by simp
next
  case True
  have eq: "rr' = rr\<lparr>rr_side := reservation_end (rr_side rr), rr_jobs := take k (rr_jobs rr) @ drop (Suc k) (rr_jobs rr)\<rparr>"
    using run True by simp
  have "filter (\<lambda>j. \<not> snd j) (rr_jobs rr') = filter (\<lambda>j. \<not> snd j) (rr_jobs rr)"
    "length (rr_jobs rr) = Suc (length (rr_jobs rr'))"
    using jobs_remove[of k "rr_jobs rr"] True by (simp_all add: eq)
  moreover have re: "reach c w0 (rl_w (rr_side rr))" and ji: "jobs_inv rr" and ci: "calls_inv rr"
    using inv by (simp_all add: rl_inv_def)
  moreover have "rl_inFlight (rr_side rr') = rl_inFlight (rr_side rr) - 1" "rr_taken rr' = rr_taken rr"
    "rr_answered rr' = rr_answered rr" "rr_ignored rr' = rr_ignored rr"
    by (simp_all add: eq reservation_end_def)
  ultimately have "jobs_inv rr'" by (simp add: jobs_inv_def)
  moreover have "calls_inv rr'" by (rule calls_inv_same[OF ci]) (simp_all add: eq reservation_end_def)
  ultimately show ?thesis using re by (simp add: rl_inv_def eq reservation_end_def)
qed

lemma rl_inv_step:
  assumes inv: "rl_inv c (new_world cf t ini) rr" and ok: "rl_ok c rr x" and run: "rl_step env has_agg x rr = Inr rr'"
  shows "rl_inv c (new_world cf t ini) rr'"
proof (cases x)
  case (Rl_Stream y)
  then show ?thesis using inv_stream[OF inv] ok run by (auto split: sum.splits)
next
  case Rl_Reserve
  obtain res rs where r: "relay_reserve (rr_side rr) = (res, rs)" by fastforce
  show ?thesis
  proof (cases res)
    case (Inl e)
    then have "rs = rr_side rr" using r by (auto simp: relay_reserve_def split: sum.splits)
    then show ?thesis using run r Inl inv Rl_Reserve by simp
  next
    case (Inr pr)
    obtain pid q where pr: "pr = (pid, q)" by fastforce
    then show ?thesis using run r Inr inv_reserve[OF inv, of pid q rs] ok Rl_Reserve by simp
  qed
next
  case (Rl_Request wr body)
  then show ?thesis using inv_request[OF inv] run by (auto simp: Let_def split: prod.splits)
next
  case (Rl_Ready body)
  then show ?thesis using inv_ready[OF inv, of env body] run by auto
next
  case (Rl_Send wr relay ac r)
  then show ?thesis using inv_send[OF inv run[unfolded Rl_Send]] by blast
next
  case (Rl_Wait ev r)
  then show ?thesis using inv_wait[OF inv run[unfolded Rl_Wait]] by blast
next
  case (Rl_Connect bound now r)
  then show ?thesis using inv_connect[OF inv run[unfolded Rl_Connect]] by blast
next
  case (Rl_Answer wr k outcome)
  then show ?thesis using inv_answer[OF inv run[unfolded Rl_Answer]] by blast
next
  case (Rl_End k)
  then show ?thesis using inv_end[OF inv run[unfolded Rl_End]] by blast
qed

lemma rl_inv_start: "rl_inv c w0 (new_relay_run w0)"
  by (simp add: rl_inv_def new_relay_run_def new_relay_side_def calls_inv_def jobs_inv_def reach_start)

lemma rl_reach_inv: "rl_reach env has_agg c rr0 rr \<Longrightarrow> rl_inv c (new_world cf t ini) rr0 \<Longrightarrow> rl_inv c (new_world cf t ini) rr"
  by (induction rule: rl_reach.induct) (auto intro: rl_inv_step)

section \<open>What a run guarantees\<close>

text \<open>
  In every run in which calls of \<open>AddRelayPath\<close>, the replies of the peer in any order and number, timeouts and
  everything else that happens to the stream interleave: the path id a call holds is reserved for it alone and is
  not attached; a call that waits has in its channel the first reply that arrived since it began, or nothing when
  none did; and a call dials a circuit only if that first reply was a success, later ones being without effect.
\<close>

theorem relay_dial_needs_reply:
  assumes "rl_reach env has_agg c (new_relay_run (new_world cf t ini)) rr" and "rr_calls rr r = Some (pid, ph)"
  shows "pid \<in> set (w_granted (rl_w (rr_side rr))) \<and> pid \<notin> p_id ` set (st_paths (w_s (rl_w (rr_side rr)))) \<and>
    (\<forall>r' ph'. rr_calls rr r' = Some (pid, ph') \<longrightarrow> r' = r) \<and>
    (if ph = Ph_Dialling then \<exists>ys. replies rr r = None # ys
     else case rl_pending (rr_side rr) r of Some (Some x) \<Rightarrow> \<exists>ys. replies rr r = x # ys | _ \<Rightarrow> replies rr r = [])"
proof -
  have inv: "rl_inv c (new_world cf t ini) rr" by (rule rl_reach_inv[OF assms(1) rl_inv_start])
  then have ci: "calls_inv rr" and re: "reach c (new_world cf t ini) (rl_w (rr_side rr))" by (simp_all add: rl_inv_def)
  have g: "pid \<in> set (w_granted (rl_w (rr_side rr)))" by (rule calls_invD(1)[OF ci assms(2)])
  have "ids_inv (w_s (rl_w (rr_side rr))) (w_granted (rl_w (rr_side rr)))"
    using reach_inv[OF re world_inv_new] by (simp add: world_inv_def)
  then have "pid \<notin> p_id ` set (st_paths (w_s (rl_w (rr_side rr))))" using g by (auto simp: ids_inv_def)
  moreover have "\<forall>r' ph'. rr_calls rr r' = Some (pid, ph') \<longrightarrow> r' = r"
    using calls_invD(4)[OF ci assms(2)] by metis
  ultimately show ?thesis using g calls_invD(3)[OF ci assms(2)] by (cases ph) (simp_all add: call_ok_def)
qed

text \<open>
  Reservations on behalf of the peer are bounded and none is forgotten: whatever requests the peer sends, at
  most eight reservations are under way, their counter is exact, and every request that could be read has been
  answered once, is being worked on, or came after the end of the stream.
\<close>

theorem reservations_bounded:
  assumes "rl_reach env has_agg c (new_relay_run (new_world cf t ini)) rr"
  shows "rl_inFlight (rr_side rr) = int (length (rr_jobs rr)) \<and> rl_inFlight (rr_side rr) \<le> maxConcurrentReservations \<and>
    mset (rr_taken rr) = mset (rr_answered rr) + mset (rr_ignored rr) + mset (map fst (filter (\<lambda>j. \<not> snd j) (rr_jobs rr)))"
  using rl_reach_inv[OF assms rl_inv_start] by (simp add: rl_inv_def jobs_inv_def maxConcurrentReservations_def)

section \<open>The exchange\<close>

definition reservation_text :: "string option \<Rightarrow> string option" where
  "reservation_text outcome =
     map_option (\<lambda>e. ''netacc: reservation '' @ [CHR 0xE5, CHR 0xA4, CHR 0xB1, CHR 0xE8, CHR 0xB4, CHR 0xA5] @ '': '' @ e) outcome"

lemma reservation_answer_eq:
  "reservation_answer env wr r outcome rs = sendPathReady env wr r (reservation_text outcome) rs"
  by (cases outcome) (simp_all add: reservation_answer_def reservation_text_def)

definition open_side :: "(nat \<Rightarrow> byte) \<Rightarrow> (u64 \<Rightarrow> bool) \<Rightarrow> relay_side \<Rightarrow> bool" where
  "open_side c wr rs \<longleftrightarrow> (\<exists>cf t ini. reach c (new_world cf t ini) (rl_w rs)) \<and> \<not> st_closed (w_s (rl_w rs)) \<and>
     (\<exists>q \<in> set (st_paths (w_s (rl_w rs))). wr (p_id q))"

lemma open_side_ctrl:
  assumes "send_inv W s" and "\<not> st_closed s" and "\<exists>q \<in> set (st_paths s). wr (p_id q)"
  shows "\<exists>s' i. writeCtrl wr ft body s = (None, s') \<and> last (st_out s') = Eff_Write i (M_Ctrl ft body) \<and> wr i"
proof -
  obtain q where q: "q \<in> set (st_paths s)" "wr (p_id q)" using assms(3) by blast
  then show ?thesis using writeCtrl_delivers[where wr = wr and ft = ft and body = body, OF assms(1,2) q] by fastforce
qed

text \<open>
  C29: the two sides of a relay path fit together: when the initiator has reserved its ids and both streams are
  open with one path that works, the request arrives, the peer reserves at the relay the initiator named with the
  addresses it named, less their peer suffix, and the call ends its wait with the outcome of that reservation, a
  failure with its text. The codecs are assumed to invert what they encode.
\<close>

theorem relay_exchange_completes:
  assumes "\<And>x b. re_marshal_request env x = Some b \<Longrightarrow> re_unmarshal_request env b = Some x"
    and "\<And>x b. re_marshal_ready env x = Some b \<Longrightarrow> re_unmarshal_ready env b = Some x"
    and "re_peer_of env (re_peer_bytes env relay) = Inr relay"
    and "list_all (\<lambda>a. re_addr_of env (re_addr_bytes env a) = Some a) addrs"
    and "open_side c wra rsA" and "open_side c' wrb rsB" and "rl_inFlight rsB < maxConcurrentReservations"
    and "relay_reserve rsA = (Inr (pid, r), a1)"
    and "marshalPathRequest env r (relay, addrs) ac = Some body"
    and "marshalPathReady env r (reservation_text outcome) = Some body'"
  shows "\<exists>a2 b1 i j.
    sendPathRequest env wra r (relay, addrs) ac a1 = (None, a2) \<and>
    last (st_out (w_s (rl_w a2))) = Eff_Write i (M_Ctrl framePathRequest body) \<and> wra i \<and>
    handlePathRequest env True wrb body rsB = (RF_Reserving r relay (map (re_strip env) addrs), b1) \<and>
    last (st_out (w_s (rl_w (reservation_answer env wrb r outcome b1)))) = Eff_Write j (M_Ctrl framePathReady body') \<and> wrb j \<and>
    fst (relay_wait W_Ready r (handlePathReady env body' a2)) = Some (map_option RE_Refused (reservation_text outcome))"
proof -
  obtain s where s: "reserveLocalPathID (w_s (rl_w rsA)) = Inr (pid, s)" and r: "r = rl_nextReq rsA"
    and a1: "a1 = rsA\<lparr>rl_w := (rl_w rsA)\<lparr>w_s := s, w_granted := pid # w_granted (rl_w rsA)\<rparr>, rl_nextReq := r + 1,
      rl_pending := (rl_pending rsA)(r := Some None)\<rparr>"
    using assms(8) by (auto simp: relay_reserve_def split: sum.splits prod.splits)
  have inv: "send_inv (w_written (rl_w rsA)) (w_s (rl_w rsA))" using assms(5) reach_send_inv by (auto simp: open_side_def)
  have sA: "s = (w_s (rl_w rsA))\<lparr>st_nextPathID := st_nextPathID (w_s (rl_w rsA)) + 2\<rparr>"
    using s by (auto simp: reserveLocalPathID_def split: if_splits)
  then have inv': "send_inv (w_written (rl_w rsA)) s" using inv send_inv_view[of s "w_s (rl_w rsA)"] by (simp add: send_view_def)
  have "\<not> st_closed s" "\<exists>q \<in> set (st_paths s). wra (p_id q)" using assms(5) sA by (simp_all add: open_side_def)
  from open_side_ctrl[where wr = wra and ft = framePathRequest and body = body, OF inv' this]
  obtain s2 i where c: "writeCtrl wra framePathRequest body s = (None, s2)" "last (st_out s2) = Eff_Write i (M_Ctrl framePathRequest body)" "wra i" by blast
  define a2 where "a2 = put_stream s2 a1"
  have send: "sendPathRequest env wra r (relay, addrs) ac a1 = (None, a2)"
    using assms(9) c(1) by (simp add: sendPathRequest_def a1 a2_def)
  have "List.map_filter (re_addr_of env) (map (re_addr_bytes env) addrs) = addrs"
    using assms(4) by (induction addrs) (simp_all add: List.map_filter_simps)
  moreover obtain req where "re_marshal_request env req = Some body" "pr_relay req = re_peer_bytes env relay" "pr_id req = r"
    "pr_addrs req = map (re_addr_bytes env) addrs"
    using assms(9) by (simp add: marshalPathRequest_def)
  ultimately have handle: "handlePathRequest env True wrb body rsB =
      (RF_Reserving r relay (map (re_strip env) addrs), rsB\<lparr>rl_inFlight := rl_inFlight rsB + 1\<rparr>)"
    using assms(1,3,6,7) by (simp add: handlePathRequest_def decodeRelayInfo_def open_side_def)
  have invB: "send_inv (w_written (rl_w rsB)) (w_s (rl_w rsB))" using assms(6) reach_send_inv by (auto simp: open_side_def)
  have "\<not> st_closed (w_s (rl_w rsB))" "\<exists>q \<in> set (st_paths (w_s (rl_w rsB))). wrb (p_id q)"
    using assms(6) by (simp_all add: open_side_def)
  from open_side_ctrl[where wr = wrb and ft = framePathReady and body = body', OF invB this]
  obtain s3 j where d: "writeCtrl wrb framePathReady body' (w_s (rl_w rsB)) = (None, s3)" "last (st_out s3) = Eff_Write j (M_Ctrl framePathReady body')" "wrb j" by blast
  have answer: "w_s (rl_w (reservation_answer env wrb r outcome (rsB\<lparr>rl_inFlight := rl_inFlight rsB + 1\<rparr>))) = s3"
    using assms(10) d(1) by (simp add: reservation_answer_eq sendPathReady_def)
  have slot: "rl_pending a2 r = Some None" by (simp add: a2_def a1)
  have "re_unmarshal_ready env body' = Some \<lparr>pd_id = r, pd_error = (case reservation_text outcome of None \<Rightarrow> [] | Some e \<Rightarrow> e)\<rparr>"
    using assms(2,10) by (simp add: marshalPathReady_def)
  then have "fst (relay_wait W_Ready r (handlePathReady env body' a2)) = Some (map_option RE_Refused (reservation_text outcome))"
    using slot by (cases outcome) (simp_all add: handlePathReady_def relay_wait_def reservation_text_def)
  then show ?thesis using send c(2,3) handle answer d(2,3) a2_def by auto
qed

section \<open>Witnesses\<close>

definition demo_request :: path_request where
  "demo_request = \<lparr>pr_id = 0, pr_relay = [1], pr_addrs = [], pr_ac = None\<rparr>"

definition demo_ready :: path_ready where "demo_ready = \<lparr>pd_id = 0, pd_error = []\<rparr>"

definition demo_env :: relay_env where
  "demo_env = \<lparr>re_marshal_request = (\<lambda>x. if x = demo_request then Some [1] else None),
     re_unmarshal_request = (\<lambda>b. if b = [1] then Some demo_request else None),
     re_marshal_ready = (\<lambda>x. if x = demo_ready then Some [2] else None),
     re_unmarshal_ready = (\<lambda>b. if b = [2] then Some demo_ready else None),
     re_peer_bytes = (\<lambda>_. [1]), re_peer_of = (\<lambda>_. Inr ''R''), re_addr_bytes = (\<lambda>_. []), re_addr_of = (\<lambda>_. None),
     re_strip = Some, re_can_dial = (\<lambda>_. True), re_encapsulate = (\<lambda>a _. a), re_show_peer = (\<lambda>p. p)\<rparr>"

definition demo_side :: "bool \<Rightarrow> relay_side" where
  "demo_side ini = new_relay_side (new_world demo_config (At 0) ini)"

definition demo_side1 :: relay_side where "demo_side1 = snd (relay_reserve (demo_side True))"

lemma demo_reserve: "relay_reserve (demo_side True) = (Inr (2, 0), demo_side1)"
  by (simp add: demo_side1_def relay_reserve_def demo_side_def new_relay_side_def new_world_def reserveLocalPathID_def
      newStreamFull_def Let_def)

lemma demo_open: "open_side demo_content (\<lambda>_. True) (demo_side ini)"
  unfolding open_side_def
proof (intro conjI)
  show "\<exists>cf t ini'. reach demo_content (new_world cf t ini') (rl_w (demo_side ini))"
    using reach_start[of demo_content "new_world demo_config (At 0) ini"] by (auto simp: demo_side_def new_relay_side_def)
qed (simp_all add: demo_side_def new_relay_side_def new_world_def newStreamFull_def Let_def)

theorem control_frame_gets_out_witness:
  "\<exists>s'. writeCtrl (\<lambda>_. True) framePathRequest [1] (w_s demo_w5) = (None, s') \<and> \<not> st_closed s'"
proof -
  have ne: "st_paths (w_s demo_w5) \<noteq> []" by (simp add: demo_state Let_def)
  then show ?thesis
    using control_frame_gets_out[OF demo_reach _ ne, of "\<lambda>_. True" framePathRequest "[1]"] demo_facts
    by (cases "st_paths (w_s demo_w5)") auto
qed

definition demo_call :: relay_run where
  "demo_call = (new_relay_run (new_world demo_config (At 0) True))\<lparr>rr_side := demo_side1,
     rr_calls := (\<lambda>_. None)(0 := Some (2, Ph_New))\<rparr>"

lemma demo_call_reach: "rl_reach demo_env True demo_content (new_relay_run (new_world demo_config (At 0) True)) demo_call"
proof (rule rl_next[OF rl_start, where x = Rl_Reserve])
  show "rl_ok demo_content (new_relay_run (new_world demo_config (At 0) True)) Rl_Reserve"
    by (simp add: new_relay_run_def new_relay_side_def new_world_def newStreamFull_def Let_def)
  have "rr_side (new_relay_run (new_world demo_config (At 0) True)) = demo_side True" by (simp add: new_relay_run_def demo_side_def)
  then show "rl_step demo_env True Rl_Reserve (new_relay_run (new_world demo_config (At 0) True)) = Inr demo_call"
    using demo_reserve by (simp add: demo_call_def new_relay_run_def)
qed

theorem relay_dial_needs_reply_witness: "2 \<in> set (w_granted (rl_w (rr_side demo_call))) \<and> replies demo_call 0 = []"
proof -
  have c: "rr_calls demo_call 0 = Some (2, Ph_New)" by (simp add: demo_call_def)
  have "rl_pending (rr_side demo_call) 0 = Some None"
    by (simp add: demo_call_def demo_side1_def relay_reserve_def demo_side_def new_relay_side_def new_world_def
        reserveLocalPathID_def newStreamFull_def Let_def)
  then show ?thesis using relay_dial_needs_reply[OF demo_call_reach c] by simp
qed

theorem reservations_bounded_witness: "rl_inFlight (rr_side demo_call) \<le> 8"
  using reservations_bounded[OF demo_call_reach] by (simp add: maxConcurrentReservations_def)

theorem relay_exchange_completes_witness:
  "\<exists>a2 b1. sendPathRequest demo_env (\<lambda>_. True) 0 (''R'', []) None demo_side1 = (None, a2) \<and>
     handlePathRequest demo_env True (\<lambda>_. True) [1] (demo_side False) = (RF_Reserving 0 ''R'' [], b1) \<and>
     fst (relay_wait W_Ready 0 (handlePathReady demo_env [2] a2)) = Some None"
proof -
  have m: "re_unmarshal_request demo_env b = Some x" if "re_marshal_request demo_env x = Some b" for x b
    using that by (simp add: demo_env_def split: if_splits)
  have n: "re_unmarshal_ready demo_env b = Some x" if "re_marshal_ready demo_env x = Some b" for x b
    using that by (simp add: demo_env_def split: if_splits)
  have p: "re_peer_of demo_env (re_peer_bytes demo_env ''R'') = Inr ''R''" by (simp add: demo_env_def)
  have l: "list_all (\<lambda>a. re_addr_of demo_env (re_addr_bytes demo_env a) = Some a) []" by simp
  have f: "rl_inFlight (demo_side False) < maxConcurrentReservations"
    by (simp add: demo_side_def new_relay_side_def maxConcurrentReservations_def)
  have b: "marshalPathRequest demo_env 0 (''R'', []) None = Some [1]"
    by (simp add: marshalPathRequest_def demo_env_def demo_request_def)
  have b': "marshalPathReady demo_env 0 (reservation_text None) = Some [2]"
    by (simp add: marshalPathReady_def demo_env_def demo_ready_def reservation_text_def)
  note x = relay_exchange_completes[where env = demo_env and relay = "''R''" and addrs = "[]" and wra = "\<lambda>_. True" and
      wrb = "\<lambda>_. True" and c = demo_content and c' = demo_content and ac = None and outcome = None,
      OF m n p l demo_open demo_open f demo_reserve b b']
  then show ?thesis by (simp add: reservation_text_def) blast
qed

end
