(* ===== verification/Tunnel_Client.thy ===== *)
theory Tunnel_Client
  imports Tunnel_Http_Props Tunnel_WS
begin

text \<open>
  The client side of the tunnels, \<open>src/tunnelclient.go\<close>: the OPEN a request amounts to, the request body cut into
  DATA frames, the check of the first frame that comes back and the response body. Printing a URL, JSON and the
  stream are parameters: the stream gives the frames that come in and the outcome of every write.
\<close>

section \<open>The request\<close>

record http_request =
  rq_method :: string
  rq_url :: "url option"
  rq_host :: string
  rq_header :: header
  rq_has_body :: bool

datatype fetch_err =
    FE_Nil_Request | FE_No_URL | FE_Scheme string | FE_Relative string | FE_Long nat | FE_Open open_err
  | FE_Stream | FE_Write_Magic | FE_Write_Open | FE_Write_End | FE_Read wire_err | FE_Decode | FE_Kind kind | FE_Status int
  | FE_Abort_Unknown | FE_Abort string string | FE_Frame ftype | FE_WS_Target | FE_WS_Rejected int header string

definition target_fits :: "string \<Rightarrow> string \<Rightarrow> fetch_err + (string \<times> string)" where
  "target_fits t host = (if MaxTargetLen < length t then Inl (FE_Long (length t)) else Inr (t, host))"

definition httpTargetOf :: "(url \<Rightarrow> string) \<Rightarrow> (url \<Rightarrow> string) \<Rightarrow> http_request \<Rightarrow> fetch_err + (string \<times> string)" where
  "httpTargetOf show_url request_uri req =
     (case rq_url req of
        None \<Rightarrow> Inl FE_No_URL
      | Some u \<Rightarrow>
          let host = (if rq_host req = [] then hdr_get ''Host'' (rq_header req) else rq_host req) in
          if IsAbs u then
            (if ur_scheme u \<noteq> ''http'' \<and> ur_scheme u \<noteq> ''https'' then Inl (FE_Scheme (ur_scheme u))
             else
               let u = u\<lparr>ur_fragment := []\<rparr> in
               target_fits (show_url u) (if host = [] then ur_host u else host))
          else
            let t = (if request_uri u = [] then ''/'' else request_uri u) in
            if \<not> local_path t then Inl (FE_Relative t)
            else target_fits t host)"

definition headerWithoutHost :: "header \<Rightarrow> header" where
  "headerWithoutHost h = filter (\<lambda>(k, vs). \<not> equal_fold k ''Host'') h"

definition fetch_open :: "(url \<Rightarrow> string) \<Rightarrow> (url \<Rightarrow> string) \<Rightarrow> http_request option \<Rightarrow> fetch_err + open_msg" where
  "fetch_open show_url request_uri req =
     (case req of
        None \<Rightarrow> Inl FE_Nil_Request
      | Some r \<Rightarrow>
          (case httpTargetOf show_url request_uri r of
             Inl e \<Rightarrow> Inl e
           | Inr (target, host) \<Rightarrow>
               let om = \<lparr>om_v = 1, om_kind = KindHTTP, om_target = target, om_method = default_method (rq_method r), om_host = host,
                         om_headers = HeadersToPairs (headerWithoutHost (rq_header r)), om_protocols = []\<rparr> in
               (case ValidateOpen (Some om) of Some e \<Rightarrow> Inl (FE_Open e) | None \<Rightarrow> Inr om)))"

text \<open>
  \<open>dataWriter.Write\<close> and the goroutine that copies the body: what each \<open>Read\<close> of it gives (\<open>Some True\<close> at its end,
  \<open>Some False\<close> for an error) and the outcome of the write; afterwards END, or the stream is closed.
\<close>

definition dataWriter_Write :: "bytes \<Rightarrow> nat option \<Rightarrow> wframe list \<Rightarrow> bool \<times> wframe list" where
  "dataWriter_Write p fail out = send_frames fail (map (Pair FrameData) (chunks p)) out"

fun copy_body :: "(bytes \<times> bool option \<times> nat option) list \<Rightarrow> nat option \<Rightarrow> wframe list \<Rightarrow> bool \<times> wframe list" where
  "copy_body [] fail out = send_frames fail [(FrameEnd, [])] out"
| "copy_body ((p, e, f) # rs) fail out =
     (let (ok, out) = (if p = [] then (True, out) else dataWriter_Write p f out) in
      if \<not> ok then (False, out)
      else case e of
        None \<Rightarrow> copy_body rs fail out
      | Some True \<Rightarrow> send_frames fail [(FrameEnd, [])] out
      | Some False \<Rightarrow> (False, out))"

section \<open>The answer\<close>

record http_response =
  rs_status :: string
  rs_code :: int
  rs_header :: header

type_synonym result_dec = "bytes \<Rightarrow> result_msg option"
type_synonym abort_dec = "bytes \<Rightarrow> abort_msg option"

definition status_line :: "int \<Rightarrow> string \<Rightarrow> string" where
  "status_line c text =
     (let text = (if text = [] then StatusText c else text) in
      decimal (nat c) @ (if text = [] then [] else '' '' @ text))"

definition fetch_abort :: "abort_dec \<Rightarrow> bytes \<Rightarrow> fetch_err" where
  "fetch_abort da p = (case da p of None \<Rightarrow> FE_Abort_Unknown | Some a \<Rightarrow> FE_Abort (am_code a) (am_message a))"

definition response_of :: "result_msg \<Rightarrow> fetch_err + http_response" where
  "response_of r =
     (if rm_kind r \<noteq> KindHTTP then Inl (FE_Kind (rm_kind r))
      else if rm_status r < 100 \<or> 599 < rm_status r then Inl (FE_Status (rm_status r))
      else Inr \<lparr>rs_status = status_line (rm_status r) (rm_statusText r), rs_code = rm_status r,
                rs_header = PairsToHeaders (rm_headers r)\<rparr>)"

text \<open>The first frame that comes back; \<open>None\<close> while there is none.\<close>

fun first_frame :: "result_dec \<Rightarrow> abort_dec \<Rightarrow> (result_msg \<Rightarrow> fetch_err + 'a) \<Rightarrow> in_frame list \<Rightarrow> ((fetch_err + 'a) \<times> in_frame list) option" where
  "first_frame dr da k [] = None"
| "first_frame dr da k (IF_Err e # xs) = Some (Inl (FE_Read e), xs)"
| "first_frame dr da k (IF_Frame t p # xs) =
     Some (if t = FrameResult then (case dr p of None \<Rightarrow> Inl FE_Decode | Some r \<Rightarrow> k r)
           else if t = FrameAbort then Inl (fetch_abort da p)
           else Inl (FE_Frame t), xs)"

text \<open>What a call did to the stream it opened.\<close>

record call_trace =
  ct_opened :: bool
  ct_magic :: bool
  ct_out :: "wframe list"
  ct_closed :: bool

definition no_call :: call_trace where
  "no_call = \<lparr>ct_opened = False, ct_magic = False, ct_out = [], ct_closed = False\<rparr>"

definition fail_call :: "fetch_err \<Rightarrow> call_trace \<Rightarrow> ((fetch_err + 'a) \<times> in_frame list) option \<times> call_trace" where
  "fail_call e t = (Some (Inl e, []), t\<lparr>ct_closed := True\<rparr>)"

text \<open>Magic and OPEN on a new stream: whether they went out, or the error.\<close>

definition open_call :: "bool \<Rightarrow> bool \<Rightarrow> nat option \<Rightarrow> bytes \<Rightarrow> fetch_err option \<times> call_trace" where
  "open_call opened magic fail js =
     (if \<not> opened then (Some FE_Stream, no_call)
      else if \<not> magic then (Some FE_Write_Magic, no_call\<lparr>ct_opened := True\<rparr>)
      else
        let (ok, out) = send_json fail FrameOpen js []; t = no_call\<lparr>ct_opened := True, ct_magic := True, ct_out := out\<rparr> in
        if ok then (None, t) else (Some FE_Write_Open, t))"

definition finish_call :: "((fetch_err + 'a) \<times> in_frame list) option \<Rightarrow> call_trace \<Rightarrow> ((fetch_err + 'a) \<times> in_frame list) option \<times> call_trace" where
  "finish_call r t = (case r of Some (Inl e, xs) \<Rightarrow> (Some (Inl e, xs), t\<lparr>ct_closed := True\<rparr>) | _ \<Rightarrow> (r, t))"

text \<open>
  \<open>TunnelFetch\<close> up to the response, the body copied by its own goroutine: \<open>opened\<close>, \<open>magic\<close>, \<open>f_open\<close> and \<open>f_end\<close> say
  how opening the stream and the writes turn out.
\<close>

definition TunnelFetch ::
  "(url \<Rightarrow> string) \<Rightarrow> (url \<Rightarrow> string) \<Rightarrow> (open_msg \<Rightarrow> bytes) \<Rightarrow> result_dec \<Rightarrow> abort_dec \<Rightarrow> http_request option \<Rightarrow>
   bool \<Rightarrow> bool \<Rightarrow> nat option \<Rightarrow> nat option \<Rightarrow> in_frame list \<Rightarrow>
   ((fetch_err + http_response) \<times> in_frame list) option \<times> call_trace" where
  "TunnelFetch show_url request_uri jo dr da req opened magic f_open f_end xs =
     (case fetch_open show_url request_uri req of
        Inl e \<Rightarrow> (Some (Inl e, []), no_call)
      | Inr om \<Rightarrow>
          (case open_call opened magic f_open (jo om) of
             (Some e, t) \<Rightarrow> if ct_opened t then fail_call e t else (Some (Inl e, []), t)
           | (None, t) \<Rightarrow>
               if (case req of None \<Rightarrow> False | Some r \<Rightarrow> rq_has_body r) then finish_call (first_frame dr da response_of xs) t
               else
                 let (ok, out) = send_frames f_end [(FrameEnd, [])] (ct_out t); t = t\<lparr>ct_out := out\<rparr> in
                 if \<not> ok then fail_call FE_Write_End t
                 else finish_call (first_frame dr da response_of xs) t))"

section \<open>The response body\<close>

datatype resp_err = RE_EOF | RE_Read wire_err | RE_Abort string string | RE_Abort_Unknown | RE_Frame ftype

record resp_body =
  tb_buf :: bytes
  tb_err :: "resp_err option"
  tb_closed :: bool
  tb_out :: "wframe list"
  tb_stream_closed :: bool

definition new_resp_body :: resp_body where
  "new_resp_body = \<lparr>tb_buf = [], tb_err = None, tb_closed = False, tb_out = [], tb_stream_closed = False\<rparr>"

definition resp_result :: "resp_err \<Rightarrow> resp_err read_result" where
  "resp_result e = (if e = RE_EOF then BR_EOF else BR_Err e)"

definition resp_take :: "nat \<Rightarrow> resp_body \<Rightarrow> resp_err read_result \<times> resp_body" where
  "resp_take room b = (BR_Bytes (take room (tb_buf b)), b\<lparr>tb_buf := drop room (tb_buf b)\<rparr>)"

fun resp_end :: "abort_dec \<Rightarrow> in_frame \<Rightarrow> resp_err" where
  "resp_end da (IF_Err e) = RE_Read e"
| "resp_end da (IF_Frame t p) =
     (if t = FrameEnd then RE_EOF
      else if t = FrameAbort then (case da p of None \<Rightarrow> RE_Abort_Unknown | Some a \<Rightarrow> RE_Abort (am_code a) (am_message a))
      else RE_Frame t)"

fun resp_pull :: "abort_dec \<Rightarrow> nat \<Rightarrow> in_frame list \<Rightarrow> resp_body \<Rightarrow> resp_err read_result \<times> in_frame list \<times> resp_body" where
  "resp_pull da room [] b = (BR_Blocked, [], b)"
| "resp_pull da room (IF_Err e # xs) b = (BR_Err (RE_Read e), xs, b\<lparr>tb_err := Some (RE_Read e)\<rparr>)"
| "resp_pull da room (IF_Frame t p # xs) b =
     (if t = FrameData then
        (if p = [] then resp_pull da room xs (b\<lparr>tb_buf := []\<rparr>)
         else let (r, b) = resp_take room (b\<lparr>tb_buf := p\<rparr>) in (r, xs, b))
      else let e = resp_end da (IF_Frame t p) in (resp_result e, xs, b\<lparr>tb_err := Some e\<rparr>))"

definition resp_read :: "abort_dec \<Rightarrow> nat \<Rightarrow> in_frame list \<Rightarrow> resp_body \<Rightarrow> resp_err read_result \<times> in_frame list \<times> resp_body" where
  "resp_read da room xs b =
     (case tb_err b of
        Some e \<Rightarrow> (resp_result e, xs, b)
      | None \<Rightarrow> if tb_buf b = [] then resp_pull da room xs b else let (r, b) = resp_take room b in (r, xs, b))"

definition resp_close :: "bytes \<Rightarrow> nat option \<Rightarrow> resp_body \<Rightarrow> resp_body" where
  "resp_close abort fail b =
     (if tb_closed b then b
      else
        let b = b\<lparr>tb_closed := True\<rparr>;
            b = (if tb_err b = None then b\<lparr>tb_out := snd (send_json fail FrameAbort abort (tb_out b))\<rparr> else b) in
        b\<lparr>tb_stream_closed := True\<rparr>)"

section \<open>WebSocket sessions\<close>

definition wsTargetOf :: "(string \<Rightarrow> url option) \<Rightarrow> (url \<Rightarrow> string) \<Rightarrow> string \<Rightarrow> fetch_err + (string \<times> string)" where
  "wsTargetOf parse show_url t =
     (if t = [] \<or> MaxTargetLen < length t then Inl FE_WS_Target
      else if local_path t then Inr (takeWhile (\<lambda>c. c \<noteq> CHR ''#'') t, [])
      else case parse t of
        None \<Rightarrow> Inl FE_WS_Target
      | Some u \<Rightarrow>
          if ur_host u = [] \<or> (ur_scheme u \<noteq> ''ws'' \<and> ur_scheme u \<noteq> ''wss'') then Inl FE_WS_Target
          else Inr (show_url (u\<lparr>ur_fragment := []\<rparr>), ur_host u))"

definition ws_open :: "(string \<Rightarrow> url option) \<Rightarrow> (url \<Rightarrow> string) \<Rightarrow> string \<Rightarrow> header \<Rightarrow> string list \<Rightarrow> fetch_err + open_msg" where
  "ws_open parse show_url t hdr protocols =
     (case wsTargetOf parse show_url t of
        Inl e \<Rightarrow> Inl e
      | Inr (target, host) \<Rightarrow>
          let om = \<lparr>om_v = 1, om_kind = KindWS, om_target = target, om_method = [],
                    om_host = (if hdr_get ''Host'' hdr \<noteq> [] then hdr_get ''Host'' hdr else host),
                    om_headers = HeadersToPairs (headerWithoutHost hdr), om_protocols = protocols\<rparr> in
          (case ValidateOpen (Some om) of Some e \<Rightarrow> Inl (FE_Open e) | None \<Rightarrow> Inr om))"

definition ws_answer :: "string list \<Rightarrow> result_msg \<Rightarrow> fetch_err + wsconn" where
  "ws_answer protocols r =
     (if rm_kind r \<noteq> KindWS then Inl (FE_Kind (rm_kind r))
      else if rm_status r \<noteq> 101 then Inl (FE_WS_Rejected (rm_status r) (PairsToHeaders (rm_headers r)) (rm_error r))
      else Inr (newTunnelWSConn (Some protocols) False\<lparr>ws_protocol := rm_protocol r\<rparr>))"

definition TunnelWS ::
  "(string \<Rightarrow> url option) \<Rightarrow> (url \<Rightarrow> string) \<Rightarrow> (open_msg \<Rightarrow> bytes) \<Rightarrow> result_dec \<Rightarrow> abort_dec \<Rightarrow> string \<Rightarrow> header \<Rightarrow> string list \<Rightarrow>
   bool \<Rightarrow> bool \<Rightarrow> nat option \<Rightarrow> in_frame list \<Rightarrow> ((fetch_err + wsconn) \<times> in_frame list) option \<times> call_trace" where
  "TunnelWS parse show_url jo dr da t hdr protocols opened magic f_open xs =
     (case ws_open parse show_url t hdr protocols of
        Inl e \<Rightarrow> (Some (Inl e, []), no_call)
      | Inr om \<Rightarrow>
          (case open_call opened magic f_open (jo om) of
             (Some e, t) \<Rightarrow> if ct_opened t then fail_call e t else (Some (Inl e, []), t)
           | (None, t) \<Rightarrow> finish_call (first_frame dr da (ws_answer protocols) xs) t))"

end
