(* ===== verification/Tunnel_Client_Props.thy ===== *)
theory Tunnel_Client_Props
  imports Tunnel_Client
begin

text \<open>
  The two sides of an HTTP tunnel session together: what the client uploads is what the handler reads, what the
  handler writes is what the client reads, and a call that fails leaves no stream behind.
\<close>

section \<open>The response body as a byte reader\<close>

definition resp_rd :: "abort_dec \<Rightarrow> nat \<Rightarrow> in_frame list \<times> resp_body \<Rightarrow> (resp_err read_result \<times> in_frame list \<times> resp_body) run" where
  "resp_rd da room s = Inr (resp_read da room (fst s) (snd s))"

definition resp_rest :: "in_frame list \<times> resp_body \<Rightarrow> bytes" where
  "resp_rest s = (if tb_err (snd s) \<noteq> None then [] else tb_buf (snd s) @ fst (lead (fst s)))"

definition resp_fin :: "abort_dec \<Rightarrow> in_frame list \<times> resp_body \<Rightarrow> resp_err read_result option" where
  "resp_fin da s = map_option resp_result (case tb_err (snd s) of Some e \<Rightarrow> Some e | None \<Rightarrow> map_option (resp_end da) (snd (lead (fst s))))"

lemma resp_result_simps [simp]:
  "result_bytes (resp_result e) = []" "\<not> is_bytes (resp_result e)" "result_says (Some (resp_result e)) True (resp_result e)"
  by (simp_all add: resp_result_def)

lemma resp_pull_step:
  assumes "resp_pull da room xs b = (r, ys, b')" and "tb_buf b = []" and "tb_err b = None"
  shows "result_bytes r @ resp_rest (ys, b') = resp_rest (xs, b) \<and> resp_fin da (ys, b') = resp_fin da (xs, b) \<and>
    result_says (resp_fin da (xs, b)) (resp_rest (xs, b) = []) r \<and> (is_bytes r \<longrightarrow> 0 < room \<longrightarrow> result_bytes r \<noteq> [])"
  using assms
proof (induction da room xs b rule: resp_pull.induct)
  case (1 da room b)
  then show ?case by (auto simp: resp_rest_def resp_fin_def)
next
  case (2 da room e xs b)
  have e: "resp_result (RE_Read e) = BR_Err (RE_Read e)" by (simp add: resp_result_def)
  show ?case using 2 by (auto simp: resp_rest_def resp_fin_def e)
next
  case (3 da room t p xs b)
  consider (empty) "t = FrameData" "p = []" | (data) "t = FrameData" "p \<noteq> []" | (other) "t \<noteq> FrameData" by blast
  then show ?case
  proof cases
    case empty
    then have eq: "lead (IF_Frame t p # xs) = lead xs" "resp_pull da room xs (b\<lparr>tb_buf := []\<rparr>) = (r, ys, b')"
      using 3(2) by simp_all
    have "resp_rest (IF_Frame t p # xs, b) = resp_rest (xs, b\<lparr>tb_buf := []\<rparr>)" "resp_fin da (IF_Frame t p # xs, b) = resp_fin da (xs, b\<lparr>tb_buf := []\<rparr>)"
      using 3(3,4) by (simp_all only: resp_rest_def resp_fin_def fst_conv snd_conv eq(1)) simp_all
    then show ?thesis using "3.IH"[OF empty eq(2)] 3(4) by simp
  next
    case data
    then show ?thesis using 3(2-) by (auto simp: resp_rest_def resp_fin_def resp_take_def Let_def)
  next
    case other
    then show ?thesis using 3(2-)
      by (auto simp: resp_rest_def resp_fin_def Let_def simp del: resp_end.simps)
  qed
qed

interpretation response_body: byte_reader "resp_rd da" resp_rest "resp_fin da" for da
proof
  fix room s r s'
  assume "resp_rd da room s = Inr (r, s')"
  then have step: "resp_read da room (fst s) (snd s) = (r, fst s', snd s')" by (simp add: resp_rd_def)
  have "result_bytes r @ resp_rest s' = resp_rest s \<and> resp_fin da s' = resp_fin da s \<and>
    result_says (resp_fin da s) (resp_rest s = []) r \<and> (is_bytes r \<longrightarrow> 0 < room \<longrightarrow> result_bytes r \<noteq> [])"
  proof (cases "tb_err (snd s) = None \<and> tb_buf (snd s) = []")
    case True
    then show ?thesis using resp_pull_step[of da room "fst s" "snd s" r "fst s'" "snd s'"] step by (simp add: resp_read_def)
  next
    case False
    then show ?thesis using step
      by (auto simp: resp_read_def resp_take_def resp_rest_def resp_fin_def split: option.splits if_splits prod.splits)
  qed
  then show "result_bytes r @ resp_rest s' = resp_rest s" and "resp_fin da s' = resp_fin da s"
    and "result_says (resp_fin da s) (resp_rest s = []) r" and "is_bytes r \<Longrightarrow> 0 < room \<Longrightarrow> result_bytes r \<noteq> []" by blast+
qed

section \<open>Both directions of a session\<close>

text \<open>The bytes of the body up to its end.\<close>

fun uploaded :: "(bytes \<times> bool option \<times> nat option) list \<Rightarrow> bytes" where
  "uploaded [] = []"
| "uploaded ((p, e, f) # rs) = p @ (case e of None \<Rightarrow> uploaded rs | Some b \<Rightarrow> [])"

lemma data_frames_fit: "list_all frame_fits (map (Pair FrameData) (chunks p))"
  using chunks_fit[of _ p] by (auto simp: list_all_iff frame_fits_def maxPayload_def ftypes)

lemma control_frames_fit:
  "frame_fits (FrameEnd, [])" "length js \<le> MaxJSONPayload \<Longrightarrow> frame_fits (FrameResult, js)"
  by (simp_all add: frame_fits_def maxPayload_def ftypes)

lemma copy_body_frames:
  assumes "copy_body reads f out = (True, up)"
  shows "\<exists>ps. up = out @ map (Pair FrameData) ps @ [(FrameEnd, [])] \<and> concat ps = uploaded reads \<and>
    list_all frame_fits (map (Pair FrameData) ps)"
  using assms
proof (induction reads f out rule: copy_body.induct)
  case (1 fail out)
  then show ?case by (intro exI[of _ "[]"]) (auto simp: send_frames_def split: option.splits)
next
  case (2 p e f rs fail out)
  define cs where "cs = (if p = [] then [] else chunks p)"
  have go: "(if p = [] then (True, out) else dataWriter_Write p f out) = (True, out @ map (Pair FrameData) cs)"
    using 2(2) by (cases "p = []"; cases f) (simp_all add: cs_def dataWriter_Write_def send_frames_def)
  have cs: "concat cs = p" "list_all frame_fits (map (Pair FrameData) cs)"
    using chunks_concat data_frames_fit by (simp_all add: cs_def)
  show ?case
  proof (cases e)
    case None
    have "copy_body rs fail (out @ map (Pair FrameData) cs) = (True, up)"
      using 2(2) by (simp only: copy_body.simps go Let_def prod.case None) simp
    from "2.IH"[OF go[symmetric] refl _ None this]
    obtain ps where "up = (out @ map (Pair FrameData) cs) @ map (Pair FrameData) ps @ [(FrameEnd, [])]"
      "concat ps = uploaded rs" "list_all frame_fits (map (Pair FrameData) ps)" by auto
    then show ?thesis using cs None by (intro exI[of _ "cs @ ps"]) simp
  next
    case (Some b)
    have "b" "up = out @ map (Pair FrameData) cs @ [(FrameEnd, [])]"
      using 2(2) unfolding copy_body.simps go Let_def by (auto simp: Some send_frames_def split: bool.splits option.splits)
    then show ?thesis using cs Some by (intro exI[of _ cs]) simp
  qed
qed

lemma pump_data:
  assumes "list_all frame_fits (pre @ map (Pair FrameData) ps @ [(FrameEnd, [])])"
  shows "\<exists>xs. pump_frames fin (enc (pre @ map (Pair FrameData) ps @ [(FrameEnd, [])])) = map (\<lambda>(t, p). IF_Frame t p) pre @ xs \<and>
    lead xs = (concat ps, Some (IF_Frame FrameEnd []))"
proof -
  obtain e where e: "pump_frames fin (enc (pre @ map (Pair FrameData) ps @ [(FrameEnd, [])])) =
      map (\<lambda>(t, p). IF_Frame t p) (pre @ map (Pair FrameData) ps @ [(FrameEnd, [])]) @ [IF_Err e]"
    using pump_frames_enc[OF assms] by blast
  have "lead (map (\<lambda>p. IF_Frame FrameData p) ps @ [IF_Frame FrameEnd [], IF_Err e]) = (concat ps, Some (IF_Frame FrameEnd []))"
    unfolding lead_data by (simp add: ftypes)
  then show ?thesis using e
    by (intro exI[of _ "map (\<lambda>p. IF_Frame FrameData p) ps @ [IF_Frame FrameEnd [], IF_Err e]"]) (simp add: comp_def)
qed

text \<open>The bytes a client is to get.\<close>

definition body_bytes :: "string \<Rightarrow> int \<Rightarrow> h_op list \<Rightarrow> bytes" where
  "body_bytes m c ops = (if no_body m c then [] else concat (written ops))"

lemma body_frames_map:
  "\<exists>ps. body_frames m c (written ops) = map (Pair FrameData) ps \<and> concat ps = body_bytes m c ops \<and> list_all frame_fits (map (Pair FrameData) ps)"
proof (cases "no_body m c")
  case True
  then show ?thesis by (intro exI[of _ "[]"]) (simp add: body_frames_def body_bytes_def)
next
  case False
  have "concat (concat (map chunks ps)) = concat ps" for ps
    by (induction ps) (simp_all add: chunks_concat)
  moreover have "list_all frame_fits (map (Pair FrameData) (concat (map chunks ps)))" for ps
    by (induction ps) (simp_all add: data_frames_fit)
  ultimately show ?thesis using False
    by (intro exI[of _ "concat (map chunks (written ops))"]) (simp add: body_frames_def body_bytes_def)
qed

text \<open>
  C31: the two sides of an HTTP tunnel session fit together. Once the client has uploaded a body, the handler's
  reads give exactly its bytes and then EOF; when the handler's calls go out on a working connection, the client
  gets a response with the handler's status and headers, and reading it gives exactly the bytes the handler wrote
  and then EOF; the JSON of the RESULT is only assumed to decode to what was encoded.
\<close>

theorem tunnel_http_exchange:
  assumes "copy_body reads f [] = (True, up)"
    and "list_all healthy ops" and "final_result [] ops = (c, h)" and "100 \<le> c" and "c \<le> 599"
    and "length (js (http_result c h [])) \<le> MaxJSONPayload" and "dr (js (http_result c h [])) = Some (http_result c h [])"
  shows "(\<forall>rooms rs s. read_all (body_rd da) rooms (pump_frames fin (enc up), newHTTPBody) = Inr (rs, s) \<longrightarrow> gets_whole rooms (uploaded reads) rs) \<and>
    (\<exists>resp xs. first_frame dr da response_of (pump_frames fin (enc (hw_out (serve_handler js m ops None None None)))) = Some (Inr resp, xs) \<and>
       rs_code resp = c \<and> rs_header resp = PairsToHeaders (HeadersToPairs h) \<and>
       (\<forall>rooms rs s. read_all (resp_rd da) rooms (xs, new_resp_body) = Inr (rs, s) \<longrightarrow> gets_whole rooms (body_bytes m c ops) rs))"
proof (rule conjI)
  obtain ps where ps: "up = map (Pair FrameData) ps @ [(FrameEnd, [])]" "concat ps = uploaded reads" "list_all frame_fits (map (Pair FrameData) ps)"
    using copy_body_frames[OF assms(1)] by auto
  have lead: "lead (pump_frames fin (enc up)) = (uploaded reads, Some (IF_Frame FrameEnd []))"
    using pump_data[of "[]" ps fin] ps control_frames_fit by auto
  show "\<forall>rooms rs s. read_all (body_rd da) rooms (pump_frames fin (enc up), newHTTPBody) = Inr (rs, s) \<longrightarrow> gets_whole rooms (uploaded reads) rs"
    using request_body.whole[of da _ "(pump_frames fin (enc up), newHTTPBody)"]
    by (simp add: body_rest_def body_ending_def newHTTPBody_def lead)
next
  let ?r = "http_result c h []"
  obtain ps where ps: "body_frames m c (written ops) = map (Pair FrameData) ps" "concat ps = body_bytes m c ops" "list_all frame_fits (map (Pair FrameData) ps)"
    using body_frames_map by blast
  have out: "hw_out (serve_handler js m ops None None None) = [(FrameResult, js ?r)] @ map (Pair FrameData) ps @ [(FrameEnd, [])]"
    using fold_from_start[of ops "newHTTPResultWriter m" c h js] assms(2,3,6) ps(1)
    by (simp add: serve_handler_def hw_finish_def newHTTPResultWriter_def send_frames_def Let_def)
  obtain xs where xs: "pump_frames fin (enc (hw_out (serve_handler js m ops None None None))) = IF_Frame FrameResult (js ?r) # xs"
    "lead xs = (body_bytes m c ops, Some (IF_Frame FrameEnd []))"
    using pump_data[of "[(FrameResult, js ?r)]" ps fin] ps control_frames_fit assms(6) unfolding out by auto
  have resp: "first_frame dr da response_of (IF_Frame FrameResult (js ?r) # xs) =
      Some (Inr \<lparr>rs_status = status_line c (StatusText c), rs_code = c, rs_header = PairsToHeaders (HeadersToPairs h)\<rparr>, xs)"
    using assms(4,5,7) by (simp add: response_of_def http_result_def)
  have "\<forall>rooms rs s. read_all (resp_rd da) rooms (xs, new_resp_body) = Inr (rs, s) \<longrightarrow> gets_whole rooms (body_bytes m c ops) rs"
    using response_body.whole[of da _ "(xs, new_resp_body)"]
    by (simp add: resp_rest_def resp_fin_def resp_result_def new_resp_body_def xs(2) ftypes)
  then show "\<exists>resp xs. first_frame dr da response_of (pump_frames fin (enc (hw_out (serve_handler js m ops None None None)))) = Some (Inr resp, xs) \<and>
       rs_code resp = c \<and> rs_header resp = PairsToHeaders (HeadersToPairs h) \<and>
       (\<forall>rooms rs s. read_all (resp_rd da) rooms (xs, new_resp_body) = Inr (rs, s) \<longrightarrow> gets_whole rooms (body_bytes m c ops) rs)"
    unfolding xs(1) resp by (intro exI conjI) auto
qed

text \<open>An upload in two reads, a handler that answers 404, a decoder that knows that one RESULT.\<close>

lemma tunnel_http_exchange_witness:
  "\<exists>resp xs. first_frame (\<lambda>p. Some (http_result 404 [(''Server'', [''x''])] [])) (\<lambda>p. None) response_of
       (pump_frames Io_EOF (enc (hw_out (serve_handler short_json ''GET'' demo_ops None None None)))) = Some (Inr resp, xs) \<and>
     rs_code resp = 404 \<and>
     (\<forall>rooms rs s. read_all (resp_rd (\<lambda>p. None)) rooms (xs, new_resp_body) = Inr (rs, s) \<longrightarrow> gets_whole rooms [1, 2] rs)"
proof -
  have chunk: "chunks [1, 2] = [[1, 2]]" "chunks [3] = [[3]]"
    by (subst chunks.simps, simp add: MaxDataPayload_def chunks_nil)+
  have up: "copy_body [([1, 2], None, None), ([3], Some True, None)] None [] =
      (True, [(FrameData, [1, 2]), (FrameData, [3]), (FrameEnd, [])])"
    by (simp add: dataWriter_Write_def send_frames_def chunk)
  have ops: "list_all healthy demo_ops" "final_result [] demo_ops = (404, [(''Server'', [''x''])])" "body_bytes ''GET'' 404 demo_ops = [1, 2]"
    by (simp_all add: demo_ops_def informational_def body_bytes_def no_body_def)
  have js: "length (short_json (http_result 404 [(''Server'', [''x''])] [])) \<le> MaxJSONPayload"
    by (simp add: short_json_def MaxJSONPayload_def)
  show ?thesis
    using tunnel_http_exchange[where reads = "[([1, 2], None, None), ([3], Some True, None)]" and f = None
        and up = "[(FrameData, [1, 2]), (FrameData, [3]), (FrameEnd, [])]" and ops = demo_ops and c = 404 and h = "[(''Server'', [''x''])]"
        and js = short_json and dr = "\<lambda>p. Some (http_result 404 [(''Server'', [''x''])] [])" and da = "\<lambda>p. None" and fin = Io_EOF
        and m = "''GET''", OF up ops(1,2) _ _ js] ops(3)
    by (auto simp del: first_frame.simps)
qed

section \<open>Calls that fail\<close>

lemma fetch_open_valid: "fetch_open show_url request_uri req = Inr om \<Longrightarrow> ValidateOpen (Some om) = None \<and> om_kind om = KindHTTP"
  by (auto simp: fetch_open_def Let_def split: option.splits sum.splits prod.splits)

lemma ws_open_valid: "ws_open parse show_url t hdr protocols = Inr om \<Longrightarrow> ValidateOpen (Some om) = None \<and> om_kind om = KindWS"
  by (auto simp: ws_open_def Let_def split: option.splits sum.splits prod.splits)

text \<open>The first frame on the stream, when there is one, is the OPEN.\<close>

definition opens_with :: "bytes \<Rightarrow> call_trace \<Rightarrow> bool" where
  "opens_with js t \<longleftrightarrow> ct_out t = [] \<or> (ct_opened t \<and> ct_magic t \<and> hd (ct_out t) = (FrameOpen, js))"

lemma open_call_cases:
  assumes "open_call opened magic fail js = (e, t)"
  shows "\<not> ct_closed t" and "opens_with js t" and "e = None \<Longrightarrow> ct_opened t \<and> ct_magic t \<and> ct_out t = [(FrameOpen, js)]"
proof -
  obtain ok out where s: "send_json fail FrameOpen js [] = (ok, out)" by fastforce
  have "out = [] \<and> \<not> ok \<or> out = [(FrameOpen, js)]" using send_json_cases[OF s] by auto
  then show "\<not> ct_closed t" and "opens_with js t" and "e = None \<Longrightarrow> ct_opened t \<and> ct_magic t \<and> ct_out t = [(FrameOpen, js)]"
    using assms s by (auto simp: open_call_def no_call_def opens_with_def Let_def split: if_splits)
qed

lemma first_frame_response:
  "first_frame dr da k xs = Some (Inr x, ys) \<Longrightarrow> \<exists>p r zs. xs = IF_Frame FrameResult p # zs \<and> dr p = Some r \<and> k r = Inr x"
  by (cases "(dr, da, k, xs)" rule: first_frame.cases) (auto split: if_splits option.splits)

text \<open>How a call may end: with an error and the stream closed if there was one, waiting, or with a result and the stream open.\<close>

definition call_ends_well :: "bytes \<Rightarrow> ('a \<Rightarrow> bool) \<Rightarrow> ((fetch_err + 'a) \<times> in_frame list) option \<times> call_trace \<Rightarrow> bool" where
  "call_ends_well js good rt \<longleftrightarrow> opens_with js (snd rt) \<and>
     (case fst rt of
        Some (Inl e, xs) \<Rightarrow> ct_closed (snd rt) = ct_opened (snd rt)
      | None \<Rightarrow> ct_opened (snd rt) \<and> \<not> ct_closed (snd rt)
      | Some (Inr x, xs) \<Rightarrow> ct_opened (snd rt) \<and> \<not> ct_closed (snd rt) \<and> ct_out (snd rt) \<noteq> [] \<and> good x)"

lemma finish_call_ends:
  assumes "ct_opened t" and "\<not> ct_closed t" and "ct_out t \<noteq> []" and "opens_with js t"
    and "\<And>x ys. r = Some (Inr x, ys) \<Longrightarrow> good x"
  shows "call_ends_well js good (finish_call r t)"
  using assms by (auto simp: call_ends_well_def finish_call_def opens_with_def split: option.splits sum.splits prod.splits)

lemma fail_call_ends: "ct_opened t \<Longrightarrow> opens_with js t \<Longrightarrow> call_ends_well js good (fail_call e t)"
  by (simp add: call_ends_well_def fail_call_def opens_with_def)

lemma TunnelFetch_ends:
  "case fetch_open su ru req of
     Inl e \<Rightarrow> TunnelFetch su ru jo dr da req opened magic f1 f2 xs = (Some (Inl e, []), no_call)
   | Inr om \<Rightarrow> ValidateOpen (Some om) = None \<and>
       call_ends_well (jo om) (\<lambda>x. 100 \<le> rs_code x \<and> rs_code x \<le> 599) (TunnelFetch su ru jo dr da req opened magic f1 f2 xs)"
proof (cases "fetch_open su ru req")
  case (Inl e)
  then show ?thesis by (simp add: TunnelFetch_def)
next
  case (Inr om)
  obtain e t where call: "open_call opened magic f1 (jo om) = (e, t)" by fastforce
  note c = open_call_cases[OF call]
  obtain ok out where s: "send_frames f2 [(FrameEnd, [])] (ct_out t) = (ok, out)" by fastforce
  have out: "ct_out t = [(FrameOpen, jo om)] \<Longrightarrow> out \<noteq> [] \<and> hd out = (FrameOpen, jo om)"
    using s by (auto simp: send_frames_def split: option.splits)
  have good: "100 \<le> rs_code x \<and> rs_code x \<le> 599" if "first_frame dr da response_of xs = Some (Inr x, ys)" for x ys
    using first_frame_response[OF that] by (auto simp: response_of_def split: if_splits)
  have "call_ends_well (jo om) (\<lambda>x. 100 \<le> rs_code x \<and> rs_code x \<le> 599) (TunnelFetch su ru jo dr da req opened magic f1 f2 xs)"
  proof (cases e)
    case None
    have "opens_with (jo om) (t\<lparr>ct_out := out\<rparr>)" using c(3)[OF None] out by (simp add: opens_with_def)
    moreover have "send_frames f2 [(FrameEnd, [])] [(FrameOpen, jo om)] = (ok, out)" using s c(3)[OF None] by simp
    ultimately show ?thesis using c None out good
      by (auto simp: TunnelFetch_def Inr call Let_def intro!: finish_call_ends fail_call_ends)
  next
    case (Some e)
    then show ?thesis using c
      by (auto simp: TunnelFetch_def Inr call intro!: fail_call_ends) (simp add: call_ends_well_def)
  qed
  then show ?thesis using fetch_open_valid[OF Inr] by (simp add: Inr)
qed

lemma TunnelWS_ends:
  "case ws_open parse su target hdr protocols of
     Inl e \<Rightarrow> TunnelWS parse su jo dr da target hdr protocols opened magic f1 xs = (Some (Inl e, []), no_call)
   | Inr om \<Rightarrow> ValidateOpen (Some om) = None \<and>
       call_ends_well (jo om) (\<lambda>c. ready c \<and> ws_offered c = Some protocols) (TunnelWS parse su jo dr da target hdr protocols opened magic f1 xs)"
proof (cases "ws_open parse su target hdr protocols")
  case (Inl e)
  then show ?thesis by (simp add: TunnelWS_def)
next
  case (Inr om)
  obtain e t where call: "open_call opened magic f1 (jo om) = (e, t)" by fastforce
  note c = open_call_cases[OF call]
  have good: "ready x \<and> ws_offered x = Some protocols" if "first_frame dr da (ws_answer protocols) xs = Some (Inr x, ys)" for x ys
    using first_frame_response[OF that] by (auto simp: ws_answer_def ready_def newTunnelWSConn_def split: if_splits)
  have "call_ends_well (jo om) (\<lambda>c. ready c \<and> ws_offered c = Some protocols) (TunnelWS parse su jo dr da target hdr protocols opened magic f1 xs)"
  proof (cases e)
    case None
    then show ?thesis using c(1,2) c(3)[OF None] good by (auto simp: TunnelWS_def Inr call intro!: finish_call_ends)
  next
    case (Some e)
    then show ?thesis using c
      by (auto simp: TunnelWS_def Inr call intro!: fail_call_ends) (simp add: call_ends_well_def)
  qed
  then show ?thesis using ws_open_valid[OF Inr] by (simp add: Inr)
qed

text \<open>
  C33: a tunnel call leaves nothing behind when it fails. Nothing is sent for a request that does not make a valid
  OPEN; the first frame of a stream is that OPEN; whenever \<open>TunnelFetch\<close> or \<open>TunnelWS\<close> returns an error, the stream
  it had opened is closed; and a result means an open stream and a RESULT with a status from 100 to 599, or 101
  for a WebSocket.
\<close>

theorem tunnel_calls_fail_clean:
  "(case fetch_open su ru req of
      Inl e \<Rightarrow> TunnelFetch su ru jo dr da req opened magic f1 f2 xs = (Some (Inl e, []), no_call)
    | Inr om \<Rightarrow> ValidateOpen (Some om) = None \<and>
        call_ends_well (jo om) (\<lambda>x. 100 \<le> rs_code x \<and> rs_code x \<le> 599) (TunnelFetch su ru jo dr da req opened magic f1 f2 xs)) \<and>
   (case ws_open parse su target hdr protocols of
      Inl e \<Rightarrow> TunnelWS parse su jo dr da target hdr protocols opened magic f1 xs = (Some (Inl e, []), no_call)
    | Inr om \<Rightarrow> ValidateOpen (Some om) = None \<and>
        call_ends_well (jo om) (\<lambda>c. ready c \<and> ws_offered c = Some protocols) (TunnelWS parse su jo dr da target hdr protocols opened magic f1 xs))"
  by (rule conjI[OF TunnelFetch_ends TunnelWS_ends])

end
