(* ===== verification/Tunnel_Proxy.thy ===== *)
theory Tunnel_Proxy
  imports Tunnel_Server
begin

text \<open>
  The WebSocket proxy of \<open>src/tunnel/ws.go\<close>: the headers of the handshake with the upstream, the answer to the client
  and the two pumps. Dialling and the upstream connection are parameters: what each of its reads gives and how each
  write to it turns out. Both pumps write whole frames under the lock of the session, so each is its own function.
\<close>

section \<open>The handshake with the upstream\<close>

definition wsHandshakeHeaders :: "string list" where
  "wsHandshakeHeaders =
     [''Sec-WebSocket-Key'', ''Sec-WebSocket-Version'', ''Sec-WebSocket-Protocol'', ''Sec-WebSocket-Extensions'', ''Sec-WebSocket-Accept'']"

definition hdr_set :: "string \<Rightarrow> string \<Rightarrow> header \<Rightarrow> header" where
  "hdr_set k v h = AList.update (canon_key k) [v] h"

definition ws_proxy_headers :: "open_msg \<Rightarrow> header" where
  "ws_proxy_headers om =
     (let (host, pairs) = ExtractHost (om_headers om) (om_host om);
          h = foldl (\<lambda>h k. hdr_del k h) (StripHopByHop (PairsToHeaders pairs)) wsHandshakeHeaders in
      if host \<noteq> [] then hdr_set ''Host'' host h else h)"

text \<open>How dialling ends: an error, with the response of the upstream if there was one, or a protocol and its headers.\<close>

datatype ws_dial = WD_Fail "(int \<times> header) option" | WD_Ok string header

text \<open>The RESULT, and whether the session goes on.\<close>

definition ws_proxy_answer :: "result_enc \<Rightarrow> open_msg \<Rightarrow> ws_dial \<Rightarrow> string \<Rightarrow> nat option \<Rightarrow> bool \<times> wframe list" where
  "ws_proxy_answer js om d msg fail =
     (case d of
        WD_Fail resp \<Rightarrow>
          let (status, hdrs) = (case resp of None \<Rightarrow> (502, []) | Some (st, h) \<Rightarrow> (st, HeadersToPairs h)) in
          (False, snd (send_json fail FrameResult (js (ws_result status [] hdrs msg)) []))
      | WD_Ok proto h \<Rightarrow>
          if proto \<noteq> [] \<and> proto \<notin> set (om_protocols om) then (False, rejectWS js 502 msg fail [])
          else (True, snd (send_json fail FrameResult (js (ws_result 101 proto (HeadersToPairs h) [])) [])))"

section \<open>From the upstream to the client\<close>

text \<open>What \<open>ReadMessage\<close> meets: messages, the control frames its handlers forward, and an error, with the close the upstream sent if it did.\<close>

datatype up_event = UE_Message int bytes | UE_Ping bytes | UE_Pong bytes | UE_Err "close_msg option"

type_synonym close_enc = "close_msg \<Rightarrow> bytes"

definition CloseInternalServerErr :: int where "CloseInternalServerErr = 1011"

definition upstream_close :: "close_msg option \<Rightarrow> close_msg" where
  "upstream_close ce =
     (let cm = (case ce of None \<Rightarrow> \<lparr>cm_code = CloseInternalServerErr, cm_reason = []\<rparr> | Some c \<Rightarrow> c) in
      if ValidateWSClose (Some cm) \<noteq> None then \<lparr>cm_code = CloseInternalServerErr, cm_reason = []\<rparr> else cm)"

definition send_close :: "close_enc \<Rightarrow> close_msg option \<Rightarrow> nat option \<Rightarrow> wframe list \<Rightarrow> wframe list" where
  "send_close jc ce fail out = snd (send_json fail FrameWSClose (jc (upstream_close ce)) out)"

definition send_message :: "int \<Rightarrow> bytes \<Rightarrow> nat option \<Rightarrow> wframe list \<Rightarrow> bool \<times> wframe list" where
  "send_message mt data fail out =
     (case WriteWSMessage (word_of_int mt) data of
        Inl e \<Rightarrow> (False, out)
      | Inr b \<Rightarrow> send_frames fail [(FrameWSMessage, word_of_int mt # data)] out)"

definition send_control :: "ftype \<Rightarrow> bytes \<Rightarrow> nat option \<Rightarrow> wframe list \<Rightarrow> bool \<times> wframe list" where
  "send_control ft data fail out =
     (case WriteFrame ft data of Inl e \<Rightarrow> (False, out) | Inr b \<Rightarrow> send_frames fail [(ft, data)] out)"

text \<open>
  The pump, each event with the outcome of its write and of the WS_CLOSE after it, and whether it has come to its
  end; a handler that fails makes \<open>ReadMessage\<close> return that failure.
\<close>

fun up_pump :: "close_enc \<Rightarrow> (up_event \<times> nat option \<times> nat option) list \<Rightarrow> wframe list \<Rightarrow> bool \<times> wframe list" where
  "up_pump jc [] out = (False, out)"
| "up_pump jc ((UE_Err ce, f, f') # evs) out = (True, send_close jc ce f out)"
| "up_pump jc ((UE_Message mt data, f, f') # evs) out =
     (if mt \<noteq> 1 \<and> mt \<noteq> 2 then up_pump jc evs out
      else let (ok, out) = send_message mt data f out in if ok then up_pump jc evs out else (True, out))"
| "up_pump jc ((UE_Ping data, f, f') # evs) out =
     (let (ok, out) = send_control FrameWSPing data f out in
      if ok then up_pump jc evs out else (True, send_close jc None f' out))"
| "up_pump jc ((UE_Pong data, f, f') # evs) out =
     (let (ok, out) = send_control FrameWSPong data f out in
      if ok then up_pump jc evs out else (True, send_close jc None f' out))"

section \<open>From the client to the upstream\<close>

datatype up_write = UW_Message nat bytes | UW_Ping bytes | UW_Pong bytes | UW_Close int string

datatype down_end = DE_Waiting | DE_Gone | DE_Write_Failed | DE_Close | DE_Abort | DE_Protocol

text \<open>What the switch makes of one frame.\<close>

definition down_frame :: "(bytes \<Rightarrow> close_msg option) \<Rightarrow> ftype \<Rightarrow> bytes \<Rightarrow> down_end + up_write" where
  "down_frame dc t p =
     (if t = FrameWSMessage then
        (if p = [] then Inl DE_Protocol
         else if unat (hd p) \<noteq> WSOpcodeText \<and> unat (hd p) \<noteq> WSOpcodeBinary then Inl DE_Protocol
         else Inr (UW_Message (unat (hd p)) (tl p)))
      else if t = FrameWSPing then Inr (UW_Ping p)
      else if t = FrameWSPong then Inr (UW_Pong p)
      else if t = FrameWSClose then
        (case dc p of
           None \<Rightarrow> Inl DE_Protocol
         | Some cm \<Rightarrow> if ValidateWSClose (Some cm) \<noteq> None then Inl DE_Protocol else Inr (UW_Close (cm_code cm) (cm_reason cm)))
      else if t = FrameAbort then Inl DE_Abort
      else Inl DE_Protocol)"

text \<open>The loop over the frames of the client, each with the outcome of the write it leads to; a failed close is ignored.\<close>

fun down_pump :: "(bytes \<Rightarrow> close_msg option) \<Rightarrow> (in_frame \<times> bool) list \<Rightarrow> up_write list \<Rightarrow> down_end \<times> up_write list" where
  "down_pump dc [] out = (DE_Waiting, out)"
| "down_pump dc ((IF_Err e, ok) # xs) out = (DE_Gone, out)"
| "down_pump dc ((IF_Frame t p, ok) # xs) out =
     (case down_frame dc t p of
        Inl e \<Rightarrow> (e, out)
      | Inr w \<Rightarrow>
          let out = (if ok then out @ [w] else out) in
          if t = FrameWSClose then (DE_Close, out)
          else if ok then down_pump dc xs out
          else (DE_Write_Failed, out))"

text \<open>What the client still gets from the loop: an ABORT for a violation of the protocol.\<close>

definition down_abort :: "bytes \<Rightarrow> down_end \<Rightarrow> nat option \<Rightarrow> wframe list \<Rightarrow> wframe list" where
  "down_abort abort e fail out = (if e = DE_Protocol then snd (send_json fail FrameAbort abort out) else out)"

section \<open>What the pumps keep\<close>

text \<open>The frame an upstream event stands for, and the write a frame of the client stands for.\<close>

fun event_frames :: "up_event \<Rightarrow> wframe list" where
  "event_frames (UE_Message mt data) = (if mt \<noteq> 1 \<and> mt \<noteq> 2 then [] else [(FrameWSMessage, word_of_int mt # data)])"
| "event_frames (UE_Ping data) = [(FrameWSPing, data)]"
| "event_frames (UE_Pong data) = [(FrameWSPong, data)]"
| "event_frames (UE_Err ce) = []"

fun frame_writes :: "(bytes \<Rightarrow> close_msg option) \<Rightarrow> in_frame \<Rightarrow> up_write list" where
  "frame_writes dc (IF_Err e) = []"
| "frame_writes dc (IF_Frame t p) = (case down_frame dc t p of Inl e \<Rightarrow> [] | Inr w \<Rightarrow> [w])"

text \<open>A write an upstream may be sent: a text or binary message, a control frame, a close with a code for the wire.\<close>

fun up_write_ok :: "up_write \<Rightarrow> bool" where
  "up_write_ok (UW_Message mt data) \<longleftrightarrow> mt = WSOpcodeText \<or> mt = WSOpcodeBinary"
| "up_write_ok (UW_Close k r) \<longleftrightarrow> ValidateWSClose (Some \<lparr>cm_code = k, cm_reason = r\<rparr>) = None"
| "up_write_ok w \<longleftrightarrow> True"

lemma close_msg_eta [simp]: "\<lparr>cm_code = cm_code cm, cm_reason = cm_reason cm\<rparr> = (cm :: close_msg)"
  by (cases cm) simp

lemma down_frame_ok: "down_frame dc t p = Inr w \<Longrightarrow> up_write_ok w"
  by (auto simp: down_frame_def split: if_splits option.splits)

lemma down_pump_spec:
  "down_pump dc xs out = (e, out') \<Longrightarrow>
     \<exists>ws. out' = out @ ws \<and> prefix ws (concat (map (\<lambda>x. frame_writes dc (fst x)) xs)) \<and> list_all up_write_ok ws \<and>
       (e = DE_Waiting \<longrightarrow> ws = concat (map (\<lambda>x. frame_writes dc (fst x)) xs))"
proof (induction dc xs out rule: down_pump.induct)
  case (3 dc t p ok xs out)
  show ?case
  proof (cases "down_frame dc t p")
    case (Inl e')
    then have "e' \<noteq> DE_Waiting" by (auto simp: down_frame_def split: if_splits option.splits)
    then show ?thesis using 3(2) Inl by auto
  next
    case (Inr w)
    show ?thesis
    proof (cases "ok \<and> t \<noteq> FrameWSClose")
      case True
      then obtain ws where "out' = (out @ [w]) @ ws" "prefix ws (concat (map (\<lambda>x. frame_writes dc (fst x)) xs))" "list_all up_write_ok ws"
        "e = DE_Waiting \<longrightarrow> ws = concat (map (\<lambda>x. frame_writes dc (fst x)) xs)"
        using 3(2) "3.IH"[OF Inr, of "out @ [w]"] Inr by auto
      then show ?thesis using Inr down_frame_ok[OF Inr] by (intro exI[of _ "w # ws"]) simp
    next
      case False
      then show ?thesis using 3(2) Inr down_frame_ok[OF Inr]
        by (intro exI[of _ "if ok then [w] else []"]) (auto simp: Let_def split: if_splits)
    qed
  qed
qed auto

lemma upstream_close_valid: "ValidateWSClose (Some (upstream_close ce)) = None"
proof -
  have fallback: "ValidateWSClose (Some \<lparr>cm_code = CloseInternalServerErr, cm_reason = []\<rparr>) = None"
    by (simp add: ValidateWSClose_def validReceivedWSCloseCode_def validateWSCloseReason_def CloseInternalServerErr_def
        valid_utf8.simps MaxWSCloseReasonBytes_def)
  show ?thesis by (simp add: upstream_close_def Let_def fallback)
qed

lemma send_frames_one: "send_frames fail [x] out = (ok, out') \<Longrightarrow> out' = out \<and> \<not> ok \<or> out' = out @ [x]"
  by (cases fail) (auto simp: send_frames_def take_Cons' split: if_splits)

lemma send_message_cases:
  "send_message mt data fail out = (ok, out') \<Longrightarrow>
     out' = out \<and> \<not> ok \<or> out' = out @ [(FrameWSMessage, word_of_int mt # data)]"
  by (auto simp: send_message_def dest!: send_frames_one split: sum.splits if_splits)

lemma send_control_cases:
  "send_control ft data fail out = (ok, out') \<Longrightarrow> out' = out \<and> \<not> ok \<or> out' = out @ [(ft, data)]"
  by (auto simp: send_control_def dest!: send_frames_one split: sum.splits if_splits)

lemma send_close_cases:
  "send_close jc ce fail out = out' \<Longrightarrow>
     out' = out \<or> (\<exists>cm. out' = out @ [(FrameWSClose, jc cm)] \<and> ValidateWSClose (Some cm) = None)"
  using send_json_cases[of fail FrameWSClose "jc (upstream_close ce)" out] upstream_close_valid[of ce]
  by (cases "send_json fail FrameWSClose (jc (upstream_close ce)) out") (auto simp: send_close_def)

text \<open>The frames of events, in order, and at most one valid WS_CLOSE after them.\<close>

definition up_output :: "close_enc \<Rightarrow> wframe list \<Rightarrow> wframe list \<Rightarrow> bool" where
  "up_output jc expected ys \<longleftrightarrow> (\<exists>fs cl. ys = fs @ cl \<and> prefix fs expected \<and>
     (cl = [] \<or> (\<exists>cm. cl = [(FrameWSClose, jc cm)] \<and> ValidateWSClose (Some cm) = None)))"

lemma up_output_close: "send_close jc ce fail (out @ fs) = out' \<Longrightarrow> prefix fs es \<Longrightarrow> \<exists>ys. out' = out @ ys \<and> up_output jc es ys"
  by (drule send_close_cases) (auto simp: up_output_def)

lemma up_output_prefix: "prefix fs es \<Longrightarrow> up_output jc es fs"
  by (auto simp: up_output_def)

lemma up_output_cons: "up_output jc es ys \<Longrightarrow> up_output jc (fs @ es) (fs @ ys)"
  unfolding up_output_def by (elim exE conjE) (metis append.assoc same_prefix_prefix)

lemma up_pump_spec:
  "up_pump jc evs out = (done, out') \<Longrightarrow> \<exists>ys. out' = out @ ys \<and> up_output jc (concat (map (\<lambda>x. event_frames (fst x)) evs)) ys"
proof (induction jc evs out rule: up_pump.induct)
  case (1 jc out)
  then show ?case by (auto intro: up_output_prefix)
next
  case (2 jc ce f f' evs out)
  then show ?case using up_output_close[of jc ce f out "[]" out'] by auto
next
  case (3 jc mt data f f' evs out)
  obtain ok out2 where s: "send_message mt data f out = (ok, out2)" by fastforce
  show ?case
  proof (cases "mt \<noteq> 1 \<and> mt \<noteq> 2")
    case True
    then show ?thesis using 3 by simp
  next
    case False
    have ef: "event_frames (UE_Message mt data) = [(FrameWSMessage, word_of_int mt # data)]" using False by simp
    show ?thesis
    proof (cases ok)
      case True
      then have out2: "out2 = out @ [(FrameWSMessage, word_of_int mt # data)]" using send_message_cases[OF s] by auto
      have "up_pump jc evs out2 = (done, out')" using 3(3) False s True by simp
      from "3.IH"(2)[OF False s[symmetric] refl True this] obtain ys where
        "out' = out2 @ ys" "up_output jc (concat (map (\<lambda>x. event_frames (fst x)) evs)) ys" by blast
      then show ?thesis using up_output_cons[of jc _ ys "[(FrameWSMessage, word_of_int mt # data)]"] out2 ef
        by (intro exI[of _ "(FrameWSMessage, word_of_int mt # data) # ys"]) (simp del: event_frames.simps)
    next
      case nok: False
      then have "out' = out2" using 3(3) False s by simp
      then have "out' = out \<or> out' = out @ [(FrameWSMessage, word_of_int mt # data)]" using send_message_cases[OF s] by auto
      then show ?thesis using ef by (auto intro!: up_output_prefix simp del: event_frames.simps)
    qed
  qed
next
  case (4 jc data f f' evs out)
  obtain ok out2 where s: "send_control FrameWSPing data f out = (ok, out2)" by fastforce
  show ?case
  proof (cases ok)
    case True
    then have out2: "out2 = out @ [(FrameWSPing, data)]" using send_control_cases[OF s] by auto
    have "up_pump jc evs out2 = (done, out')" using 4(2) s True by simp
    from "4.IH"[OF s[symmetric] refl True this] obtain ys where
      "out' = out2 @ ys" "up_output jc (concat (map (\<lambda>x. event_frames (fst x)) evs)) ys" by blast
    then show ?thesis using up_output_cons[of jc _ ys "[(FrameWSPing, data)]"] out2 by (intro exI[of _ "(FrameWSPing, data) # ys"]) simp
  next
    case False
    then have "send_close jc None f' out2 = out'" using 4(2) s by simp
    then show ?thesis using send_control_cases[OF s] up_output_close[of jc None f' out "[]" out'] up_output_close[of jc None f' out "[(FrameWSPing, data)]" out']
      by auto
  qed
next
  case (5 jc data f f' evs out)
  obtain ok out2 where s: "send_control FrameWSPong data f out = (ok, out2)" by fastforce
  show ?case
  proof (cases ok)
    case True
    then have out2: "out2 = out @ [(FrameWSPong, data)]" using send_control_cases[OF s] by auto
    have "up_pump jc evs out2 = (done, out')" using 5(2) s True by simp
    from "5.IH"[OF s[symmetric] refl True this] obtain ys where
      "out' = out2 @ ys" "up_output jc (concat (map (\<lambda>x. event_frames (fst x)) evs)) ys" by blast
    then show ?thesis using up_output_cons[of jc _ ys "[(FrameWSPong, data)]"] out2 by (intro exI[of _ "(FrameWSPong, data) # ys"]) simp
  next
    case False
    then have "send_close jc None f' out2 = out'" using 5(2) s by simp
    then show ?thesis using send_control_cases[OF s] up_output_close[of jc None f' out "[]" out'] up_output_close[of jc None f' out "[(FrameWSPong, data)]" out']
      by auto
  qed
qed

lemma down_pump_waiting:
  "down_pump dc xs [] = (DE_Waiting, ws) \<Longrightarrow> ws = concat (map (\<lambda>x. frame_writes dc (fst x)) xs)"
  using down_pump_spec[of dc xs "[]" DE_Waiting ws] by auto

text \<open>The fields of the handshake that gorilla writes itself.\<close>

lemma canon_names:
  "map canon_key (hopByHopHeaders @ wsHandshakeHeaders) =
     [''Connection'', ''Keep-Alive'', ''Proxy-Authenticate'', ''Proxy-Authorization'', ''Te'', ''Trailer'',
      ''Transfer-Encoding'', ''Upgrade'', ''Sec-Websocket-Key'', ''Sec-Websocket-Version'', ''Sec-Websocket-Protocol'',
      ''Sec-Websocket-Extensions'', ''Sec-Websocket-Accept'']"
  by code_simp

lemma host_not_stripped: "k \<in> set (hopByHopHeaders @ wsHandshakeHeaders) \<Longrightarrow> canon_key k \<noteq> canon_key ''Host''"
proof -
  assume "k \<in> set (hopByHopHeaders @ wsHandshakeHeaders)"
  then have "canon_key k \<in> set (map canon_key (hopByHopHeaders @ wsHandshakeHeaders))" by auto
  moreover have "canon_key ''Host'' = ''Host''" by (simp add: canon_key_def to_upper_def to_lower_def char_eval)
  ultimately show ?thesis unfolding canon_names by auto
qed

lemma ws_proxy_headers_clean:
  assumes "k \<in> set (hopByHopHeaders @ wsHandshakeHeaders)"
  shows "map_of (ws_proxy_headers om) (canon_key k) = None"
proof -
  obtain host pairs where e: "ExtractHost (om_headers om) (om_host om) = (host, pairs)" by fastforce
  have "map_of (foldl (\<lambda>h k. hdr_del k h) (StripHopByHop (PairsToHeaders pairs)) wsHandshakeHeaders) (canon_key k) = None"
    using assms by (auto simp: map_of_dels map_of_Strip hop_names_def)
  then show ?thesis using host_not_stripped[OF assms]
    by (simp add: ws_proxy_headers_def e Let_def hdr_set_def update_conv')
qed



text \<open>An upstream that closes without a status, which is no error, reaches the client as an internal error.\<close>

lemma no_status_becomes_error: "upstream_close (Some \<lparr>cm_code = 1005, cm_reason = []\<rparr>) = \<lparr>cm_code = 1011, cm_reason = []\<rparr>"
  by (simp add: upstream_close_def ValidateWSClose_def validReceivedWSCloseCode_def CloseInternalServerErr_def)

text \<open>A message longer than a frame can be ends the pump without a WS_CLOSE.\<close>

lemma long_message_ends_silently:
  "MaxWSMessage \<le> length data \<Longrightarrow> up_pump jc ((UE_Message 2 data, f, f') # evs) out = (True, out)"
  by (simp add: send_message_def WriteWSMessage_def)

end
