(* ===== verification/Tunnel_Session.thy ===== *)
theory Tunnel_Session
  imports Tunnel_Wire
begin

text \<open>
  How a session of \<open>src/internal/tunnelwire/tunnelwire.go\<close> gets at single bytes: \<open>byteReader\<close> over a reader that has no
  \<open>ReadByte\<close>, and the choice \<open>NewSessionRW\<close> makes.
\<close>

section \<open>Reading bytes one at a time\<close>

text \<open>
  A reader is what its calls with a buffer of one byte return, one after the other: a byte or none, and an error or none.
  \<open>None\<close> as the result of \<open>ReadByte\<close>: the reader has said nothing more yet. Where a byte and an error come together the
  error is dropped, and has to come again.
\<close>

type_synonym reads = "(byte option \<times> io_err option) list"

fun byteReader_ReadByte :: "reads \<Rightarrow> ((io_err + byte) \<times> reads) option" where
  "byteReader_ReadByte [] = None"
| "byteReader_ReadByte ((Some b, e) # rs) = Some (Inr b, rs)"
| "byteReader_ReadByte ((None, Some e) # rs) = Some (Inl e, rs)"
| "byteReader_ReadByte ((None, None) # rs) = byteReader_ReadByte rs"

text \<open>The bytes a reader delivers before its first error without a byte, and that error.\<close>

fun delivers :: "reads \<Rightarrow> byte list \<times> io_err option" where
  "delivers [] = ([], None)"
| "delivers ((Some b, e) # rs) = (let (bs, x) = delivers rs in (b # bs, x))"
| "delivers ((None, Some e) # rs) = ([], Some e)"
| "delivers ((None, None) # rs) = delivers rs"

fun read_bytes :: "nat \<Rightarrow> reads \<Rightarrow> byte list \<times> io_err option" where
  "read_bytes 0 rs = ([], None)"
| "read_bytes (Suc n) rs =
     (case byteReader_ReadByte rs of
        None \<Rightarrow> ([], None)
      | Some (Inl e, rs') \<Rightarrow> ([], Some e)
      | Some (Inr b, rs') \<Rightarrow> (let (bs, x) = read_bytes n rs' in (b # bs, x)))"

lemma ReadByte_delivers:
  "delivers rs = (case byteReader_ReadByte rs of
      None \<Rightarrow> ([], None)
    | Some (Inl e, rs') \<Rightarrow> ([], Some e)
    | Some (Inr b, rs') \<Rightarrow> (let (bs, x) = delivers rs' in (b # bs, x)))"
  by (induction rs rule: byteReader_ReadByte.induct) simp_all

lemma ReadByte_shorter: "byteReader_ReadByte rs = Some (r, rs') \<Longrightarrow> length rs' < length rs"
  by (induction rs rule: byteReader_ReadByte.induct) auto

text \<open>
  No byte is lost, doubled or moved, whatever errors and empty answers come with the bytes: reading often enough gives
  exactly what the reader delivers, and then its error.
\<close>

lemma byteReader_exact: "length rs < n \<Longrightarrow> read_bytes n rs = delivers rs"
proof (induction n arbitrary: rs)
  case (Suc n)
  have "read_bytes n rs' = delivers rs'" if "byteReader_ReadByte rs = Some (r, rs')" for r rs'
    using Suc ReadByte_shorter[OF that] by simp
  then show ?case by (subst ReadByte_delivers) (auto split: option.split sum.split)
qed simp

section \<open>The choice of a session\<close>

text \<open>A reader that can read single bytes is used as it is.\<close>

datatype byte_source = Own_ReadByte | Byte_Reader

definition NewSessionRW :: "bool \<Rightarrow> byte_source" where
  "NewSessionRW has_ReadByte = (if has_ReadByte then Own_ReadByte else Byte_Reader)"

end
