(* ===== verification/Path_Ident.thy ===== *)
theory Path_Ident
  imports Aggregator
begin

text \<open>
  What a path runs over: the addresses, the identity and the transport of its connection, and the frame that binds it,
  from \<open>src/path.go\<close>; the addresses of a stream, from \<open>src/stream.go\<close>. The connections of libp2p are modelled by what the
  code asks them for.
\<close>

section \<open>Connections\<close>

text \<open>
  The two fields of a path that hold a connection: \<open>conn\<close>, what is read and written, which may be a
  \<open>network.Stream\<close> with its connection, a \<open>net.Conn\<close> or neither; and \<open>own\<close>, a dialled connection the path closes, which may be
  a \<open>transport.CapableConn\<close>. A multiaddress may be \<open>nil\<close>.
\<close>

datatype 'a net_addr = Ma_Addr "maddr option" | Net_Addr 'a

datatype 'a path_conn =
    Net_Stream string "maddr option" "maddr option"   \<comment> \<open>\<open>Conn().ID()\<close> and the addresses of the ends\<close>
  | Net_Conn "'a option" "'a option"
  | Other_Conn

record 'a path_link =
  pl_own :: "(maddr option \<times> maddr option) option"
  pl_conn :: "'a path_conn"

definition localAddr :: "'a path_link \<Rightarrow> 'a net_addr option" where
  "localAddr p =
     (case pl_own p of
        Some (la, ra) \<Rightarrow> Some (Ma_Addr la)
      | None \<Rightarrow>
          (case pl_conn p of
             Net_Stream i la ra \<Rightarrow> Some (Ma_Addr la)
           | Net_Conn la ra \<Rightarrow> map_option Net_Addr la
           | Other_Conn \<Rightarrow> None))"

definition remoteAddr :: "'a path_link \<Rightarrow> 'a net_addr option" where
  "remoteAddr p =
     (case pl_own p of
        Some (la, ra) \<Rightarrow> Some (Ma_Addr ra)
      | None \<Rightarrow>
          (case pl_conn p of
             Net_Stream i la ra \<Rightarrow> Some (Ma_Addr ra)
           | Net_Conn la ra \<Rightarrow> map_option Net_Addr ra
           | Other_Conn \<Rightarrow> None))"

text \<open>\<open>maAddr.String\<close>.\<close>

definition maAddr_String :: "maddr option \<Rightarrow> string" where
  "maAddr_String a = (case a of None \<Rightarrow> [] | Some m \<Rightarrow> ma_text m)"

definition strings_Contains :: "string \<Rightarrow> string \<Rightarrow> bool" where
  "strings_Contains s sub = list_ex (\<lambda>i. take (length sub) (drop i s) = sub) [0..<Suc (length s)]"

definition circuit_mark :: string where "circuit_mark = ''/p2p-circuit''"

text \<open>\<open>connID\<close>; the remote address of a dialled connection is never \<open>nil\<close>, \<open>None\<close> is the panic there would be.\<close>

definition connID :: "'a path_link \<Rightarrow> string option" where
  "connID p =
     (case pl_conn p of
        Net_Stream i la ra \<Rightarrow> Some i
      | _ \<Rightarrow>
          (case pl_own p of
             Some (la, Some ra) \<Rightarrow>
               Some ((if strings_Contains (ma_text ra) circuit_mark then ''relay:'' else ''direct:'') @ ma_text ra)
           | Some (la, None) \<Rightarrow> None
           | None \<Rightarrow> Some []))"

definition ma_of :: "'a net_addr option \<Rightarrow> maddr option option" where
  "ma_of a = (case a of Some (Ma_Addr m) \<Rightarrow> Some m | _ \<Rightarrow> None)"

definition path_transport :: "'a path_link \<Rightarrow> path_transport" where
  "path_transport p = transport_of (ma_of (localAddr p)) (ma_of (remoteAddr p))"

text \<open>\<open>LocalAddr\<close> and \<open>RemoteAddr\<close> of a stream ask its first path.\<close>

definition firstPath :: "'a path_link list \<Rightarrow> 'a path_link option" where
  "firstPath ps = (case ps of [] \<Rightarrow> None | p # _ \<Rightarrow> Some p)"

definition LocalAddr :: "'a path_link list \<Rightarrow> 'a net_addr option" where
  "LocalAddr ps = Option.bind (firstPath ps) localAddr"

definition RemoteAddr :: "'a path_link list \<Rightarrow> 'a net_addr option" where
  "RemoteAddr ps = Option.bind (firstPath ps) remoteAddr"

section \<open>What holds of them\<close>

text \<open>A path over a connection of libp2p always has both addresses, and its own connection goes before the stream's.\<close>

lemma libp2p_path_has_addresses:
  assumes "pl_own p \<noteq> None \<or> (\<exists>i la ra. pl_conn p = Net_Stream i la ra)"
  shows "\<exists>la ra. localAddr p = Some (Ma_Addr la) \<and> remoteAddr p = Some (Ma_Addr ra) \<and>
    path_transport p = (if PathTransportOf la \<noteq> TransportUnknown then PathTransportOf la else PathTransportOf ra)"
  using assms by (auto simp: localAddr_def remoteAddr_def path_transport_def transport_of_def ma_of_def split: option.split)

lemma no_multiaddress_no_transport:
  "pl_own p = None \<Longrightarrow> pl_conn p = Net_Conn la ra \<Longrightarrow> path_transport p = TransportUnknown"
  by (simp add: path_transport_def localAddr_def remoteAddr_def ma_of_def transport_of_def split: option.split)

text \<open>
  The identity of a dialled connection that is not in the table of the swarm tells a circuit from a direct connection, and
  two such identities are the same only for the same remote address.
\<close>

lemma dialled_identity:
  assumes "pl_own p = Some (la, Some ra)" "pl_conn p = Other_Conn"
    and "pl_own q = Some (lb, Some rb)" "pl_conn q = Other_Conn"
  shows "(\<exists>i. connID p = Some (''relay:'' @ i)) \<longleftrightarrow> strings_Contains (ma_text ra) circuit_mark"
    and "connID p = connID q \<longleftrightarrow> ma_text ra = ma_text rb"
  using assms by (auto simp: connID_def)

section \<open>The frame that binds a path\<close>

text \<open>\<open>marshalPathAttach\<close> is the protobuf encoder \<open>pb\<close>, which may fail; \<open>written\<close> is whether the write succeeded.\<close>

definition sendPathAttach :: "(bytes \<Rightarrow> u64 \<Rightarrow> bytes option) \<Rightarrow> bool \<Rightarrow> bytes \<Rightarrow> u64 \<Rightarrow> bytes option" where
  "sendPathAttach pb written i pid =
     (case pb i pid of
        None \<Rightarrow> None
      | Some body \<Rightarrow> if written then Some (append_ctrl_frame [] framePathAttach body) else None)"

text \<open>
  What is sent is read by the other end as the id of the stream and of the path, and its echo is accepted here, whatever
  follows either of them: the codec need only decode what it has encoded, into a body of a legal length.
\<close>

lemma attach_frame_round_trip:
  assumes "sendPathAttach pb written i pid = Some bs" and "length i = aggStreamIDLen"
    and codec: "\<And>body. pb i pid = Some body \<Longrightarrow> dec body = Some (i, pid) \<and> length body \<le> maxCtrlBody"
  shows "\<exists>f. read_frame fin (bs @ rest) = Inr ((framePathAttach, f), rest) \<and>
    unmarshalPathAttach dec (f_body f) = Some (i, pid) \<and>
    recvPathAttachAck dec fin' (append_ctrl_frame [] framePathAttach (f_body f) @ later) i pid = Some later"
proof -
  obtain body where b: "pb i pid = Some body" "bs = append_ctrl_frame [] framePathAttach body"
    using assms(1) by (auto simp: sendPathAttach_def split: option.splits if_splits)
  have c: "dec body = Some (i, pid)" "length body \<le> maxCtrlBody" using codec[OF b(1)] by simp_all
  have w: "wire_ok (W_Ctrl framePathAttach body)" using c(2) by (simp add: ctrl_type_def)
  have r: "read_frame e (append_ctrl_frame [] framePathAttach body @ xs) = Inr ((framePathAttach, empty_frame\<lparr>f_body := body\<rparr>), xs)" for e xs
    using read_frame_encode[OF w, of e xs] by simp
  show ?thesis using r b(2) c(1) assms(2) by (intro exI[of _ "empty_frame\<lparr>f_body := body\<rparr>"])
      (simp add: unmarshalPathAttach_def recvPathAttachAck_def empty_frame_def)
qed

end
