(* ===== verification/Tunnel_Server_Props.thy ===== *)
theory Tunnel_Server_Props
  imports Tunnel_Server
begin

text \<open>
  What the tunnel server lets a peer do: which sessions reach a proxy, how the race with the upstream may end, what
  a local WebSocket session leaves behind.
\<close>

section \<open>Nothing is proxied without permission\<close>

lemma hop_names_contains: "k \<in> set hopByHopHeaders \<Longrightarrow> canon_key k \<in> hop_names h"
  by (simp add: hop_names_def)

lemma serveHTTP_proxy:
  assumes "serveHTTP has_handler cfg parse parse_uri new_request p om = HF_Proxy r"
  shows "(\<exists>f. cfg = Some (Some f) \<and> f p KindHTTP (px_url r)) \<and> ur_scheme (px_url r) \<in> {''http'', ''https''} \<and>
    ur_host (px_url r) \<noteq> [] \<and> parse (om_target om) = Some (px_url r) \<and>
    (k \<in> set hopByHopHeaders \<longrightarrow> map_of (px_header r) (canon_key k) = None)"
proof -
  obtain u where u: "splitTarget parse (om_target om) = T_Url u" "serveHTTPProxy cfg new_request p u om = HF_Proxy r"
    using assms by (auto simp: serveHTTP_def serveHTTPLocal_def Let_def split: target.splits if_splits option.splits prod.splits)
  have t: "parse (om_target om) = Some u" "ur_host u \<noteq> []"
    using u(1) by (auto simp: splitTarget_def split: if_splits option.splits)
  obtain host pairs where e: "ExtractHost (om_headers om) (om_host om) = (host, pairs)" by fastforce
  show ?thesis using u(2) t
    by (auto simp: serveHTTPProxy_def proxy_outgoing_def Let_def e map_of_Strip hop_names_contains split: if_splits option.splits)
qed

lemma serveWS_proxy:
  assumes "serveWS has_handler cfg parse p om = WF_Proxy u"
  shows "(\<exists>f. cfg = Some (Some f) \<and> f p KindWS u) \<and> ur_scheme u \<in> {''ws'', ''wss''} \<and> ur_host u \<noteq> [] \<and> parse (om_target om) = Some u"
  using assms by (auto simp: serveWS_def Let_def split: if_splits option.splits)

lemma session_fate:
  "fst (serveTunnelConn c dec parse parse_uri new_request p fin bs) = SF_HTTP hf \<Longrightarrow>
     \<exists>om. serveHTTP (sc_httpHandler c) (sc_httpProxy c) parse parse_uri new_request p om = hf"
  "fst (serveTunnelConn c dec parse parse_uri new_request p fin bs) = SF_WS fw \<Longrightarrow>
     \<exists>om. serveWS (sc_wsHandler c) (sc_wsProxy c) parse p om = fw"
  by (auto simp: serveTunnelConn_def split: sum.splits prod.splits if_splits option.splits)

text \<open>
  C34: the server is no open proxy. Whatever bytes a peer sends after the magic, a request or a WebSocket goes out to
  another host only if that proxy is configured with a filter and the filter accepted this peer, this kind and this
  very URL, which has a host and a scheme of its kind; and the request to it carries no hop-by-hop field.
\<close>

theorem proxy_needs_permission:
  "case fst (serveTunnelConn c dec parse parse_uri new_request p fin bs) of
     SF_HTTP (HF_Proxy r) \<Rightarrow> (\<exists>f. sc_httpProxy c = Some (Some f) \<and> f p KindHTTP (px_url r)) \<and>
       ur_scheme (px_url r) \<in> {''http'', ''https''} \<and> ur_host (px_url r) \<noteq> [] \<and>
       list_all (\<lambda>k. map_of (px_header r) (canon_key k) = None) hopByHopHeaders
   | SF_WS (WF_Proxy u) \<Rightarrow> (\<exists>f. sc_wsProxy c = Some (Some f) \<and> f p KindWS u) \<and> ur_scheme u \<in> {''ws'', ''wss''} \<and> ur_host u \<noteq> []
   | _ \<Rightarrow> True"
proof -
  obtain fate rest where f: "serveTunnelConn c dec parse parse_uri new_request p fin bs = (fate, rest)" by fastforce
  show ?thesis
  proof (cases fate)
    case (SF_HTTP hf)
    then obtain om where "serveHTTP (sc_httpHandler c) (sc_httpProxy c) parse parse_uri new_request p om = hf"
      using session_fate(1)[of c dec parse parse_uri new_request p fin bs hf] by (auto simp: f)
    then show ?thesis using serveHTTP_proxy by (cases hf) (auto simp: f SF_HTTP list_all_iff)
  next
    case (SF_WS fw)
    then obtain om where "serveWS (sc_wsHandler c) (sc_wsProxy c) parse p om = fw"
      using session_fate(2)[of c dec parse parse_uri new_request p fin bs fw] by (auto simp: f)
    then show ?thesis using serveWS_proxy by (cases fw) (auto simp: f SF_WS)
  qed (simp_all add: f)
qed

text \<open>Of the fields named \<open>Proxy-\<close> something only two are dropped.\<close>

lemma proxy_connection_is_kept:
  "StripHopByHop [(''Proxy-Connection'', [''keep-alive'']), (''Proxy-Authorization'', [''x''])] = [(''Proxy-Connection'', [''keep-alive''])]"
  by code_simp

section \<open>The race\<close>

fun race_done :: "race_state \<Rightarrow> bool" where
  "race_done RS_Tunnel \<longleftrightarrow> True"
| "race_done (RS_Raw l up) \<longleftrightarrow> True"
| "race_done s \<longleftrightarrow> False"

fun race_rank :: "race_state \<Rightarrow> nat" where
  "race_rank RS_Start = 4"
| "race_rank RS_Dialed = 3"
| "race_rank (RS_Head h e) = 2"
| "race_rank RS_Dial_Failed = 2"
| "race_rank RS_Sniffed = 2"
| "race_rank RS_Sniffed_Dialed = 1"
| "race_rank (RS_Kicked up) = 1"
| "race_rank RS_Tunnel = 0"
| "race_rank (RS_Raw l up) = 0"

lemma race_step_rank: "race_step e s = Some s' \<Longrightarrow> race_rank s' < race_rank s"
  by (cases "(e, s)" rule: race_step.cases) auto

lemma race_rank: "race es s = Some s' \<Longrightarrow> length es + race_rank s' \<le> race_rank s"
  by (induction es arbitrary: s) (force dest: race_step_rank simp: bind_eq_Some_conv)+

lemma race_append: "race (es @ fs) s = Option.bind (race es s) (race fs)"
  by (induction es arbitrary: s) (auto simp: bind_eq_Some_conv split: option.splits bind_splits)

text \<open>What a state knows of the events so far: whether the magic was taken, whether the grace period ran out.\<close>

definition race_knows :: "race_event set \<Rightarrow> race_state \<Rightarrow> bool" where
  "race_knows es s \<longleftrightarrow> (case s of
     RS_Start \<Rightarrow> es = {}
   | RS_Tunnel \<Rightarrow> Ev_Sniff True \<in> es \<and> Ev_Grace \<notin> es
   | RS_Raw taken up \<Rightarrow> (taken \<longleftrightarrow> Ev_Sniff True \<in> es) \<and> (taken \<or> Ev_Sniff False \<in> es) \<and> (Ev_Sniff True \<in> es \<longrightarrow> Ev_Grace \<in> es) \<and>
       (case up of None \<Rightarrow> Ev_Dial False \<in> es | Some (h, e) \<Rightarrow> Ev_Dial True \<in> es \<and> Ev_Head h e \<in> es)
   | RS_Sniffed \<Rightarrow> Ev_Sniff True \<notin> es \<and> Ev_Grace \<notin> es \<and> Ev_Sniff False \<in> es
   | RS_Sniffed_Dialed \<Rightarrow> Ev_Sniff True \<notin> es \<and> Ev_Grace \<notin> es \<and> Ev_Sniff False \<in> es \<and> Ev_Dial True \<in> es
   | RS_Dial_Failed \<Rightarrow> Ev_Sniff True \<notin> es \<and> Ev_Grace \<notin> es \<and> Ev_Dial False \<in> es
   | RS_Dialed \<Rightarrow> Ev_Sniff True \<notin> es \<and> Ev_Grace \<notin> es \<and> Ev_Dial True \<in> es
   | RS_Head h e \<Rightarrow> Ev_Sniff True \<notin> es \<and> Ev_Grace \<notin> es \<and> Ev_Dial True \<in> es \<and> Ev_Head h e \<in> es
   | RS_Kicked up \<Rightarrow> Ev_Sniff True \<notin> es \<and> Ev_Grace \<in> es \<and>
       (case up of None \<Rightarrow> Ev_Dial False \<in> es | Some (h, e) \<Rightarrow> Ev_Dial True \<in> es \<and> Ev_Head h e \<in> es))"

lemma race_step_knows: "race_step e s = Some s' \<Longrightarrow> race_knows es s \<Longrightarrow> race_knows (insert e es) s'"
  by (cases "(e, s)" rule: race_step.cases) (auto simp: race_knows_def split: option.splits)

lemma race_keeps: "race es s = Some s' \<Longrightarrow> race_knows pre s \<Longrightarrow> race_knows (set es \<union> pre) s'"
proof (induction es arbitrary: s pre)
  case (Cons e es)
  then obtain t where "race_step e s = Some t" "race es t = Some s'" by (auto simp: bind_eq_Some_conv)
  then show ?case using Cons.IH race_step_knows[of e s t pre] Cons.prems(2) by fastforce
qed simp

text \<open>A state that is not the end waits for the sniffing, or for the dial and what it reads, and either comes.\<close>

lemma race_goes_on: "\<not> race_done s \<Longrightarrow> \<exists>e. race_step e s \<noteq> None"
  by (cases s) (fastforce intro: exI[of _ "Ev_Sniff True"] exI[of _ "Ev_Dial True"] exI[of _ "Ev_Head [] True"])+

text \<open>
  The race between the magic and the upstream is decided soon and, but for one case, rightly. Whatever the order
  in which the channels become ready, it takes at most four events and until then there is one it waits for; the
  stream is served as a tunnel only if the magic was read before the grace period ran out; it is bridged only after
  the sniffing came back, with the first block of an upstream that was dialled or, when the dial failed, without one;
  and the magic has been taken from a bridged stream only if it was read after the grace period had run out.
\<close>

theorem race_outcome:
  assumes "race es RS_Start = Some s"
  shows "length es \<le> 4 \<and> (race_done s \<or> (\<exists>e. race_step e s \<noteq> None)) \<and>
    (case s of
       RS_Tunnel \<Rightarrow> Ev_Sniff True \<in> set es \<and> Ev_Grace \<notin> set es
     | RS_Raw taken up \<Rightarrow> (taken \<longleftrightarrow> Ev_Sniff True \<in> set es) \<and> (taken \<or> Ev_Sniff False \<in> set es) \<and> (taken \<longrightarrow> Ev_Grace \<in> set es) \<and>
         (case up of None \<Rightarrow> Ev_Dial False \<in> set es | Some (h, e) \<Rightarrow> Ev_Dial True \<in> set es \<and> Ev_Head h e \<in> set es)
     | _ \<Rightarrow> True)"
proof -
  have "length es \<le> 4" using race_rank[OF assms] by simp
  moreover have "race_knows (set es) s" using race_keeps[OF assms, of "{}"] by (simp add: race_knows_def)
  ultimately show ?thesis using race_goes_on by (cases s) (auto simp: race_knows_def)
qed

lemma race_outcome_witness:
  "length [Ev_Dial True, Ev_Head [1] False, Ev_Sniff True] \<le> 4 \<and>
   race [Ev_Dial True, Ev_Head [1] False, Ev_Sniff True] RS_Start = Some RS_Tunnel"
proof -
  have "race [Ev_Dial True, Ev_Head [1] False, Ev_Sniff True] RS_Start = Some RS_Tunnel" by simp
  from race_outcome[OF this] show ?thesis by simp
qed

text \<open>That case: \<open>toRaw\<close> drops the answer of the sniffing it interrupts, so the upstream misses the five bytes.\<close>

lemma late_magic_is_lost:
  assumes "take (length Magic) bs = Magic"
  shows "race [Ev_Dial True, Ev_Head h False, Ev_Grace, Ev_Sniff (fst (sniffMagic bs))] RS_Start = Some (RS_Raw True (Some (h, False)))"
    and "snd (sniffMagic bs) = drop 5 bs"
proof -
  have five: "length Magic = 5" by (simp add: Magic_def)
  show "race [Ev_Dial True, Ev_Head h False, Ev_Grace, Ev_Sniff (fst (sniffMagic bs))] RS_Start = Some (RS_Raw True (Some (h, False)))"
    and "snd (sniffMagic bs) = drop 5 bs"
    using assms by (simp_all add: sniffMagic_spec five)
qed

section \<open>A local WebSocket session\<close>

lemma handler_calls_inv: "ws_inv c \<Longrightarrow> ws_inv (handler_calls dc da ops c)"
  by (induction ops arbitrary: c) (auto simp: ws_step_inv split: sum.splits)

lemma handler_calls_reach: "ws_reach dc da c0 c \<Longrightarrow> ws_reach dc da c0 (handler_calls dc da ops c)"
  by (induction ops arbitrary: c) (auto intro: ws_next split: sum.splits)

lemma ws_close_once: "ws_close dc da xs 1000 [] c = Inr (e, c') \<Longrightarrow> ws_once c'"
proof -
  assume a: "ws_close dc da xs 1000 [] c = Inr (e, c')"
  have ok: "ValidateWSCloseSend (Some \<lparr>cm_code = 1000, cm_reason = []\<rparr>) = None"
    by (simp add: ValidateWSCloseSend_def validateWSCloseReason_def valid_utf8.simps)
  show ?thesis
  proof (cases "ws_once c")
    case True
    then show ?thesis using a ok by (simp add: ws_close_def)
  next
    case False
    have "ws_once c2" if "drain_close dc da xs (put (Out_Close 1000 []) (c\<lparr>ws_once := True, ws_closed := True, ws_responded := True, ws_closeSent := True\<rparr>)) = Inr c2" for c2
      using drain_close_adds[OF that] by (auto simp: adds_def static_of_def put_def)
    then show ?thesis using a ok False
      by (auto simp: ws_close_def Let_def put_def split: if_splits sum.splits)
  qed
qed

text \<open>
  A local WebSocket session is always finished. Whatever calls the handler makes, whether or not it panics in one
  and whatever the peer sends, when the session returns the stream has been closed exactly once, the client has at
  most one RESULT and one WS_CLOSE, and a handler that never answered has answered 500.
\<close>

theorem local_ws_session_ends:
  assumes "serveWSLocal dc da om ops rest = Inr c"
  shows "occurs (\<lambda>x. x = Out_Conn_Close) (ws_out c) = 1 \<and> occurs is_result (ws_out c) \<le> 1 \<and> occurs is_close (ws_out c) \<le> 1 \<and>
    (ops = [] \<longrightarrow> ws_out c = [Out_Result 500 [], Out_Conn_Close])"
proof -
  define d where "d = handler_calls dc da ops (NewTunnelWSConn (Some (om_protocols om)))"
  obtain e where e: "ws_close dc da rest 1000 [] d = Inr (e, c)"
    using assms by (auto simp: serveWSLocal_def d_def Let_def map_sum_def split: sum.splits)
  have "ws_inv d" unfolding d_def by (intro handler_calls_inv ws_inv_start)
  then have inv: "ws_inv c" using ws_close_inv e by blast
  have "ops = [] \<Longrightarrow> ws_out c = [Out_Result 500 [], Out_Conn_Close]"
    using e by (simp add: d_def NewTunnelWSConn_def newTunnelWSConn_def ws_close_def put_def Let_def ValidateWSCloseSend_def validateWSCloseReason_def
        valid_utf8.simps split: if_splits) auto
  then show ?thesis using inv ws_close_once[OF e] by (auto simp: ws_inv_def)
qed

definition demo_ws_open :: open_msg where
  "demo_ws_open = \<lparr>om_v = 1, om_kind = KindWS, om_target = ''/ws'', om_method = [], om_host = [], om_headers = [], om_protocols = [''a'']\<rparr>"

lemma local_ws_session_ends_witness:
  "\<exists>c. serveWSLocal no_close no_abort demo_ws_open [] [] = Inr c \<and> occurs (\<lambda>x. x = Out_Conn_Close) (ws_out c) = 1"
proof -
  obtain c where c: "serveWSLocal no_close no_abort demo_ws_open [] [] = Inr c"
    by (auto simp: serveWSLocal_def NewTunnelWSConn_def newTunnelWSConn_def ws_close_def put_def Let_def ValidateWSCloseSend_def
        validateWSCloseReason_def valid_utf8.simps)
  show ?thesis using local_ws_session_ends[OF c] c by blast
qed

text \<open>The panic of a handler is recovered, the one of \<open>Close\<close> after it is not: an ABORT without a message ends the process.\<close>

lemma close_after_handler_panics:
  assumes "da p = None"
  shows "serveWSLocal dc da om [WOp_Accept [] True] [WIn_Frame FrameAbort p True] = Inl Nil_Deref"
  using assms
  by (subst drain_close.simps | simp add: serveWSLocal_def NewTunnelWSConn_def newTunnelWSConn_def ws_accept_def ws_close_def put_def Let_def
      ValidateWSCloseSend_def validateWSCloseReason_def valid_utf8.simps read_message_def pendingErr_def ftypes)+

end
