(* ===== verification/Cli.thy ===== *)
theory Cli
  imports Tunnel_Server_Props
begin

text \<open>
  The command line of \<open>src/cmd/netacc/main.go\<close> as far as it decides something: the token, the allowlist of the
  proxies, the options a server is built with, the echo handlers, and the identity file that several processes may
  create at once. Parsing URLs, their escaped paths and the codec of keys are parameters; host names are ASCII.
\<close>

section \<open>Flags\<close>

definition authToken :: "string \<Rightarrow> string \<Rightarrow> string" where
  "authToken flag env = (if flag = [] then env else flag)"

definition stringList_Set :: "string \<Rightarrow> string list \<Rightarrow> string list option" where
  "stringList_Set v l = (if trim_space v = [] then None else Some (l @ [v]))"

section \<open>The allowlist\<close>

definition lower :: "string \<Rightarrow> string" where "lower s = map to_lower s"

text \<open>\<open>url.URL.Hostname\<close> and \<open>Port\<close>.\<close>

definition valid_optional_port :: "string \<Rightarrow> bool" where
  "valid_optional_port p \<longleftrightarrow> p = [] \<or> (hd p = CHR '':'' \<and> list_all is_digit (tl p))"

definition url_host_port :: "string \<Rightarrow> string \<times> string" where
  "url_host_port hp =
     (let (h, p) = (case last_index CHR '':'' hp of
            Some i \<Rightarrow> if valid_optional_port (drop i hp) then (take i hp, drop (i + 1) hp) else (hp, [])
          | None \<Rightarrow> (hp, [])) in
      (if h \<noteq> [] \<and> hd h = CHR ''['' \<and> last h = CHR '']'' then butlast (tl h) else h, p))"

definition JoinHostPort :: "string \<Rightarrow> string \<Rightarrow> string" where
  "JoinHostPort h p = (if CHR '':'' \<in> set h then ''['' @ h @ '']:'' @ p else h @ '':'' @ p)"

definition default_port :: "string \<Rightarrow> string option" where
  "default_port scheme =
     (let s = lower scheme in
      if s = ''http'' \<or> s = ''ws'' then Some ''80''
      else if s = ''https'' \<or> s = ''wss'' then Some ''443''
      else None)"

definition canonicalHostPort :: "url \<Rightarrow> string" where
  "canonicalHostPort u =
     (let (h, p) = url_host_port (ur_host u) in
      if p \<noteq> [] then lower (JoinHostPort h p)
      else case default_port (ur_scheme u) of
        None \<Rightarrow> lower (ur_host u)
      | Some p \<Rightarrow> lower (JoinHostPort h p))"

record allow_rule =
  ar_scheme :: string
  ar_host :: string
  ar_path :: string

definition has_scheme :: "string \<Rightarrow> bool" where
  "has_scheme s \<longleftrightarrow> list_ex (\<lambda>i. take 3 (drop i s) = ''://'') [0..<length s]"

definition parse_rule :: "(string \<Rightarrow> url option) \<Rightarrow> (url \<Rightarrow> string) \<Rightarrow> string \<Rightarrow> allow_rule option" where
  "parse_rule parse escaped_path s =
     (let raw = trim_space s in
      if has_scheme raw then
        (case parse raw of
           None \<Rightarrow> None
         | Some u \<Rightarrow>
             if ur_scheme u = [] \<or> ur_host u = [] then None
             else Some \<lparr>ar_scheme = lower (ur_scheme u), ar_host = canonicalHostPort u, ar_path = escaped_path u\<rparr>)
      else
        (case SplitHostPort raw of
           None \<Rightarrow> None
         | Some (h, p) \<Rightarrow>
             if h = [] \<or> p = [] then None
             else Some \<lparr>ar_scheme = [], ar_host = lower (JoinHostPort h p), ar_path = []\<rparr>))"

definition rule_matches :: "(url \<Rightarrow> string) \<Rightarrow> url \<Rightarrow> allow_rule \<Rightarrow> bool" where
  "rule_matches escaped_path u r \<longleftrightarrow>
     (ar_scheme r = [] \<or> equal_fold (ur_scheme u) (ar_scheme r)) \<and>
     ar_host r = canonicalHostPort u \<and>
     (ar_path r = [] \<or> ar_path r = ''/'' \<or> take (length (ar_path r)) (escaped_path u) = ar_path r)"

fun parse_rules :: "(string \<Rightarrow> url option) \<Rightarrow> (url \<Rightarrow> string) \<Rightarrow> string list \<Rightarrow> allow_rule list option" where
  "parse_rules parse ep [] = Some []"
| "parse_rules parse ep (s # ss) =
     (case parse_rule parse ep s of
        None \<Rightarrow> None
      | Some r \<Rightarrow> (case parse_rules parse ep ss of None \<Rightarrow> None | Some rs \<Rightarrow> Some (r # rs)))"

definition allowTunnelTargets :: "(string \<Rightarrow> url option) \<Rightarrow> (url \<Rightarrow> string) \<Rightarrow> string list \<Rightarrow> target_filter option" where
  "allowTunnelTargets parse ep rules =
     (case parse_rules parse ep rules of None \<Rightarrow> None | Some rs \<Rightarrow> Some (\<lambda>p k u. list_ex (rule_matches ep u) rs))"

section \<open>A server from its flags\<close>

record server_flags =
  sf_upstream :: string
  sf_httpEcho :: bool
  sf_wsEcho :: bool
  sf_allow :: "string list"

datatype cli_err = CL_Bad_Rule | CL_Nothing_To_Serve

definition server_options :: "(string \<Rightarrow> url option) \<Rightarrow> (url \<Rightarrow> string) \<Rightarrow> server_flags \<Rightarrow> cli_err + server_option list" where
  "server_options parse ep fl =
     (let opts = (if sf_upstream fl \<noteq> [] then [WithUpstream (sf_upstream fl)] else []) @
                 (if sf_httpEcho fl then [WithTunnelHTTPHandler True] else []) @
                 (if sf_wsEcho fl then [WithTunnelWSHandler True] else []) in
      case (if sf_allow fl = [] then Some opts
            else map_option (\<lambda>f. opts @ [WithTunnelHTTPProxy (Some f), WithTunnelWSProxy (Some f)]) (allowTunnelTargets parse ep (sf_allow fl))) of
        None \<Rightarrow> Inl CL_Bad_Rule
      | Some opts \<Rightarrow> if opts = [] then Inl CL_Nothing_To_Serve else Inr opts)"

text \<open>The calls of the echo handlers: for HTTP what reading the body gave, for a WebSocket the messages.\<close>

definition httpEcho :: "string \<Rightarrow> bytes list \<Rightarrow> h_op list" where
  "httpEcho method reads =
     H_Header [(canon_key ''X-Tunnel-Echo'', [''1'']), (canon_key ''X-Tunnel-Method'', [method])] #
     map (\<lambda>p. H_Write p None None) (filter (\<lambda>p. p \<noteq> []) reads)"

definition wsEcho_accept :: "string list \<Rightarrow> ws_op" where
  "wsEcho_accept protocols = WOp_Accept (case protocols of [] \<Rightarrow> [] | p # ps \<Rightarrow> p) True"

section \<open>The identity file\<close>

text \<open>
  \<open>loadOrCreateIdentity\<close> in several processes on one path: reading it, generating a key and writing it to a temporary
  file, linking that to the path, which fails when the path exists, and reading again. A file is never replaced.
\<close>

datatype id_phase = ID_Start | ID_Generated nat | ID_Reread | ID_Done nat | ID_Failed

record id_world =
  iw_file :: "bytes option"
  iw_procs :: "nat \<Rightarrow> id_phase"

datatype id_op = IO_Read nat nat | IO_Link nat bool | IO_Reread nat

text \<open>Keys are numbered; \<open>enc_key\<close> and \<open>dec_key\<close> are the codec. \<open>IO_Read\<close> carries the key the process would generate, \<open>IO_Link\<close> whether linking works.\<close>

definition read_identity :: "(bytes \<Rightarrow> nat option) \<Rightarrow> bytes \<Rightarrow> id_phase" where
  "read_identity dec_key b = (case dec_key b of None \<Rightarrow> ID_Failed | Some k \<Rightarrow> ID_Done k)"

fun id_step :: "(nat \<Rightarrow> bytes) \<Rightarrow> (bytes \<Rightarrow> nat option) \<Rightarrow> id_op \<Rightarrow> id_world \<Rightarrow> id_world option" where
  "id_step enc_key dec_key (IO_Read i k) w =
     (if iw_procs w i \<noteq> ID_Start then None
      else Some (w\<lparr>iw_procs := (iw_procs w)(i := (case iw_file w of None \<Rightarrow> ID_Generated k | Some b \<Rightarrow> read_identity dec_key b))\<rparr>))"
| "id_step enc_key dec_key (IO_Link i ok) w =
     (case iw_procs w i of
        ID_Generated k \<Rightarrow>
          (case iw_file w of
             Some b \<Rightarrow> Some (w\<lparr>iw_procs := (iw_procs w)(i := ID_Reread)\<rparr>)
           | None \<Rightarrow>
               if ok then Some (w\<lparr>iw_file := Some (enc_key k), iw_procs := (iw_procs w)(i := ID_Done k)\<rparr>)
               else Some (w\<lparr>iw_procs := (iw_procs w)(i := ID_Failed)\<rparr>))
      | _ \<Rightarrow> None)"
| "id_step enc_key dec_key (IO_Reread i) w =
     (if iw_procs w i \<noteq> ID_Reread then None
      else case iw_file w of
        None \<Rightarrow> None
      | Some b \<Rightarrow> Some (w\<lparr>iw_procs := (iw_procs w)(i := read_identity dec_key b)\<rparr>))"

inductive id_runs :: "(nat \<Rightarrow> bytes) \<Rightarrow> (bytes \<Rightarrow> nat option) \<Rightarrow> bytes option \<Rightarrow> id_world \<Rightarrow> bool" for enc_key dec_key f0 where
  id_start: "id_runs enc_key dec_key f0 \<lparr>iw_file = f0, iw_procs = (\<lambda>i. ID_Start)\<rparr>"
| id_next: "id_runs enc_key dec_key f0 w \<Longrightarrow> id_step enc_key dec_key op w = Some w' \<Longrightarrow> id_runs enc_key dec_key f0 w'"

section \<open>Properties\<close>

lemma list_ex_mono: "list_ex P xs \<longleftrightarrow> (\<exists>x \<in> set xs. P x)"
  by (simp add: list_ex_iff)

lemma parse_rules_sound: "parse_rules parse ep ss = Some rs \<Longrightarrow> r \<in> set rs \<Longrightarrow> \<exists>s \<in> set ss. parse_rule parse ep s = Some r"
  by (induction ss arbitrary: rs) (auto split: option.splits)

lemma allow_sound:
  assumes "allowTunnelTargets parse ep rules = Some f" and "f p k u"
  shows "\<exists>s \<in> set rules. \<exists>r. parse_rule parse ep s = Some r \<and> rule_matches ep u r"
  using assms parse_rules_sound by (fastforce simp: allowTunnelTargets_def list_ex_iff split: option.splits)

lemma apply_proxies:
  assumes "server_options parse ep fl = Inr opts" and "NewServer True (map Some opts) = Inr c"
    and "sc_httpProxy c = Some (Some f) \<or> sc_wsProxy c = Some (Some f)"
  shows "allowTunnelTargets parse ep (sf_allow fl) = Some f"
  using assms by (auto simp: server_options_def NewServer_def Let_def split: if_splits option.splits)

text \<open>
  C39: a server run from the command line proxies only to what \<open>-tunnel-allow\<close> names. Whatever a peer sends to it, a
  request or a WebSocket goes out only to a URL that one of the given rules matches: its host and port, those of the
  scheme filled in, are the rule's, and so are the scheme and the prefix of the path when the rule has them.
\<close>

theorem cli_proxies_only_allowed:
  assumes "server_options parse_rule_url ep fl = Inr opts" and "NewServer True (map Some opts) = Inr c"
  shows "case fst (serveTunnelConn c dec parse parse_uri new_request p fin bs) of
     SF_HTTP (HF_Proxy r) \<Rightarrow> \<exists>s \<in> set (sf_allow fl). \<exists>ru. parse_rule parse_rule_url ep s = Some ru \<and> rule_matches ep (px_url r) ru
   | SF_WS (WF_Proxy u) \<Rightarrow> \<exists>s \<in> set (sf_allow fl). \<exists>ru. parse_rule parse_rule_url ep s = Some ru \<and> rule_matches ep u ru
   | _ \<Rightarrow> True"
proof -
  obtain fate rest where fate: "serveTunnelConn c dec parse parse_uri new_request p fin bs = (fate, rest)" by fastforce
  note allowed = allow_sound[OF apply_proxies[OF assms]]
  show ?thesis
  proof (cases fate)
    case (SF_HTTP hf)
    then obtain om where om: "serveHTTP (sc_httpHandler c) (sc_httpProxy c) parse parse_uri new_request p om = hf"
      using session_fate(1)[of c dec parse parse_uri new_request p fin bs hf] by (auto simp: fate)
    show ?thesis
    proof (cases hf)
      case (HF_Proxy r)
      then obtain g where "sc_httpProxy c = Some (Some g)" "g p KindHTTP (px_url r)" using serveHTTP_proxy om by blast
      then show ?thesis using allowed[of g p KindHTTP "px_url r"] by (simp add: fate SF_HTTP HF_Proxy)
    qed (simp_all add: fate SF_HTTP)
  next
    case (SF_WS fw)
    then obtain om where om: "serveWS (sc_wsHandler c) (sc_wsProxy c) parse p om = fw"
      using session_fate(2)[of c dec parse parse_uri new_request p fin bs fw] by (auto simp: fate)
    show ?thesis
    proof (cases fw)
      case (WF_Proxy u)
      then obtain g where "sc_wsProxy c = Some (Some g)" "g p KindWS u" using serveWS_proxy om by blast
      then show ?thesis using allowed[of g p KindWS u] by (simp add: fate SF_WS WF_Proxy)
    qed (simp_all add: fate SF_WS)
  qed (simp_all add: fate)
qed

definition demo_flags :: server_flags where
  "demo_flags = \<lparr>sf_upstream = [], sf_httpEcho = True, sf_wsEcho = False, sf_allow = [''a:1'']\<rparr>"

lemma demo_server:
  "\<exists>opts c. server_options (\<lambda>s. None) (\<lambda>u. []) demo_flags = Inr opts \<and> NewServer True (map Some opts) = Inr c"
proof -
  have "parse_rule (\<lambda>s. None) (\<lambda>u. []) ''a:1'' = Some \<lparr>ar_scheme = [], ar_host = ''a:1'', ar_path = []\<rparr>"
  proof -
    have "fst (decode_rune ''a:1'') = 97" "fst (decode_last ''a:1'') = 49"
      by (simp_all add: decode_rune_def decode_codes_def decode_last_def char_eval)
    then have "trim_left ''a:1'' = ''a:1''" "trim_right ''a:1'' = ''a:1''"
      by (subst trim_left.simps trim_right.simps, simp add: is_space_rune_def between_def)+
    then have "trim_space ''a:1'' = ''a:1''" by (simp add: trim_space_def)
    moreover have "SplitHostPort ''a:1'' = Some (''a'', ''1'')"
      by (simp add: SplitHostPort_def last_index_def split_plain_def)
    moreover have "\<not> has_scheme ''a:1''" by (simp add: has_scheme_def upt_rec)
    ultimately show ?thesis by (simp add: parse_rule_def JoinHostPort_def lower_def to_lower_def char_eval)
  qed
  then show ?thesis
    by (simp add: server_options_def demo_flags_def allowTunnelTargets_def NewServer_def hasTunnel_def)
qed

lemma cli_proxies_only_allowed_witness:
  "\<exists>opts c. server_options (\<lambda>s. None) (\<lambda>u. []) demo_flags = Inr opts \<and> NewServer True (map Some opts) = Inr c \<and>
     (case fst (serveTunnelConn c (\<lambda>p. None) (\<lambda>s. None) (\<lambda>s. None) (\<lambda>m u. True) ''p'' Io_EOF []) of
        SF_WS (WF_Proxy u) \<Rightarrow> \<exists>s \<in> set [''a:1'']. \<exists>ru. parse_rule (\<lambda>s. None) (\<lambda>u. []) s = Some ru \<and> rule_matches (\<lambda>u. []) u ru
      | _ \<Rightarrow> True)"
proof -
  obtain opts c where oc: "server_options (\<lambda>s. None) (\<lambda>u. []) demo_flags = Inr opts" "NewServer True (map Some opts) = Inr c"
    using demo_server by blast
  show ?thesis
    using cli_proxies_only_allowed[OF oc, of "\<lambda>p. None" "\<lambda>s. None" "\<lambda>s. None" "\<lambda>m u. True" "''p''" Io_EOF "[]"] oc
    by (auto simp: demo_flags_def split: session_fate.splits ws_fate.splits)
qed

lemma id_keeps:
  assumes "id_runs enc_key dec_key f0 w" and "\<And>k. dec_key (enc_key k) = Some k"
  shows "\<forall>i. (iw_procs w i = ID_Reread \<longrightarrow> iw_file w \<noteq> None) \<and>
    (case iw_procs w i of ID_Done k \<Rightarrow> \<exists>b. iw_file w = Some b \<and> dec_key b = Some k | _ \<Rightarrow> True)"
  using assms(1)
proof (induction rule: id_runs.induct)
  case (id_next w op w')
  show ?case
  proof (cases op)
    case (IO_Read i k)
    then show ?thesis using id_next by (auto simp: read_identity_def split: option.splits if_splits id_phase.splits)
  next
    case (IO_Link i ok)
    then show ?thesis using id_next assms(2) by (fastforce split: option.splits if_splits id_phase.splits)
  next
    case (IO_Reread i)
    then show ?thesis using id_next by (auto simp: read_identity_def split: option.splits if_splits id_phase.splits)
  qed
qed simp

text \<open>
  C40: processes that start at once share one identity. However the steps of any number of them interleave, and
  whether or not the file was there before, every process that comes back with a key has the key the file holds, so
  any two of them have the same, and so does one started later.
\<close>

theorem identities_agree:
  assumes "id_runs enc_key dec_key f0 w" and "\<And>k. dec_key (enc_key k) = Some k"
    and "iw_procs w i = ID_Done k" and "iw_procs w j = ID_Done l"
  shows "k = l \<and> (\<exists>b. iw_file w = Some b \<and> dec_key b = Some k)"
proof -
  note keeps = id_keeps[OF assms(1,2), rule_format]
  have i: "\<exists>b. iw_file w = Some b \<and> dec_key b = Some k" using keeps[of i] by (simp add: assms(3))
  have j: "\<exists>b. iw_file w = Some b \<and> dec_key b = Some l" using keeps[of j] by (simp add: assms(4))
  show ?thesis using i j by auto
qed

text \<open>Two processes that both find no file; the second loses the race for the link and reads the first one's key.\<close>

fun id_exec :: "(nat \<Rightarrow> bytes) \<Rightarrow> (bytes \<Rightarrow> nat option) \<Rightarrow> id_op list \<Rightarrow> id_world \<Rightarrow> id_world option" where
  "id_exec enc_key dec_key [] w = Some w"
| "id_exec enc_key dec_key (op # ops) w = Option.bind (id_step enc_key dec_key op w) (id_exec enc_key dec_key ops)"

lemma id_exec_runs: "id_exec enc_key dec_key ops w = Some w' \<Longrightarrow> id_runs enc_key dec_key f0 w \<Longrightarrow> id_runs enc_key dec_key f0 w'"
  by (induction ops arbitrary: w) (auto simp: bind_eq_Some_conv intro: id_next)

lemma identities_agree_witness:
  "\<exists>w. id_runs (\<lambda>k. replicate k 0) (\<lambda>b. Some (length b)) None w \<and> iw_procs w 0 = ID_Done 3 \<and> iw_procs w 1 = ID_Done 3 \<and>
     iw_file w = Some [0, 0, 0]"
proof -
  let ?w = "\<lparr>iw_file = Some [0, 0, 0], iw_procs = (\<lambda>i. ID_Start)(0 := ID_Done 3, 1 := ID_Done 3)\<rparr>"
  have "id_exec (\<lambda>k. replicate k 0) (\<lambda>b. Some (length b)) [IO_Read 0 3, IO_Read 1 5, IO_Link 0 True, IO_Link 1 True, IO_Reread 1]
      \<lparr>iw_file = None, iw_procs = (\<lambda>i. ID_Start)\<rparr> = Some ?w"
    by (simp add: read_identity_def numeral_3_eq_3 fun_upd_twist)
  from id_exec_runs[OF this id_start] have r: "id_runs (\<lambda>k. replicate k 0) (\<lambda>b. Some (length b)) None ?w" .
  show ?thesis using identities_agree[OF r, of 0 3 1 3] r by (intro exI[of _ ?w]) simp
qed

section \<open>What a path rule does not keep out\<close>

text \<open>
  The path of a rule is compared as a prefix of the text of the path, which the proxy sends on as it is: a rule for
  \<open>/api\<close> also lets \<open>/apix\<close> through, and \<open>/api/../admin\<close>, which a server may take for \<open>/admin\<close>.
\<close>

lemma path_rule_is_textual:
  assumes "ar_scheme r = []" and "ar_host r = canonicalHostPort u" and "ar_path r = ''/api''"
    and "ep u \<in> {''/apix'', ''/api/../admin''}"
  shows "rule_matches ep u r"
  using assms by (auto simp: rule_matches_def)

end
