(* ===== verification/Tunnel_Link.thy ===== *)
theory Tunnel_Link
  imports Tunnel_Server Aggregator
begin

text \<open>
  What runs around the sessions, \<open>src/tunnel/tunnel.go\<close> and \<open>src/tunnel/client.go\<close>: the two copies of a raw bridge,
  the set of live connections that a shutdown closes, and the life of a tunnel client with its listener. The
  goroutines are steps that may come in any order; connections are numbers.
\<close>

section \<open>The bridge\<close>

text \<open>
  A direction has the blocks its source still gives before its end, the bytes written to the other side and whether
  its goroutine has ended; the two connections are closed together.
\<close>

record direction =
  di_in :: "bytes list"
  di_out :: bytes
  di_done :: bool

record bridge =
  br_ab :: direction
  br_ba :: direction
  br_closed :: bool

definition new_direction :: "bytes list \<Rightarrow> direction" where
  "new_direction bs = \<lparr>di_in = bs, di_out = [], di_done = False\<rparr>"

definition new_bridge :: "bytes list \<Rightarrow> bytes list \<Rightarrow> bridge" where
  "new_bridge as bs = \<lparr>br_ab = new_direction as, br_ba = new_direction bs, br_closed = False\<rparr>"

text \<open>One step of \<open>io.Copy\<close>: a block, the end of the source, or an error of either side; once they are closed, always an error.\<close>

datatype copy_event = Copy_Block | Copy_End | Copy_Fail nat

definition copy_step :: "copy_event \<Rightarrow> bool \<Rightarrow> direction \<Rightarrow> direction option" where
  "copy_step ev shut d =
     (if di_done d then None
      else case ev of
        Copy_Block \<Rightarrow> if shut \<or> di_in d = [] then None else Some (d\<lparr>di_in := tl (di_in d), di_out := di_out d @ hd (di_in d)\<rparr>)
      | Copy_End \<Rightarrow> if shut \<or> di_in d \<noteq> [] then None else Some (d\<lparr>di_done := True\<rparr>)
      | Copy_Fail n \<Rightarrow> Some (d\<lparr>di_out := di_out d @ take n (concat (take 1 (di_in d))), di_done := True\<rparr>))"

definition bridge_step :: "bool \<Rightarrow> copy_event \<Rightarrow> bridge \<Rightarrow> bridge option" where
  "bridge_step ab ev b =
     (case copy_step ev (br_closed b) (if ab then br_ab b else br_ba b) of
        None \<Rightarrow> None
      | Some d \<Rightarrow>
          let b = (if ab then b\<lparr>br_ab := d\<rparr> else b\<lparr>br_ba := d\<rparr>) in
          Some (if di_done d then b\<lparr>br_closed := True\<rparr> else b))"

inductive bridge_runs :: "bridge \<Rightarrow> bridge \<Rightarrow> bool" for b0 where
  bridge_start: "bridge_runs b0 b0"
| bridge_next: "bridge_runs b0 b \<Longrightarrow> bridge_step ab ev b = Some b' \<Longrightarrow> bridge_runs b0 b'"

section \<open>The set of live connections\<close>

text \<open>\<open>cs_todo\<close> is what \<open>closeAll\<close> has copied and not closed yet, \<open>cs_killed\<close> every connection something has closed.\<close>

record conn_set =
  cs_set :: "nat list"
  cs_closed :: bool
  cs_todo :: "nat list"
  cs_killed :: "nat list"

definition newConnSet :: conn_set where
  "newConnSet = \<lparr>cs_set = [], cs_closed = False, cs_todo = [], cs_killed = []\<rparr>"

definition cs_add :: "nat \<Rightarrow> conn_set \<Rightarrow> conn_set" where
  "cs_add c s = (if cs_closed s then s\<lparr>cs_killed := c # cs_killed s\<rparr> else s\<lparr>cs_set := List.insert c (cs_set s)\<rparr>)"

definition cs_del :: "nat \<Rightarrow> conn_set \<Rightarrow> conn_set" where
  "cs_del c s = s\<lparr>cs_set := removeAll c (cs_set s)\<rparr>"

definition closeAll :: "conn_set \<Rightarrow> conn_set" where
  "closeAll s = (if cs_closed s then s else s\<lparr>cs_closed := True, cs_todo := cs_set s\<rparr>)"

definition close_one :: "conn_set \<Rightarrow> conn_set" where
  "close_one s = (case cs_todo s of [] \<Rightarrow> s | c # cs \<Rightarrow> s\<lparr>cs_todo := cs, cs_killed := c # cs_killed s\<rparr>)"

section \<open>The client\<close>

datatype client_option = WithListenPort int | WithOpenOptions "open_option list"

record client_config =
  cc_listenPort :: int
  cc_openOpts :: "open_option list"

fun applyClientOption :: "client_option \<Rightarrow> client_config \<Rightarrow> client_config" where
  "applyClientOption (WithListenPort p) c = c\<lparr>cc_listenPort := p\<rparr>"
| "applyClientOption (WithOpenOptions os) c = c\<lparr>cc_openOpts := cc_openOpts c @ os\<rparr>"

datatype client_err = CE_No_Opener | CE_Bad_Peer | CE_Bad_Port int

definition NewClient :: "bool \<Rightarrow> bool \<Rightarrow> client_option option list \<Rightarrow> client_err + client_config" where
  "NewClient opener peer_ok opts =
     (if \<not> opener then Inl CE_No_Opener
      else if \<not> peer_ok then Inl CE_Bad_Peer
      else
        let c = fold (\<lambda>opt c. case opt of None \<Rightarrow> c | Some x \<Rightarrow> applyClientOption x c) opts \<lparr>cc_listenPort = -1, cc_openOpts = []\<rparr> in
        if cc_listenPort c < 0 \<or> 65535 < cc_listenPort c then Inl (CE_Bad_Port (cc_listenPort c)) else Inr c)"

text \<open>
  \<open>Run\<close> between its calls: before, with a listener not registered yet, serving, on its way out and returned; the
  shutdown between its lock, closing the listener it took and closing the connections. \<open>cl_conns\<close> are the connections
  of handlers that have not ended, \<open>cl_next\<close> numbers them.
\<close>

datatype run_phase = P_Idle | P_Listening | P_Serving | P_Leaving | P_Returned
datatype sd_phase = SD_None | SD_Locked bool | SD_Listener_Closed | SD_Done

record client =
  cl_ran :: bool
  cl_phase :: run_phase
  cl_ln :: bool
  cl_lnOpen :: bool
  cl_shuttingDown :: bool
  cl_sd :: sd_phase
  cl_actives :: conn_set
  cl_conns :: "nat list"
  cl_next :: nat

definition newClient :: client where
  "newClient = \<lparr>cl_ran = False, cl_phase = P_Idle, cl_ln = False, cl_lnOpen = False, cl_shuttingDown = False,
     cl_sd = SD_None, cl_actives = newConnSet, cl_conns = [], cl_next = 0\<rparr>"

datatype client_op =
    CO_Run bool        \<comment> \<open>\<open>Run\<close> is called; whether listening works\<close>
  | CO_Register        \<comment> \<open>the listener is stored, or closed when a shutdown came first\<close>
  | CO_Accept          \<comment> \<open>a connection comes in\<close>
  | CO_Accept_Error
  | CO_Open nat        \<comment> \<open>the handler of a connection has opened its stream, which gets the next number\<close>
  | CO_Handler_End nat \<comment> \<open>a connection or stream is closed by its handler and leaves the set\<close>
  | CO_Shutdown        \<comment> \<open>\<open>shutdown\<close> up to its unlock\<close>
  | CO_Close_Listener
  | CO_Close_All
  | CO_Close_One
  | CO_Return

text \<open>Only the first \<open>Run\<close> and the first \<open>shutdown\<close> do anything; \<open>Run\<close> returns once everything it waits for has ended.\<close>

fun client_step :: "client_op \<Rightarrow> client \<Rightarrow> client option" where
  "client_step (CO_Run ok) c =
     (if cl_ran c then Some c
      else Some (c\<lparr>cl_ran := True, cl_phase := (if ok then P_Listening else P_Returned), cl_lnOpen := ok\<rparr>))"
| "client_step CO_Register c =
     (if cl_phase c \<noteq> P_Listening then None
      else if cl_shuttingDown c then Some (c\<lparr>cl_lnOpen := False, cl_phase := P_Leaving\<rparr>)
      else Some (c\<lparr>cl_ln := True, cl_phase := P_Serving\<rparr>))"
| "client_step CO_Accept c =
     (if cl_phase c \<noteq> P_Serving \<or> \<not> cl_lnOpen c then None
      else Some (c\<lparr>cl_actives := cs_add (cl_next c) (cl_actives c), cl_conns := cl_next c # cl_conns c, cl_next := Suc (cl_next c)\<rparr>))"
| "client_step CO_Accept_Error c = (if cl_phase c \<noteq> P_Serving then None else Some (c\<lparr>cl_phase := P_Leaving\<rparr>))"
| "client_step (CO_Open i) c =
     (if i \<notin> set (cl_conns c) then None
      else Some (c\<lparr>cl_actives := cs_add (cl_next c) (cl_actives c), cl_conns := cl_next c # cl_conns c, cl_next := Suc (cl_next c)\<rparr>))"
| "client_step (CO_Handler_End i) c =
     (if i \<notin> set (cl_conns c) then None
      else Some (c\<lparr>cl_actives := cs_del i (cl_actives c), cl_conns := removeAll i (cl_conns c)\<rparr>))"
| "client_step CO_Shutdown c =
     (if cl_shuttingDown c then Some c
      else Some (c\<lparr>cl_shuttingDown := True, cl_sd := SD_Locked (cl_ln c), cl_ln := False\<rparr>))"
| "client_step CO_Close_Listener c =
     (case cl_sd c of SD_Locked l \<Rightarrow> Some (c\<lparr>cl_sd := SD_Listener_Closed, cl_lnOpen := (cl_lnOpen c \<and> \<not> l)\<rparr>) | _ \<Rightarrow> None)"
| "client_step CO_Close_All c =
     (if cl_sd c \<noteq> SD_Listener_Closed then None else Some (c\<lparr>cl_sd := SD_Done, cl_actives := closeAll (cl_actives c)\<rparr>))"
| "client_step CO_Close_One c = Some (c\<lparr>cl_actives := close_one (cl_actives c)\<rparr>)"
| "client_step CO_Return c =
     (if cl_phase c \<noteq> P_Leaving \<or> \<not> cl_shuttingDown c \<or> cl_conns c \<noteq> [] then None else Some (c\<lparr>cl_phase := P_Returned\<rparr>))"

definition Addr :: "client \<Rightarrow> bool" where "Addr c = cl_ln c"

inductive client_runs :: "client \<Rightarrow> bool" where
  client_start: "client_runs newClient"
| client_next: "client_runs c \<Longrightarrow> client_step op c = Some c' \<Longrightarrow> client_runs c'"

section \<open>The run of a server\<close>

text \<open>
  \<open>Server.Run\<close>: the streams of its handlers and the upstreams they dial are in the set; \<open>sv_result\<close> is what \<open>Run\<close> is
  going to return, an error unless the context was cancelled. A second \<open>Run\<close> only returns an error.
\<close>

datatype run_result = RR_Nil | RR_Accept_Failed

record server_run =
  sv_ran :: bool
  sv_serving :: bool
  sv_cancelled :: bool
  sv_result :: "run_result option"
  sv_returned :: bool
  sv_actives :: conn_set
  sv_conns :: "nat list"
  sv_next :: nat

definition newServer :: server_run where
  "newServer = \<lparr>sv_ran = False, sv_serving = False, sv_cancelled = False, sv_result = None, sv_returned = False,
     sv_actives = newConnSet, sv_conns = [], sv_next = 0\<rparr>"

datatype server_op =
    SV_Run
  | SV_Cancel          \<comment> \<open>the context is cancelled\<close>
  | SV_Close_All       \<comment> \<open>\<open>closeAll\<close>, run for the cancellation or on the way out\<close>
  | SV_Close_One
  | SV_Accept
  | SV_Accept_Error
  | SV_Upstream nat    \<comment> \<open>a handler registers its upstream\<close>
  | SV_Handler_End nat
  | SV_Return

definition sv_add :: "server_run \<Rightarrow> server_run" where
  "sv_add s = s\<lparr>sv_actives := cs_add (sv_next s) (sv_actives s), sv_conns := sv_next s # sv_conns s, sv_next := Suc (sv_next s)\<rparr>"

fun server_step :: "server_op \<Rightarrow> server_run \<Rightarrow> server_run option" where
  "server_step SV_Run s = (if sv_ran s then Some s else Some (s\<lparr>sv_ran := True, sv_serving := True\<rparr>))"
| "server_step SV_Cancel s = Some (s\<lparr>sv_cancelled := True\<rparr>)"
| "server_step SV_Close_All s =
     (if sv_ran s \<and> (sv_cancelled s \<or> \<not> sv_serving s) then Some (s\<lparr>sv_actives := closeAll (sv_actives s)\<rparr>) else None)"
| "server_step SV_Close_One s = Some (s\<lparr>sv_actives := close_one (sv_actives s)\<rparr>)"
| "server_step SV_Accept s = (if sv_serving s then Some (sv_add s) else None)"
| "server_step SV_Accept_Error s =
     (if sv_serving s then Some (s\<lparr>sv_serving := False, sv_result := Some (if sv_cancelled s then RR_Nil else RR_Accept_Failed)\<rparr>) else None)"
| "server_step (SV_Upstream i) s = (if i \<in> set (sv_conns s) then Some (sv_add s) else None)"
| "server_step (SV_Handler_End i) s =
     (if i \<in> set (sv_conns s) then Some (s\<lparr>sv_actives := cs_del i (sv_actives s), sv_conns := removeAll i (sv_conns s)\<rparr>) else None)"
| "server_step SV_Return s =
     (if sv_ran s \<and> \<not> sv_serving s \<and> cs_closed (sv_actives s) \<and> sv_conns s = [] then Some (s\<lparr>sv_returned := True\<rparr>) else None)"

inductive server_runs :: "server_run \<Rightarrow> bool" where
  server_start: "server_runs newServer"
| server_next: "server_runs s \<Longrightarrow> server_step op s = Some s' \<Longrightarrow> server_runs s'"

section \<open>The bridge loses nothing on its own\<close>

definition moved :: "bytes list \<Rightarrow> direction \<Rightarrow> bool" where
  "moved bs d \<longleftrightarrow> prefix (di_out d) (concat bs) \<and> (\<not> di_done d \<longrightarrow> di_out d @ concat (di_in d) = concat bs)"

lemma copy_step_moved:
  assumes "copy_step ev shut d = Some d'" and "moved bs d"
  shows "moved bs d'"
proof -
  have eq: "di_out d @ concat (di_in d) = concat bs" "\<not> di_done d"
    using assms by (auto simp: moved_def copy_step_def split: if_splits)
  show ?thesis
  proof (cases ev)
    case Copy_Block
    then obtain x xs where "di_in d = x # xs" "d' = d\<lparr>di_in := xs, di_out := di_out d @ x\<rparr>"
      using assms(1) by (cases "di_in d") (auto simp: copy_step_def split: if_splits)
    then show ?thesis using eq by (auto simp: moved_def prefix_def intro: exI[of _ "concat xs"])
  next
    case Copy_End
    then show ?thesis using assms eq by (auto simp: moved_def copy_step_def split: if_splits)
  next
    case (Copy_Fail n)
    have "prefix (take n (concat (take 1 (di_in d)))) (concat (di_in d))"
      by (cases "di_in d") (auto intro: prefix_order.trans[OF take_is_prefix])
    then have "prefix (di_out d @ take n (concat (take 1 (di_in d)))) (di_out d @ concat (di_in d))" by simp
    then show ?thesis using assms(1) eq Copy_Fail by (auto simp: moved_def copy_step_def)
  qed
qed

definition bridge_inv :: "bytes list \<Rightarrow> bytes list \<Rightarrow> bridge \<Rightarrow> bool" where
  "bridge_inv as bs b \<longleftrightarrow> moved as (br_ab b) \<and> moved bs (br_ba b) \<and> (br_closed b \<longleftrightarrow> di_done (br_ab b) \<or> di_done (br_ba b))"

lemma bridge_step_inv: "bridge_step ab ev b = Some b' \<Longrightarrow> bridge_inv as bs b \<Longrightarrow> bridge_inv as bs b'"
  by (auto simp: bridge_step_def bridge_inv_def Let_def dest: copy_step_moved split: option.splits if_splits)
     (auto simp: copy_step_def split: if_splits copy_event.splits)

lemma bridge_runs_inv: "bridge_runs (new_bridge as bs) b \<Longrightarrow> bridge_inv as bs b"
proof (induction rule: bridge_runs.induct)
  case bridge_start
  show ?case by (simp add: bridge_inv_def moved_def new_bridge_def new_direction_def)
next
  case (bridge_next b ab ev b')
  show ?case by (rule bridge_step_inv[OF bridge_next(2,3)])
qed

lemma copy_end_done: "copy_step Copy_End shut d = Some d' \<Longrightarrow> moved bs d \<Longrightarrow> di_out d' = concat bs"
  by (auto simp: copy_step_def moved_def split: if_splits)

text \<open>
  A raw bridge copies faithfully. Whatever the order in which its two goroutines run and wherever a connection
  fails, each side is given a prefix of what the other sent, in order; both connections are closed exactly when one
  of the copies has ended; and a copy that ends because its source ended has written everything the source gave.
\<close>

theorem bridge_copies_faithfully:
  assumes "bridge_runs (new_bridge as bs) b"
  shows "prefix (di_out (br_ab b)) (concat as) \<and> prefix (di_out (br_ba b)) (concat bs) \<and>
    (br_closed b \<longleftrightarrow> di_done (br_ab b) \<or> di_done (br_ba b)) \<and>
    (case bridge_step True Copy_End b of Some b' \<Rightarrow> di_out (br_ab b') = concat as | None \<Rightarrow> True) \<and>
    (case bridge_step False Copy_End b of Some b' \<Rightarrow> di_out (br_ba b') = concat bs | None \<Rightarrow> True)"
proof -
  have inv: "bridge_inv as bs b" by (rule bridge_runs_inv[OF assms])
  then have m: "moved as (br_ab b)" "moved bs (br_ba b)" by (simp_all add: bridge_inv_def)
  have "case bridge_step True Copy_End b of Some b' \<Rightarrow> di_out (br_ab b') = concat as | None \<Rightarrow> True"
    using copy_end_done[OF _ m(1)] by (auto simp: bridge_step_def Let_def split: option.splits)
  moreover have "case bridge_step False Copy_End b of Some b' \<Rightarrow> di_out (br_ba b') = concat bs | None \<Rightarrow> True"
    using copy_end_done[OF _ m(2)] by (auto simp: bridge_step_def Let_def split: option.splits)
  ultimately show ?thesis using inv m by (simp add: bridge_inv_def moved_def)
qed

lemma bridge_copies_faithfully_witness:
  "\<exists>b. bridge_runs (new_bridge [[1, 2]] []) b \<and> prefix (di_out (br_ab b)) [1, 2] \<and> br_closed b"
proof -
  have "bridge_runs (new_bridge [[1, 2]] []) (new_bridge [[1, 2]] [])" by (rule bridge_start)
  then have "bridge_runs (new_bridge [[1, 2]] []) \<lparr>br_ab = \<lparr>di_in = [], di_out = [1, 2], di_done = False\<rparr>, br_ba = new_direction [], br_closed = False\<rparr>"
    by (rule bridge_next[where ab = True and ev = Copy_Block]) (simp add: bridge_step_def copy_step_def new_bridge_def new_direction_def)
  then have b: "bridge_runs (new_bridge [[1, 2]] []) \<lparr>br_ab = \<lparr>di_in = [], di_out = [1, 2], di_done = True\<rparr>, br_ba = new_direction [], br_closed = True\<rparr>"
    by (rule bridge_next[where ab = True and ev = Copy_End]) (simp add: bridge_step_def copy_step_def new_direction_def)
  show ?thesis
    using bridge_copies_faithfully[OF b] b
    by (intro exI[of _ "\<lparr>br_ab = \<lparr>di_in = [], di_out = [1, 2], di_done = True\<rparr>, br_ba = new_direction [], br_closed = True\<rparr>"]) simp
qed

text \<open>
  The copy has only handed its bytes to \<open>Stream.Write\<close>; \<open>bridge\<close> then closes the stream at once, not through
  \<open>gracefulClose\<close>, and a closed stream sends nothing of what is still queued.
\<close>

lemma close_drops_the_queue:
  assumes "\<not> st_once s"
  shows "st_sendQ (stream_close s) = st_sendQ s" and "st_pendingBytes (stream_close s) = st_pendingBytes s"
    and "trySend wr now (stream_close s) = (False, stream_close s)"
  using assms by (simp_all add: stream_close_def emit_def trySend_def trySend_locked_def)

section \<open>Shutting a client down\<close>

text \<open>An open listener has someone who will close it, and so has the connection of every handler.\<close>

definition listener_inv :: "client \<Rightarrow> bool" where
  "listener_inv c \<longleftrightarrow>
     (cl_shuttingDown c \<longleftrightarrow> cl_sd c \<noteq> SD_None) \<and>
     (cl_ln c \<longrightarrow> \<not> cl_shuttingDown c \<and> (cl_phase c = P_Serving \<or> cl_phase c = P_Leaving) \<and> cl_lnOpen c) \<and>
     (cl_sd c = SD_Locked True \<longrightarrow> cl_phase c \<noteq> P_Idle \<and> cl_phase c \<noteq> P_Listening) \<and>
     (cl_lnOpen c \<longrightarrow> cl_phase c = P_Listening \<or> cl_ln c \<or> cl_sd c = SD_Locked True) \<and>
     (cl_phase c = P_Listening \<longrightarrow> cl_lnOpen c) \<and> (\<not> cl_ran c \<longrightarrow> cl_phase c = P_Idle)"

definition set_inv :: "conn_set \<Rightarrow> nat list \<Rightarrow> bool" where
  "set_inv s conns \<longleftrightarrow>
     (if cs_closed s then set conns \<subseteq> set (cs_todo s) \<union> set (cs_killed s) else cs_todo s = [] \<and> set conns \<subseteq> set (cs_set s))"

definition handlers_inv :: "client \<Rightarrow> bool" where
  "handlers_inv c \<longleftrightarrow> set_inv (cl_actives c) (cl_conns c) \<and> (cs_closed (cl_actives c) \<longleftrightarrow> cl_sd c = SD_Done) \<and>
     (cl_phase c = P_Returned \<or> cl_phase c = P_Idle \<longrightarrow> cl_conns c = []) \<and> (\<not> cl_ran c \<longrightarrow> cl_phase c = P_Idle) \<and>
     (cl_shuttingDown c \<longleftrightarrow> cl_sd c \<noteq> SD_None)"

lemma listener_step: "listener_inv c \<Longrightarrow> pred_option listener_inv (client_step op c)"
  by (cases op; cases "cl_phase c"; cases "cl_sd c") (auto simp: listener_inv_def)

lemma set_steps:
  "set_inv s conns \<Longrightarrow> set_inv (cs_add i s) (i # conns)"
  "set_inv s conns \<Longrightarrow> set_inv (cs_del i s) (removeAll i conns)"
  "set_inv s conns \<Longrightarrow> set_inv (closeAll s) conns"
  "set_inv s conns \<Longrightarrow> set_inv (close_one s) conns"
  by (auto simp: set_inv_def cs_add_def cs_del_def closeAll_def close_one_def split: if_splits list.splits)

lemma set_closed [simp]:
  "cs_closed (cs_add i s) = cs_closed s" "cs_closed (cs_del i s) = cs_closed s" "cs_closed (closeAll s)" "cs_closed (close_one s) = cs_closed s"
  by (auto simp: cs_add_def cs_del_def closeAll_def close_one_def split: list.splits)

lemma handlers_step: "handlers_inv c \<Longrightarrow> pred_option handlers_inv (client_step op c)"
  by (cases op; cases "cl_phase c"; cases "cl_sd c") (auto simp: handlers_inv_def set_steps)

lemma client_runs_inv: "client_runs c \<Longrightarrow> listener_inv c \<and> handlers_inv c"
proof (induction rule: client_runs.induct)
  case client_start
  show ?case by (simp add: listener_inv_def handlers_inv_def set_inv_def newClient_def newConnSet_def)
next
  case (client_next c op c')
  then show ?case using listener_step[of c op] handlers_step[of c op] by simp
qed

text \<open>
  C38: a shutdown of the client misses nothing, whenever it comes. In every state of every run an open listener is
  still to be registered, which will close it if a shutdown came first, or registered, or in the hands of a shutdown
  that is about to close it; \<open>Addr\<close> gives an address only while it is open; every connection of a running handler is
  in the set or, once the set is closed, has been closed or is about to be; and \<open>Run\<close> returns with no handler left.
\<close>

theorem client_shutdown_complete:
  assumes "client_runs c"
  shows "(cl_lnOpen c \<longrightarrow> cl_phase c = P_Listening \<or> Addr c \<or> cl_sd c = SD_Locked True) \<and>
    (Addr c \<longrightarrow> cl_lnOpen c \<and> \<not> cl_shuttingDown c) \<and>
    (if cl_sd c = SD_Done then set (cl_conns c) \<subseteq> set (cs_todo (cl_actives c)) \<union> set (cs_killed (cl_actives c))
     else set (cl_conns c) \<subseteq> set (cs_set (cl_actives c))) \<and>
    (cl_phase c = P_Returned \<longrightarrow> cl_conns c = [])"
proof -
  have inv: "listener_inv c" "handlers_inv c" using client_runs_inv[OF assms] by simp_all
  show ?thesis using inv(1) inv(2) by (auto simp: listener_inv_def handlers_inv_def set_inv_def Addr_def split: if_splits)
qed

text \<open>A shutdown between \<open>Listen\<close> and the registration of the listener.\<close>

lemma client_shutdown_complete_witness:
  "\<exists>c. client_runs c \<and> cl_phase c = P_Leaving \<and> cl_shuttingDown c \<and> \<not> cl_lnOpen c \<and> \<not> Addr c"
proof -
  have a: "client_runs (the (client_step (CO_Run True) newClient))"
    by (rule client_next[OF client_start, where op = "CO_Run True"]) (simp add: newClient_def)
  have b: "client_runs (the (client_step CO_Shutdown (the (client_step (CO_Run True) newClient))))"
    by (rule client_next[OF a, where op = CO_Shutdown]) (simp add: newClient_def)
  have c: "client_runs (the (client_step CO_Register (the (client_step CO_Shutdown (the (client_step (CO_Run True) newClient))))))"
    by (rule client_next[OF b, where op = CO_Register]) (simp add: newClient_def)
  show ?thesis using client_shutdown_complete[OF c] c
    by (intro exI[of _ "the (client_step CO_Register (the (client_step CO_Shutdown (the (client_step (CO_Run True) newClient)))))"])
       (simp add: newClient_def Addr_def)
qed

section \<open>Shutting a server down\<close>

definition server_inv :: "server_run \<Rightarrow> bool" where
  "server_inv s \<longleftrightarrow> set_inv (sv_actives s) (sv_conns s) \<and> (cs_closed (sv_actives s) \<longrightarrow> sv_cancelled s \<or> sv_result s \<noteq> None) \<and>
     (sv_serving s \<longrightarrow> sv_ran s \<and> sv_result s = None) \<and> (sv_ran s \<and> \<not> sv_serving s \<longrightarrow> sv_result s \<noteq> None) \<and>
     (sv_returned s \<longrightarrow> sv_conns s = [] \<and> \<not> sv_serving s \<and> sv_ran s) \<and>
     (sv_result s = Some RR_Nil \<longrightarrow> sv_cancelled s) \<and> (\<not> sv_ran s \<longrightarrow> sv_conns s = [] \<and> sv_result s = None)"

lemma server_step_inv: "server_inv s \<Longrightarrow> pred_option server_inv (server_step op s)"
  by (cases op) (auto simp: server_inv_def sv_add_def set_steps)

lemma server_runs_inv: "server_runs s \<Longrightarrow> server_inv s"
proof (induction rule: server_runs.induct)
  case server_start
  show ?case by (simp add: server_inv_def set_inv_def newServer_def newConnSet_def)
next
  case (server_next s op s')
  then show ?case using server_step_inv[of s op] by simp
qed

text \<open>
  Once the set is closed every connection of a running handler has been closed or is about to be, \<open>Run\<close> returns with no
  handler left, and it returns without an error only when the context was cancelled.
\<close>

lemma server_shutdown_complete:
  assumes "server_runs s"
  shows "(if cs_closed (sv_actives s) then set (sv_conns s) \<subseteq> set (cs_todo (sv_actives s)) \<union> set (cs_killed (sv_actives s))
      else set (sv_conns s) \<subseteq> set (cs_set (sv_actives s))) \<and>
    (sv_returned s \<longrightarrow> sv_conns s = []) \<and> (sv_result s = Some RR_Nil \<longrightarrow> sv_cancelled s)"
  using server_runs_inv[OF assms] by (auto simp: server_inv_def set_inv_def)

end
