(* ===== verification/Cli_Run.thy ===== *)
theory Cli_Run
  imports Cli Tunnel_Link Handshake
begin

text \<open>
  The two commands of \<open>src/cmd/netacc/main.go\<close> from their flags to their end: which errors end them before anything is
  opened, what they open, and that they close it again in the opposite order. What the flag package, libp2p, the file system
  and the peer answer is given; messages for the user are left out.
\<close>

section \<open>Outcomes and actions\<close>

datatype 'f parsed = Help | Bad_Flags | Flags 'f

datatype run_err =
    CE_Flags | CE_Listen_Has_Peer | CE_Config cli_err | CE_Identity | CE_Host | CE_Server | CE_Connect | CE_Client
  | CE_No_Server | CE_No_Port | CE_Server_Addr | CE_Not_Ready | CE_Run

text \<open>What is opened and closed: the host, the aggregator with its token, the signal handler; the rest are single acts.\<close>

datatype cli_res = Res_Host | Res_Agg "string option" | Res_Signals

datatype cli_act = Open cli_res | Close cli_res | Connect_Host | Start_Client | Serve server_config

text \<open>An \<open>-identity\<close> of no file needs no key; \<open>libp2pIdentity\<close> fails when the file does.\<close>

definition libp2pIdentity :: "(string \<Rightarrow> bool) \<Rightarrow> string \<Rightarrow> bool" where
  "libp2pIdentity loads path \<longleftrightarrow> path = [] \<or> loads path"

definition agg_token :: "string \<Rightarrow> string \<Rightarrow> string option" where
  "agg_token flag env = (let tok = authToken flag env in if 0 < length tok then Some tok else None)"

section \<open>The server\<close>

record run_flags =
  rf_addr :: string
  rf_token :: string
  rf_identity :: string

text \<open>
  \<open>runServer\<close>: \<open>peer_addr\<close> tells a multiaddress with a peer, \<open>loads\<close> whether a key file can be loaded or made, \<open>host\<close> whether
  the host could be made, \<open>result\<close> what \<open>Run\<close> returned.
\<close>

definition runServer ::
  "(string \<Rightarrow> url option) \<Rightarrow> (url \<Rightarrow> string) \<Rightarrow> (string \<Rightarrow> bool) \<Rightarrow> (string \<Rightarrow> bool) \<Rightarrow> string \<Rightarrow> bool \<Rightarrow> bool \<Rightarrow>
   (run_flags \<times> server_flags) parsed \<Rightarrow> run_err option \<times> cli_act list" where
  "runServer parse ep peer_addr loads env host result args =
     (case args of
        Help \<Rightarrow> (None, [])
      | Bad_Flags \<Rightarrow> (Some CE_Flags, [])
      | Flags (rf, sf) \<Rightarrow>
          if peer_addr (rf_addr rf) then (Some CE_Listen_Has_Peer, [])
          else case server_options parse ep sf of
            Inl e \<Rightarrow> (Some (CE_Config e), [])
          | Inr opts \<Rightarrow>
              if \<not> libp2pIdentity loads (rf_identity rf) then (Some CE_Identity, [])
              else if \<not> host then (Some CE_Host, [])
              else
                let tok = agg_token (rf_token rf) env in
                case NewServer True (map Some opts) of
                  Inl e \<Rightarrow> (Some CE_Server, [Open Res_Host, Open (Res_Agg tok), Close (Res_Agg tok), Close Res_Host])
                | Inr c \<Rightarrow>
                    (if result then None else Some CE_Run,
                     [Open Res_Host, Open (Res_Agg tok), Open Res_Signals, Serve c,
                      Close Res_Signals, Close (Res_Agg tok), Close Res_Host]))"

section \<open>The client\<close>

text \<open>The loop that waits for the listener: a look at \<open>Addr\<close> before each round, and what the \<open>select\<close> of the round receives.\<close>

datatype ready_event = RY_Ended bool | RY_Deadline | RY_Again

datatype readiness = Ready | Ended bool | Late

fun wait_ready :: "(nat \<Rightarrow> bool) \<Rightarrow> nat \<Rightarrow> ready_event list \<Rightarrow> readiness option" where
  "wait_ready listening n evs =
     (if listening n then Some Ready
      else case evs of
        [] \<Rightarrow> None
      | RY_Ended ok # es \<Rightarrow> Some (Ended ok)
      | RY_Deadline # es \<Rightarrow> Some Late
      | RY_Again # es \<Rightarrow> wait_ready listening (Suc n) es)"

declare wait_ready.simps [simp del]

definition client_end :: "readiness \<Rightarrow> bool \<Rightarrow> run_err option" where
  "client_end r result =
     (case r of
        Ready \<Rightarrow> if result then None else Some CE_Run
      | Ended ok \<Rightarrow> if ok then None else Some CE_Run
      | Late \<Rightarrow> Some CE_Not_Ready)"

text \<open>
  \<open>runClient\<close>: \<open>peer_addr\<close> as above, here required; \<open>port\<close> the flag; \<open>connects\<close> whether the peer could be reached, \<open>rdy\<close>
  how the wait for the listener ended.
\<close>

definition runClient ::
  "(string \<Rightarrow> bool) \<Rightarrow> (string \<Rightarrow> bool) \<Rightarrow> string \<Rightarrow> bool \<Rightarrow> bool \<Rightarrow> readiness \<Rightarrow> bool \<Rightarrow>
   (run_flags \<times> int) parsed \<Rightarrow> run_err option \<times> cli_act list" where
  "runClient peer_addr loads env host connects rdy result args =
     (case args of
        Help \<Rightarrow> (None, [])
      | Bad_Flags \<Rightarrow> (Some CE_Flags, [])
      | Flags (rf, port) \<Rightarrow>
          if rf_addr rf = [] then (Some CE_No_Server, [])
          else if port < 0 then (Some CE_No_Port, [])
          else if \<not> peer_addr (rf_addr rf) then (Some CE_Server_Addr, [])
          else if \<not> libp2pIdentity loads (rf_identity rf) then (Some CE_Identity, [])
          else if \<not> host then (Some CE_Host, [])
          else
            let tok = agg_token (rf_token rf) env;
                pre = [Open Res_Host, Open (Res_Agg tok), Open Res_Signals, Connect_Host];
                post = [Close Res_Signals, Close (Res_Agg tok), Close Res_Host] in
            if \<not> connects then (Some CE_Connect, pre @ post)
            else case NewClient True True [Some (WithListenPort port)] of
              Inl e \<Rightarrow> (Some CE_Client, pre @ post)
            | Inr c \<Rightarrow> (client_end rdy result, pre @ [Start_Client] @ post))"

section \<open>The program\<close>

text \<open>\<open>main\<close>: the exit code of the process for its first argument and what the command returned.\<close>

definition cli_main :: "string option \<Rightarrow> run_err option \<Rightarrow> run_err option \<Rightarrow> nat" where
  "cli_main arg server client =
     (case arg of
        None \<Rightarrow> 2
      | Some a \<Rightarrow>
          if a = ''server'' then (if server = None then 0 else 1)
          else if a = ''client'' then (if client = None then 0 else 1)
          else if a \<in> {''-h'', ''--help'', ''help''} then 0
          else 2)"

section \<open>The echo handler for WebSockets\<close>

text \<open>\<open>wsEcho\<close> on the frames \<open>xs\<close> that come in: it accepts the first protocol offered and writes back what it reads.\<close>

function echo_loop ::
  "(bytes \<Rightarrow> close_msg option) \<Rightarrow> (bytes \<Rightarrow> abort_msg option) \<Rightarrow> ws_in list \<Rightarrow> wsconn \<Rightarrow> wsconn run" where
  "echo_loop dc da xs c =
     (case read_message dc da xs c of
        Inl p \<Rightarrow> Inl p
      | Inr (WS_Message t m, xs', c') \<Rightarrow>
          (case ws_write (int t) m c' of
             (Some e, c2) \<Rightarrow> Inr c2
           | (None, c2) \<Rightarrow> echo_loop dc da xs' c2)
      | Inr (WS_Error e, xs', c') \<Rightarrow> Inr c'
      | Inr (WS_Blocked, xs', c') \<Rightarrow> Inr c')"
  by pat_completeness auto
termination
  using read_message_shorter by (relation "measure (\<lambda>(dc, da, xs, c). length xs)") auto

declare echo_loop.simps [simp del]

definition wsEcho ::
  "(bytes \<Rightarrow> close_msg option) \<Rightarrow> (bytes \<Rightarrow> abort_msg option) \<Rightarrow> bool \<Rightarrow> ws_in list \<Rightarrow> wsconn \<Rightarrow> wsconn run" where
  "wsEcho dc da ok xs c =
     (let proto = (case ws_offered c of Some (p # ps) \<Rightarrow> p | _ \<Rightarrow> []) in
      case ws_accept proto ok c of
        (Some e, c') \<Rightarrow> Inr c'
      | (None, c') \<Rightarrow> echo_loop dc da xs c')"

definition msg_payload :: "nat \<times> bytes \<Rightarrow> bytes" where
  "msg_payload m = of_nat (fst m) # snd m"

text \<open>Every message of a legal length comes back, in order and unchanged, and nothing else is sent.\<close>

lemma echo_sends_back:
  assumes "list_all (\<lambda>(t, m). (t = WSOpcodeText \<or> t = WSOpcodeBinary) \<and> length m < MaxWSMessage) ms"
    and "pendingErr c = None" and "ws_term c = None" and "\<not> ws_closed c"
  shows "echo_loop dc da (map (\<lambda>m. WIn_Frame FrameWSMessage (msg_payload m) True) ms) c =
    Inr (c\<lparr>ws_out := ws_out c @ map (\<lambda>m. Out_Frame FrameWSMessage (msg_payload m)) ms\<rparr>)"
  using assms
proof (induction ms arbitrary: c)
  case Nil
  then show ?case by (simp add: echo_loop.simps read_message_def)
next
  case (Cons x ms)
  obtain t m where x: "x = (t, m)" by fastforce
  have t: "t = 1 \<or> t = 2" "length m < MaxWSMessage" using Cons.prems(1) x by (auto simp: WSOpcodeText_def WSOpcodeBinary_def)
  let ?xs = "map (\<lambda>m. WIn_Frame FrameWSMessage (msg_payload m) True) ms"
  have u: "unat (of_nat t :: byte) = t" using t(1) by auto
  have r: "read_message dc da (WIn_Frame FrameWSMessage (msg_payload x) True # ?xs) c = Inr (WS_Message t m, ?xs, c)"
    using Cons.prems(2,3) t u x by (auto simp: read_message_def msg_payload_def WSOpcodeText_def WSOpcodeBinary_def)
  let ?c = "put (Out_Frame FrameWSMessage (msg_payload x)) c"
  have w: "ws_write (int t) m c = (None, ?c)"
    using Cons.prems(2,4) t x by (auto simp: ws_write_def WSOpcodeText_def WSOpcodeBinary_def msg_payload_def)
  have "pendingErr ?c = None \<and> ws_term ?c = None \<and> \<not> ws_closed ?c"
    using Cons.prems by (simp add: put_def pendingErr_def)
  then have "echo_loop dc da ?xs ?c = Inr (?c\<lparr>ws_out := ws_out ?c @ map (\<lambda>m. Out_Frame FrameWSMessage (msg_payload m)) ms\<rparr>)"
    using Cons.IH[of ?c] Cons.prems(1) by simp
  then show ?case using r w by (simp add: echo_loop.simps[of dc da "WIn_Frame FrameWSMessage (msg_payload x) True # ?xs"] put_def)
qed

section \<open>What is opened is closed\<close>

text \<open>The resources that are open after a list of actions; \<open>None\<close> when one is closed that is not the last one opened.\<close>

fun open_after :: "cli_res list \<Rightarrow> cli_act list \<Rightarrow> cli_res list option" where
  "open_after rs [] = Some rs"
| "open_after rs (Open r # as) = open_after (r # rs) as"
| "open_after rs (Close r # as) = (case rs of q # rs' \<Rightarrow> if q = r then open_after rs' as else None | [] \<Rightarrow> None)"
| "open_after rs (a # as) = open_after rs as"

lemma commands_clean_up:
  "open_after [] (snd (runServer parse ep peer_addr loads env host result sargs)) = Some []"
  "open_after [] (snd (runClient peer_addr loads env host connects rdy result cargs)) = Some []"
  by (auto simp: runServer_def runClient_def Let_def split: parsed.split sum.split)

text \<open>
  An aggregator that is opened has the token, if there is one; so whoever completes a handshake with a server that was given a
  token knows it. Nothing at all is opened for a command line that cannot be right.
\<close>

lemma token_is_enforced:
  assumes "Open (Res_Agg t) \<in> set (snd (runServer parse ep peer_addr loads env host result (Flags (rf, sf))))"
    and "authToken (rf_token rf) env \<noteq> []"
  shows "t = Some (authToken (rf_token rf) env)"
  using assms by (auto simp: runServer_def Let_def agg_token_def split: if_splits sum.splits)

lemma serves_what_was_asked:
  assumes "Serve c \<in> set (snd (runServer parse ep peer_addr loads env host result (Flags (rf, sf))))"
  shows "\<exists>opts. server_options parse ep sf = Inr opts \<and> NewServer True (map Some opts) = Inr c \<and> \<not> peer_addr (rf_addr rf)"
  using assms by (auto simp: runServer_def Let_def split: if_splits sum.splits)

lemma ready_only_when_listening:
  "wait_ready listening n evs = Some Ready \<Longrightarrow> \<exists>k. n \<le> k \<and> k \<le> n + length evs \<and> listening k"
proof (induction listening n evs rule: wait_ready.induct)
  case (1 listening n evs)
  show ?case
  proof (cases "listening n")
    case False
    then obtain es where e: "evs = RY_Again # es" "wait_ready listening (Suc n) es = Some Ready"
      using "1.prems" by (auto simp: wait_ready.simps[of listening n evs] split: list.splits ready_event.splits)
    then show ?thesis using "1.IH"[OF False e(1)] by (metis Suc_leD Suc_le_mono add_Suc add_Suc_right length_Cons refl)
  qed (auto intro: exI[of _ n])
qed

end
