(* ===== verification/Relay_Alloc.thy ===== *)
theory Relay_Alloc
  imports Path Go_Strings
begin

text \<open>
  The relay component of \<open>src/relay\<close>: the whitelist (\<open>acl.go\<close>), the assembly of the service (\<open>relay.go\<close>), the
  bandwidth allocator (\<open>allocator.go\<close>) and the shaped streams that draw on it (\<open>transport.go\<close>). Buckets are
  shared between the map of the allocator and the streams, so they live in a store and both hold addresses.
  A token bucket of \<open>golang.org/x/time/rate\<close> appears through its rate and through what its reservations
  answer.
\<close>

section \<open>Access control\<close>

type_synonym whitelist = "peer_id list"

definition NewWhitelist :: "peer_id list \<Rightarrow> whitelist" where
  "NewWhitelist ps = fold List.insert ps []"

definition wl_add :: "peer_id \<Rightarrow> whitelist \<Rightarrow> whitelist" where
  "wl_add p w = List.insert p w"

definition wl_remove :: "peer_id \<Rightarrow> whitelist \<Rightarrow> whitelist" where
  "wl_remove p w = removeAll p w"

definition wl_contains :: "peer_id \<Rightarrow> whitelist \<Rightarrow> bool" where
  "wl_contains p w \<longleftrightarrow> p \<in> set w"

definition AllowReserve :: "whitelist \<Rightarrow> peer_id \<Rightarrow> bool" where
  "AllowReserve w p = wl_contains p w"

definition AllowConnect :: "whitelist \<Rightarrow> peer_id \<Rightarrow> peer_id \<Rightarrow> bool" where
  "AllowConnect w src dest \<longleftrightarrow> wl_contains src w \<and> wl_contains dest w"

section \<open>Allocator\<close>

definition DefaultRecomputeInterval :: int where "DefaultRecomputeInterval = 200 * millisecond"
definition DefaultBurst :: int where "DefaultBurst = 131072"
definition DefaultMinShare :: rat where "DefaultMinShare = 65536"
definition maxChunk :: int where "maxChunk = 65536"
definition ewmaAlpha :: rat where "ewmaAlpha = 1 / 2"

record bucket =
  b_rate :: rat
  b_cur :: int
  b_waited :: bool
  b_refs :: int
  b_demand :: rat
  b_share :: rat

record allocator =
  al_total :: rat
  al_interval :: int
  al_burst :: int
  al_minShare :: rat
  al_global :: rat
  al_buckets :: "(peer_id \<times> nat) list"
  al_heap :: "bucket list"
  al_stopped :: bool

datatype al_option = Opt_Interval int | Opt_Burst int | Opt_MinShare rat

fun apply_option :: "al_option \<Rightarrow> allocator \<Rightarrow> allocator" where
  "apply_option (Opt_Interval d) a =
     (let d = (if d < 100 * millisecond then 100 * millisecond else d);
          d = (if 500 * millisecond < d then 500 * millisecond else d) in
      a\<lparr>al_interval := d\<rparr>)"
| "apply_option (Opt_Burst n) a = a\<lparr>al_burst := (if n < maxChunk then maxChunk else n)\<rparr>"
| "apply_option (Opt_MinShare v) a = (if 0 < v then a\<lparr>al_minShare := v\<rparr> else a)"

definition NewAllocator :: "rat \<Rightarrow> al_option list \<Rightarrow> allocator" where
  "NewAllocator bytesPerSec opts =
     (let a = \<lparr>al_total = bytesPerSec, al_interval = DefaultRecomputeInterval, al_burst = DefaultBurst,
               al_minShare = DefaultMinShare, al_global = 0, al_buckets = [], al_heap = [], al_stopped = False\<rparr>;
          a = fold apply_option opts a;
          a = (if al_total a \<le> 0 then a\<lparr>al_total := 1073741824\<rparr> else a) in
      a\<lparr>al_global := al_total a\<rparr>)"

definition al_close :: "allocator \<Rightarrow> allocator" where
  "al_close a = a\<lparr>al_stopped := True\<rparr>"

definition upd_bucket :: "nat \<Rightarrow> (bucket \<Rightarrow> bucket) \<Rightarrow> allocator \<Rightarrow> allocator" where
  "upd_bucket x f a = a\<lparr>al_heap := (al_heap a)[x := f (al_heap a ! x)]\<rparr>"

text \<open>\<open>bucketForLocked\<close>: the address of the peer's bucket, which is new when it has none.\<close>

definition bucketFor :: "peer_id \<Rightarrow> allocator \<Rightarrow> nat \<times> allocator" where
  "bucketFor p a =
     (case map_of (al_buckets a) p of
        Some x \<Rightarrow> (x, a)
      | None \<Rightarrow>
          let x = length (al_heap a);
              b = \<lparr>b_rate = al_total a, b_cur = 0, b_waited = False, b_refs = 0, b_demand = al_total a,
                   b_share = al_total a\<rparr> in
          (x, a\<lparr>al_buckets := al_buckets a @ [(p, x)], al_heap := al_heap a @ [b]\<rparr>))"

definition acquireBucket :: "peer_id \<Rightarrow> allocator \<Rightarrow> nat \<times> allocator" where
  "acquireBucket p a =
     (let (x, a) = bucketFor p a in (x, upd_bucket x (\<lambda>b. b\<lparr>b_refs := b_refs b + 1\<rparr>) a))"

subsection \<open>Sharing the bandwidth\<close>

text \<open>
  \<open>progressiveFill\<close> after the sort: \<open>idx\<close> are the positions in the order of their demands, \<open>fl\<close> is the
  rounding of the arithmetic.
\<close>

fun fill :: "(rat \<Rightarrow> rat) \<Rightarrow> rat list \<Rightarrow> rat \<Rightarrow> nat list \<Rightarrow> rat \<Rightarrow> rat list \<Rightarrow> rat list" where
  "fill fl demands minShare [] remain shares = shares"
| "fill fl demands minShare (i # idx) remain shares =
     (let d = demands ! i;
          d = (if d < minShare then minShare else d);
          share = fl (remain / of_nat (Suc (length idx)));
          share = (if d < share then d else share) in
      fill fl demands minShare idx (fl (remain - share)) (shares[i := share]))"

definition fill_order :: "rat list \<Rightarrow> nat list" where
  "fill_order demands = sort_key (\<lambda>i. demands ! i) [0 ..< length demands]"

definition progressiveFill :: "rat list \<Rightarrow> rat \<Rightarrow> rat \<Rightarrow> rat list" where
  "progressiveFill demands tot minShare =
     fill fl64 demands minShare (fill_order demands) tot (replicate (length demands) 0)"

definition sample_bucket :: "allocator \<Rightarrow> bucket \<Rightarrow> bucket" where
  "sample_bucket a b =
     (let observed = fl64 (float_of_int (b_cur b) / seconds (al_interval a)) in
      b\<lparr>b_cur := 0, b_waited := False,
        b_demand := (if b_waited b then al_total a
                     else fl64 (fl64 (ewmaAlpha * b_demand b) + fl64 ((1 - ewmaAlpha) * observed)))\<rparr>)"

definition idle :: "allocator \<Rightarrow> bucket \<Rightarrow> bool" where
  "idle a b \<longleftrightarrow> b_refs b = 0 \<and> b_demand b \<le> al_minShare a"

definition set_shares :: "(nat \<times> rat) list \<Rightarrow> bucket list \<Rightarrow> bucket list" where
  "set_shares xs h = fold (\<lambda>(x, v) h. h[x := (h ! x)\<lparr>b_share := v, b_rate := v\<rparr>]) xs h"

definition recompute :: "allocator \<Rightarrow> allocator" where
  "recompute a =
     (if al_buckets a = [] then a
      else
        let h = fold (\<lambda>(p, x) h. h[x := sample_bucket a (h ! x)]) (al_buckets a) (al_heap a);
            kept = filter (\<lambda>(p, x). \<not> idle a (h ! x)) (al_buckets a);
            demands = map (\<lambda>(p, x). b_demand (h ! x)) kept;
            shares = progressiveFill demands (al_total a) (al_minShare a) in
        a\<lparr>al_buckets := kept, al_heap := set_shares (zip (map snd kept) shares) h\<rparr>)"

text \<open>
  \<open>throttle\<close>: the answers of the two reservations of each round (granted, delay); the sleeps, and whether
  the bucket is marked as having waited.
\<close>

fun throttle :: "int \<Rightarrow> ((bool \<times> int) \<times> (bool \<times> int)) list \<Rightarrow> int list \<times> bool" where
  "throttle interval [] = ([], False)"
| "throttle interval (((ok, d), (gok, gd)) # rs) =
     (if \<not> ok \<or> \<not> gok then ([], False)
      else
        let d = (if d < gd then gd else d) in
        if d \<le> 0 then ([], False)
        else if d \<le> interval then ([d], True)
        else let (sl, w) = throttle interval rs in (interval # sl, True))"

definition PeerShare :: "peer_id \<Rightarrow> allocator \<Rightarrow> rat" where
  "PeerShare p a = (case map_of (al_buckets a) p of Some x \<Rightarrow> b_share (al_heap a ! x) | None \<Rightarrow> 0)"

definition PeerDemand :: "peer_id \<Rightarrow> allocator \<Rightarrow> rat" where
  "PeerDemand p a = (case map_of (al_buckets a) p of Some x \<Rightarrow> b_demand (al_heap a ! x) | None \<Rightarrow> 0)"

section \<open>Shaped streams\<close>

record limStream =
  ls_peer :: peer_id
  ls_bucket :: nat
  ls_released :: bool

record shaper =
  sh_alloc :: allocator
  sh_streams :: "limStream list"

text \<open>\<open>wrap\<close>: a stream of the transport, or its error.\<close>

definition shaped_wrap :: "peer_id \<Rightarrow> bool \<Rightarrow> shaper \<Rightarrow> shaper" where
  "shaped_wrap p failed s =
     (if failed then s
      else let (x, a) = acquireBucket p (sh_alloc s) in
        s\<lparr>sh_alloc := a, sh_streams := sh_streams s @ [\<lparr>ls_peer = p, ls_bucket = x, ls_released = False\<rparr>]\<rparr>)"

text \<open>\<open>limStream.Read\<close>: at most a chunk is asked for; what came is accounted and throttled.\<close>

definition lim_read :: "nat \<Rightarrow> int \<Rightarrow> int \<Rightarrow> ((bool \<times> int) \<times> (bool \<times> int)) list \<Rightarrow> shaper \<Rightarrow> int \<times> shaper" where
  "lim_read k room got rsvs s =
     (let n = min got (if maxChunk < room then maxChunk else room);
          x = ls_bucket (sh_streams s ! k);
          a = upd_bucket x (\<lambda>b. b\<lparr>b_cur := b_cur b + n\<rparr>) (sh_alloc s);
          waited = snd (throttle (al_interval a) rsvs);
          a = (if waited then upd_bucket x (\<lambda>b. b\<lparr>b_waited := True\<rparr>) a else a) in
      if 0 < n then (n, s\<lparr>sh_alloc := a\<rparr>) else (n, s))"

text \<open>\<open>release\<close>, called by \<open>Close\<close> and \<open>Reset\<close>.\<close>

definition lim_release :: "nat \<Rightarrow> shaper \<Rightarrow> shaper" where
  "lim_release k s =
     (let st = sh_streams s ! k in
      if ls_released st then s
      else s\<lparr>sh_streams := (sh_streams s)[k := st\<lparr>ls_released := True\<rparr>],
             sh_alloc := upd_bucket (ls_bucket st) (\<lambda>b. b\<lparr>b_refs := b_refs b - 1\<rparr>) (sh_alloc s)\<rparr>)"

section \<open>Assembly\<close>

definition DefaultBandwidth :: rat where "DefaultBandwidth = 134217728"
definition MinBufferSize :: int where "MinBufferSize = 16384"
definition DefaultBufferSize :: int where "DefaultBufferSize = 65536"

record resources =
  rs_ttl :: int
  rs_maxReservations :: int
  rs_maxCircuits :: int
  rs_bufferSize :: int
  rs_perPeer :: int
  rs_perIP :: int
  rs_perASN :: int
  rs_limit :: bool

record relay_config =
  rc_alloc :: "allocator option"
  rc_bandwidth :: rat
  rc_allocOpts :: "al_option list"
  rc_acl :: "whitelist option"
  rc_allowAll :: bool
  rc_resources :: "resources option"

datatype relay_option =
    RO_Allocator allocator | RO_Bandwidth rat | RO_AllocatorOptions "al_option list" | RO_Whitelist "peer_id list"
  | RO_AllowAll | RO_Resources resources

fun apply_relay_option :: "relay_option \<Rightarrow> relay_config \<Rightarrow> relay_config" where
  "apply_relay_option (RO_Allocator a) c = c\<lparr>rc_alloc := Some a\<rparr>"
| "apply_relay_option (RO_Bandwidth b) c = c\<lparr>rc_bandwidth := b\<rparr>"
| "apply_relay_option (RO_AllocatorOptions os) c = c\<lparr>rc_allocOpts := rc_allocOpts c @ os\<rparr>"
| "apply_relay_option (RO_Whitelist ps) c = c\<lparr>rc_acl := Some (NewWhitelist ps)\<rparr>"
| "apply_relay_option RO_AllowAll c = c\<lparr>rc_allowAll := True\<rparr>"
| "apply_relay_option (RO_Resources r) c = c\<lparr>rc_resources := Some r\<rparr>"

definition mergeResources :: "resources \<Rightarrow> resources \<Rightarrow> resources" where
  "mergeResources dst src =
     (let dst = (if 0 < rs_ttl src then dst\<lparr>rs_ttl := rs_ttl src\<rparr> else dst);
          dst = (if 0 < rs_maxReservations src then dst\<lparr>rs_maxReservations := rs_maxReservations src\<rparr> else dst);
          dst = (if 0 < rs_maxCircuits src then dst\<lparr>rs_maxCircuits := rs_maxCircuits src\<rparr> else dst);
          dst = (if 0 < rs_bufferSize src then dst\<lparr>rs_bufferSize := rs_bufferSize src\<rparr> else dst);
          dst = (if 0 < rs_perPeer src then dst\<lparr>rs_perPeer := rs_perPeer src\<rparr> else dst);
          dst = (if 0 < rs_perIP src then dst\<lparr>rs_perIP := rs_perIP src\<rparr> else dst);
          dst = (if 0 < rs_perASN src then dst\<lparr>rs_perASN := rs_perASN src\<rparr> else dst) in
      dst)"

datatype relay_err = Err_No_ACL | Err_Service

text \<open>
  \<open>New\<close>: \<open>defaults\<close> are the resources of the relay library, \<open>svc_ok\<close> whether its constructor succeeds; the
  result is the allocator, whether it is owned, the resources and the filter the service runs with.
\<close>

definition relay_new ::
  "resources \<Rightarrow> bool \<Rightarrow> relay_option list \<Rightarrow> relay_err + allocator \<times> bool \<times> resources \<times> whitelist option" where
  "relay_new defaults svc_ok opts =
     (let c = fold apply_relay_option opts
          \<lparr>rc_alloc = None, rc_bandwidth = DefaultBandwidth, rc_allocOpts = [], rc_acl = None, rc_allowAll = False,
           rc_resources = None\<rparr> in
      if rc_acl c = None \<and> \<not> rc_allowAll c then Inl Err_No_ACL
      else
        let (alloc, own) = (case rc_alloc c of
               Some a \<Rightarrow> (a, False) | None \<Rightarrow> (NewAllocator (rc_bandwidth c) (rc_allocOpts c), True));
            rc = defaults\<lparr>rs_bufferSize := DefaultBufferSize\<rparr>;
            rc = (case rc_resources c of None \<Rightarrow> rc | Some r \<Rightarrow> mergeResources rc r);
            rc = rc\<lparr>rs_limit := False\<rparr>;
            rc = (if rs_bufferSize rc < MinBufferSize then rc\<lparr>rs_bufferSize := MinBufferSize\<rparr> else rc) in
        if \<not> svc_ok then Inl Err_Service else Inr (alloc, own, rc, rc_acl c))"

section \<open>What sharing guarantees\<close>

lemma if_max: "(if x < y then y else x) = max x (y :: rat)"
  by simp

lemma if_min: "(if x < y then x else y) = min x (y :: rat)"
  by simp

lemma fill_step:
  "fill fl demands m (i # idx) remain shares =
   fill fl demands m idx (fl (remain - min (max (demands ! i) m) (fl (remain / of_nat (Suc (length idx))))))
     (shares[i := min (max (demands ! i) m) (fl (remain / of_nat (Suc (length idx))))])"
  by (simp only: fill.simps Let_def if_max if_min)

declare fill.simps(2) [simp del]

lemma average_rest: "r / of_nat (Suc n) * of_nat n = r - r / of_nat (Suc n)" for r :: rat
proof -
  have "r = r / of_nat (Suc n) * of_nat (Suc n)" by (simp del: of_nat_Suc)
  also have "\<dots> = r / of_nat (Suc n) * of_nat n + r / of_nat (Suc n)" by (simp add: distrib_left)
  finally show ?thesis by linarith
qed

lemma average_after:
  fixes r s :: rat
  assumes "s \<le> r / of_nat (Suc n)" and "0 < n"
  shows "r / of_nat (Suc n) \<le> (r - s) / of_nat n"
proof -
  have "r / of_nat (Suc n) * of_nat n \<le> r - s" unfolding average_rest using assms(1) by simp
  then show ?thesis using assms(2) by (simp add: pos_le_divide_eq del: of_nat_Suc)
qed

lemma average_same:
  fixes r :: rat
  assumes "0 < n"
  shows "(r - r / of_nat (Suc n)) / of_nat n = r / of_nat (Suc n)"
  using assms unfolding average_rest[symmetric] by (simp del: of_nat_Suc)

subsection \<open>Under rounding\<close>

context rounding
begin

lemma fl_share:
  assumes "0 \<le> remain" and "is_float remain"
  shows "0 \<le> fl (remain / of_nat (Suc n))" and "fl (remain / of_nat (Suc n)) \<le> remain"
proof -
  show "0 \<le> fl (remain / of_nat (Suc n))" using assms(1) by (intro fl_nonneg) simp
  have "remain / of_nat (Suc n) \<le> remain" using assms(1) by (simp add: field_simps)
  then have "fl (remain / of_nat (Suc n)) \<le> fl remain" by (rule fl_mono)
  then show "fl (remain / of_nat (Suc n)) \<le> remain" using assms(2) by (simp add: is_float_def)
qed

lemma fill_bounds:
  assumes "0 \<le> remain" and "is_float remain" and "0 \<le> minShare"
    and "distinct idx" and "\<forall>i \<in> set idx. i < length shares"
  shows "length (fill fl demands minShare idx remain shares) = length shares \<and>
    (\<forall>j. j \<notin> set idx \<longrightarrow> fill fl demands minShare idx remain shares ! j = shares ! j) \<and>
    (\<forall>i \<in> set idx. 0 \<le> fill fl demands minShare idx remain shares ! i \<and>
       fill fl demands minShare idx remain shares ! i \<le> remain \<and>
       fill fl demands minShare idx remain shares ! i \<le> max (demands ! i) minShare)"
  using assms
proof (induction idx arbitrary: remain shares)
  case (Cons i idx)
  let ?d = "max (demands ! i) minShare"
  let ?s = "min ?d (fl (remain / of_nat (Suc (length idx))))"
  let ?r = "fl (remain - ?s)" and ?sh = "shares[i := ?s]"
  have step: "fill fl demands minShare (i # idx) remain shares = fill fl demands minShare idx ?r ?sh"
    by (rule fill_step)
  have s: "0 \<le> ?s" "?s \<le> remain" "?s \<le> ?d"
    using fl_share[OF Cons.prems(1,2), of "length idx"] Cons.prems(3)
    by (simp_all only: min.cobounded1 min.bounded_iff min.coboundedI2 max.coboundedI2)
  have "?r \<le> fl remain" using s(1) by (intro fl_mono) simp
  then have r: "0 \<le> ?r" "?r \<le> remain" "is_float ?r"
    using s(2) Cons.prems(2) by (auto simp: is_float_def fl_idem intro: fl_nonneg)
  have "\<forall>j \<in> set idx. j < length ?sh" using Cons.prems(5) by simp
  then have IH: "length (fill fl demands minShare idx ?r ?sh) = length shares"
    "\<forall>j. j \<notin> set idx \<longrightarrow> fill fl demands minShare idx ?r ?sh ! j = ?sh ! j"
    "\<forall>j \<in> set idx. 0 \<le> fill fl demands minShare idx ?r ?sh ! j \<and> fill fl demands minShare idx ?r ?sh ! j \<le> ?r \<and>
       fill fl demands minShare idx ?r ?sh ! j \<le> max (demands ! j) minShare"
    using Cons.IH[OF r(1,3) Cons.prems(3), of ?sh] Cons.prems(4) by auto
  have i: "i \<notin> set idx" "i < length shares" using Cons.prems(4,5) by auto
  then have fi: "fill fl demands minShare idx ?r ?sh ! i = ?s" using IH(2) by simp
  have others: "\<forall>j. j \<notin> set (i # idx) \<longrightarrow> fill fl demands minShare idx ?r ?sh ! j = shares ! j"
    using IH(2) by simp
  have "0 \<le> fill fl demands minShare idx ?r ?sh ! j \<and>
      fill fl demands minShare idx ?r ?sh ! j \<le> remain \<and>
      fill fl demands minShare idx ?r ?sh ! j \<le> max (demands ! j) minShare" if "j \<in> set (i # idx)" for j
  proof (cases "j = i")
    case True
    then show ?thesis using s unfolding True fi by blast
  next
    case False
    then have "j \<in> set idx" using that by simp
    then show ?thesis using IH(3) r(2) order_trans by blast
  qed
  then show ?case unfolding step using IH(1) others by blast
qed simp

end

subsection \<open>In exact arithmetic\<close>

abbreviation exact_fill :: "rat list \<Rightarrow> rat \<Rightarrow> nat list \<Rightarrow> rat \<Rightarrow> rat list \<Rightarrow> rat list" where
  "exact_fill \<equiv> fill (\<lambda>x. x)"

definition wanted :: "rat list \<Rightarrow> rat \<Rightarrow> nat \<Rightarrow> rat" where
  "wanted demands minShare i = max (demands ! i) minShare"

declare of_nat_Suc [simp del]

lemma exact_fill_cons:
  "exact_fill demands m (i # idx) remain shares =
   exact_fill demands m idx (remain - min (wanted demands m i) (remain / of_nat (Suc (length idx))))
     (shares[i := min (wanted demands m i) (remain / of_nat (Suc (length idx)))])"
  unfolding wanted_def by (rule fill_step)

lemma exact_fill_frame:
  "j \<notin> set idx \<Longrightarrow> exact_fill demands m idx remain shares ! j = shares ! j"
proof (induction idx arbitrary: remain shares)
  case (Cons i idx)
  then show ?case unfolding exact_fill_cons by simp
qed simp

lemma exact_fill_head:
  "i \<notin> set idx \<Longrightarrow> i < length shares \<Longrightarrow>
   exact_fill demands m (i # idx) remain shares ! i = min (wanted demands m i) (remain / of_nat (Suc (length idx)))"
  unfolding exact_fill_cons by (simp add: exact_fill_frame)

text \<open>Everybody who asks for more than the average gets the average.\<close>

lemma exact_fill_average:
  assumes "distinct idx" "\<forall>i \<in> set idx. i < length shares" "\<forall>i \<in> set idx. remain / of_nat (length idx) \<le> wanted demands m i"
    and "j \<in> set idx"
  shows "exact_fill demands m idx remain shares ! j = remain / of_nat (length idx)"
  using assms
proof (induction idx arbitrary: remain shares)
  case (Cons i idx)
  let ?n = "of_nat (Suc (length idx)) :: rat"
  let ?a = "remain / ?n"
  have a: "min (wanted demands m i) ?a = ?a" using Cons.prems(3) by auto
  show ?case
  proof (cases "j = i")
    case True
    then show ?thesis using Cons.prems a by (subst True, subst exact_fill_head) auto
  next
    case False
    then have j: "j \<in> set idx" using Cons.prems(4) by simp
    then have n: "0 < length idx" by auto
    have avg: "(remain - ?a) / of_nat (length idx) = ?a" by (rule average_same[OF n])
    have "exact_fill demands m idx (remain - ?a) (shares[i := ?a]) ! j = (remain - ?a) / of_nat (length idx)"
      using Cons.prems j by (intro Cons.IH) (simp_all add: avg)
    then show ?thesis unfolding exact_fill_cons a avg by simp
  qed
qed simp

text \<open>Nobody gets less than the smaller of what they want and the average.\<close>

lemma exact_fill_floor:
  assumes "distinct idx" "\<forall>i \<in> set idx. i < length shares" "sorted (map (\<lambda>i. wanted demands m i) idx)" and "j \<in> set idx"
  shows "min (wanted demands m j) (remain / of_nat (length idx)) \<le> exact_fill demands m idx remain shares ! j"
  using assms
proof (induction idx arbitrary: remain shares)
  case (Cons i idx)
  let ?a = "remain / of_nat (Suc (length idx))"
  let ?s = "min (wanted demands m i) ?a"
  show ?case
  proof (cases "j = i")
    case True
    then show ?thesis using Cons.prems by (subst True, subst exact_fill_head) (auto simp: min_def)
  next
    case False
    then have j: "j \<in> set idx" using Cons.prems(4) by simp
    then have n: "0 < length idx" by auto
    have "?a \<le> (remain - ?s) / of_nat (length idx)"
      by (rule average_after[OF _ n]) simp
    then have "min (wanted demands m j) ?a \<le> min (wanted demands m j) ((remain - ?s) / of_nat (length idx))"
      by (intro min.mono) simp_all
    also have "\<dots> \<le> exact_fill demands m idx (remain - ?s) (shares[i := ?s]) ! j"
      using Cons.prems j by (intro Cons.IH) simp_all
    finally show ?thesis unfolding exact_fill_cons by simp
  qed
qed simp

lemma exact_fill_max_min:
  assumes "distinct idx" "\<forall>i \<in> set idx. i < length shares" "sorted (map (\<lambda>i. wanted demands m i) idx)"
    and "j \<in> set idx" "k \<in> set idx" and "exact_fill demands m idx remain shares ! j < wanted demands m j"
  shows "exact_fill demands m idx remain shares ! k \<le> exact_fill demands m idx remain shares ! j"
  using assms
proof (induction idx arbitrary: remain shares)
  case (Cons i idx)
  let ?a = "remain / of_nat (Suc (length idx))"
  let ?s = "min (wanted demands m i) ?a"
  let ?f = "exact_fill demands m (i # idx) remain shares"
  have h: "?f ! i = ?s" using Cons.prems by (intro exact_fill_head) auto
  have rest: "?f ! x = exact_fill demands m idx (remain - ?s) (shares[i := ?s]) ! x" for x
    by (simp only: exact_fill_cons)
  show ?case
  proof (cases "?a < wanted demands m i")
    case True
    then have "\<forall>x \<in> set (i # idx). ?a \<le> wanted demands m x" using Cons.prems(3) by force
    then have "?f ! x = remain / of_nat (length (i # idx))" if "x \<in> set (i # idx)" for x
      using Cons.prems that by (intro exact_fill_average) auto
    then show ?thesis using Cons.prems(4,5) by simp
  next
    case False
    then have si: "?s = wanted demands m i" by simp
    have ji: "j \<noteq> i" using Cons.prems(6) h si by auto
    then have j: "j \<in> set idx" using Cons.prems(4) by simp
    then have n: "0 < length idx" by auto
    show ?thesis
    proof (cases "k = i")
      case True
      have "?a \<le> (remain - ?s) / of_nat (length idx)"
        by (rule average_after[OF _ n]) simp
      then have "?s \<le> (remain - ?s) / of_nat (length idx)" using si False by linarith
      moreover have "?s \<le> wanted demands m j" using Cons.prems(3) j si by auto
      ultimately have "?s \<le> min (wanted demands m j) ((remain - ?s) / of_nat (length idx))" by (rule min.boundedI[rotated])
      also have "\<dots> \<le> ?f ! j"
        unfolding rest using Cons.prems j by (intro exact_fill_floor) simp_all
      finally show ?thesis using True h by simp
    next
      case False
      then have "k \<in> set idx" using Cons.prems(5) by simp
      then show ?thesis unfolding rest using Cons.prems j by (intro Cons.IH) (auto simp: rest)
    qed
  qed
qed simp

lemma exact_fill_total:
  assumes "distinct idx" "\<forall>i \<in> set idx. i < length shares" and "idx \<noteq> []"
  shows "(\<Sum>i \<in> set idx. exact_fill demands m idx remain shares ! i) \<le> remain \<and>
    ((\<exists>j \<in> set idx. exact_fill demands m idx remain shares ! j < wanted demands m j) \<and>
       sorted (map (\<lambda>i. wanted demands m i) idx) \<longrightarrow>
     (\<Sum>i \<in> set idx. exact_fill demands m idx remain shares ! i) = remain)"
  using assms
proof (induction idx arbitrary: remain shares)
  case (Cons i idx)
  let ?a = "remain / of_nat (Suc (length idx))"
  let ?s = "min (wanted demands m i) ?a"
  let ?f = "exact_fill demands m (i # idx) remain shares"
  let ?g = "exact_fill demands m idx (remain - ?s) (shares[i := ?s])"
  have h: "?f ! i = ?s" using Cons.prems by (intro exact_fill_head) auto
  have rest: "?f = ?g" by (rule exact_fill_cons)
  have i: "i \<notin> set idx" using Cons.prems(1) by simp
  have sum: "(\<Sum>x \<in> set (i # idx). ?f ! x) = ?s + (\<Sum>x \<in> set idx. ?g ! x)"
    using i h by (simp add: rest)
  show ?case
  proof (cases "idx = []")
    case True
    then show ?thesis using Cons.prems h by (auto simp: min_def)
  next
    case False
    have IH: "(\<Sum>x \<in> set idx. ?g ! x) \<le> remain - ?s"
      "(\<exists>j \<in> set idx. ?g ! j < wanted demands m j) \<and> sorted (map (\<lambda>i. wanted demands m i) idx) \<Longrightarrow>
       (\<Sum>x \<in> set idx. ?g ! x) = remain - ?s"
      using Cons.IH[of "shares[i := ?s]" "remain - ?s"] Cons.prems(1,2) False by auto
    have "(\<Sum>x \<in> set (i # idx). ?f ! x) = remain"
      if ex: "\<exists>j \<in> set (i # idx). ?f ! j < wanted demands m j" and so: "sorted (map (\<lambda>i. wanted demands m i) (i # idx))"
    proof (cases "?a < wanted demands m i")
      case True
      then have "\<forall>x \<in> set (i # idx). ?a \<le> wanted demands m x" using so by force
      then have av: "?f ! x = ?a" if "x \<in> set (i # idx)" for x
        using exact_fill_average[of "i # idx" shares remain demands m x] Cons.prems that by auto
      obtain y where y: "y \<in> set idx" using False by (cases idx) auto
      have "?g ! y < wanted demands m y" using av[of y] y rest True so by fastforce
      then have "(\<Sum>x \<in> set idx. ?g ! x) = remain - ?s" using y so by (intro IH(2)) auto
      then show ?thesis using sum by simp
    next
      case False
      then have "\<exists>j \<in> set idx. ?g ! j < wanted demands m j" using ex h rest by auto
      then have "(\<Sum>x \<in> set idx. ?g ! x) = remain - ?s" using so by (intro IH(2)) auto
      then show ?thesis using sum by simp
    qed
    then show ?thesis using sum IH(1) by auto
  qed
qed simp


declare of_nat_Suc [simp]


section \<open>A round of the allocator\<close>

lemma upd_bucket_sel [simp]:
  "al_total (upd_bucket x f a) = al_total a" "al_interval (upd_bucket x f a) = al_interval a"
  "al_buckets (upd_bucket x f a) = al_buckets a" "al_minShare (upd_bucket x f a) = al_minShare a"
  "length (al_heap (upd_bucket x f a)) = length (al_heap a)"
  by (simp_all add: upd_bucket_def)

lemma upd_bucket_nth:
  "x < length (al_heap a) \<Longrightarrow> al_heap (upd_bucket x f a) ! y = (if y = x then f (al_heap a ! x) else al_heap a ! y)"
  by (simp add: upd_bucket_def)

lemma set_shares_length [simp]: "length (set_shares xs h) = length h"
  by (induction xs arbitrary: h) (auto simp: set_shares_def)

lemma set_shares_cons: "set_shares ((x, v) # xs) h = set_shares xs (h[x := (h ! x)\<lparr>b_share := v, b_rate := v\<rparr>])"
  by (simp add: set_shares_def)

lemma set_shares_frame: "y \<notin> fst ` set xs \<Longrightarrow> set_shares xs h ! y = h ! y"
proof (induction xs arbitrary: h)
  case (Cons e xs)
  then show ?case by (cases e) (simp add: set_shares_cons)
qed (simp add: set_shares_def)

lemma set_shares_nth:
  "distinct xs \<Longrightarrow> length xs = length vs \<Longrightarrow> \<forall>x \<in> set xs. x < length h \<Longrightarrow> k < length xs \<Longrightarrow>
   set_shares (zip xs vs) h ! (xs ! k) = (h ! (xs ! k))\<lparr>b_share := vs ! k, b_rate := vs ! k\<rparr>"
proof (induction xs arbitrary: vs h k)
  case (Cons x xs)
  obtain v ws where v: "vs = v # ws" using Cons.prems(2) by (cases vs) auto
  show ?case
  proof (cases k)
    case 0
    have "x \<notin> fst ` set (zip xs ws)" using Cons.prems(1) by (auto dest: set_zip_leftD)
    then show ?thesis using 0 v Cons.prems(3) by (simp add: set_shares_cons set_shares_frame)
  next
    case (Suc j)
    then have "xs ! j \<noteq> x" using Cons.prems(1,4) by (auto simp: in_set_conv_nth)
    then show ?thesis using Cons.IH[of ws "h[x := (h ! x)\<lparr>b_share := v, b_rate := v\<rparr>]" j] Cons.prems Suc v
      by (simp add: set_shares_cons)
  qed
qed simp

lemma set_shares_keeps:
  "b_refs (set_shares xs h ! y) = b_refs (h ! y) \<and> b_demand (set_shares xs h ! y) = b_demand (h ! y)"
proof (induction xs arbitrary: h)
  case (Cons e xs)
  obtain x v where e: "e = (x, v)" by (cases e)
  show ?case unfolding e set_shares_cons using Cons.IH[of "h[x := (h ! x)\<lparr>b_share := v, b_rate := v\<rparr>]"]
    by (cases "x < length h"; cases "x = y") (simp_all add: not_less list_update_beyond)
qed (simp add: set_shares_def)

definition sampled :: "allocator \<Rightarrow> bucket list" where
  "sampled a = fold (\<lambda>(p, x) h. h[x := sample_bucket a (h ! x)]) (al_buckets a) (al_heap a)"

definition kept :: "allocator \<Rightarrow> (peer_id \<times> nat) list" where
  "kept a = filter (\<lambda>(p, x). \<not> idle a (sampled a ! x)) (al_buckets a)"

lemma sample_fold:
  "length (fold (\<lambda>(p, x) h. h[x := sample_bucket a (h ! x)]) bs h) = length h \<and>
   b_refs (fold (\<lambda>(p, x) h. h[x := sample_bucket a (h ! x)]) bs h ! y) = b_refs (h ! y)"
proof (induction bs arbitrary: h)
  case (Cons e bs)
  obtain p x where e: "e = (p, x)" by (cases e)
  have "b_refs (h[x := sample_bucket a (h ! x)] ! y) = b_refs (h ! y)"
    by (cases "x < length h"; cases "x = y") (simp_all add: sample_bucket_def Let_def not_less list_update_beyond)
  then show ?case using Cons.IH[of "h[x := sample_bucket a (h ! x)]"] by (simp add: e)
qed simp

lemma recompute_eq:
  "al_buckets a \<noteq> [] \<Longrightarrow> recompute a =
     a\<lparr>al_buckets := kept a,
       al_heap := set_shares (zip (map snd (kept a))
         (progressiveFill (map (\<lambda>(p, x). b_demand (sampled a ! x)) (kept a)) (al_total a) (al_minShare a))) (sampled a)\<rparr>"
  by (simp add: recompute_def sampled_def kept_def Let_def)

definition buckets_ok :: "allocator \<Rightarrow> bool" where
  "buckets_ok a \<longleftrightarrow> distinct (map fst (al_buckets a)) \<and> distinct (map snd (al_buckets a)) \<and>
     (\<forall>(p, x) \<in> set (al_buckets a). x < length (al_heap a))"

lemma recompute_refs:
  "b_refs (al_heap (recompute a) ! y) = b_refs (al_heap a ! y) \<and> length (al_heap (recompute a)) = length (al_heap a) \<and>
   (al_buckets (recompute a) = al_buckets a \<or> al_buckets (recompute a) = kept a)"
proof (cases "al_buckets a = []")
  case True
  then show ?thesis by (simp add: recompute_def)
next
  case False
  then show ?thesis
    using sample_fold[of a "al_buckets a" "al_heap a" y] by (simp add: recompute_eq set_shares_keeps sampled_def[symmetric])
qed

lemma kept_mem: "(p, x) \<in> set (kept a) \<Longrightarrow> (p, x) \<in> set (al_buckets a)"
  by (simp add: kept_def)

lemma kept_if_used: "(p, x) \<in> set (al_buckets a) \<Longrightarrow> b_refs (al_heap a ! x) \<noteq> 0 \<Longrightarrow> (p, x) \<in> set (kept a)"
  using sample_fold[of a "al_buckets a" "al_heap a" x] by (simp add: kept_def idle_def sampled_def)

lemma distinct_kept: "distinct (map f (al_buckets a)) \<Longrightarrow> distinct (map f (kept a))"
  by (simp add: kept_def distinct_map inj_on_def)

lemma recompute_ok: "buckets_ok a \<Longrightarrow> buckets_ok (recompute a)"
  using recompute_refs[of a] distinct_kept[of fst a] distinct_kept[of snd a] kept_mem[of _ _ a]
  by (fastforce simp: buckets_ok_def)

subsection \<open>The shares of a round\<close>

lemma fill_order_perm: "distinct (fill_order ds) \<and> set (fill_order ds) = {..< length ds}"
  by (auto simp: fill_order_def)

lemma progressiveFill_bounds:
  assumes "0 \<le> tot" and "fl64 tot = tot" and "0 \<le> m"
  shows "length (progressiveFill ds tot m) = length ds \<and>
    (\<forall>i < length ds. 0 \<le> progressiveFill ds tot m ! i \<and> progressiveFill ds tot m ! i \<le> tot \<and>
       progressiveFill ds tot m ! i \<le> max (ds ! i) m)"
  using f64.fill_bounds[of tot m "fill_order ds" "replicate (length ds) 0" ds] assms fill_order_perm[of ds]
  by (simp add: progressiveFill_def f64.is_float_def)

text \<open>
  One round of the allocator, in the arithmetic of \<open>float64\<close>. Every peer that keeps its bucket gets a
  share between 0 and the capacity of the relay, and no more than the larger of its demand and the guaranteed
  minimum; the token bucket runs at exactly that rate; a peer whose bucket is reclaimed had no stream.
\<close>

theorem relay_round_bounds:
  assumes "buckets_ok a" and "0 \<le> al_total a" and "fl64 (al_total a) = al_total a" and "0 \<le> al_minShare a"
    and "map_of (al_buckets a) p = Some x" and "a' = recompute a"
  shows "(case map_of (al_buckets a') p of
      None \<Rightarrow> b_refs (al_heap a ! x) = 0 \<and> PeerShare p a' = 0
    | Some y \<Rightarrow> y = x \<and> 0 \<le> PeerShare p a' \<and> PeerShare p a' \<le> al_total a \<and>
        PeerShare p a' \<le> max (PeerDemand p a') (al_minShare a) \<and> b_rate (al_heap a' ! x) = PeerShare p a')"
proof -
  let ?ds = "map (\<lambda>(p, x). b_demand (sampled a ! x)) (kept a)"
  let ?sh = "progressiveFill ?ds (al_total a) (al_minShare a)"
  have px: "(p, x) \<in> set (al_buckets a)" using assms(5) by (rule map_of_SomeD)
  then have a': "a' = a\<lparr>al_buckets := kept a, al_heap := set_shares (zip (map snd (kept a)) ?sh) (sampled a)\<rparr>"
    unfolding assms(6) by (intro recompute_eq) auto
  have len: "length (sampled a) = length (al_heap a)"
    using sample_fold[of a "al_buckets a" "al_heap a"] by (simp add: sampled_def)
  have dk: "distinct (map fst (kept a))" "distinct (map snd (kept a))"
    using assms(1) distinct_kept by (auto simp: buckets_ok_def)
  show ?thesis
  proof (cases "(p, x) \<in> set (kept a)")
    case False
    have d: "distinct (map fst (al_buckets a))" using assms(1) by (simp add: buckets_ok_def)
    have "(p, y) \<notin> set (kept a)" for y
      using False eq_key_imp_eq_value[OF d px, of y] kept_mem[of p y a] by auto
    then have "map_of (kept a) p = None" by (force simp: map_of_eq_None_iff)
    moreover have "b_refs (al_heap a ! x) = 0" using False kept_if_used[OF px] by blast
    ultimately show ?thesis by (simp add: a' PeerShare_def)
  next
    case True
    then obtain k where k: "k < length (kept a)" "kept a ! k = (p, x)" by (auto simp: in_set_conv_nth)
    have look: "map_of (kept a) p = Some x" using True dk(1) by simp
    have b: "length ?sh = length (kept a)" "0 \<le> ?sh ! k" "?sh ! k \<le> al_total a" "?sh ! k \<le> max (?ds ! k) (al_minShare a)"
      using progressiveFill_bounds[OF assms(2-4), of ?ds] k(1) by auto
    have xs: "map snd (kept a) ! k = x" "?ds ! k = b_demand (sampled a ! x)" using k by simp_all
    have "\<forall>y \<in> set (map snd (kept a)). y < length (sampled a)"
      using assms(1) kept_mem len by (fastforce simp: buckets_ok_def)
    then have "set_shares (zip (map snd (kept a)) ?sh) (sampled a) ! x =
        (sampled a ! x)\<lparr>b_share := ?sh ! k, b_rate := ?sh ! k\<rparr>"
      using set_shares_nth[OF dk(2), of ?sh "sampled a" k] b(1) k(1) xs(1) by simp
    then show ?thesis using b look xs(2) by (simp add: a' PeerShare_def PeerDemand_def)
  qed
qed

definition demo_alloc :: allocator where
  "demo_alloc = snd (acquireBucket ''b'' (snd (acquireBucket ''a'' (NewAllocator 1048576 []))))"

lemma fl64_of_power: "fl64 1048576 = 1048576"
proof -
  have q: "quotient_of 1048576 = (1048576, 1)" by code_simp
  have "bitlen 1048576 = 21" "bitlen 1 = 1" by code_simp+
  then have "ilog2 1048576 = 20" by (simp add: ilog2_def q power_int_def)
  then have "ulp_exp 1048576 = - 32" by (simp add: ulp_exp_def)
  moreover have "(1048576 :: rat) / 2 powi (- 32) = of_int (1048576 * 2 ^ 32)"
    by (simp add: power_int_def power_one_over)
  ultimately have "fl_pos 1048576 = of_int (1048576 * 2 ^ 32) * 2 powi (- 32)"
    by (simp only: fl_pos_def Let_def round_even_int)
  then show ?thesis by (simp add: fl64_def power_int_def power_one_over)
qed

lemma demo_alloc_facts:
  "buckets_ok demo_alloc" "al_total demo_alloc = 1048576" "al_minShare demo_alloc = 65536"
  "map_of (al_buckets demo_alloc) ''b'' = Some 1"
  by (simp_all add: demo_alloc_def acquireBucket_def bucketFor_def NewAllocator_def upd_bucket_def Let_def
      DefaultMinShare_def buckets_ok_def)

lemma relay_round_bounds_witness:
  "case map_of (al_buckets (recompute demo_alloc)) ''b'' of
      None \<Rightarrow> b_refs (al_heap demo_alloc ! 1) = 0 \<and> PeerShare ''b'' (recompute demo_alloc) = 0
    | Some y \<Rightarrow> y = 1 \<and> 0 \<le> PeerShare ''b'' (recompute demo_alloc) \<and> PeerShare ''b'' (recompute demo_alloc) \<le> 1048576 \<and>
        PeerShare ''b'' (recompute demo_alloc) \<le> max (PeerDemand ''b'' (recompute demo_alloc)) 65536 \<and>
        b_rate (al_heap (recompute demo_alloc) ! 1) = PeerShare ''b'' (recompute demo_alloc)"
  by (rule relay_round_bounds[OF demo_alloc_facts(1) _ _ _ demo_alloc_facts(4) refl, unfolded demo_alloc_facts(2,3)])
    (simp_all add: fl64_of_power)

text \<open>The comment on \<open>progressiveFill\<close> says every share is at least the minimum; ten peers on a small relay.\<close>

lemma share_below_minimum:
  "exact_fill (replicate 2 100) 64 [0, 1] 100 (replicate 2 0) = [50, 50]"
  by (simp add: fill_step numeral_2_eq_2)

section \<open>Streams and buckets\<close>

datatype sh_op =
    Sh_Open peer_id bool | Sh_Read nat int int "((bool \<times> int) \<times> (bool \<times> int)) list" | Sh_Release nat | Sh_Recompute

fun sh_step :: "sh_op \<Rightarrow> shaper \<Rightarrow> shaper" where
  "sh_step (Sh_Open p failed) s = shaped_wrap p failed s"
| "sh_step (Sh_Read k room got rsvs) s =
     (if k < length (sh_streams s) then snd (lim_read k room got rsvs s) else s)"
| "sh_step (Sh_Release k) s = (if k < length (sh_streams s) then lim_release k s else s)"
| "sh_step Sh_Recompute s = s\<lparr>sh_alloc := recompute (sh_alloc s)\<rparr>"

definition new_shaper :: "rat \<Rightarrow> al_option list \<Rightarrow> shaper" where
  "new_shaper bps opts = \<lparr>sh_alloc = NewAllocator bps opts, sh_streams = []\<rparr>"

definition live_on :: "nat \<Rightarrow> limStream list \<Rightarrow> nat" where
  "live_on x ss = length (filter (\<lambda>st. \<not> ls_released st \<and> ls_bucket st = x) ss)"

definition shaper_inv :: "shaper \<Rightarrow> bool" where
  "shaper_inv s \<longleftrightarrow> buckets_ok (sh_alloc s) \<and>
     (\<forall>x < length (al_heap (sh_alloc s)). b_refs (al_heap (sh_alloc s) ! x) = int (live_on x (sh_streams s))) \<and>
     (\<forall>st \<in> set (sh_streams s). ls_bucket st < length (al_heap (sh_alloc s)) \<and>
        (\<not> ls_released st \<longrightarrow> (ls_peer st, ls_bucket st) \<in> set (al_buckets (sh_alloc s))))"

lemma live_on_simps [simp]:
  "live_on x [] = 0"
  "live_on x (ss @ [st]) = live_on x ss + (if \<not> ls_released st \<and> ls_bucket st = x then 1 else 0)"
  by (simp_all add: live_on_def)

lemma live_on_fresh: "\<forall>st \<in> set ss. ls_bucket st \<noteq> x \<Longrightarrow> live_on x ss = 0"
  by (auto simp: live_on_def filter_empty_conv)

lemma live_on_pos: "st \<in> set ss \<Longrightarrow> \<not> ls_released st \<Longrightarrow> 0 < live_on (ls_bucket st) ss"
  by (auto simp: live_on_def filter_empty_conv)

lemma live_on_release:
  assumes "k < length ss" and "\<not> ls_released (ss ! k)"
  shows "live_on x (ss[k := (ss ! k)\<lparr>ls_released := True\<rparr>]) + (if ls_bucket (ss ! k) = x then 1 else 0) = live_on x ss"
proof -
  have s: "ss = take k ss @ ss ! k # drop (Suc k) ss" using assms(1) by (rule id_take_nth_drop)
  have u: "ss[k := (ss ! k)\<lparr>ls_released := True\<rparr>] = take k ss @ (ss ! k)\<lparr>ls_released := True\<rparr> # drop (Suc k) ss"
    using assms(1) by (rule upd_conv_take_nth_drop)
  show ?thesis unfolding u by (subst (2) s) (simp add: live_on_def assms(2))
qed

lemma bucketFor_ok:
  assumes "buckets_ok a" and "bucketFor p a = (x, a')"
  shows "buckets_ok a' \<and> x < length (al_heap a') \<and> (p, x) \<in> set (al_buckets a') \<and>
    set (al_buckets a) \<subseteq> set (al_buckets a') \<and>
    (\<forall>y < length (al_heap a). y < length (al_heap a') \<and> al_heap a' ! y = al_heap a ! y) \<and>
    (\<forall>y < length (al_heap a'). length (al_heap a) \<le> y \<longrightarrow> b_refs (al_heap a' ! y) = 0)"
proof (cases "map_of (al_buckets a) p")
  case None
  then have "p \<notin> fst ` set (al_buckets a)" by (simp add: map_of_eq_None_iff)
  moreover have "length (al_heap a) \<notin> snd ` set (al_buckets a)" using assms(1) by (auto simp: buckets_ok_def)
  ultimately show ?thesis using assms None
    by (auto simp: bucketFor_def Let_def buckets_ok_def nth_append less_Suc_eq)
next
  case (Some y)
  then have "(p, y) \<in> set (al_buckets a)" by (rule map_of_SomeD)
  then show ?thesis using assms Some by (auto simp: bucketFor_def buckets_ok_def)
qed

lemma shaper_inv_open:
  assumes inv: "shaper_inv s"
  shows "shaper_inv (shaped_wrap p failed s)"
proof (cases failed)
  case False
  let ?a = "sh_alloc s" and ?ss = "sh_streams s"
  obtain x a' where b: "bucketFor p ?a = (x, a')" by fastforce
  let ?a2 = "upd_bucket x (\<lambda>b. b\<lparr>b_refs := b_refs b + 1\<rparr>) a'"
  let ?st = "\<lparr>ls_peer = p, ls_bucket = x, ls_released = False\<rparr>"
  have s': "shaped_wrap p failed s = s\<lparr>sh_alloc := ?a2, sh_streams := ?ss @ [?st]\<rparr>"
    using False b by (simp add: shaped_wrap_def acquireBucket_def)
  have "buckets_ok ?a" using inv by (simp add: shaper_inv_def)
  note f = bucketFor_ok[OF this b]
  have refs: "b_refs (al_heap a' ! y) = int (live_on y ?ss)" if "y < length (al_heap a')" for y
  proof (cases "y < length (al_heap ?a)")
    case True
    then show ?thesis using inv f by (simp add: shaper_inv_def)
  next
    case y: False
    then have "\<forall>st \<in> set ?ss. ls_bucket st \<noteq> y" using inv by (auto simp: shaper_inv_def)
    then show ?thesis using live_on_fresh[of ?ss y] f that y by simp
  qed
  have "buckets_ok ?a2" using f by (simp add: buckets_ok_def)
  moreover have "b_refs (al_heap ?a2 ! y) = int (live_on y (?ss @ [?st]))" if "y < length (al_heap ?a2)" for y
    using refs[of y] that f by (cases "y = x") (auto simp: upd_bucket_nth)
  moreover have "ls_bucket st < length (al_heap ?a2) \<and> (\<not> ls_released st \<longrightarrow> (ls_peer st, ls_bucket st) \<in> set (al_buckets ?a2))"
    if "st \<in> set (?ss @ [?st])" for st
    using that inv f by (auto simp: shaper_inv_def)
  ultimately show ?thesis unfolding s' by (simp add: shaper_inv_def)
qed (use inv in \<open>simp add: shaped_wrap_def\<close>)

text \<open>Changes of a bucket that leave its references alone.\<close>

lemma shaper_inv_upd:
  assumes "shaper_inv s" and "\<And>b. b_refs (f b) = b_refs b"
  shows "shaper_inv (s\<lparr>sh_alloc := upd_bucket x f (sh_alloc s)\<rparr>)"
proof -
  have "b_refs (al_heap (upd_bucket x f a) ! y) = b_refs (al_heap a ! y)" for a y
    by (cases "x < length (al_heap a)"; cases "y = x")
      (simp_all add: upd_bucket_def assms(2) not_less list_update_beyond)
  then show ?thesis using assms(1) by (simp add: shaper_inv_def buckets_ok_def)
qed

lemma shaper_inv_read: "shaper_inv s \<Longrightarrow> shaper_inv (snd (lim_read k room got rsvs s))"
  using shaper_inv_upd[of s "\<lambda>b. b\<lparr>b_cur := b_cur b + m\<rparr>" x for m x]
    shaper_inv_upd[of "s\<lparr>sh_alloc := a\<rparr>" "\<lambda>b. b\<lparr>b_waited := True\<rparr>" x for a x]
  by (auto simp: lim_read_def Let_def)

lemma shaper_inv_release:
  assumes inv: "shaper_inv s" and k: "k < length (sh_streams s)"
  shows "shaper_inv (lim_release k s)"
proof (cases "ls_released (sh_streams s ! k)")
  case False
  let ?ss = "sh_streams s" and ?st = "sh_streams s ! k"
  let ?ss' = "?ss[k := ?st\<lparr>ls_released := True\<rparr>]"
  let ?a' = "upd_bucket (ls_bucket ?st) (\<lambda>b. b\<lparr>b_refs := b_refs b - 1\<rparr>) (sh_alloc s)"
  have s': "lim_release k s = s\<lparr>sh_streams := ?ss', sh_alloc := ?a'\<rparr>" using False by (simp add: lim_release_def Let_def)
  have mem: "?st \<in> set ?ss" using k by simp
  then have x: "ls_bucket ?st < length (al_heap (sh_alloc s))" using inv by (simp add: shaper_inv_def)
  have "b_refs (al_heap ?a' ! y) = int (live_on y ?ss')" if "y < length (al_heap ?a')" for y
    using inv that x live_on_release[OF k False, of y] by (auto simp: shaper_inv_def upd_bucket_nth split: if_splits)
  moreover have "ls_bucket st < length (al_heap ?a') \<and> (\<not> ls_released st \<longrightarrow> (ls_peer st, ls_bucket st) \<in> set (al_buckets ?a'))"
    if "st \<in> set ?ss'" for st
    using set_update_subset_insert[of ?ss k "?st\<lparr>ls_released := True\<rparr>"] that inv x by (auto simp: shaper_inv_def)
  ultimately show ?thesis unfolding s' using inv by (simp add: shaper_inv_def buckets_ok_def)
qed (use inv in \<open>simp add: lim_release_def Let_def\<close>)

lemma shaper_inv_recompute:
  assumes inv: "shaper_inv s"
  shows "shaper_inv (s\<lparr>sh_alloc := recompute (sh_alloc s)\<rparr>)"
proof -
  let ?a = "sh_alloc s"
  have "(ls_peer st, ls_bucket st) \<in> set (al_buckets (recompute ?a))"
    if "st \<in> set (sh_streams s)" "\<not> ls_released st" for st
  proof -
    have m: "(ls_peer st, ls_bucket st) \<in> set (al_buckets ?a)" "ls_bucket st < length (al_heap ?a)"
      using inv that by (auto simp: shaper_inv_def)
    have "b_refs (al_heap ?a ! ls_bucket st) \<noteq> 0"
      using inv m(2) live_on_pos[OF that] by (simp add: shaper_inv_def)
    then show ?thesis using recompute_refs[of ?a 0] kept_if_used[OF m(1)] m(1) by auto
  qed
  then show ?thesis using inv recompute_refs[of ?a] recompute_ok[of ?a] by (simp add: shaper_inv_def)
qed

lemma shaper_inv_step: "shaper_inv s \<Longrightarrow> shaper_inv (sh_step op s)"
  by (cases op) (auto intro: shaper_inv_open shaper_inv_read shaper_inv_release shaper_inv_recompute)

lemma apply_options_empty:
  "al_buckets (fold apply_option opts a) = al_buckets a \<and> al_heap (fold apply_option opts a) = al_heap a"
proof (induction opts arbitrary: a)
  case (Cons o1 opts)
  then show ?case by (cases o1) (simp_all add: Let_def)
qed simp

lemma shaper_inv_new: "shaper_inv (new_shaper bps opts)"
  using apply_options_empty
  by (simp add: shaper_inv_def new_shaper_def NewAllocator_def Let_def buckets_ok_def)

lemma shaper_inv_run: "shaper_inv (fold sh_step ops (new_shaper bps opts))"
proof (induction ops rule: rev_induct)
  case Nil
  then show ?case by (simp add: shaper_inv_new)
next
  case (snoc op ops)
  then show ?case by (simp add: shaper_inv_step)
qed

text \<open>
  One token bucket per peer, as long as the peer has a stream. After any sequence of opened streams, reads,
  closes and rounds of the allocator, two open streams of the same peer draw on the same bucket, it is the one
  the allocator knows for that peer, so a round never reclaims a bucket in use, and its reference count is the
  number of its open streams.
\<close>

theorem relay_bucket_shared:
  assumes "s = fold sh_step ops (new_shaper bps opts)"
    and "st \<in> set (sh_streams s)" and "\<not> ls_released st"
    and "st' \<in> set (sh_streams s)" and "\<not> ls_released st'" and "ls_peer st' = ls_peer st"
  shows "ls_bucket st' = ls_bucket st \<and> map_of (al_buckets (sh_alloc s)) (ls_peer st) = Some (ls_bucket st) \<and>
    b_refs (al_heap (sh_alloc s) ! ls_bucket st) = int (live_on (ls_bucket st) (sh_streams s)) \<and>
    map_of (al_buckets (recompute (sh_alloc s))) (ls_peer st) = Some (ls_bucket st)"
proof -
  have inv: "shaper_inv s" using assms(1) shaper_inv_run by simp
  have inv': "shaper_inv (s\<lparr>sh_alloc := recompute (sh_alloc s)\<rparr>)" by (rule shaper_inv_recompute[OF inv])
  have look: "map_of (al_buckets (sh_alloc u)) (ls_peer t) = Some (ls_bucket t)"
    if "shaper_inv u" "t \<in> set (sh_streams u)" "\<not> ls_released t" for u t
    using that by (auto simp: shaper_inv_def buckets_ok_def)
  have "map_of (al_buckets (recompute (sh_alloc s))) (ls_peer st) = Some (ls_bucket st)"
    using look[OF inv', of st] assms(2,3) by simp
  moreover have "b_refs (al_heap (sh_alloc s) ! ls_bucket st) = int (live_on (ls_bucket st) (sh_streams s))"
    using inv assms(2) by (simp add: shaper_inv_def)
  ultimately show ?thesis using look[OF inv assms(2,3)] look[OF inv assms(4,5)] assms(6) by simp
qed

lemma relay_bucket_shared_witness:
  "map_of (al_buckets (recompute (sh_alloc (fold sh_step [Sh_Open ''a'' False, Sh_Recompute] (new_shaper 1048576 []))))) ''a'' = Some 0"
proof -
  have e: "sh_streams (fold sh_step [Sh_Open ''a'' False, Sh_Recompute] (new_shaper 1048576 [])) =
      [\<lparr>ls_peer = ''a'', ls_bucket = 0, ls_released = False\<rparr>]"
    by (simp add: new_shaper_def shaped_wrap_def acquireBucket_def bucketFor_def NewAllocator_def Let_def)
  show ?thesis
    using relay_bucket_shared[OF refl, of "\<lparr>ls_peer = ''a'', ls_bucket = 0, ls_released = False\<rparr>"
        "[Sh_Open ''a'' False, Sh_Recompute]" 1048576 "[]" "\<lparr>ls_peer = ''a'', ls_bucket = 0, ls_released = False\<rparr>"] e
    by simp
qed

section \<open>The assembled relay\<close>

datatype wl_op = Wl_Add peer_id | Wl_Remove peer_id

fun wl_step :: "wl_op \<Rightarrow> whitelist \<Rightarrow> whitelist" where
  "wl_step (Wl_Add p) w = wl_add p w"
| "wl_step (Wl_Remove p) w = wl_remove p w"

lemma wl_run_members:
  "p \<in> set (fold wl_step ops w) \<Longrightarrow> p \<in> set w \<or> Wl_Add p \<in> set ops"
proof (induction ops arbitrary: w)
  case (Cons op ops)
  then show ?case by (cases op) (fastforce simp: wl_add_def wl_remove_def)+
qed simp

lemma NewWhitelist_set: "set (NewWhitelist ps) = set ps"
  by (simp add: NewWhitelist_def fold_union_pair) (induction ps rule: rev_induct; simp)

definition alloc_config_ok :: "allocator \<Rightarrow> bool" where
  "alloc_config_ok a \<longleftrightarrow> 100 * millisecond \<le> al_interval a \<and> al_interval a \<le> 500 * millisecond \<and>
     maxChunk \<le> al_burst a \<and> 0 < al_minShare a"

lemma apply_option_ok: "alloc_config_ok a \<Longrightarrow> alloc_config_ok (apply_option o1 a)"
  by (cases o1) (auto simp: alloc_config_ok_def Let_def millisecond_def)

lemma apply_options_ok: "alloc_config_ok a \<Longrightarrow> alloc_config_ok (fold apply_option opts a)"
  by (induction opts arbitrary: a) (simp_all add: apply_option_ok)

lemma NewAllocator_ok: "alloc_config_ok (NewAllocator bps opts) \<and> 0 < al_total (NewAllocator bps opts)"
proof -
  have "alloc_config_ok \<lparr>al_total = bps, al_interval = DefaultRecomputeInterval, al_burst = DefaultBurst,
      al_minShare = DefaultMinShare, al_global = 0, al_buckets = [], al_heap = [], al_stopped = False\<rparr>"
    by (simp add: alloc_config_ok_def DefaultRecomputeInterval_def DefaultBurst_def DefaultMinShare_def maxChunk_def
        millisecond_def)
  from apply_options_ok[OF this, of opts] show ?thesis
    by (simp add: NewAllocator_def Let_def alloc_config_ok_def)
qed

lemma relay_options_acl:
  "rc_allowAll (fold apply_relay_option opts c) \<Longrightarrow> rc_allowAll c \<or> RO_AllowAll \<in> set opts"
proof (induction opts arbitrary: c)
  case (Cons o1 opts)
  then show ?case by (cases o1) fastforce+
qed simp

lemma relay_options_filter:
  "rc_acl (fold apply_relay_option opts c) = Some w \<Longrightarrow>
   rc_acl c = Some w \<or> (\<exists>ps. RO_Whitelist ps \<in> set opts \<and> w = NewWhitelist ps)"
proof (induction opts arbitrary: c)
  case (Cons o1 opts)
  then show ?case by (cases o1) fastforce+
qed simp

text \<open>
  The relay is closed by default. A relay that is assembled has a filter unless \<open>WithAllowAll\<close> was given;
  it runs without a per-circuit limit and with a buffer of at least 16 KiB; the allocator it makes for itself
  has a positive capacity, a period between 100 and 500 ms and a burst that no single read exceeds. With a
  filter, a peer that is neither on the list at the start nor added later can neither reserve nor be an end of
  a circuit, whatever was added and removed in between.
\<close>

theorem relay_fail_closed:
  assumes "relay_new defaults svc_ok opts = Inr (alloc, own, rc, acl)"
  shows "(acl = None \<longrightarrow> RO_AllowAll \<in> set opts) \<and> \<not> rs_limit rc \<and> MinBufferSize \<le> rs_bufferSize rc \<and>
    (own \<longrightarrow> 0 < al_total alloc \<and> alloc_config_ok alloc) \<and>
    (\<forall>w p q ops. acl = Some w \<and> (\<forall>ps. RO_Whitelist ps \<in> set opts \<longrightarrow> p \<notin> set ps) \<and> Wl_Add p \<notin> set ops \<longrightarrow>
       \<not> AllowReserve (fold wl_step ops w) p \<and> \<not> AllowConnect (fold wl_step ops w) p q \<and>
       \<not> AllowConnect (fold wl_step ops w) q p)"
proof -
  let ?c0 = "\<lparr>rc_alloc = None, rc_bandwidth = DefaultBandwidth, rc_allocOpts = [], rc_acl = None, rc_allowAll = False,
           rc_resources = None\<rparr>"
  let ?c = "fold apply_relay_option opts ?c0"
  have acl: "rc_acl ?c = acl" "acl \<noteq> None \<or> rc_allowAll ?c"
    and rc: "\<not> rs_limit rc" "MinBufferSize \<le> rs_bufferSize rc"
    and al: "own \<longrightarrow> alloc = NewAllocator (rc_bandwidth ?c) (rc_allocOpts ?c)"
    using assms by (auto simp: relay_new_def Let_def split: if_splits option.splits)
  have open_relay: "acl = None \<longrightarrow> RO_AllowAll \<in> set opts"
  proof
    assume "acl = None"
    then have "rc_allowAll ?c" using acl(2) by simp
    from relay_options_acl[OF this] show "RO_AllowAll \<in> set opts" by simp
  qed
  have member: "p \<notin> set (fold wl_step ops w)"
    if "acl = Some w" "\<forall>ps. RO_Whitelist ps \<in> set opts \<longrightarrow> p \<notin> set ps" "Wl_Add p \<notin> set ops" for w p ops
  proof
    assume "p \<in> set (fold wl_step ops w)"
    then have "p \<in> set w" using wl_run_members that(3) by blast
    moreover have "rc_acl ?c = Some w" using acl(1) that(1) by simp
    from relay_options_filter[OF this] have "\<exists>ps. RO_Whitelist ps \<in> set opts \<and> w = NewWhitelist ps" by simp
    ultimately show False using that(2) NewWhitelist_set by auto
  qed
  show ?thesis using open_relay rc al NewAllocator_ok member
    by (auto simp: AllowReserve_def AllowConnect_def wl_contains_def)
qed

definition demo_resources :: resources where
  "demo_resources = \<lparr>rs_ttl = 3600, rs_maxReservations = 128, rs_maxCircuits = 16, rs_bufferSize = 2048, rs_perPeer = 4,
     rs_perIP = 8, rs_perASN = 32, rs_limit = True\<rparr>"

lemma relay_fail_closed_witness:
  "(\<exists>alloc own rc. relay_new demo_resources True [RO_Whitelist [''a'']] = Inr (alloc, own, rc, Some [''a''])) \<and>
   \<not> AllowReserve (fold wl_step [Wl_Add ''b'', Wl_Remove ''b''] [''a'']) ''c''"
proof -
  have "\<exists>alloc own rc. relay_new demo_resources True [RO_Whitelist [''a'']] = Inr (alloc, own, rc, Some [''a''])"
    by (auto simp: relay_new_def Let_def NewWhitelist_def)
  then obtain alloc own rc where r: "relay_new demo_resources True [RO_Whitelist [''a'']] = Inr (alloc, own, rc, Some [''a''])"
    by blast
  note f = relay_fail_closed[OF r, THEN conjunct2, THEN conjunct2, THEN conjunct2, THEN conjunct2, rule_format,
      of "[''a'']" "''c''" "[Wl_Add ''b'', Wl_Remove ''b'']"]
  show ?thesis using f r by (intro conjI) auto
qed

end
