(* ===== verification/Spec2Isabelle.thy ===== *)
theory Spec2Isabelle
  imports Stream_Limits Tunnel_Upstream Observe Add_Path Relay_Path_Run Tunnel_Client_Props Tunnel_Proxy Tunnel_Session Path_Ident Cli_Run Relay_Alloc
begin

text \<open>
  A verification library of \<open>netacc\<close>, a Go library that spreads one reliable byte stream over several
  libp2p paths. All paths below are relative to \<open>src/\<close>.

  \<^bold>\<open>The program.\<close> An \<open>Aggregator\<close> (\<open>aggregator.go\<close>) sits on a libp2p host. \<open>OpenStream\<close> dials a peer, runs
  the handshake of \<open>handshake.go\<close> and yields a \<open>Stream\<close> (\<open>stream.go\<close>); the peer gets its end from \<open>Accept\<close>.
  Further paths are added to a stream by dialling (\<open>path.go\<close>), through a relay the peer reserves
  (\<open>relaypath.go\<close>), or by a policy (\<open>policy.go\<close>). What is written to a stream is cut into DATA frames
  (\<open>frame.go\<close>), each sent on the path the scheduler picks (\<open>scheduler.go\<close>); the other end puts them back in
  order (\<open>reorder.go\<close>) and answers with cumulative ACKs, SACK ranges and a window. Frames of a path that dies,
  or that lets its peer wait, are sent again on another one. \<open>stats.go\<close> lets an application look on. On top of
  streams there are tunnels: raw port forwarding, HTTP requests and WebSockets (\<open>internal/tunnelwire/\<close>,
  \<open>tunnelclient.go\<close>, \<open>tunnelws.go\<close>, \<open>tunnel/\<close>); beside them a relay with bandwidth shares (\<open>relay/\<close>) and a
  command line (\<open>cmd/netacc/main.go\<close>).

  \<^bold>\<open>How it is modelled.\<close> Structs are records, enumerations datatypes, \<open>uint64\<close> is \<open>64 word\<close> with its wrap-around,
  \<open>int\<close> is \<open>int\<close> with \<open>wrap64\<close> where it can overflow, \<open>float64\<close> is a real rounded by \<open>fl64\<close>, a Go string is a
  byte list, a duration an integer of nanoseconds. A critical section under a mutex, or a pass of a loop between
  two blocking points, is one function of the state; what it does to the outside (frames, closes, goroutines,
  events) is a value it returns or appends to a trace. Errors are values of a sum or option type, a panic is
  \<open>Inl\<close> of \<open>go_panic\<close>. Concurrency is interleaving: a component has a datatype of its operations and a step
  function, and what holds \<^emph>\<open>in every run\<close> is proved by rule induction over any sequence of them, with any
  clock readings and any outcome of writes, which are arguments. Code that is not in the repository is an
  argument of the definitions that call it.
\<close>

section \<open>The theories\<close>

text \<open>
  \<^bold>\<open>Language.\<close>
  \<^item> \<open>Go_Prelude\<close>: words, wrap-around and truncated division, slices that panic, \<open>time.Time\<close> and its saturating
    difference. \<open>Go_Strings\<close>: UTF-8, \<open>strings\<close> and \<open>http.Header\<close> with its canonical names. \<open>Float64\<close>: rounding to
    nearest even, as a locale \<open>rounding\<close> interpreted for \<open>fl64\<close>. \<open>Go_Heap\<close>: \<open>container/heap\<close>, and the locale
    \<open>min_queue\<close> of what its client relies on.

  \<^bold>\<open>The data plane.\<close>
  \<^item> \<open>Sack\<close>: byte ranges (\<open>normalizeRanges\<close>, \<open>firstHole\<close>, \<open>coveredBy\<close>) against the sets they cover.
  \<^item> \<open>Frame\<close> (\<open>frame.go\<close>): varints, the encoders, the reader \<open>read_frame\<close>, \<open>validate_ack\<close>. Any sequence of frames
    is read back as written; on arbitrary bytes the reader ends, within the limits.
  \<^item> \<open>Reorder\<close> (\<open>reorder.go\<close>): \<open>rbuf\<close> with \<open>rb_add\<close>, \<open>rb_drain\<close>, \<open>rb_read\<close>, \<open>rb_setCap\<close>, \<open>rb_ranges\<close>; the heap is
    \<open>min_queue\<close> interpreted on segments. It delivers a prefix of the peer's stream, refines the set of received
    offsets, always takes the frame that fills the gap, and panics exactly when frames are nested.
  \<^item> \<open>Path\<close> (\<open>path.go\<close>, \<open>scheduler.go\<close>): \<open>path\<close> and its metrics (\<open>noteRTT\<close>, \<open>creditDelivered\<close>, \<open>effRate\<close>,
    \<open>inflightCap\<close>), the choices \<open>pickData\<close> and \<open>pickAck\<close>; the contract of a scheduler is the locale
    \<open>path_scheduler\<close>, interpreted for the minimal drain time. The choice does not depend on the order of paths.
  \<^item> \<open>Segments\<close>: the retransmission buffer of \<open>stream.go\<close>, from \<open>nextResendLocked\<close> to \<open>freeAckedLocked\<close>, against
    the bytes it tiles and the accounts of the paths.
  \<^item> \<open>Stream\<close> (\<open>stream.go\<close>): the record \<open>stream\<close> and every operation on it, with \<open>st_out\<close> the trace of effects and
    the channels \<open>ackCh\<close>, \<open>sendWake\<close> as flags. \<open>Stream_Inv\<close>: the invariant of the send side and its preservation.
    \<open>Stream_Run\<close>: worlds (a stream with what was written, read and granted), operations \<open>sop\<close> and the relation
    \<open>reach\<close>. \<open>Stream_Props\<close>: what holds in every run, and of single operations.
  \<^item> \<open>Stream_Pair\<close>: two ends of a stream (\<open>pair_reach\<close>), each running any operations, where a message written by one
    may reach the other at any later time, out of order, again, or never. They deliver exactly and never hurt each other.
  \<^item> \<open>Stream_Wait\<close>: calls of \<open>Read\<close> and \<open>Write\<close> that wait (\<open>wait\<close>, the channels and \<open>broadcastLocked\<close>, the deadlines),
    any number at once, interleaved with the stream (\<open>conn_step\<close>, \<open>conn_reach\<close>). \<open>Stream_Wait_Props\<close>: no lost wake-up, no
    missed and no early timeout. \<open>Stream_Limits\<close>: where a changing capacity contradicts the comments.
  \<^item> \<open>Observe\<close> (\<open>stats.go\<close>): \<open>Stats\<close> and the event subscriptions.

  \<^bold>\<open>Streams and paths of an aggregator.\<close>
  \<^item> \<open>Handshake\<close> (\<open>handshake.go\<close>): both sides, the text of a rejection, credentials, the watcher that resets a stream
    whose context ends.
  \<^item> \<open>Policy\<close> (\<open>transport.go\<close>, \<open>policy.go\<close>): transports of addresses, snapshots, the built-in policy, what the
    executor lets a policy do, with runs of the goroutines involved (\<open>pol_reach\<close>).
  \<^item> \<open>Aggregator\<close> (\<open>aggregator.go\<close>, \<open>path.go\<close>): options, routing table, the handlers of both protocols.
    \<open>Aggregator_Run\<close>: their interleaving with the life of the streams. \<open>Add_Path\<close>: dialling, \<open>attachMinPaths\<close>
    (a \<open>partial_function\<close>, with a proof that it returns) and \<open>OpenStream\<close> as a whole. \<open>Path_Ident\<close>: what a path
    says of its connection, the addresses of a stream, the frame that binds a path.
  \<^item> \<open>Relay_Path\<close>, \<open>Relay_Path_Run\<close> (\<open>relaypath.go\<close>): requests, reservations and replies, and both sides together.
  \<^item> \<open>Relay_Alloc\<close> (\<open>relay/\<close>): whitelist, progressive filling, shaped streams, assembly of the service.

  \<^bold>\<open>Tunnels and command line.\<close>
  \<^item> \<open>Tunnel_Wire\<close>, \<open>Tunnel_Headers\<close> (\<open>internal/tunnelwire/\<close>): frames, messages, header fields, graceful close.
    \<open>Tunnel_Session\<close>: its reader of single bytes.
  \<^item> \<open>Tunnel_Reader\<close>: the locale \<open>byte_reader\<close> of a body that comes in frames, interpreted for the request body
    (\<open>Tunnel_Http\<close>, \<open>Tunnel_Http_Props\<close>: \<open>tunnel/http.go\<close>) and for the response body (\<open>Tunnel_Client\<close>,
    \<open>Tunnel_Client_Props\<close>: \<open>tunnelclient.go\<close>, where both sides are composed).
  \<^item> \<open>Tunnel_WS\<close> (\<open>tunnelws.go\<close>): the WebSocket endpoint as a state machine. \<open>Tunnel_Proxy\<close> (\<open>tunnel/ws.go\<close>): its
    proxy. \<open>Tunnel_Server\<close>, \<open>Tunnel_Server_Props\<close> (\<open>tunnel/server.go\<close>): sniffing, the race with the upstream, the
    dispatch of sessions. \<open>Tunnel_Upstream\<close>: the goroutines of \<open>serveWithUpstream\<close> one by one; they implement that race,
    always end, and leave no connection open. \<open>Tunnel_Link\<close> (\<open>tunnel/tunnel.go\<close>, \<open>tunnel/client.go\<close>): bridge, connections, shutdown.
  \<^item> \<open>Cli\<close> (\<open>cmd/netacc/main.go\<close>): allow rules, options, identity file. \<open>Cli_Run\<close>: the two commands with what they open and close,
    and the echo handler.

  A theory whose name ends in \<open>_Props\<close> or \<open>_Run\<close> states what the definitions of the theory before it guarantee.
\<close>

section \<open>Bounds, fuel and hypotheses\<close>

text \<open>
  Loops of the code are functions with a measure: the segments left (\<open>rb_drain\<close>), the bytes left (\<open>write_loop\<close>,
  the tunnel frames), the paths left (\<open>drop_path\<close>, \<open>send_ack\<close>, \<open>writeCtrl\<close>), the buckets left (\<open>fill\<close>). Where
  the code may go on for ever the model has no fuel: the loop over \<open>trySend\<close> is run with a list of clock
  readings and shown to stop within \<open>send_budget\<close> of them, \<open>attachMinPaths\<close> is a \<open>partial_function\<close> and shown to
  return. What runs assume of their environment is named: \<open>sop_ok\<close> (a stream carries less than \<open>2^63\<close> bytes and
  grants less than \<open>2^63\<close> ids, frames of the peer agree with one stream of bytes, decoded ranges are not empty),
  \<open>stairs\<close> (frames are not nested), \<open>end_ok\<close> (of two ends: the bounds of \<open>sop_ok\<close> and that what arrives was written; that
  the frames agree is proved there, not assumed), \<open>conn_ok\<close> (\<open>sop_ok\<close>, and deadlines are set by the three methods), \<open>agg_enabled\<close>, \<open>rl_ok\<close>, \<open>pol_enabled\<close>.
\<close>

section \<open>Not modelled\<close>

text \<open>
  \<^item> Code that is not in the repository is a parameter: the protobuf and JSON codecs, go-msgio, libp2p hosts, dialling and
    circuit relay, multiaddresses, \<open>x/time/rate\<close>, gorilla/websocket, \<open>net/http\<close> outside of \<open>http.Header\<close>,
    \<open>net/url\<close>. The generated \<open>internal/pb/agg.pb.go\<close> is such a codec.
  \<^item> Goroutines are interleaved at their critical sections; the scheduler of Go, memory order and the cancellation
    of contexts are not modelled.
  \<^item> Printing, the flag package, signals and what libp2p does with its options in \<open>cmd/netacc/main.go\<close>; the examples; the TypeScript client and the
    Go servers of its tests under \<open>js/\<close>.
\<close>

end
